(* ===== verification/Prelude.thy ===== *)
theory Prelude
  imports Main "HOL-Library.Word"
begin

text \<open>
  Shared vocabulary of the development: the machine integers of the kernel and of easy-fs
  (\<open>usize\<close>, \<open>u64\<close>, \<open>u32\<close>, \<open>u8\<close> as words of their width, so that \<open>+\<close> and \<open>-\<close>
  wrap as they do in the release build the Makefile produces), panics as values of a sum type with
  a sequencing operator, indexing of a \<open>Vec\<close> as a panicking operation, \<open>Vec::pop\<close>,
  \<open>VecDeque::pop_front\<close> and \<open>iter().position()\<close>, and the generic facts about them that the
  component theories use.
\<close>

unbundle bit_operations_syntax

type_synonym usize = "64 word"
type_synonym isize = "64 word"
type_synonym u64 = "64 word"
type_synonym u32 = "32 word"
type_synonym u8 = "8 word"

named_theorems vec_simps \<open>facts about the Rust collections of the model\<close>
named_theorems panic_simps \<open>when a panicking computation succeeds\<close>

section \<open>Panics\<close>

text \<open>
  \<open>LockHeld\<close> is a spin lock taken by the thread that holds it: the code then spins for ever, and the model
  treats it as one more way of not returning.
\<close>

datatype panic =
    UnwrapNone
  | AssertFailed
  | IndexOutOfBounds
  | ExplicitPanic
  | LockHeld

type_synonym 'a outcome = "panic + 'a"

definition and_then :: "'a outcome \<Rightarrow> ('a \<Rightarrow> 'b outcome) \<Rightarrow> 'b outcome" where
  "and_then m f = (case m of Inl e \<Rightarrow> Inl e | Inr x \<Rightarrow> f x)"

definition assert_that :: "bool \<Rightarrow> unit outcome" where
  "assert_that b = (if b then Inr () else Inl AssertFailed)"

definition unwrap :: "'a option \<Rightarrow> 'a outcome" where
  "unwrap x = (case x of None \<Rightarrow> Inl UnwrapNone | Some v \<Rightarrow> Inr v)"

lemma and_then_Inl [simp]: "and_then (Inl e) f = Inl e"
  by (simp add: and_then_def)

lemma and_then_Inr [simp]: "and_then (Inr x) f = f x"
  by (simp add: and_then_def)

lemma and_then_eq_Inr [panic_simps]:
  "and_then m f = Inr y \<longleftrightarrow> (\<exists>x. m = Inr x \<and> f x = Inr y)"
  by (cases m) auto

lemma and_then_eq_Inl [panic_simps]:
  "and_then m f = Inl e \<longleftrightarrow> m = Inl e \<or> (\<exists>x. m = Inr x \<and> f x = Inl e)"
  by (cases m) auto

lemma and_then_assoc: "and_then (and_then m f) g = and_then m (\<lambda>x. and_then (f x) g)"
  by (cases m) auto

lemma and_then_cong [fundef_cong]:
  "m = m' \<Longrightarrow> (\<And>x. m' = Inr x \<Longrightarrow> f x = f' x) \<Longrightarrow> and_then m f = and_then m' f'"
  by (cases m') auto

lemma assert_that_True [simp]: "assert_that True = Inr ()"
  by (simp add: assert_that_def)

lemma assert_that_False [simp]: "assert_that False = Inl AssertFailed"
  by (simp add: assert_that_def)

lemma assert_that_eq_Inr [panic_simps]: "assert_that b = Inr u \<longleftrightarrow> b"
  by (cases b) auto

lemma unwrap_Some [simp]: "unwrap (Some x) = Inr x"
  by (simp add: unwrap_def)

lemma unwrap_None [simp]: "unwrap None = Inl UnwrapNone"
  by (simp add: unwrap_def)

lemma unwrap_eq_Inr [panic_simps]: "unwrap x = Inr v \<longleftrightarrow> x = Some v"
  by (cases x) auto

section \<open>Vectors and queues\<close>

definition vec_index :: "'a list \<Rightarrow> usize \<Rightarrow> 'a outcome" where
  "vec_index xs i = (if unat i < length xs then Inr (xs ! unat i) else Inl IndexOutOfBounds)"

definition vec_update :: "'a list \<Rightarrow> usize \<Rightarrow> 'a \<Rightarrow> 'a list outcome" where
  "vec_update xs i v = (if unat i < length xs then Inr (xs[unat i := v]) else Inl IndexOutOfBounds)"

definition vec_pop :: "'a list \<Rightarrow> ('a \<times> 'a list) option" where
  "vec_pop xs = (if xs = [] then None else Some (last xs, butlast xs))"

definition pop_front :: "'a list \<Rightarrow> ('a \<times> 'a list) option" where
  "pop_front xs = (case xs of [] \<Rightarrow> None | x # ys \<Rightarrow> Some (x, ys))"

definition position :: "('a \<Rightarrow> bool) \<Rightarrow> 'a list \<Rightarrow> nat option" where
  "position P xs = find (\<lambda>i. P (xs ! i)) [0..<length xs]"

definition remove_at :: "nat \<Rightarrow> 'a list \<Rightarrow> 'a list" where
  "remove_at i xs = take i xs @ drop (Suc i) xs"

lemma vec_index_eq_Inr [panic_simps]:
  "vec_index xs i = Inr v \<longleftrightarrow> unat i < length xs \<and> v = xs ! unat i"
  by (auto simp: vec_index_def)

lemma vec_index_ok [simp]: "unat i < length xs \<Longrightarrow> vec_index xs i = Inr (xs ! unat i)"
  by (simp add: vec_index_def)

lemma vec_update_eq_Inr [panic_simps]:
  "vec_update xs i v = Inr ys \<longleftrightarrow> unat i < length xs \<and> ys = xs[unat i := v]"
  by (auto simp: vec_update_def)

lemma vec_update_ok [simp]: "unat i < length xs \<Longrightarrow> vec_update xs i v = Inr (xs[unat i := v])"
  by (simp add: vec_update_def)

lemma vec_pop_None [vec_simps]: "vec_pop xs = None \<longleftrightarrow> xs = []"
  by (simp add: vec_pop_def)

lemma vec_pop_Some [vec_simps]: "vec_pop xs = Some (x, ys) \<longleftrightarrow> xs = ys @ [x]"
  by (auto simp: vec_pop_def)

lemma vec_pop_snoc [simp]: "vec_pop (ys @ [x]) = Some (x, ys)"
  by (simp add: vec_pop_def)

lemma vec_pop_Nil [simp]: "vec_pop [] = None"
  by (simp add: vec_pop_def)

lemma pop_front_Nil [simp]: "pop_front [] = None"
  by (simp add: pop_front_def)

lemma pop_front_Cons [simp]: "pop_front (x # xs) = Some (x, xs)"
  by (simp add: pop_front_def)

lemma pop_front_Some [vec_simps]: "pop_front xs = Some (x, ys) \<longleftrightarrow> xs = x # ys"
  by (auto simp: pop_front_def split: list.splits)

lemma pop_front_None [vec_simps]: "pop_front xs = None \<longleftrightarrow> xs = []"
  by (auto simp: pop_front_def split: list.splits)

lemma position_Some [vec_simps]:
  "position P xs = Some i \<longleftrightarrow> i < length xs \<and> P (xs ! i) \<and> (\<forall>j<i. \<not> P (xs ! j))"
proof
  assume "position P xs = Some i"
  then show "i < length xs \<and> P (xs ! i) \<and> (\<forall>j<i. \<not> P (xs ! j))"
    by (auto simp: position_def find_Some_iff)
next
  assume "i < length xs \<and> P (xs ! i) \<and> (\<forall>j<i. \<not> P (xs ! j))"
  then show "position P xs = Some i"
    unfolding position_def find_Some_iff by (intro exI [of _ i]) auto
qed

lemma position_None [vec_simps]: "position P xs = None \<longleftrightarrow> (\<forall>x\<in>set xs. \<not> P x)"
  by (fastforce simp: position_def find_None_iff in_set_conv_nth)

lemma length_remove_at: "i < length xs \<Longrightarrow> length (remove_at i xs) = length xs - 1"
  by (simp add: remove_at_def)

lemma remove_at_parts:
  assumes "distinct xs" "i < length xs"
  shows "distinct (remove_at i xs) \<and> set (remove_at i xs) = set xs - {xs ! i}"
proof -
  have "distinct (take i xs @ xs ! i # drop (Suc i) xs)"
    using assms by (simp add: id_take_nth_drop [symmetric])
  moreover have "set xs = set (take i xs @ xs ! i # drop (Suc i) xs)"
    using assms(2) by (simp add: id_take_nth_drop [symmetric])
  ultimately show ?thesis
    by (auto simp: remove_at_def)
qed

lemma distinct_remove_at: "distinct xs \<Longrightarrow> i < length xs \<Longrightarrow> distinct (remove_at i xs)"
  using remove_at_parts by blast

lemma set_remove_at:
  "distinct xs \<Longrightarrow> i < length xs \<Longrightarrow> set (remove_at i xs) = set xs - {xs ! i}"
  using remove_at_parts by blast

section \<open>Words\<close>

lemma unat_usize_max [simp]: "unat (- 1 :: 64 word) = 18446744073709551615"
  by (simp add: unsigned_minus_1_eq_mask mask_eq_exp_minus_1)

lemma unat_less_2p64 [simp]: "unat (x :: 64 word) < 18446744073709551616"
  using unsigned_less [of x, where ?'a = nat] by simp

lemma unat_plus_one: "x \<noteq> - 1 \<Longrightarrow> unat (x + 1 :: 'a::len word) = Suc (unat x)"
  by (metis add.commute unatSuc eq_neg_iff_add_eq_0)

lemma unat_of_nat_usize: "n < 18446744073709551616 \<Longrightarrow> unat (of_nat n :: 64 word) = n"
  by (simp add: unat_of_nat take_bit_nat_eq_self)

text \<open>The slice \<open>xs[i..j]\<close>.\<close>

definition slice :: "'a list \<Rightarrow> usize \<Rightarrow> usize \<Rightarrow> 'a list outcome" where
  "slice xs i j =
     (if i \<le> j \<and> unat j \<le> length xs then Inr (take (unat j - unat i) (drop (unat i) xs))
      else Inl IndexOutOfBounds)"

lemma list_all2_left: "list_all2 R xs ys \<Longrightarrow> x \<in> set xs \<Longrightarrow> \<exists>y \<in> set ys. R x y"
  by (induction rule: list_all2_induct) auto

section \<open>Loops over a list\<close>

text \<open>A \<open>for\<close> loop whose body changes a state and may panic.\<close>

fun for_each :: "('a \<Rightarrow> 's \<Rightarrow> 's outcome) \<Rightarrow> 'a list \<Rightarrow> 's \<Rightarrow> 's outcome" where
  "for_each f [] s = Inr s"
| "for_each f (x # xs) s = and_then (f x s) (for_each f xs)"

lemma for_each_append: "for_each f (xs @ ys) s = and_then (for_each f xs s) (for_each f ys)"
proof (induction xs arbitrary: s)
  case (Cons x xs)
  then show ?case by (cases "f x s") simp_all
qed simp

lemma for_each_cong [fundef_cong]:
  "xs = ys \<Longrightarrow> s = t \<Longrightarrow> (\<And>x s. x \<in> set ys \<Longrightarrow> f x s = g x s) \<Longrightarrow> for_each f xs s = for_each g ys t"
proof (induction ys arbitrary: xs s t)
  case (Cons y ys)
  then have "f y t = g y t" "\<And>u. for_each f ys u = for_each g ys u" by auto
  then show ?case using Cons.prems by (cases "g y t") auto
qed simp

section \<open>Arrays and slices by natural numbers\<close>

text \<open>
  Indexing and slicing with the bounds checks of Rust, for the parts of easy-fs whose positions are
  natural numbers.
\<close>

definition array_index :: "'a list \<Rightarrow> nat \<Rightarrow> 'a outcome" where
  "array_index xs i = (if i < length xs then Inr (xs ! i) else Inl IndexOutOfBounds)"

definition array_update :: "'a list \<Rightarrow> nat \<Rightarrow> 'a \<Rightarrow> 'a list outcome" where
  "array_update xs i v = (if i < length xs then Inr (xs[i := v]) else Inl IndexOutOfBounds)"

definition subslice :: "'a list \<Rightarrow> nat \<Rightarrow> nat \<Rightarrow> 'a list outcome" where
  "subslice xs i n = (if i + n \<le> length xs then Inr (take n (drop i xs)) else Inl IndexOutOfBounds)"

definition copy_from_slice :: "'a list \<Rightarrow> nat \<Rightarrow> 'a list \<Rightarrow> 'a list outcome" where
  "copy_from_slice xs i ys =
     (if i + length ys \<le> length xs then Inr (take i xs @ ys @ drop (i + length ys) xs) else Inl IndexOutOfBounds)"

lemma array_index_ok [simp]: "i < length xs \<Longrightarrow> array_index xs i = Inr (xs ! i)"
  by (simp add: array_index_def)

lemma array_update_ok [simp]: "i < length xs \<Longrightarrow> array_update xs i v = Inr (xs[i := v])"
  by (simp add: array_update_def)

lemma array_index_eq_Inr [panic_simps]: "array_index xs i = Inr v \<longleftrightarrow> i < length xs \<and> v = xs ! i"
  by (auto simp: array_index_def)

lemma array_update_eq_Inr [panic_simps]: "array_update xs i v = Inr ys \<longleftrightarrow> i < length xs \<and> ys = xs[i := v]"
  by (auto simp: array_update_def)

lemma subslice_ok [simp]: "i + n \<le> length xs \<Longrightarrow> subslice xs i n = Inr (take n (drop i xs))"
  by (simp add: subslice_def)

lemma copy_from_slice_ok [simp]:
  "i + length ys \<le> length xs \<Longrightarrow> copy_from_slice xs i ys = Inr (take i xs @ ys @ drop (i + length ys) xs)"
  by (simp add: copy_from_slice_def)

end
