(* ===== verification/Id_Allocator.thy ===== *)
theory Id_Allocator
  imports Prelude
begin

text \<open>
  The recycling allocator of \<^verbatim>\<open>os/src/task/id.rs\<close>, from which pids, kernel-stack ids and
  thread ids are taken, and the contract \<open>id_allocator\<close> it shares with the physical frame
  allocator: what is live, what an allocation and a deallocation do to the live set, and how many
  allocations are left. A client that only drops handles it owns is a list of operations run by
  \<open>alloc_run\<close>; the contract shows once that such a client never gets an id that is in use and never
  runs into one of the allocator's assertions.
\<close>

section \<open>The recycling allocator\<close>

record RecycleAllocator =
  ra_current :: usize
  ra_recycled :: "usize list"

definition RecycleAllocator_new :: RecycleAllocator where
  "RecycleAllocator_new = \<lparr>ra_current = 0, ra_recycled = []\<rparr>"

definition RecycleAllocator_alloc :: "RecycleAllocator \<Rightarrow> usize \<times> RecycleAllocator" where
  "RecycleAllocator_alloc a =
     (case vec_pop (ra_recycled a) of
        Some (i, rest) \<Rightarrow> (i, a\<lparr>ra_recycled := rest\<rparr>)
      | None \<Rightarrow>
          (let a' = a\<lparr>ra_current := ra_current a + 1\<rparr> in (ra_current a' - 1, a')))"

definition RecycleAllocator_dealloc :: "RecycleAllocator \<Rightarrow> usize \<Rightarrow> RecycleAllocator outcome" where
  "RecycleAllocator_dealloc a i =
     and_then (assert_that (i < ra_current a)) (\<lambda>_.
     and_then (assert_that (\<not> list_ex (\<lambda>j. j = i) (ra_recycled a))) (\<lambda>_.
     Inr (a\<lparr>ra_recycled := ra_recycled a @ [i]\<rparr>)))"

section \<open>The contract of an id allocator\<close>

datatype alloc_op = Alloc | Drop nat

fun alloc_run ::
  "('s \<Rightarrow> (usize \<times> 's) option) \<Rightarrow> ('s \<Rightarrow> usize \<Rightarrow> 's outcome) \<Rightarrow> alloc_op list \<Rightarrow>
   's \<times> usize list \<Rightarrow> ('s \<times> usize list) outcome" where
  "alloc_run al de [] (s, owned) = Inr (s, owned)"
| "alloc_run al de (Alloc # ops) (s, owned) =
     and_then (unwrap (al s)) (\<lambda>(i, s'). alloc_run al de ops (s', owned @ [i]))"
| "alloc_run al de (Drop k # ops) (s, owned) =
     (if k < length owned
      then and_then (de s (owned ! k)) (\<lambda>s'. alloc_run al de ops (s', remove_at k owned))
      else alloc_run al de ops (s, owned))"

locale id_allocator =
  fixes invar :: "'s \<Rightarrow> bool"
    and live :: "'s \<Rightarrow> usize set"
    and free :: "'s \<Rightarrow> nat"
    and alloc :: "'s \<Rightarrow> (usize \<times> 's) option"
    and dealloc :: "'s \<Rightarrow> usize \<Rightarrow> 's outcome"
  assumes alloc_total: "invar s \<Longrightarrow> 0 < free s \<Longrightarrow> \<exists>i s'. alloc s = Some (i, s')"
    and alloc_spec: "invar s \<Longrightarrow> 0 < free s \<Longrightarrow> alloc s = Some (i, s') \<Longrightarrow>
      invar s' \<and> i \<notin> live s \<and> live s' = insert i (live s) \<and> Suc (free s') = free s"
    and dealloc_spec: "invar s \<Longrightarrow> i \<in> live s \<Longrightarrow>
      \<exists>s'. dealloc s i = Inr s' \<and> invar s' \<and> live s' = live s - {i} \<and> free s' = Suc (free s)"
    and dealloc_twice: "invar s \<Longrightarrow> i \<in> live s \<Longrightarrow> dealloc s i = Inr s' \<Longrightarrow> \<exists>e. dealloc s' i = Inl e"
    and recycle_first: "invar s \<Longrightarrow> i \<in> live s \<Longrightarrow> dealloc s i = Inr s' \<Longrightarrow> alloc s' = Some (i, s)"
begin

lemma run_safe:
  assumes "invar s" "distinct owned" "set owned = live s" "length ops \<le> free s"
  shows "\<exists>s' owned'. alloc_run alloc dealloc ops (s, owned) = Inr (s', owned') \<and>
           invar s' \<and> distinct owned' \<and> set owned' = live s'"
  using assms
proof (induction ops arbitrary: s owned)
  case Nil
  then show ?case by simp
next
  case (Cons x ops)
  show ?case
  proof (cases x)
    case Alloc
    from Cons.prems have fr: "0 < free s" by simp
    then obtain i s' where al: "alloc s = Some (i, s')"
      using alloc_total Cons.prems(1) by blast
    then have s': "invar s'" "i \<notin> live s" "live s' = insert i (live s)" "Suc (free s') = free s"
      using alloc_spec [OF Cons.prems(1) fr] by auto
    then show ?thesis
      using Cons.IH [of s' "owned @ [i]"] Cons.prems Alloc al by simp
  next
    case (Drop k)
    show ?thesis
    proof (cases "k < length owned")
      case True
      then have "owned ! k \<in> live s" using Cons.prems by (metis nth_mem)
      then obtain s' where "dealloc s (owned ! k) = Inr s'" "invar s'"
          "live s' = live s - {owned ! k}" "free s' = Suc (free s)"
        using dealloc_spec Cons.prems(1) by blast
      then show ?thesis
        using Cons.IH [of s' "remove_at k owned"] Cons.prems Drop True
          distinct_remove_at [OF Cons.prems(2) True] set_remove_at [OF Cons.prems(2) True]
        by simp
    next
      case False
      then show ?thesis using Cons Drop by simp
    qed
  qed
qed

end

section \<open>The recycling allocator meets the contract\<close>

definition ra_invar :: "RecycleAllocator \<Rightarrow> bool" where
  "ra_invar a \<longleftrightarrow> distinct (ra_recycled a) \<and> (\<forall>i \<in> set (ra_recycled a). i < ra_current a)"

definition ra_live :: "RecycleAllocator \<Rightarrow> usize set" where
  "ra_live a = {i. i < ra_current a} - set (ra_recycled a)"

definition ra_free :: "RecycleAllocator \<Rightarrow> nat" where
  "ra_free a = length (ra_recycled a) + (2 ^ 64 - 1 - unat (ra_current a))"

lemma less_plus_one_word:
  fixes c :: "'a::len word"
  assumes "c \<noteq> - 1"
  shows "i < c + 1 \<longleftrightarrow> i < c \<or> i = c"
  using assms by (metis add.commute inc_i order_le_less word_less_nat_alt unat_plus_one
      less_Suc_eq word_unat_eq_iff)

lemma ra_alloc_recycled:
  "RecycleAllocator_alloc a = (i, a') \<Longrightarrow> ra_recycled a \<noteq> [] \<Longrightarrow>
     a' = a\<lparr>ra_recycled := butlast (ra_recycled a)\<rparr> \<and> i = last (ra_recycled a)"
  by (auto simp: RecycleAllocator_alloc_def vec_pop_def)

lemma ra_alloc_fresh:
  "RecycleAllocator_alloc a = (i, a') \<Longrightarrow> ra_recycled a = [] \<Longrightarrow>
     a' = a\<lparr>ra_current := ra_current a + 1\<rparr> \<and> i = ra_current a"
  by (auto simp: RecycleAllocator_alloc_def)

lemma ra_dealloc_Inr [panic_simps]:
  "RecycleAllocator_dealloc a i = Inr a' \<longleftrightarrow>
     i < ra_current a \<and> i \<notin> set (ra_recycled a) \<and> a' = a\<lparr>ra_recycled := ra_recycled a @ [i]\<rparr>"
  by (auto simp: RecycleAllocator_dealloc_def panic_simps list_ex_iff)

interpretation recycle: id_allocator ra_invar ra_live ra_free
  "\<lambda>a. Some (RecycleAllocator_alloc a)" RecycleAllocator_dealloc
proof (standard, goal_cases)
  case (1 s)
  then show ?case by (metis surj_pair)
next
  case (2 s i s')
  then have al: "RecycleAllocator_alloc s = (i, s')" by simp
  show ?case
  proof (cases "ra_recycled s = []")
    case True
    from 2(2) True have c: "ra_current s \<noteq> - 1"
      by (auto simp: ra_free_def unat_usize_max)
    from ra_alloc_fresh [OF al True] True c show ?thesis
      by (auto simp: ra_invar_def ra_live_def ra_free_def less_plus_one_word unat_plus_one)
        (use unat_less_2p64 [of "ra_current s"] unat_plus_one [OF c]
            unat_less_2p64 [of "ra_current s + 1"] in linarith)
  next
    case False
    then obtain ys y where r: "ra_recycled s = ys @ [y]" by (metis rev_exhaust)
    with ra_alloc_recycled [OF al False] 2(1) show ?thesis
      by (auto simp: ra_invar_def ra_live_def ra_free_def)
  qed
next
  case (3 s i)
  then show ?case
    by (auto simp: ra_invar_def ra_live_def ra_free_def panic_simps)
next
  case (4 s i s')
  then show ?case
    by (auto simp: RecycleAllocator_dealloc_def panic_simps)
next
  case (5 s i s')
  then show ?case
    by (auto simp: RecycleAllocator_alloc_def panic_simps)
qed

lemma ra_new_invar: "ra_invar RecycleAllocator_new" "ra_live RecycleAllocator_new = {}"
    "ra_free RecycleAllocator_new = 2 ^ 64 - 1"
  by (simp_all add: ra_invar_def ra_live_def ra_free_def RecycleAllocator_new_def)

text \<open>
  C22. Ids in use are never handed out again: starting from \<open>RecycleAllocator::new()\<close>, any sequence of
  fewer than 2^64 allocations and drops of owned handles runs without hitting an assertion, and the ids
  owned at the end are pairwise different, below \<open>current\<close>, and exactly the ids not in the recycle list.
\<close>
theorem recycle_ids_unique:
  assumes "length ops < 2 ^ 64"
  shows "\<exists>a owned. alloc_run (\<lambda>a. Some (RecycleAllocator_alloc a)) RecycleAllocator_dealloc ops
             (RecycleAllocator_new, []) = Inr (a, owned) \<and>
           distinct owned \<and> set owned = {i. i < ra_current a} - set (ra_recycled a)"
  using recycle.run_safe [of RecycleAllocator_new "[]" ops] ra_new_invar assms
  by (fastforce simp: ra_live_def)

theorem recycle_ids_unique_witness:
  "length [Alloc, Alloc, Drop 0, Alloc] < 2 ^ 64 \<and>
   (\<exists>a owned. alloc_run (\<lambda>a. Some (RecycleAllocator_alloc a)) RecycleAllocator_dealloc
       [Alloc, Alloc, Drop 0, Alloc] (RecycleAllocator_new, []) = Inr (a, owned) \<and> distinct owned)"
  using recycle_ids_unique [of "[Alloc, Alloc, Drop 0, Alloc]"] by auto

end
