(* ===== verification/Address.thy ===== *)
theory Address
  imports Prelude
begin

text \<open>
  Addresses and page numbers of SV39 (\<^verbatim>\<open>os/src/mm/address.rs\<close>): the four wrapper types, their
  conversions with the masking and the sign extension the code does, page offsets, the three page-table
  indexes of a virtual page number, and the ranges of page numbers that areas iterate over.
\<close>

section \<open>Types and conversions\<close>

definition PAGE_SIZE :: usize where "PAGE_SIZE = 0x1000"
definition PAGE_SIZE_BITS :: nat where "PAGE_SIZE_BITS = 0xc"
definition PA_WIDTH_SV39 :: nat where "PA_WIDTH_SV39 = 56"
definition VA_WIDTH_SV39 :: nat where "VA_WIDTH_SV39 = 39"
definition PPN_WIDTH_SV39 :: nat where "PPN_WIDTH_SV39 = PA_WIDTH_SV39 - PAGE_SIZE_BITS"
definition VPN_WIDTH_SV39 :: nat where "VPN_WIDTH_SV39 = VA_WIDTH_SV39 - PAGE_SIZE_BITS"

lemmas address_consts =
  PAGE_SIZE_def PAGE_SIZE_BITS_def PA_WIDTH_SV39_def VA_WIDTH_SV39_def PPN_WIDTH_SV39_def
  VPN_WIDTH_SV39_def

datatype PhysAddr = PhysAddr (pa_0: usize)
datatype VirtAddr = VirtAddr (va_0: usize)
datatype PhysPageNum = PhysPageNum (ppn_0: usize)
datatype VirtPageNum = VirtPageNum (vpn_0: usize)

definition PhysAddr_from :: "usize \<Rightarrow> PhysAddr" where
  "PhysAddr_from v = PhysAddr (v AND (push_bit PA_WIDTH_SV39 1 - 1))"

definition PhysPageNum_from :: "usize \<Rightarrow> PhysPageNum" where
  "PhysPageNum_from v = PhysPageNum (v AND (push_bit PPN_WIDTH_SV39 1 - 1))"

definition VirtAddr_from :: "usize \<Rightarrow> VirtAddr" where
  "VirtAddr_from v = VirtAddr (v AND (push_bit VA_WIDTH_SV39 1 - 1))"

definition VirtPageNum_from :: "usize \<Rightarrow> VirtPageNum" where
  "VirtPageNum_from v = VirtPageNum (v AND (push_bit VPN_WIDTH_SV39 1 - 1))"

definition usize_from_VirtAddr :: "VirtAddr \<Rightarrow> usize" where
  "usize_from_VirtAddr v =
     (if va_0 v \<ge> push_bit (VA_WIDTH_SV39 - 1) 1
      then va_0 v OR NOT (push_bit VA_WIDTH_SV39 1 - 1)
      else va_0 v)"

definition VirtAddr_floor :: "VirtAddr \<Rightarrow> VirtPageNum" where
  "VirtAddr_floor v = VirtPageNum (va_0 v div PAGE_SIZE)"

definition VirtAddr_ceil :: "VirtAddr \<Rightarrow> VirtPageNum" where
  "VirtAddr_ceil v = VirtPageNum ((va_0 v - 1 + PAGE_SIZE) div PAGE_SIZE)"

definition VirtAddr_page_offset :: "VirtAddr \<Rightarrow> usize" where
  "VirtAddr_page_offset v = va_0 v AND (PAGE_SIZE - 1)"

definition VirtAddr_aligned :: "VirtAddr \<Rightarrow> bool" where
  "VirtAddr_aligned v \<longleftrightarrow> VirtAddr_page_offset v = 0"

definition VirtPageNum_from_VirtAddr :: "VirtAddr \<Rightarrow> VirtPageNum outcome" where
  "VirtPageNum_from_VirtAddr v =
     and_then (assert_that (VirtAddr_page_offset v = 0)) (\<lambda>_. Inr (VirtAddr_floor v))"

definition VirtAddr_from_VirtPageNum :: "VirtPageNum \<Rightarrow> VirtAddr" where
  "VirtAddr_from_VirtPageNum v = VirtAddr (push_bit PAGE_SIZE_BITS (vpn_0 v))"

definition PhysAddr_floor :: "PhysAddr \<Rightarrow> PhysPageNum" where
  "PhysAddr_floor v = PhysPageNum (pa_0 v div PAGE_SIZE)"

definition PhysAddr_ceil :: "PhysAddr \<Rightarrow> PhysPageNum" where
  "PhysAddr_ceil v = PhysPageNum ((pa_0 v - 1 + PAGE_SIZE) div PAGE_SIZE)"

definition PhysAddr_page_offset :: "PhysAddr \<Rightarrow> usize" where
  "PhysAddr_page_offset v = pa_0 v AND (PAGE_SIZE - 1)"

definition PhysAddr_aligned :: "PhysAddr \<Rightarrow> bool" where
  "PhysAddr_aligned v \<longleftrightarrow> PhysAddr_page_offset v = 0"

definition PhysPageNum_from_PhysAddr :: "PhysAddr \<Rightarrow> PhysPageNum outcome" where
  "PhysPageNum_from_PhysAddr v =
     and_then (assert_that (PhysAddr_page_offset v = 0)) (\<lambda>_. Inr (PhysAddr_floor v))"

definition PhysAddr_from_PhysPageNum :: "PhysPageNum \<Rightarrow> PhysAddr" where
  "PhysAddr_from_PhysPageNum v = PhysAddr (push_bit PAGE_SIZE_BITS (ppn_0 v))"

definition VirtPageNum_indexes :: "VirtPageNum \<Rightarrow> usize list" where
  "VirtPageNum_indexes v =
     fst (fold (\<lambda>i (idx, vpn). (idx[i := vpn AND 511], drop_bit 9 vpn)) (rev [0..<3])
            (replicate 3 0, vpn_0 v))"

section \<open>The derived order and ranges of page numbers\<close>

instantiation VirtPageNum :: linorder
begin

definition less_eq_VirtPageNum :: "VirtPageNum \<Rightarrow> VirtPageNum \<Rightarrow> bool" where
  "less_eq_VirtPageNum a b \<longleftrightarrow> vpn_0 a \<le> vpn_0 b"

definition less_VirtPageNum :: "VirtPageNum \<Rightarrow> VirtPageNum \<Rightarrow> bool" where
  "less_VirtPageNum a b \<longleftrightarrow> vpn_0 a < vpn_0 b"

instance
  by standard (auto simp: less_eq_VirtPageNum_def less_VirtPageNum_def VirtPageNum.expand)

end

instantiation VirtAddr :: linorder
begin

definition less_eq_VirtAddr :: "VirtAddr \<Rightarrow> VirtAddr \<Rightarrow> bool" where
  "less_eq_VirtAddr a b \<longleftrightarrow> va_0 a \<le> va_0 b"

definition less_VirtAddr :: "VirtAddr \<Rightarrow> VirtAddr \<Rightarrow> bool" where
  "less_VirtAddr a b \<longleftrightarrow> va_0 a < va_0 b"

instance
  by standard (auto simp: less_eq_VirtAddr_def less_VirtAddr_def VirtAddr.expand)

end

definition VirtPageNum_step :: "VirtPageNum \<Rightarrow> VirtPageNum" where
  "VirtPageNum_step v = VirtPageNum (vpn_0 v + 1)"

record VPNRange =
  vr_l :: VirtPageNum
  vr_r :: VirtPageNum

definition VPNRange_new :: "VirtPageNum \<Rightarrow> VirtPageNum \<Rightarrow> VPNRange outcome" where
  "VPNRange_new start end' =
     and_then (assert_that (start \<le> end')) (\<lambda>_. Inr \<lparr>vr_l = start, vr_r = end'\<rparr>)"

definition VPNRange_get_start :: "VPNRange \<Rightarrow> VirtPageNum" where
  "VPNRange_get_start r = vr_l r"

definition VPNRange_get_end :: "VPNRange \<Rightarrow> VirtPageNum" where
  "VPNRange_get_end r = vr_r r"

record VPNRangeIterator =
  it_current :: VirtPageNum
  it_end :: VirtPageNum

definition VPNRange_into_iter :: "VPNRange \<Rightarrow> VPNRangeIterator" where
  "VPNRange_into_iter r = \<lparr>it_current = vr_l r, it_end = vr_r r\<rparr>"

definition VPNRangeIterator_next :: "VPNRangeIterator \<Rightarrow> VirtPageNum option \<times> VPNRangeIterator" where
  "VPNRangeIterator_next it =
     (if it_current it = it_end it then (None, it)
      else (Some (it_current it), it\<lparr>it_current := VirtPageNum_step (it_current it)\<rparr>))"

lemma unat_minus_step:
  fixes c e :: usize
  assumes "c \<noteq> e"
  shows "unat (e - (c + 1)) < unat (e - c)"
proof -
  have "e - c \<noteq> 0" using assms by simp
  then have "unat (e - c - 1) < unat (e - c)"
    by (metis measure_unat)
  then show ?thesis by (simp add: algebra_simps)
qed

text \<open>The page numbers a \<open>for\<close> loop over a range visits: the iterator run until it returns \<open>None\<close>.\<close>

function iterate_vpns :: "VPNRangeIterator \<Rightarrow> VirtPageNum list" where
  "iterate_vpns it =
     (case VPNRangeIterator_next it of
        (None, _) \<Rightarrow> []
      | (Some v, it') \<Rightarrow> v # iterate_vpns it')"
  by pat_completeness auto
termination
proof (relation "measure (\<lambda>it. unat (vpn_0 (it_end it) - vpn_0 (it_current it)))", goal_cases)
  case (2 it x y v)
  then show ?case
    using unat_minus_step [of "vpn_0 (it_current it)" "vpn_0 (it_end it)"]
    by (auto simp: VPNRangeIterator_next_def VirtPageNum_step_def dest: VirtPageNum.expand
        split: if_splits)
qed simp

declare iterate_vpns.simps [simp del]

definition vpns_of :: "VPNRange \<Rightarrow> VirtPageNum list" where
  "vpns_of r = iterate_vpns (VPNRange_into_iter r)"

section \<open>Masks, page offsets and indexes\<close>

named_theorems address_simps \<open>conversions as bit extractions\<close>

lemma low_mask [simp]: "push_bit n 1 - 1 = (mask n :: 'a::len word)"
  by (simp add: mask_eq_exp_minus_1 push_bit_eq_mult)

lemma page_offset_mask: "PAGE_SIZE - 1 = mask 12"
  by (simp add: PAGE_SIZE_def mask_eq_exp_minus_1)

lemma div_PAGE_SIZE [address_simps]: "x div PAGE_SIZE = drop_bit 12 x"
  by (simp add: PAGE_SIZE_def drop_bit_eq_div)

lemma VirtAddr_from_bits [address_simps]: "VirtAddr_from v = VirtAddr (take_bit 39 v)"
  by (simp add: VirtAddr_from_def take_bit_eq_mask mask_eq_exp_minus_1 address_consts)

lemma PhysAddr_from_bits [address_simps]: "PhysAddr_from v = PhysAddr (take_bit 56 v)"
  by (simp add: PhysAddr_from_def take_bit_eq_mask mask_eq_exp_minus_1 address_consts)

lemma PhysPageNum_from_bits [address_simps]: "PhysPageNum_from v = PhysPageNum (take_bit 44 v)"
  by (simp add: PhysPageNum_from_def take_bit_eq_mask mask_eq_exp_minus_1 address_consts)

lemma VirtPageNum_from_bits [address_simps]: "VirtPageNum_from v = VirtPageNum (take_bit 27 v)"
  by (simp add: VirtPageNum_from_def take_bit_eq_mask mask_eq_exp_minus_1 address_consts)

lemma VirtAddr_page_offset_bits [address_simps]: "VirtAddr_page_offset v = take_bit 12 (va_0 v)"
  by (simp add: VirtAddr_page_offset_def page_offset_mask take_bit_eq_mask)

lemma PhysAddr_page_offset_bits [address_simps]: "PhysAddr_page_offset v = take_bit 12 (pa_0 v)"
  by (simp add: PhysAddr_page_offset_def page_offset_mask take_bit_eq_mask)

lemma VirtAddr_floor_bits [address_simps]: "VirtAddr_floor v = VirtPageNum (drop_bit 12 (va_0 v))"
  by (simp add: VirtAddr_floor_def div_PAGE_SIZE)

lemma VirtPageNum_indexes_bits [address_simps]:
  "VirtPageNum_indexes v =
     [take_bit 9 (drop_bit 18 (vpn_0 v)), take_bit 9 (drop_bit 9 (vpn_0 v)), take_bit 9 (vpn_0 v)]"
proof -
  have "(511 :: usize) = mask 9" by (simp add: mask_eq_exp_minus_1)
  moreover have "rev [0..<3] = [2, 1, 0 :: nat]" by (simp add: upt_rec)
  ultimately show ?thesis
    by (simp add: VirtPageNum_indexes_def take_bit_eq_mask numeral_3_eq_3 numeral_2_eq_2)
qed

lemma unat_take_bit_usize: "unat (take_bit n (x :: usize)) = unat x mod 2 ^ n"
  by (simp add: unsigned_take_bit_eq flip: take_bit_eq_mod)

lemma unat_drop_bit_usize: "unat (drop_bit n (x :: usize)) = unat x div 2 ^ n"
  by (simp add: unsigned_drop_bit_eq take_bit_nat_eq_self flip: drop_bit_eq_div)

lemma index_less_512: "x \<in> set (VirtPageNum_indexes v) \<Longrightarrow> unat x < 512"
  by (auto simp: VirtPageNum_indexes_bits unat_take_bit_usize)

lemma length_indexes [simp]: "length (VirtPageNum_indexes v) = 3"
  by (simp add: VirtPageNum_indexes_bits)

section \<open>Ranges\<close>

lemma iterate_vpns_upt:
  "it_current it \<le> it_end it \<Longrightarrow>
     map (unat \<circ> vpn_0) (iterate_vpns it) = [unat (vpn_0 (it_current it))..<unat (vpn_0 (it_end it))]"
proof (induction it rule: iterate_vpns.induct)
  case (1 it)
  show ?case
  proof (cases "it_current it = it_end it")
    case True
    then show ?thesis by (simp add: iterate_vpns.simps [of it] VPNRangeIterator_next_def)
  next
    case False
    let ?c = "vpn_0 (it_current it)"
    let ?it = "it\<lparr>it_current := VirtPageNum_step (it_current it)\<rparr>"
    have lt: "?c < vpn_0 (it_end it)"
      using False "1.prems" by (auto simp: less_eq_VirtPageNum_def order_le_less VirtPageNum.expand)
    then have suc: "unat (?c + 1) = Suc (unat ?c)"
      by (metis unat_plus_one leD word_order.extremum)
    have "it_current ?it \<le> it_end ?it"
      using lt suc by (simp add: less_eq_VirtPageNum_def VirtPageNum_step_def word_le_nat_alt
          word_less_nat_alt)
    then have "map (unat \<circ> vpn_0) (iterate_vpns ?it) = [Suc (unat ?c)..<unat (vpn_0 (it_end it))]"
      using "1.IH" False suc
      by (simp add: VPNRangeIterator_next_def VirtPageNum_step_def comp_def)
    then show ?thesis
      using False lt by (simp add: iterate_vpns.simps [of it] VPNRangeIterator_next_def
          upt_conv_Cons word_less_nat_alt comp_def)
  qed
qed

text \<open>
  A range made by \<open>SimpleRange::new\<close> is iterated from its start, inclusive, to its end, exclusive,
  one page number after the other, and the iteration ends.
\<close>
lemma vpn_range_visits:
  assumes "VPNRange_new l r = Inr rng"
  shows "map (unat \<circ> vpn_0) (vpns_of rng) = [unat (vpn_0 l)..<unat (vpn_0 r)]"
proof -
  have "rng = \<lparr>vr_l = l, vr_r = r\<rparr>" "l \<le> r"
    using assms by (auto simp: VPNRange_new_def panic_simps)
  then show ?thesis
    using iterate_vpns_upt [of "VPNRange_into_iter rng"]
    by (simp add: vpns_of_def VPNRange_into_iter_def)
qed

lemma vpn_range_visits_example:
  "map (unat \<circ> vpn_0) (vpns_of \<lparr>vr_l = VirtPageNum 3, vr_r = VirtPageNum 6\<rparr>) = [3, 4, 5]"
proof -
  have "VPNRange_new (VirtPageNum 3) (VirtPageNum 6) = Inr \<lparr>vr_l = VirtPageNum 3, vr_r = VirtPageNum 6\<rparr>"
    by (simp add: VPNRange_new_def less_eq_VirtPageNum_def)
  from vpn_range_visits [OF this] show ?thesis by (simp add: upt_rec)
qed

lemma bit_39_le: "push_bit 38 1 \<le> take_bit 39 (v :: usize) \<longleftrightarrow> bit v 38"
proof -
  have "unat (take_bit (Suc 38) v) = 2 ^ 38 * of_bool (bit v 38) + take_bit 38 (unat v)"
    by (simp only: unsigned_take_bit_eq take_bit_Suc_from_most bit_unsigned_iff) simp
  moreover have "take_bit 38 (unat v) < 2 ^ 38" by (rule take_bit_nat_less_exp)
  ultimately show ?thesis
    by (cases "bit v 38") (simp_all add: word_le_nat_alt push_bit_eq_mult)
qed

text \<open>
  Virtual addresses are sign-extended to 64 bits and back without loss: a \<open>usize\<close> taken through
  \<open>VirtAddr\<close> becomes the canonical SV39 address with the same low 39 bits (bit 38 copied upwards), and
  converting that back gives the same \<open>VirtAddr\<close>.
\<close>
lemma virt_addr_sign_extension:
  "usize_from_VirtAddr (VirtAddr_from v) = signed_take_bit 38 v \<and>
   VirtAddr_from (usize_from_VirtAddr (VirtAddr_from v)) = VirtAddr_from v"
proof -
  have e: "usize_from_VirtAddr (VirtAddr_from v) = signed_take_bit 38 v"
  proof (rule bit_eqI)
    fix n
    assume "possible_bit TYPE(64 word) n"
    then show "bit (usize_from_VirtAddr (VirtAddr_from v)) n \<longleftrightarrow> bit (signed_take_bit 38 v) n"
      by (cases "n < 38"; cases "n = 38")
        (auto simp: usize_from_VirtAddr_def VirtAddr_from_bits VA_WIDTH_SV39_def bit_39_le
          bit_simps min_def simp del: push_bit_of_1)
  qed
  then show ?thesis
    by (simp add: e VirtAddr_from_bits take_bit_signed_take_bit)
qed

end
