(* ===== verification/Byte_Order.thy ===== *)
theory Byte_Order
  imports Prelude
begin

text \<open>
  Little-endian byte order of the RISC-V target and the contract of a \<^verbatim>\<open>repr(C)\<close> view: the kernel and
  easy-fs reinterpret bytes of memory or of a cached disk block as words, arrays and structs. A view is a
  pair of functions between bytes and values; \<open>byte_view\<close> states that writing a value back and reading
  it again is lossless, and that reading and writing back leaves the bytes alone.
\<close>

section \<open>Words in memory\<close>

definition le_bytes :: "'a::len word \<Rightarrow> u8 list" where
  "le_bytes v = map (\<lambda>i. ucast (drop_bit (8 * i) v)) [0..<LENGTH('a) div 8]"

fun le_word :: "u8 list \<Rightarrow> 'a::len word" where
  "le_word [] = 0"
| "le_word (b # bs) = ucast b OR push_bit 8 (le_word bs)"

lemma bit_le_word:
  "bit (le_word bs :: 'a::len word) n \<longleftrightarrow>
     n < LENGTH('a) \<and> n div 8 < length bs \<and> bit (bs ! (n div 8)) (n mod 8)"
proof (induction bs arbitrary: n)
  case Nil
  then show ?case by simp
next
  case (Cons b bs)
  show ?case
  proof (cases "n < 8")
    case True
    then show ?thesis by (auto simp: bit_simps)
  next
    case False
    have "\<not> bit b n" using False bit_imp_le_length [of b n] by auto
    moreover have "n div 8 = Suc ((n - 8) div 8)" "(n - 8) mod 8 = n mod 8"
      using False by (simp_all add: le_div_geq le_mod_geq)
    ultimately show ?thesis using False Cons.IH [of "n - 8"] by (auto simp: bit_simps)
  qed
qed

lemma length_le_bytes [simp]: "length (le_bytes (v :: 'a::len word)) = LENGTH('a) div 8"
  by (simp add: le_bytes_def)

lemma le_word_le_bytes:
  assumes "8 dvd LENGTH('a::len)"
  shows "le_word (le_bytes (v :: 'a word)) = v"
proof (rule bit_word_eqI)
  fix n
  assume n: "n < LENGTH('a)"
  then have d: "n div 8 < LENGTH('a) div 8"
    using assms by (auto elim!: dvdE simp: less_mult_imp_div_less mult.commute)
  have "bit (le_word (le_bytes v) :: 'a word) n \<longleftrightarrow>
      bit (le_bytes v ! (n div 8)) (n mod 8)"
    using n d by (simp add: bit_le_word)
  also have "\<dots> \<longleftrightarrow> bit v n"
    using d by (simp add: le_bytes_def bit_simps)
  finally show "bit (le_word (le_bytes v) :: 'a word) n \<longleftrightarrow> bit v n" .
qed

lemma le_bytes_le_word:
  assumes "8 * length bs = LENGTH('a::len)"
  shows "le_bytes (le_word bs :: 'a word) = bs"
proof (rule nth_equalityI)
  show "length (le_bytes (le_word bs :: 'a word)) = length bs"
    using assms by simp
next
  fix i
  assume "i < length (le_bytes (le_word bs :: 'a word))"
  then have i: "i < LENGTH('a) div 8" by simp
  with assms have i': "i < length bs" by simp
  show "le_bytes (le_word bs :: 'a word) ! i = bs ! i"
  proof (rule bit_word_eqI)
    fix n
    assume n: "n < LENGTH(8)"
    have "8 * i + n < LENGTH('a)" using n i' assms by simp
    then show "bit (le_bytes (le_word bs :: 'a word) ! i) n \<longleftrightarrow> bit (bs ! i) n"
      using n i i' by (simp add: le_bytes_def bit_simps bit_le_word)
  qed
qed

lemmas le_word_le_bytes_64 [simp] = le_word_le_bytes [where 'a = 64, simplified]
lemmas le_word_le_bytes_32 [simp] = le_word_le_bytes [where 'a = 32, simplified]

lemma le_bytes_le_word_64 [simp]: "length bs = 8 \<Longrightarrow> le_bytes (le_word bs :: 64 word) = bs"
  by (rule le_bytes_le_word) simp

lemma le_bytes_le_word_32 [simp]: "length bs = 4 \<Longrightarrow> le_bytes (le_word bs :: 32 word) = bs"
  by (rule le_bytes_le_word) simp

lemma le_word_zero [simp]: "le_word (replicate n 0) = 0"
  by (rule bit_word_eqI) (auto simp: bit_le_word)

section \<open>Arrays of words\<close>

definition le_words :: "nat \<Rightarrow> u8 list \<Rightarrow> 'a::len word list" where
  "le_words n bs = map (\<lambda>k. le_word (take (LENGTH('a) div 8) (drop (LENGTH('a) div 8 * k) bs))) [0..<n]"

definition le_words_bytes :: "'a::len word list \<Rightarrow> u8 list" where
  "le_words_bytes ws = concat (map le_bytes ws)"

lemma length_le_words [simp]: "length (le_words n bs) = n"
  by (simp add: le_words_def)

lemma length_le_words_bytes [simp]:
  "length (le_words_bytes (ws :: 'a::len word list)) = LENGTH('a) div 8 * length ws"
  by (simp add: le_words_bytes_def length_concat comp_def sum_list_triv)

lemma take_drop_chunk:
  assumes "\<And>x. x \<in> set xs \<Longrightarrow> length (f x) = w" "k < length xs"
  shows "take w (drop (w * k) (concat (map f xs))) = f (xs ! k)"
  using assms
proof (induction xs arbitrary: k)
  case (Cons x xs)
  then have "length (f x) = w" by simp
  with Cons show ?case by (cases k) auto
qed simp

lemma le_words_le_words_bytes:
  assumes "8 dvd LENGTH('a::len)" "length ws = n"
  shows "le_words n (le_words_bytes (ws :: 'a word list)) = ws"
  using assms
  by (intro nth_equalityI) (simp_all add: le_words_def le_words_bytes_def take_drop_chunk le_word_le_bytes)

lemma concat_chunks: "length xs = w * n \<Longrightarrow> concat (map (\<lambda>k. take w (drop (w * k) xs)) [0..<n]) = xs"
proof (induction n arbitrary: xs)
  case (Suc n)
  have "[0..<Suc n] = 0 # map Suc [0..<n]" by (metis map_Suc_upt upt_conv_Cons zero_less_Suc)
  then have "concat (map (\<lambda>k. take w (drop (w * k) xs)) [0..<Suc n]) =
      take w xs @ concat (map (\<lambda>k. take w (drop (w * k) (drop w xs))) [0..<n])"
    by (simp add: comp_def add.commute)
  also have "\<dots> = xs" using Suc.IH [of "drop w xs"] Suc.prems by simp
  finally show ?case .
qed simp

lemma le_words_bytes_le_words:
  assumes "8 dvd LENGTH('a::len)" "length bs = LENGTH('a) div 8 * n"
  shows "le_words_bytes (le_words n bs :: 'a word list) = bs"
proof -
  let ?w = "LENGTH('a) div 8"
  have "le_bytes (le_word (take ?w (drop (?w * k) bs)) :: 'a word) = take ?w (drop (?w * k) bs)" if "k < n" for k
  proof (rule le_bytes_le_word)
    have "?w * Suc k \<le> ?w * n" using that by (intro mult_le_mono2) simp
    then have "length (take ?w (drop (?w * k) bs)) = ?w" using assms(2) by simp
    then show "8 * length (take ?w (drop (?w * k) bs)) = LENGTH('a)" using assms(1) by simp
  qed
  then have "le_words_bytes (le_words n bs :: 'a word list) = concat (map (\<lambda>k. take ?w (drop (?w * k) bs)) [0..<n])"
    unfolding le_words_bytes_def le_words_def map_map comp_def by (intro arg_cong [where f = concat] map_cong) simp_all
  then show ?thesis using concat_chunks [OF assms(2)] by simp
qed

end
