(* ===== verification/Phys_Mem.thy ===== *)
theory Phys_Mem
  imports Address Byte_Order
begin

text \<open>
  Physical memory as the kernel sees it through its identity mapping: a byte for every address.
  \<^verbatim>\<open>PhysAddr::get_ref/get_mut\<close> and \<^verbatim>\<open>PhysPageNum::get_pte_array/get_bytes_array/get_mut\<close>
  (\<^verbatim>\<open>os/src/mm/address.rs\<close>) turn an address into a Rust reference; here they are reads and writes of the
  bytes behind it.
\<close>

type_synonym mem = "usize \<Rightarrow> u8"

definition read_bytes :: "mem \<Rightarrow> usize \<Rightarrow> nat \<Rightarrow> u8 list" where
  "read_bytes m a n = map (\<lambda>i. m (a + of_nat i)) [0..<n]"

definition write_bytes :: "mem \<Rightarrow> usize \<Rightarrow> u8 list \<Rightarrow> mem" where
  "write_bytes m a bs = (\<lambda>x. if unat (x - a) < length bs then bs ! unat (x - a) else m x)"

definition read_u64 :: "mem \<Rightarrow> usize \<Rightarrow> u64" where
  "read_u64 m a = le_word (read_bytes m a 8)"

definition write_u64 :: "mem \<Rightarrow> usize \<Rightarrow> u64 \<Rightarrow> mem" where
  "write_u64 m a v = write_bytes m a (le_bytes v)"

definition get_bytes_array :: "mem \<Rightarrow> PhysPageNum \<Rightarrow> u8 list" where
  "get_bytes_array m ppn = read_bytes m (pa_0 (PhysAddr_from_PhysPageNum ppn)) 4096"

definition set_bytes_array :: "mem \<Rightarrow> PhysPageNum \<Rightarrow> u8 list \<Rightarrow> mem" where
  "set_bytes_array m ppn bs = write_bytes m (pa_0 (PhysAddr_from_PhysPageNum ppn)) bs"

text \<open>
  \<open>&mut ppn.get_pte_array()[idx]\<close> is the address of entry \<open>idx\<close> of the 512 eight-byte entries in the
  page, or a panic when \<open>idx\<close> is out of range.
\<close>

definition pte_slot :: "PhysPageNum \<Rightarrow> usize \<Rightarrow> usize outcome" where
  "pte_slot ppn idx =
     (if unat idx < 512 then Inr (pa_0 (PhysAddr_from_PhysPageNum ppn) + 8 * idx)
      else Inl IndexOutOfBounds)"

section \<open>Reading what was written\<close>

lemma length_read_bytes [simp]: "length (read_bytes m a n) = n"
  by (simp add: read_bytes_def)

lemma read_bytes_write_same:
  assumes "length bs < 2 ^ 64" "n = length bs"
  shows "read_bytes (write_bytes m a bs) a n = bs"
  using assms by (auto intro!: nth_equalityI simp: read_bytes_def write_bytes_def unat_of_nat_usize)

text \<open>Two regions are disjoint when no address of the second lies in the first.\<close>

definition disjoint_regions :: "usize \<Rightarrow> nat \<Rightarrow> usize \<Rightarrow> nat \<Rightarrow> bool" where
  "disjoint_regions a n b k \<longleftrightarrow> (\<forall>i<k. n \<le> unat (b + of_nat i - a))"

lemma read_bytes_write_other:
  "disjoint_regions a (length bs) b k \<Longrightarrow> read_bytes (write_bytes m a bs) b k = read_bytes m b k"
  by (auto simp: read_bytes_def write_bytes_def disjoint_regions_def simp flip: not_less)

lemma read_u64_write_same [simp]: "read_u64 (write_u64 m a v) a = v"
  by (simp add: read_u64_def write_u64_def read_bytes_write_same)

lemma read_u64_write_other:
  "disjoint_regions a 8 b 8 \<Longrightarrow> read_u64 (write_u64 m a v) b = read_u64 m b"
  by (simp add: read_u64_def write_u64_def read_bytes_write_other)

section \<open>Pages\<close>

text \<open>The page number of an address; everything the kernel writes through a page stays inside it.\<close>

definition page_of :: "usize \<Rightarrow> usize" where
  "page_of a = drop_bit 12 a"

definition ppn_ok :: "PhysPageNum \<Rightarrow> bool" where
  "ppn_ok p \<longleftrightarrow> unat (ppn_0 p) < 2 ^ 44"

lemma unat_push_bit_12:
  "unat p < 2 ^ 52 \<Longrightarrow> unat (push_bit 12 (p :: usize)) = 4096 * unat p"
  by (simp add: push_bit_eq_mult unat_word_ariths)

lemma unat_page_base:
  assumes "ppn_ok p"
  shows "unat (pa_0 (PhysAddr_from_PhysPageNum p)) = 4096 * unat (ppn_0 p)"
  using assms unat_push_bit_12 [of "ppn_0 p"]
  by (simp add: PhysAddr_from_PhysPageNum_def PAGE_SIZE_BITS_def ppn_ok_def)

lemma unat_in_page:
  assumes "ppn_ok p" "i < 4096"
  shows "unat (pa_0 (PhysAddr_from_PhysPageNum p) + of_nat i) = 4096 * unat (ppn_0 p) + i"
proof -
  have "4096 * unat (ppn_0 p) + i < 2 ^ 64"
    using assms by (simp add: ppn_ok_def)
  then show ?thesis
    using unat_page_base [OF assms(1)] assms(2)
    by (simp add: unat_word_ariths unat_of_nat_usize)
qed

lemma unat_sub_far:
  fixes u a :: usize
  assumes "unat u < unat a \<or> unat a + n \<le> unat u" "unat a + n \<le> 2 ^ 64 + unat u"
  shows "n \<le> unat (u - a)"
  using assms by (auto simp: unat_sub_if_size word_size)

lemma disjoint_pages:
  assumes "ppn_ok p" "ppn_ok q" "p \<noteq> q" "i + n \<le> 4096" "j + k \<le> 4096"
  shows "disjoint_regions (pa_0 (PhysAddr_from_PhysPageNum p) + of_nat i) n
           (pa_0 (PhysAddr_from_PhysPageNum q) + of_nat j) k"
  unfolding disjoint_regions_def
proof (intro allI impI)
  fix x
  assume x: "x < k"
  let ?a = "pa_0 (PhysAddr_from_PhysPageNum p) + of_nat i"
  let ?b = "pa_0 (PhysAddr_from_PhysPageNum q) + of_nat (j + x)"
  show "n \<le> unat (pa_0 (PhysAddr_from_PhysPageNum q) + of_nat j + of_nat x - ?a)"
  proof (cases "n = 0")
    case False
    have a: "unat ?a = 4096 * unat (ppn_0 p) + i"
      using assms False by (intro unat_in_page) auto
    have b: "unat ?b = 4096 * unat (ppn_0 q) + (j + x)"
      using assms x by (intro unat_in_page) auto
    have ne: "unat (ppn_0 p) \<noteq> unat (ppn_0 q)"
      using assms(3) by (metis PhysPageNum.expand word_unat_eq_iff)
    have "n \<le> unat (?b - ?a)"
      using assms ne x a b by (intro unat_sub_far) (auto simp: ppn_ok_def)
    then show ?thesis by (simp add: add.assoc)
  qed simp
qed

lemma disjoint_in_page:
  assumes "ppn_ok p" "i + n \<le> 4096" "j + k \<le> 4096" "i + n \<le> j \<or> j + k \<le> i"
  shows "disjoint_regions (pa_0 (PhysAddr_from_PhysPageNum p) + of_nat i) n
           (pa_0 (PhysAddr_from_PhysPageNum p) + of_nat j) k"
  unfolding disjoint_regions_def
proof (intro allI impI)
  fix x
  assume x: "x < k"
  let ?a = "pa_0 (PhysAddr_from_PhysPageNum p) + of_nat i"
  let ?b = "pa_0 (PhysAddr_from_PhysPageNum p) + of_nat (j + x)"
  show "n \<le> unat (pa_0 (PhysAddr_from_PhysPageNum p) + of_nat j + of_nat x - ?a)"
  proof (cases "n = 0")
    case False
    have a: "unat ?a = 4096 * unat (ppn_0 p) + i"
      using assms False by (intro unat_in_page) auto
    have b: "unat ?b = 4096 * unat (ppn_0 p) + (j + x)"
      using assms x by (intro unat_in_page) auto
    have "n \<le> unat (?b - ?a)"
      using assms x a b by (intro unat_sub_far) (auto simp: ppn_ok_def)
    then show ?thesis by (simp add: add.assoc)
  qed simp
qed

end
