(* ===== verification/Frame_Allocator.thy ===== *)
theory Frame_Allocator
  imports Id_Allocator Phys_Mem
begin

text \<open>
  The physical frame allocator (\<^verbatim>\<open>os/src/mm/frame_allocator.rs\<close>). A bump pointer and a stack of
  recycled frames hand out page numbers between the end of the kernel image and the end of memory; a
  \<open>FrameTracker\<close> clears the page it is made for and gives it back when it is dropped. The allocator meets
  the contract \<open>id_allocator\<close>, with the first managed frame as a parameter, since the code does not record it.
\<close>

section \<open>The stack frame allocator\<close>

definition MEMORY_END :: usize where "MEMORY_END = 0x88000000"

record StackFrameAllocator =
  sfa_current :: usize
  sfa_end :: usize
  sfa_recycled :: "usize list"

definition StackFrameAllocator_new :: StackFrameAllocator where
  "StackFrameAllocator_new = \<lparr>sfa_current = 0, sfa_end = 0, sfa_recycled = []\<rparr>"

definition StackFrameAllocator_init ::
  "StackFrameAllocator \<Rightarrow> PhysPageNum \<Rightarrow> PhysPageNum \<Rightarrow> StackFrameAllocator" where
  "StackFrameAllocator_init s l r = s\<lparr>sfa_current := ppn_0 l, sfa_end := ppn_0 r\<rparr>"

definition StackFrameAllocator_alloc ::
  "StackFrameAllocator \<Rightarrow> PhysPageNum option \<times> StackFrameAllocator" where
  "StackFrameAllocator_alloc s =
     (case vec_pop (sfa_recycled s) of
        Some (ppn, rest) \<Rightarrow> (Some (PhysPageNum_from ppn), s\<lparr>sfa_recycled := rest\<rparr>)
      | None \<Rightarrow>
          if sfa_current s = sfa_end s then (None, s)
          else (let s' = s\<lparr>sfa_current := sfa_current s + 1\<rparr>
                in (Some (PhysPageNum_from (sfa_current s' - 1)), s')))"

definition StackFrameAllocator_dealloc ::
  "StackFrameAllocator \<Rightarrow> PhysPageNum \<Rightarrow> StackFrameAllocator outcome" where
  "StackFrameAllocator_dealloc s p =
     (let ppn = ppn_0 p in
      if ppn \<ge> sfa_current s \<or> list_ex (\<lambda>v. v = ppn) (sfa_recycled s) then Inl ExplicitPanic
      else Inr (s\<lparr>sfa_recycled := sfa_recycled s @ [ppn]\<rparr>))"

text \<open>\<open>ekernel\<close> is the linker's symbol for the end of the kernel image.\<close>

definition init_frame_allocator :: "usize \<Rightarrow> StackFrameAllocator \<Rightarrow> StackFrameAllocator" where
  "init_frame_allocator ekernel s =
     StackFrameAllocator_init s (PhysAddr_ceil (PhysAddr_from ekernel))
       (PhysAddr_floor (PhysAddr_from MEMORY_END))"

section \<open>Frame trackers and the memory they own\<close>

text \<open>\<open>FRAME_ALLOCATOR\<close> and physical memory, the global state of the memory subsystem.\<close>

record mm =
  frame_allocator :: StackFrameAllocator
  phys :: mem

datatype FrameTracker = FrameTracker (ft_ppn: PhysPageNum)

definition FrameTracker_new :: "mem \<Rightarrow> PhysPageNum \<Rightarrow> FrameTracker \<times> mem" where
  "FrameTracker_new m ppn = (FrameTracker ppn, set_bytes_array m ppn (replicate 4096 0))"

definition frame_alloc :: "mm \<Rightarrow> FrameTracker option \<times> mm" where
  "frame_alloc s =
     (case StackFrameAllocator_alloc (frame_allocator s) of
        (None, fa) \<Rightarrow> (None, s\<lparr>frame_allocator := fa\<rparr>)
      | (Some ppn, fa) \<Rightarrow>
          (case FrameTracker_new (phys s) ppn of
             (ft, m) \<Rightarrow> (Some ft, s\<lparr>frame_allocator := fa, phys := m\<rparr>)))"

definition frame_dealloc :: "mm \<Rightarrow> PhysPageNum \<Rightarrow> mm outcome" where
  "frame_dealloc s ppn =
     and_then (StackFrameAllocator_dealloc (frame_allocator s) ppn) (\<lambda>fa.
     Inr (s\<lparr>frame_allocator := fa\<rparr>))"

definition FrameTracker_drop :: "mm \<Rightarrow> FrameTracker \<Rightarrow> mm outcome" where
  "FrameTracker_drop s ft = frame_dealloc s (ft_ppn ft)"

section \<open>The contract\<close>

definition sfa_invar :: "usize \<Rightarrow> StackFrameAllocator \<Rightarrow> bool" where
  "sfa_invar l s \<longleftrightarrow>
     l \<le> sfa_current s \<and> sfa_current s \<le> sfa_end s \<and> unat (sfa_end s) \<le> 2 ^ 44 \<and>
     distinct (sfa_recycled s) \<and> (\<forall>i \<in> set (sfa_recycled s). l \<le> i \<and> i < sfa_current s)"

definition sfa_live :: "usize \<Rightarrow> StackFrameAllocator \<Rightarrow> usize set" where
  "sfa_live l s = {i. l \<le> i \<and> i < sfa_current s} - set (sfa_recycled s)"

definition sfa_free :: "StackFrameAllocator \<Rightarrow> nat" where
  "sfa_free s = length (sfa_recycled s) + (unat (sfa_end s) - unat (sfa_current s))"

definition sfa_alloc :: "StackFrameAllocator \<Rightarrow> (usize \<times> StackFrameAllocator) option" where
  "sfa_alloc s = (case StackFrameAllocator_alloc s of
     (None, _) \<Rightarrow> None | (Some p, s') \<Rightarrow> Some (ppn_0 p, s'))"

definition sfa_dealloc :: "StackFrameAllocator \<Rightarrow> usize \<Rightarrow> StackFrameAllocator outcome" where
  "sfa_dealloc s i = StackFrameAllocator_dealloc s (PhysPageNum i)"

lemma PhysPageNum_from_small: "unat v < 2 ^ 44 \<Longrightarrow> PhysPageNum_from v = PhysPageNum v"
  by (simp add: PhysPageNum_from_bits word_unat_eq_iff unat_take_bit_usize)

lemma sfa_dealloc_Inr [panic_simps]:
  "sfa_dealloc s i = Inr s' \<longleftrightarrow>
     i < sfa_current s \<and> i \<notin> set (sfa_recycled s) \<and> s' = s\<lparr>sfa_recycled := sfa_recycled s @ [i]\<rparr>"
  by (auto simp: sfa_dealloc_def StackFrameAllocator_dealloc_def list_ex_iff Let_def)

lemma sfa_alloc_recycled:
  assumes "sfa_recycled s = ys @ [y]" "unat y < 2 ^ 44"
  shows "sfa_alloc s = Some (y, s\<lparr>sfa_recycled := ys\<rparr>)"
  using assms by (simp add: sfa_alloc_def StackFrameAllocator_alloc_def PhysPageNum_from_small)

lemma sfa_alloc_fresh:
  assumes "sfa_recycled s = []" "unat (sfa_current s) < 2 ^ 44" "sfa_current s \<noteq> sfa_end s"
  shows "sfa_alloc s = Some (sfa_current s, s\<lparr>sfa_current := sfa_current s + 1\<rparr>)"
  using assms by (simp add: sfa_alloc_def StackFrameAllocator_alloc_def PhysPageNum_from_small Let_def)

lemma sfa_alloc_cases:
  assumes inv: "sfa_invar l s" and fr: "0 < sfa_free s"
  obtains ys y where "sfa_recycled s = ys @ [y]" "l \<le> y" "y < sfa_current s"
      "sfa_alloc s = Some (y, s\<lparr>sfa_recycled := ys\<rparr>)"
    | "sfa_recycled s = []" "sfa_current s < sfa_end s" "sfa_current s \<noteq> - 1"
      "sfa_alloc s = Some (sfa_current s, s\<lparr>sfa_current := sfa_current s + 1\<rparr>)"
proof (cases "sfa_recycled s = []")
  case True
  have lt: "sfa_current s < sfa_end s"
    using fr True by (simp add: sfa_free_def word_less_nat_alt)
  have c: "unat (sfa_current s) < 2 ^ 44"
    using inv lt by (simp add: sfa_invar_def word_less_nat_alt)
  then have "sfa_current s \<noteq> - 1" by (intro notI) simp
  moreover have "sfa_alloc s = Some (sfa_current s, s\<lparr>sfa_current := sfa_current s + 1\<rparr>)"
    using True c lt by (intro sfa_alloc_fresh) auto
  ultimately show ?thesis using that(2) True lt by simp
next
  case False
  then obtain ys y where r: "sfa_recycled s = ys @ [y]" by (metis rev_exhaust)
  then have y: "l \<le> y" "y < sfa_current s" using inv by (auto simp: sfa_invar_def)
  have "unat y < 2 ^ 44"
    using inv y(2) unfolding sfa_invar_def word_less_nat_alt word_le_nat_alt by linarith
  with r have "sfa_alloc s = Some (y, s\<lparr>sfa_recycled := ys\<rparr>)"
    by (rule sfa_alloc_recycled)
  with r y show ?thesis by (rule that(1))
qed

lemma sfa_alloc_spec:
  assumes "sfa_invar l s" "0 < sfa_free s" "sfa_alloc s = Some (i, s')"
  shows "sfa_invar l s' \<and> i \<notin> sfa_live l s \<and> sfa_live l s' = insert i (sfa_live l s) \<and>
         Suc (sfa_free s') = sfa_free s"
  using assms(1,2)
proof (cases rule: sfa_alloc_cases)
  case (1 ys y)
  with assms show ?thesis
    by (auto simp: sfa_invar_def sfa_live_def sfa_free_def)
next
  case 2
  let ?c = "sfa_current s"
  have s': "i = ?c" "s' = s\<lparr>sfa_current := ?c + 1\<rparr>" using 2 assms(3) by auto
  have lc: "l \<le> ?c" using assms(1) by (simp add: sfa_invar_def)
  have suc: "unat (?c + 1) = Suc (unat ?c)" using 2(3) by (rule unat_plus_one)
  have "?c + 1 \<le> sfa_end s" "l \<le> ?c + 1"
    using 2(2) lc suc by (simp_all add: word_le_nat_alt word_less_nat_alt)
  then have "sfa_invar l s'"
    using assms(1) 2(1) s' by (simp add: sfa_invar_def)
  moreover have "i \<notin> sfa_live l s \<and> sfa_live l s' = insert i (sfa_live l s)"
    using s' 2(1) lc by (auto simp: sfa_live_def less_plus_one_word [OF 2(3)])
  moreover have "Suc (sfa_free s') = sfa_free s"
    using s' 2(1,2) suc by (simp add: sfa_free_def word_less_nat_alt)
  ultimately show ?thesis by simp
qed

interpretation frames: id_allocator "sfa_invar l" "sfa_live l" sfa_free sfa_alloc sfa_dealloc for l
proof (standard, goal_cases)
  case (1 s)
  then show ?case by (cases rule: sfa_alloc_cases) blast+
next
  case (2 s i s')
  then show ?case by (rule sfa_alloc_spec)
next
  case (3 s i)
  then show ?case by (auto simp: sfa_invar_def sfa_live_def sfa_free_def panic_simps)
next
  case (4 s i s')
  then have "s' = s\<lparr>sfa_recycled := sfa_recycled s @ [i]\<rparr>" by (simp add: panic_simps)
  then show ?case
    by (simp add: sfa_dealloc_def StackFrameAllocator_dealloc_def Let_def)
next
  case (5 s i s')
  then have "unat i < 2 ^ 44"
    by (auto simp: sfa_invar_def sfa_live_def word_less_nat_alt word_le_nat_alt)
  with 5 show ?case
    by (simp add: panic_simps sfa_alloc_recycled)
qed

section \<open>Frames of the running kernel\<close>

lemma PhysAddr_ceil_unat:
  assumes "unat (pa_0 a) + 4095 < 2 ^ 64"
  shows "unat (ppn_0 (PhysAddr_ceil a)) = (unat (pa_0 a) + 4095) div 4096"
proof -
  have "pa_0 a - 1 + PAGE_SIZE = pa_0 a + 4095" by (simp add: PAGE_SIZE_def)
  moreover have "unat (pa_0 a + 4095) = unat (pa_0 a) + 4095"
    using assms by (simp add: unat_word_ariths)
  ultimately show ?thesis
    by (simp only: PhysAddr_ceil_def PhysPageNum.sel div_PAGE_SIZE unat_drop_bit_usize) simp
qed

lemma init_frame_allocator_fields:
  assumes "ekernel \<le> MEMORY_END"
  shows "unat (sfa_current (init_frame_allocator ekernel s)) = (unat ekernel + 4095) div 4096"
    "sfa_end (init_frame_allocator ekernel s) = 0x88000"
    "sfa_recycled (init_frame_allocator ekernel s) = sfa_recycled s"
proof -
  have e: "unat ekernel \<le> 2281701376"
    using assms by (simp add: MEMORY_END_def word_le_nat_alt)
  then have "take_bit 56 ekernel = ekernel"
    by (simp add: word_unat_eq_iff unat_take_bit_usize)
  then show "unat (sfa_current (init_frame_allocator ekernel s)) = (unat ekernel + 4095) div 4096"
    using e PhysAddr_ceil_unat [of "PhysAddr_from ekernel"]
    by (simp add: init_frame_allocator_def StackFrameAllocator_init_def PhysAddr_from_bits)
  show "sfa_end (init_frame_allocator ekernel s) = 0x88000"
    by (simp add: init_frame_allocator_def StackFrameAllocator_init_def PhysAddr_floor_def
        PhysAddr_from_def address_consts MEMORY_END_def)
  show "sfa_recycled (init_frame_allocator ekernel s) = sfa_recycled s"
    by (simp add: init_frame_allocator_def StackFrameAllocator_init_def)
qed

lemma init_frame_allocator_invar:
  assumes "ekernel \<le> MEMORY_END"
  defines "s \<equiv> init_frame_allocator ekernel StackFrameAllocator_new"
  shows "sfa_invar (sfa_current s) s" "sfa_live (sfa_current s) s = {}"
    "sfa_free s = 0x88000 - (unat ekernel + 4095) div 4096"
proof -
  have "unat ekernel \<le> 2281701376"
    using assms(1) by (simp add: MEMORY_END_def word_le_nat_alt)
  then show "sfa_invar (sfa_current s) s"
    using init_frame_allocator_fields [OF assms(1), of StackFrameAllocator_new]
    by (simp add: s_def sfa_invar_def word_le_nat_alt StackFrameAllocator_new_def)
  show "sfa_live (sfa_current s) s = {}" by (auto simp: sfa_live_def)
  show "sfa_free s = 0x88000 - (unat ekernel + 4095) div 4096"
    using init_frame_allocator_fields [OF assms(1), of StackFrameAllocator_new]
    by (simp add: s_def sfa_free_def StackFrameAllocator_new_def)
qed

text \<open>
  The code's validity check compares with \<open>current\<close> only, so it accepts a frame number below the first
  managed frame, one the allocator never handed out.
\<close>

lemma dealloc_accepts_kernel_frame:
  "StackFrameAllocator_dealloc (init_frame_allocator 0x80400000 StackFrameAllocator_new) (PhysPageNum 0x80200)
     = Inr ((init_frame_allocator 0x80400000 StackFrameAllocator_new)\<lparr>sfa_recycled := [0x80200]\<rparr>)"
  by (simp add: StackFrameAllocator_dealloc_def init_frame_allocator_def StackFrameAllocator_init_def
      StackFrameAllocator_new_def PhysAddr_ceil_def PhysAddr_floor_def PhysAddr_from_def
      address_consts Let_def)

section \<open>A fresh frame is clean\<close>

lemma length_get_bytes_array [simp]: "length (get_bytes_array m p) = 4096"
  by (simp add: get_bytes_array_def)

lemma get_set_bytes_array_same: "length bs = 4096 \<Longrightarrow> get_bytes_array (set_bytes_array m p bs) p = bs"
  by (simp add: get_bytes_array_def set_bytes_array_def read_bytes_write_same)

lemma get_set_bytes_array_other:
  assumes "ppn_ok p" "ppn_ok q" "p \<noteq> q" "length bs \<le> 4096"
  shows "get_bytes_array (set_bytes_array m p bs) q = get_bytes_array m q"
  using disjoint_pages [of p q 0 "length bs" 0 4096] assms
  by (simp add: get_bytes_array_def set_bytes_array_def read_bytes_write_other)

definition mm_ok :: "usize \<Rightarrow> mm \<Rightarrow> bool" where
  "mm_ok l s \<longleftrightarrow> sfa_invar l (frame_allocator s)"

definition mm_live :: "usize \<Rightarrow> mm \<Rightarrow> PhysPageNum set" where
  "mm_live l s = {p. ppn_0 p \<in> sfa_live l (frame_allocator s)}"

definition mm_free :: "mm \<Rightarrow> nat" where
  "mm_free s = sfa_free (frame_allocator s)"

lemma mm_live_ppn_ok: "mm_ok l s \<Longrightarrow> p \<in> mm_live l s \<Longrightarrow> ppn_ok p"
  unfolding mm_ok_def mm_live_def sfa_invar_def sfa_live_def ppn_ok_def word_le_nat_alt
    word_less_nat_alt mem_Collect_eq Diff_iff by linarith

lemma frame_alloc_spec:
  assumes "mm_ok l s" "0 < mm_free s"
  obtains f s' where "frame_alloc s = (Some (FrameTracker f), s')" "mm_ok l s'"
    "f \<notin> mm_live l s" "mm_live l s' = insert f (mm_live l s)" "Suc (mm_free s') = mm_free s"
    "phys s' = set_bytes_array (phys s) f (replicate 4096 0)"
proof -
  obtain i fa where al: "sfa_alloc (frame_allocator s) = Some (i, fa)"
    using frames.alloc_total [of l "frame_allocator s"] assms by (auto simp: mm_ok_def mm_free_def)
  then have fa: "sfa_invar l fa" "i \<notin> sfa_live l (frame_allocator s)"
      "sfa_live l fa = insert i (sfa_live l (frame_allocator s))"
      "Suc (sfa_free fa) = sfa_free (frame_allocator s)"
    using sfa_alloc_spec assms by (auto simp: mm_ok_def mm_free_def)
  obtain p where p: "StackFrameAllocator_alloc (frame_allocator s) = (Some p, fa)" "i = ppn_0 p"
    using al by (auto simp: sfa_alloc_def split: prod.splits option.splits)
  show ?thesis
    by (rule that [of p "s\<lparr>frame_allocator := fa, phys := set_bytes_array (phys s) p (replicate 4096 0)\<rparr>"])
      (use p fa in \<open>auto simp: frame_alloc_def FrameTracker_new_def mm_ok_def mm_live_def mm_free_def
        dest: PhysPageNum.expand\<close>)
qed

lemma frame_dealloc_spec:
  assumes "mm_ok l s" "p \<in> mm_live l s"
  obtains s' where "frame_dealloc s p = Inr s'" "mm_ok l s'" "mm_live l s' = mm_live l s - {p}"
    "mm_free s' = Suc (mm_free s)" "phys s' = phys s"
proof -
  obtain fa where "sfa_dealloc (frame_allocator s) (ppn_0 p) = Inr fa" "sfa_invar l fa"
      "sfa_live l fa = sfa_live l (frame_allocator s) - {ppn_0 p}"
      "sfa_free fa = Suc (sfa_free (frame_allocator s))"
    using frames.dealloc_spec [of l "frame_allocator s" "ppn_0 p"] assms
    by (auto simp: mm_ok_def mm_live_def)
  then show ?thesis
    by (intro that [of "s\<lparr>frame_allocator := fa\<rparr>"])
      (auto simp: frame_dealloc_def sfa_dealloc_def mm_ok_def mm_live_def mm_free_def
        dest: PhysPageNum.expand)
qed

text \<open>
  C21. \<open>frame_alloc\<close> hands out a frame nobody owns, with all 4096 bytes cleared, and leaves the bytes of
  every frame in use as they were.
\<close>
theorem frame_alloc_fresh_and_clear:
  assumes "mm_ok l s" "0 < mm_free s"
  shows "\<exists>f s'. frame_alloc s = (Some (FrameTracker f), s') \<and> f \<notin> mm_live l s \<and>
           get_bytes_array (phys s') f = replicate 4096 0 \<and>
           (\<forall>q \<in> mm_live l s. get_bytes_array (phys s') q = get_bytes_array (phys s) q)"
  using assms
proof (cases rule: frame_alloc_spec)
  case (1 f s')
  have ok: "ppn_ok q" if "q \<in> mm_live l s'" for q
    using that 1(2) mm_live_ppn_ok by blast
  have "get_bytes_array (phys s') q = get_bytes_array (phys s) q" if q: "q \<in> mm_live l s" for q
  proof -
    have "q \<noteq> f" using q 1(3) by blast
    then show ?thesis
      using 1(4,6) ok q get_set_bytes_array_other [of f q] by auto
  qed
  then show ?thesis using 1 by (auto simp: get_set_bytes_array_same)
qed

theorem frame_alloc_fresh_and_clear_witness:
  "\<exists>f s'. frame_alloc \<lparr>frame_allocator = \<lparr>sfa_current = 5, sfa_end = 9, sfa_recycled = []\<rparr>, phys = (\<lambda>_. 7)\<rparr>
        = (Some (FrameTracker f), s') \<and> get_bytes_array (phys s') f = replicate 4096 0"
proof -
  let ?s = "\<lparr>frame_allocator = \<lparr>sfa_current = 5, sfa_end = 9, sfa_recycled = []\<rparr>, phys = (\<lambda>_. 7)\<rparr> :: mm"
  have "mm_ok 5 ?s" by (simp add: mm_ok_def sfa_invar_def)
  moreover have "0 < mm_free ?s" by (simp add: mm_free_def sfa_free_def)
  ultimately show ?thesis using frame_alloc_fresh_and_clear by blast
qed

section \<open>Runs of the frame allocator\<close>

text \<open>
  A client of \<open>frame_alloc\<close>: it keeps the trackers it gets, goes on without one when there is no frame
  left, and drops trackers it owns, in any order.
\<close>

fun frame_run :: "alloc_op list \<Rightarrow> mm \<times> FrameTracker list \<Rightarrow> (mm \<times> FrameTracker list) outcome" where
  "frame_run [] (s, owned) = Inr (s, owned)"
| "frame_run (Alloc # ops) (s, owned) =
     (case frame_alloc s of
        (None, s') \<Rightarrow> frame_run ops (s', owned)
      | (Some ft, s') \<Rightarrow> frame_run ops (s', owned @ [ft]))"
| "frame_run (Drop k # ops) (s, owned) =
     (if k < length owned
      then and_then (FrameTracker_drop s (owned ! k)) (\<lambda>s'. frame_run ops (s', remove_at k owned))
      else frame_run ops (s, owned))"

definition frames_owned :: "usize \<Rightarrow> usize \<Rightarrow> nat \<Rightarrow> mm \<Rightarrow> FrameTracker list \<Rightarrow> bool" where
  "frames_owned l r n s owned \<longleftrightarrow>
     mm_ok l s \<and> sfa_end (frame_allocator s) = r \<and> distinct owned \<and>
     ft_ppn ` set owned = mm_live l s \<and> length owned + mm_free s = n"

lemma frame_alloc_exhausted:
  assumes "mm_ok l s" "mm_free s = 0"
  shows "frame_alloc s = (None, s)"
proof -
  have "sfa_recycled (frame_allocator s) = []" "sfa_current (frame_allocator s) = sfa_end (frame_allocator s)"
    using assms unfolding mm_ok_def mm_free_def sfa_invar_def sfa_free_def word_le_nat_alt
      word_unat_eq_iff add_is_0 length_0_conv by simp_all
  then show ?thesis by (simp add: frame_alloc_def StackFrameAllocator_alloc_def)
qed

lemma frame_alloc_end:
  "frame_alloc s = (r, s') \<Longrightarrow> sfa_end (frame_allocator s') = sfa_end (frame_allocator s)"
  by (auto simp: frame_alloc_def FrameTracker_new_def StackFrameAllocator_alloc_def Let_def
      split: option.splits if_splits prod.splits)

lemma frame_dealloc_end:
  "frame_dealloc s p = Inr s' \<Longrightarrow> sfa_end (frame_allocator s') = sfa_end (frame_allocator s)"
  by (auto simp: frame_dealloc_def StackFrameAllocator_dealloc_def panic_simps Let_def
      split: if_splits)

lemma frames_owned_alloc:
  assumes "frames_owned l r n s owned" "0 < mm_free s"
  obtains f s' where "frame_alloc s = (Some f, s')" "frames_owned l r n s' (owned @ [f])"
proof -
  obtain p s' where al: "frame_alloc s = (Some (FrameTracker p), s')" and s': "mm_ok l s'"
      "p \<notin> mm_live l s" "mm_live l s' = insert p (mm_live l s)" "Suc (mm_free s') = mm_free s"
    using assms by (auto simp: frames_owned_def elim: frame_alloc_spec)
  have "frames_owned l r n s' (owned @ [FrameTracker p])"
    using assms(1) s' frame_alloc_end [OF al] by (force simp: frames_owned_def)
  then show ?thesis using al by (rule that [rotated])
qed

lemma frames_owned_drop:
  assumes own: "frames_owned l r n s owned" and k: "k < length owned"
  obtains s' where "FrameTracker_drop s (owned ! k) = Inr s'" "frames_owned l r n s' (remove_at k owned)"
proof -
  let ?p = "ft_ppn (owned ! k)"
  have d: "distinct owned" and live: "ft_ppn ` set owned = mm_live l s"
    using own by (simp_all add: frames_owned_def)
  have "?p \<in> mm_live l s" using k live by (metis imageI nth_mem)
  then obtain s' where de: "frame_dealloc s ?p = Inr s'" and s': "mm_ok l s'"
      "mm_live l s' = mm_live l s - {?p}" "mm_free s' = Suc (mm_free s)"
    using own by (auto simp: frames_owned_def elim: frame_dealloc_spec)
  have "inj_on ft_ppn (set owned)" by (auto intro: inj_onI FrameTracker.expand)
  then have "ft_ppn ` (set owned - {owned ! k}) = mm_live l s - {?p}"
    using k live by (subst inj_on_image_set_diff [of ft_ppn "set owned"]) auto
  then have "frames_owned l r n s' (remove_at k owned)"
    using own s' k frame_dealloc_end [OF de] distinct_remove_at [OF d k] set_remove_at [OF d k]
    by (simp add: frames_owned_def remove_at_def)
  then show ?thesis using de that by (simp add: FrameTracker_drop_def)
qed

lemma frame_run_owned:
  "frames_owned l r n s owned \<Longrightarrow>
     \<exists>s' owned'. frame_run ops (s, owned) = Inr (s', owned') \<and> frames_owned l r n s' owned'"
proof (induction ops arbitrary: s owned)
  case (Cons x ops)
  show ?case
  proof (cases x)
    case Alloc
    show ?thesis
    proof (cases "mm_free s = 0")
      case True
      then have "frame_alloc s = (None, s)"
        using Cons.prems by (auto simp: frames_owned_def intro: frame_alloc_exhausted)
      then show ?thesis using Alloc Cons by simp
    next
      case False
      then obtain f s' where "frame_alloc s = (Some f, s')" "frames_owned l r n s' (owned @ [f])"
        using Cons.prems by (auto elim: frames_owned_alloc)
      then show ?thesis using Alloc Cons.IH by simp
    qed
  next
    case (Drop k)
    show ?thesis
      using Drop Cons by (cases "k < length owned") (auto elim: frames_owned_drop)
  qed
qed simp

lemma frames_owned_bounds:
  assumes "frames_owned l r n s owned" "f \<in> set owned"
  shows "unat l \<le> unat (ppn_0 (ft_ppn f))" "unat (ppn_0 (ft_ppn f)) < unat r"
proof -
  have "ft_ppn f \<in> mm_live l s" using assms by (auto simp: frames_owned_def)
  then show "unat l \<le> unat (ppn_0 (ft_ppn f))" "unat (ppn_0 (ft_ppn f)) < unat r"
    using assms(1) unfolding frames_owned_def mm_ok_def mm_live_def sfa_invar_def sfa_live_def
      word_le_nat_alt word_less_nat_alt by auto
qed

lemma frames_owned_none:
  assumes "frames_owned l r n s owned"
  shows "fst (frame_alloc s) = None \<longleftrightarrow> length owned = n"
proof (cases "mm_free s = 0")
  case True
  then show ?thesis using assms frame_alloc_exhausted by (fastforce simp: frames_owned_def)
next
  case False
  moreover have "length owned \<noteq> n" using False assms by (simp add: frames_owned_def)
  ultimately show ?thesis using assms by (auto elim: frames_owned_alloc)
qed

text \<open>
  C3. After \<open>init_frame_allocator\<close>, whatever sequence of \<open>frame_alloc\<close> calls and drops of owned trackers
  follows, of any length and past the point where memory runs out: nothing panics, the frames owned by
  live \<open>FrameTracker\<close>s are pairwise different, lie above the kernel image and end below \<open>MEMORY_END\<close>,
  and \<open>frame_alloc\<close> returns \<open>None\<close> exactly when all frames between the two are owned.
\<close>
theorem frame_allocations_disjoint:
  assumes "ekernel \<le> MEMORY_END"
  shows "\<exists>s owned. frame_run ops
             (\<lparr>frame_allocator = init_frame_allocator ekernel StackFrameAllocator_new, phys = m\<rparr>, [])
             = Inr (s, owned) \<and>
           distinct (map ft_ppn owned) \<and>
           (\<forall>f \<in> set owned. unat ekernel \<le> 4096 * unat (ppn_0 (ft_ppn f)) \<and>
              4096 * unat (ppn_0 (ft_ppn f)) + 4096 \<le> unat MEMORY_END) \<and>
           (fst (frame_alloc s) = None \<longleftrightarrow>
              length owned = unat MEMORY_END div 4096 - (unat ekernel + 4095) div 4096)"
proof -
  let ?fa = "init_frame_allocator ekernel StackFrameAllocator_new"
  let ?s0 = "\<lparr>frame_allocator = ?fa, phys = m\<rparr>"
  let ?l = "sfa_current ?fa" and ?n = "unat MEMORY_END div 4096 - (unat ekernel + 4095) div 4096"
  have "frames_owned ?l 0x88000 ?n ?s0 []"
    using init_frame_allocator_invar [OF assms] init_frame_allocator_fields(2) [OF assms]
    by (simp add: frames_owned_def mm_ok_def mm_live_def mm_free_def MEMORY_END_def)
  then obtain s owned where run: "frame_run ops (?s0, []) = Inr (s, owned)"
    and own: "frames_owned ?l 0x88000 ?n s owned"
    using frame_run_owned by blast
  have "unat ekernel \<le> 4096 * unat (ppn_0 (ft_ppn f)) \<and>
      4096 * unat (ppn_0 (ft_ppn f)) + 4096 \<le> unat MEMORY_END" if "f \<in> set owned" for f
    using frames_owned_bounds [OF own that] init_frame_allocator_fields(1) [OF assms, of StackFrameAllocator_new]
    by (simp add: MEMORY_END_def)
  moreover have "distinct (map ft_ppn owned)"
    using own by (auto simp: frames_owned_def distinct_map intro: inj_onI FrameTracker.expand)
  ultimately show ?thesis
    using run frames_owned_none [OF own] by (intro exI [of _ s] exI [of _ owned]) simp
qed

text \<open>A memory of two frames, run past its end.\<close>

theorem frame_allocations_disjoint_witness:
  "\<exists>s owned. frame_run [Alloc, Alloc, Alloc, Drop 0, Alloc, Alloc]
       (\<lparr>frame_allocator = init_frame_allocator 0x87ffe000 StackFrameAllocator_new, phys = (\<lambda>_. 0)\<rparr>, [])
       = Inr (s, owned) \<and> distinct (map ft_ppn owned) \<and>
     (fst (frame_alloc s) = None \<longleftrightarrow> length owned = 2)"
proof -
  have h: "(0x87ffe000 :: usize) \<le> MEMORY_END" by (simp add: MEMORY_END_def)
  have n: "unat MEMORY_END div 4096 - (unat (0x87ffe000 :: usize) + 4095) div 4096 = 2"
    by (simp add: MEMORY_END_def)
  from frame_allocations_disjoint [OF h, of "[Alloc, Alloc, Alloc, Drop 0, Alloc, Alloc]" "\<lambda>_. 0"]
  show ?thesis unfolding n by (elim exE conjE) (intro exI conjI)
qed

end
