(* ===== verification/Page_Table.thy ===== *)
theory Page_Table
  imports Frame_Allocator
begin

text \<open>
  The SV39 page tables of \<^verbatim>\<open>os/src/mm/page_table.rs\<close>: entries, the walk that finds an entry, the walk
  that creates missing tables, \<open>map\<close>, \<open>unmap\<close>, \<open>translate\<close>, and the accesses to user memory that go
  through a page table given by its token. The tables live in physical memory. The main lemmas say that
  a page table refines a finite map from virtual page numbers to valid entries: \<open>map\<close> adds one binding,
  \<open>unmap\<close> removes one, and neither touches another page.
\<close>

section \<open>Entries\<close>

datatype PTEFlags = PTEFlags (flag_bits: u8)

definition PTE_V :: PTEFlags where "PTE_V = PTEFlags (push_bit 0 1)"
definition PTE_R :: PTEFlags where "PTE_R = PTEFlags (push_bit 1 1)"
definition PTE_W :: PTEFlags where "PTE_W = PTEFlags (push_bit 2 1)"
definition PTE_X :: PTEFlags where "PTE_X = PTEFlags (push_bit 3 1)"
definition PTE_U :: PTEFlags where "PTE_U = PTEFlags (push_bit 4 1)"
definition PTE_G :: PTEFlags where "PTE_G = PTEFlags (push_bit 5 1)"
definition PTE_A :: PTEFlags where "PTE_A = PTEFlags (push_bit 6 1)"
definition PTE_D :: PTEFlags where "PTE_D = PTEFlags (push_bit 7 1)"

definition flags_or :: "PTEFlags \<Rightarrow> PTEFlags \<Rightarrow> PTEFlags" where
  "flags_or a b = PTEFlags (flag_bits a OR flag_bits b)"

definition flags_and :: "PTEFlags \<Rightarrow> PTEFlags \<Rightarrow> PTEFlags" where
  "flags_and a b = PTEFlags (flag_bits a AND flag_bits b)"

definition all_flags :: PTEFlags where
  "all_flags = fold flags_or [PTE_R, PTE_W, PTE_X, PTE_U, PTE_G, PTE_A, PTE_D] PTE_V"

definition PTEFlags_from_bits :: "u8 \<Rightarrow> PTEFlags option" where
  "PTEFlags_from_bits b = (if b AND NOT (flag_bits all_flags) = 0 then Some (PTEFlags b) else None)"

text \<open>The eight flags cover all eight bits, so \<open>from_bits\<close> never fails and its \<open>unwrap\<close> never panics.\<close>

lemma PTEFlags_from_bits_total [simp]: "PTEFlags_from_bits b = Some (PTEFlags b)"
proof -
  have "flag_bits all_flags = - 1"
    by (simp add: all_flags_def flags_or_def PTE_V_def PTE_R_def PTE_W_def PTE_X_def PTE_U_def PTE_G_def
        PTE_A_def PTE_D_def)
  then show ?thesis by (simp add: PTEFlags_from_bits_def)
qed

record PageTableEntry =
  pte_bits :: usize

definition PageTableEntry_new :: "PhysPageNum \<Rightarrow> PTEFlags \<Rightarrow> PageTableEntry" where
  "PageTableEntry_new ppn flags = \<lparr>pte_bits = push_bit 10 (ppn_0 ppn) OR ucast (flag_bits flags)\<rparr>"

definition PageTableEntry_empty :: PageTableEntry where
  "PageTableEntry_empty = \<lparr>pte_bits = 0\<rparr>"

definition PageTableEntry_ppn :: "PageTableEntry \<Rightarrow> PhysPageNum" where
  "PageTableEntry_ppn e = PhysPageNum_from (drop_bit 10 (pte_bits e) AND (push_bit 44 1 - 1))"

definition PageTableEntry_flags :: "PageTableEntry \<Rightarrow> PTEFlags" where
  "PageTableEntry_flags e = the (PTEFlags_from_bits (ucast (pte_bits e)))"

definition PageTableEntry_is_valid :: "PageTableEntry \<Rightarrow> bool" where
  "PageTableEntry_is_valid e \<longleftrightarrow> flags_and (PageTableEntry_flags e) PTE_V \<noteq> PTEFlags 0"

definition PageTableEntry_readable :: "PageTableEntry \<Rightarrow> bool" where
  "PageTableEntry_readable e \<longleftrightarrow> flags_and (PageTableEntry_flags e) PTE_R \<noteq> PTEFlags 0"

definition PageTableEntry_writable :: "PageTableEntry \<Rightarrow> bool" where
  "PageTableEntry_writable e \<longleftrightarrow> flags_and (PageTableEntry_flags e) PTE_W \<noteq> PTEFlags 0"

definition PageTableEntry_executable :: "PageTableEntry \<Rightarrow> bool" where
  "PageTableEntry_executable e \<longleftrightarrow> flags_and (PageTableEntry_flags e) PTE_X \<noteq> PTEFlags 0"

section \<open>The page table\<close>

record PageTable =
  pt_root_ppn :: PhysPageNum
  pt_frames :: "FrameTracker list"

definition PageTable_new :: "mm \<Rightarrow> (PageTable \<times> mm) outcome" where
  "PageTable_new s =
     (case frame_alloc s of (r, s') \<Rightarrow>
        and_then (unwrap r) (\<lambda>frame.
        Inr (\<lparr>pt_root_ppn = ft_ppn frame, pt_frames = [frame]\<rparr>, s')))"

definition PageTable_from_token :: "usize \<Rightarrow> PageTable" where
  "PageTable_from_token satp =
     \<lparr>pt_root_ppn = PhysPageNum_from (satp AND (push_bit 44 1 - 1)), pt_frames = []\<rparr>"

definition read_pte :: "mem \<Rightarrow> usize \<Rightarrow> PageTableEntry" where
  "read_pte m a = \<lparr>pte_bits = read_u64 m a\<rparr>"

definition write_pte :: "mem \<Rightarrow> usize \<Rightarrow> PageTableEntry \<Rightarrow> mem" where
  "write_pte m a e = write_u64 m a (pte_bits e)"

text \<open>
  The loops of \<open>PageTable_find_pte_create\<close> and \<open>PageTable_find_pte\<close> over the enumerated indexes. A reference to an entry is
  the address of the entry.
\<close>

fun find_pte_create_loop ::
  "nat \<Rightarrow> usize list \<Rightarrow> PhysPageNum \<Rightarrow> PageTable \<Rightarrow> mm \<Rightarrow>
   (usize option \<times> PageTable \<times> mm) outcome" where
  "find_pte_create_loop i [] ppn pt s = Inr (None, pt, s)"
| "find_pte_create_loop i (idx # idxs) ppn pt s =
     and_then (pte_slot ppn idx) (\<lambda>pte.
     if i = 2 then Inr (Some pte, pt, s)
     else
       and_then
         (if \<not> PageTableEntry_is_valid (read_pte (phys s) pte)
          then (case frame_alloc s of (r, s1) \<Rightarrow>
                  and_then (unwrap r) (\<lambda>frame.
                  Inr (pt\<lparr>pt_frames := pt_frames pt @ [frame]\<rparr>,
                       s1\<lparr>phys := write_pte (phys s1) pte (PageTableEntry_new (ft_ppn frame) PTE_V)\<rparr>)))
          else Inr (pt, s))
         (\<lambda>(pt', s').
            find_pte_create_loop (Suc i) idxs (PageTableEntry_ppn (read_pte (phys s') pte)) pt' s'))"

definition PageTable_find_pte_create :: "PageTable \<Rightarrow> mm \<Rightarrow> VirtPageNum \<Rightarrow> (usize option \<times> PageTable \<times> mm) outcome" where
  "PageTable_find_pte_create pt s vpn = find_pte_create_loop 0 (VirtPageNum_indexes vpn) (pt_root_ppn pt) pt s"

fun find_pte_loop :: "nat \<Rightarrow> usize list \<Rightarrow> PhysPageNum \<Rightarrow> mem \<Rightarrow> usize option outcome" where
  "find_pte_loop i [] ppn m = Inr None"
| "find_pte_loop i (idx # idxs) ppn m =
     and_then (pte_slot ppn idx) (\<lambda>pte.
     if i = 2 then Inr (Some pte)
     else if \<not> PageTableEntry_is_valid (read_pte m pte) then Inr None
     else find_pte_loop (Suc i) idxs (PageTableEntry_ppn (read_pte m pte)) m)"

definition PageTable_find_pte :: "PageTable \<Rightarrow> mem \<Rightarrow> VirtPageNum \<Rightarrow> usize option outcome" where
  "PageTable_find_pte pt m vpn = find_pte_loop 0 (VirtPageNum_indexes vpn) (pt_root_ppn pt) m"

definition PageTable_map ::
  "PageTable \<Rightarrow> mm \<Rightarrow> VirtPageNum \<Rightarrow> PhysPageNum \<Rightarrow> PTEFlags \<Rightarrow> (PageTable \<times> mm) outcome" where
  "PageTable_map pt s vpn ppn flags =
     and_then (PageTable_find_pte_create pt s vpn) (\<lambda>(r, pt', s').
     and_then (unwrap r) (\<lambda>pte.
     and_then (assert_that (\<not> PageTableEntry_is_valid (read_pte (phys s') pte))) (\<lambda>_.
     Inr (pt', s'\<lparr>phys := write_pte (phys s') pte (PageTableEntry_new ppn (flags_or flags PTE_V))\<rparr>))))"

definition PageTable_unmap :: "PageTable \<Rightarrow> mm \<Rightarrow> VirtPageNum \<Rightarrow> mm outcome" where
  "PageTable_unmap pt s vpn =
     and_then (PageTable_find_pte pt (phys s) vpn) (\<lambda>r.
     and_then (unwrap r) (\<lambda>pte.
     and_then (assert_that (PageTableEntry_is_valid (read_pte (phys s) pte))) (\<lambda>_.
     Inr (s\<lparr>phys := write_pte (phys s) pte PageTableEntry_empty\<rparr>))))"

definition PageTable_translate :: "PageTable \<Rightarrow> mem \<Rightarrow> VirtPageNum \<Rightarrow> PageTableEntry option outcome" where
  "PageTable_translate pt m vpn = and_then (PageTable_find_pte pt m vpn) (\<lambda>r. Inr (map_option (read_pte m) r))"

definition PageTable_translate_va :: "PageTable \<Rightarrow> mem \<Rightarrow> VirtAddr \<Rightarrow> PhysAddr option outcome" where
  "PageTable_translate_va pt m va =
     and_then (PageTable_find_pte pt m (VirtAddr_floor va)) (\<lambda>r.
     Inr (map_option (\<lambda>pte.
       let aligned_pa = PhysAddr_from_PhysPageNum (PageTableEntry_ppn (read_pte m pte));
           offset = VirtAddr_page_offset va
       in PhysAddr_from (pa_0 aligned_pa + offset)) r))"

definition PageTable_token :: "PageTable \<Rightarrow> usize" where
  "PageTable_token pt = push_bit 60 8 OR ppn_0 (pt_root_ppn pt)"

section \<open>Entries encode a page number and flags\<close>

lemma and_mask_44: "x AND 17592186044415 = take_bit 44 (x :: usize)"
  by (simp add: take_bit_eq_mask mask_eq_exp_minus_1)

lemma pte_is_valid_bit: "PageTableEntry_is_valid e \<longleftrightarrow> bit (pte_bits e) 0"
proof -
  have "ucast (pte_bits e) AND 1 \<noteq> (0 :: u8) \<longleftrightarrow> bit (ucast (pte_bits e) :: u8) 0"
    by (metis and_one_eq bit_0 odd_iff_mod_2_eq_one parity_cases one_neq_zero even_iff_mod_2_eq_zero)
  then show ?thesis
    by (simp add: PageTableEntry_is_valid_def flags_and_def PageTableEntry_flags_def PTE_V_def bit_simps)
qed

lemma pte_ppn_bits: "PageTableEntry_ppn e = PhysPageNum (take_bit 44 (drop_bit 10 (pte_bits e)))"
  by (simp add: PageTableEntry_ppn_def PhysPageNum_from_bits and_mask_44)

lemma pte_ppn_ok [simp]: "ppn_ok (PageTableEntry_ppn e)"
  by (simp add: pte_ppn_bits ppn_ok_def unat_take_bit_usize)

lemma ppn_ok_take_bit: "ppn_ok p \<Longrightarrow> take_bit 44 (ppn_0 p) = ppn_0 p"
  by (simp add: ppn_ok_def word_unat_eq_iff unat_take_bit_usize)

lemma pte_new_ppn [simp]:
  assumes "ppn_ok p"
  shows "PageTableEntry_ppn (PageTableEntry_new p f) = p"
proof -
  have "take_bit 44 (drop_bit 10 (push_bit 10 (ppn_0 p) OR ucast (flag_bits f))) = take_bit 44 (ppn_0 p)"
  proof (rule bit_eqI)
    fix n
    have "\<not> bit (flag_bits f) (10 + n)" using bit_imp_le_length [of "flag_bits f" "10 + n"] by auto
    then show "bit (take_bit 44 (drop_bit 10 (push_bit 10 (ppn_0 p) OR ucast (flag_bits f)))) n =
        bit (take_bit 44 (ppn_0 p)) n"
      by (auto simp: bit_simps)
  qed
  then show ?thesis
    using ppn_ok_take_bit [OF assms] by (simp add: pte_ppn_bits PageTableEntry_new_def)
qed

lemma pte_new_flags [simp]: "PageTableEntry_flags (PageTableEntry_new p f) = f"
proof -
  have "ucast (push_bit 10 (ppn_0 p) OR ucast (flag_bits f)) = flag_bits f"
    by (rule bit_word_eqI) (simp add: bit_simps)
  then show ?thesis by (simp add: PageTableEntry_flags_def PageTableEntry_new_def)
qed

lemma pte_new_valid [simp]:
  "PageTableEntry_is_valid (PageTableEntry_new p f) \<longleftrightarrow> bit (flag_bits f) 0"
  by (simp add: pte_is_valid_bit PageTableEntry_new_def bit_simps)

lemma pte_empty_invalid [simp]: "\<not> PageTableEntry_is_valid PageTableEntry_empty"
  by (simp add: pte_is_valid_bit PageTableEntry_empty_def)

lemma flags_or_V_valid [simp]: "bit (flag_bits (flags_or f PTE_V)) 0" "bit (flag_bits PTE_V) 0"
  by (simp_all add: flags_or_def PTE_V_def bit_simps)

section \<open>Walking the tables\<close>

definition slot :: "PhysPageNum \<Rightarrow> usize \<Rightarrow> usize" where
  "slot t i = pa_0 (PhysAddr_from_PhysPageNum t) + 8 * i"

definition entry :: "mem \<Rightarrow> PhysPageNum \<Rightarrow> usize \<Rightarrow> PageTableEntry" where
  "entry m t i = read_pte m (slot t i)"

fun walk :: "mem \<Rightarrow> PhysPageNum \<Rightarrow> usize list \<Rightarrow> PhysPageNum option" where
  "walk m t [] = Some t"
| "walk m t (i # is) =
     (if PageTableEntry_is_valid (entry m t i) then walk m (PageTableEntry_ppn (entry m t i)) is
      else None)"

definition idx_ok :: "usize list \<Rightarrow> bool" where
  "idx_ok is \<longleftrightarrow> (\<forall>i \<in> set is. unat i < 512)"

lemma idx_ok_simps [simp]:
  "idx_ok []" "idx_ok (i # is) \<longleftrightarrow> unat i < 512 \<and> idx_ok is"
  "idx_ok (is @ js) \<longleftrightarrow> idx_ok is \<and> idx_ok js"
  by (auto simp: idx_ok_def)

lemma pte_slot_ok [simp]: "unat i < 512 \<Longrightarrow> pte_slot t i = Inr (slot t i)"
  by (simp add: pte_slot_def slot_def)

lemma walk_append:
  "walk m t (is @ js) = (case walk m t is of None \<Rightarrow> None | Some u \<Rightarrow> walk m u js)"
  by (induction "is" arbitrary: t) auto

lemma slot_of_nat: "slot t i = pa_0 (PhysAddr_from_PhysPageNum t) + of_nat (8 * unat i)"
  by (simp add: slot_def)

lemma entry_write_other:
  assumes "ppn_ok t" "ppn_ok u" "unat i < 512" "unat j < 512" "(t, i) \<noteq> (u, j)"
  shows "entry (write_pte m (slot t i) e) u j = entry m u j"
proof -
  have "disjoint_regions (slot t i) 8 (slot u j) 8"
  proof (cases "t = u")
    case True
    then have "unat i \<noteq> unat j" using assms(5) by (auto simp: word_unat_eq_iff)
    then show ?thesis
      unfolding slot_of_nat True
      using assms by (intro disjoint_in_page) auto
  next
    case False
    then show ?thesis
      unfolding slot_of_nat using assms by (intro disjoint_pages) auto
  qed
  then show ?thesis
    by (simp add: entry_def read_pte_def write_pte_def read_u64_write_other)
qed

lemma entry_write_same [simp]: "entry (write_pte m (slot t i) e) t i = e"
  by (simp add: entry_def read_pte_def write_pte_def)

lemma entry_clear_other:
  assumes "ppn_ok t" "ppn_ok u" "t \<noteq> u" "unat j < 512" "length bs \<le> 4096"
  shows "entry (set_bytes_array m t bs) u j = entry m u j"
  using disjoint_pages [of t u 0 "length bs" "8 * unat j" 8] assms
  by (simp add: entry_def read_pte_def read_u64_def set_bytes_array_def read_bytes_write_other slot_def)

lemma entry_clear_same:
  assumes "ppn_ok t" "unat j < 512"
  shows "entry (set_bytes_array m t (replicate 4096 0)) t j = PageTableEntry_empty"
proof -
  have "read_bytes (set_bytes_array m t (replicate 4096 0)) (slot t j) 8 = replicate 8 0"
  proof (rule nth_equalityI)
    fix k
    assume "k < length (read_bytes (set_bytes_array m t (replicate 4096 0)) (slot t j) 8)"
    then have k: "k < 8" by simp
    then have b: "8 * unat j + k < 4096" using assms by simp
    have "slot t j + of_nat k - pa_0 (PhysAddr_from_PhysPageNum t) = of_nat (8 * unat j + k)"
      by (simp add: slot_def)
    then have "unat (slot t j + of_nat k - pa_0 (PhysAddr_from_PhysPageNum t)) = 8 * unat j + k"
      using b by (simp only: unat_of_nat_usize)
    then show "read_bytes (set_bytes_array m t (replicate 4096 0)) (slot t j) 8 ! k = replicate 8 0 ! k"
      using k b by (simp add: read_bytes_def set_bytes_array_def write_bytes_def)
  qed simp
  then show ?thesis
    by (simp add: entry_def read_pte_def read_u64_def PageTableEntry_empty_def)
qed

lemma bytes_write_pte_other:
  assumes "ppn_ok t" "ppn_ok q" "t \<noteq> q" "unat i < 512"
  shows "get_bytes_array (write_pte m (slot t i) e) q = get_bytes_array m q"
  using disjoint_pages [of t q "8 * unat i" 8 0 4096] assms
  by (simp add: get_bytes_array_def write_pte_def write_u64_def read_bytes_write_other slot_def)

lemma walk_same:
  assumes "\<And>p j q t. is = p @ j # q \<Longrightarrow> walk m r p = Some t \<Longrightarrow> entry m' t j = entry m t j"
  shows "walk m' r is = walk m r is"
  using assms
proof (induction "is" arbitrary: r)
  case (Cons i js)
  have e: "entry m' r i = entry m r i" using Cons.prems [of "[]"] by simp
  have "walk m' (PageTableEntry_ppn (entry m r i)) js = walk m (PageTableEntry_ppn (entry m r i)) js"
    if "PageTableEntry_is_valid (entry m r i)"
  proof (rule Cons.IH)
    fix p j q t
    assume "js = p @ j # q" "walk m (PageTableEntry_ppn (entry m r i)) p = Some t"
    then show "entry m' t j = entry m t j" using Cons.prems [of "i # p"] that by simp
  qed
  then show ?case by (simp add: e)
qed simp

section \<open>Well-formed table trees\<close>

text \<open>
  The root, the second-level and the third-level tables are reached by paths of at most two indexes;
  they are frames of the set \<open>F\<close>, and different paths reach different frames.
\<close>

definition short_path :: "usize list \<Rightarrow> bool" where
  "short_path is \<longleftrightarrow> length is \<le> 2 \<and> idx_ok is"

definition pt_tree :: "mem \<Rightarrow> PhysPageNum \<Rightarrow> PhysPageNum set \<Rightarrow> bool" where
  "pt_tree m root F \<longleftrightarrow>
     (\<forall>f \<in> F. ppn_ok f) \<and>
     (\<forall>is t. short_path is \<longrightarrow> walk m root is = Some t \<longrightarrow> t \<in> F) \<and>
     (\<forall>is js t. short_path is \<longrightarrow> short_path js \<longrightarrow> walk m root is = Some t \<longrightarrow>
        walk m root js = Some t \<longrightarrow> is = js)"

lemma pt_treeD:
  assumes "pt_tree m root F"
  shows "f \<in> F \<Longrightarrow> ppn_ok f"
    and "short_path is \<Longrightarrow> walk m root is = Some t \<Longrightarrow> t \<in> F"
    and "short_path is \<Longrightarrow> short_path js \<Longrightarrow> walk m root is = Some t \<Longrightarrow> walk m root js = Some t \<Longrightarrow>
      is = js"
  using assms unfolding pt_tree_def by blast+

lemma walk_write_leaf:
  assumes tree: "pt_tree m root F" and p: "walk m root p = Some t" "length p = 2" "idx_ok p"
    and i: "unat i < 512" and js: "short_path js"
  shows "walk (write_pte m (slot t i) e) root js = walk m root js"
proof (rule walk_same)
  fix p' j q u
  assume split: "js = p' @ j # q" and u: "walk m root p' = Some u"
  have sp: "short_path p'" "short_path p" "unat j < 512" "length p' < 2"
    using js split p by (auto simp: short_path_def)
  have "u \<noteq> t"
    using pt_treeD(3) [OF tree sp(1,2) u] p(1,2) sp(4) by auto
  moreover have "ppn_ok u" "ppn_ok t"
    using pt_treeD(1) [OF tree] pt_treeD(2) [OF tree sp(1) u] pt_treeD(2) [OF tree sp(2) p(1)] by auto
  ultimately show "entry (write_pte m (slot t i) e) u j = entry m u j"
    using i sp by (intro entry_write_other) auto
qed

text \<open>Hanging a fresh, cleared table \<open>f\<close> under an invalid entry of an inner table.\<close>

definition hang :: "mem \<Rightarrow> PhysPageNum \<Rightarrow> usize \<Rightarrow> PhysPageNum \<Rightarrow> mem" where
  "hang m t i f =
     write_pte (set_bytes_array m f (replicate 4096 0)) (slot t i) (PageTableEntry_new f PTE_V)"

lemma entry_hang:
  assumes "ppn_ok t" "ppn_ok f" "t \<noteq> f" "unat i < 512" "unat j < 512" "ppn_ok u"
  shows "entry (hang m t i f) u j =
     (if u = t \<and> j = i then PageTableEntry_new f PTE_V
      else if u = f then PageTableEntry_empty else entry m u j)"
  using assms entry_write_other [of t u i j] entry_clear_other [of f u j] entry_clear_same [of f j]
  by (auto simp: hang_def)

lemma walk_hang:
  assumes tree: "pt_tree m root F" and p: "walk m root p = Some t" "length p \<le> 1" "idx_ok p"
    and i: "unat i < 512" "\<not> PageTableEntry_is_valid (entry m t i)"
    and f: "f \<notin> F" "ppn_ok f" and js: "short_path js"
  shows "walk (hang m t i f) root js = (if js = p @ [i] then Some f else walk m root js)"
proof -
  have sp: "short_path p" using p by (simp add: short_path_def)
  have t: "t \<in> F" "ppn_ok t" "t \<noteq> f" using pt_treeD(1,2) [OF tree] sp p f by auto
  have other: "entry (hang m t i f) u j = entry m u j"
    if "short_path p'" "walk m root p' = Some u" "unat j < 512" "(p', j) \<noteq> (p, i)" for p' u j
  proof -
    have "u \<in> F" "ppn_ok u" "u \<noteq> f" using pt_treeD(1,2) [OF tree] that f by auto
    moreover have "u = t \<Longrightarrow> p' = p" using pt_treeD(3) [OF tree] sp p that by blast
    ultimately show ?thesis using t f i that by (auto simp: entry_hang)
  qed
  have at: "entry (hang m t i f) t i = PageTableEntry_new f PTE_V"
    using t f i by (simp add: entry_hang)
  have prefix: "walk (hang m t i f) root p = Some t"
  proof -
    have "walk (hang m t i f) root p = walk m root p"
    proof (rule walk_same)
      fix p' j q u
      assume "p = p' @ j # q" "walk m root p' = Some u"
      then show "entry (hang m t i f) u j = entry m u j"
        using sp by (intro other) (auto simp: short_path_def)
    qed
    then show ?thesis using p by simp
  qed
  show ?thesis
  proof (cases "\<exists>q. js = p @ i # q")
    case True
    then obtain q where q: "js = p @ i # q" by blast
    then have "walk (hang m t i f) root js = walk (hang m t i f) f q" "walk m root js = None"
      using prefix at f p i by (simp_all add: walk_append)
    moreover have "q \<noteq> [] \<Longrightarrow> walk (hang m t i f) f q = None"
      using js q t f i by (cases q) (auto simp: short_path_def entry_hang)
    ultimately show ?thesis using q by (cases q) auto
  next
    case False
    have "walk (hang m t i f) root js = walk m root js"
    proof (rule walk_same)
      fix p' j q u
      assume "js = p' @ j # q" "walk m root p' = Some u"
      then show "entry (hang m t i f) u j = entry m u j"
        using js False by (intro other) (auto simp: short_path_def)
    qed
    then show ?thesis using False by auto
  qed
qed

lemma pt_tree_hang:
  assumes tree: "pt_tree m root F" and p: "walk m root p = Some t" "length p \<le> 1" "idx_ok p"
    and i: "unat i < 512" "\<not> PageTableEntry_is_valid (entry m t i)"
    and f: "f \<notin> F" "ppn_ok f"
  shows "pt_tree (hang m t i f) root (insert f F)"
proof -
  have w: "walk (hang m t i f) root js = (if js = p @ [i] then Some f else walk m root js)"
    if "short_path js" for js
    using walk_hang [OF assms that] .
  have "t' \<in> insert f F" if "short_path js" "walk (hang m t i f) root js = Some t'" for js t'
    using that w pt_treeD(2) [OF tree] by (auto split: if_splits)
  moreover have "js = ks"
    if "short_path js" "short_path ks" "walk (hang m t i f) root js = Some t'"
      "walk (hang m t i f) root ks = Some t'" for js ks t'
    using that w pt_treeD(2,3) [OF tree] f by (auto split: if_splits)
  ultimately show ?thesis
    using pt_treeD(1) [OF tree] f unfolding pt_tree_def by blast
qed

section \<open>The finite map a page table stands for\<close>

definition vpn_ok :: "VirtPageNum \<Rightarrow> bool" where
  "vpn_ok v \<longleftrightarrow> unat (vpn_0 v) < 2 ^ 27"

definition table_path :: "VirtPageNum \<Rightarrow> usize list" where
  "table_path v = take 2 (VirtPageNum_indexes v)"

definition leaf_index :: "VirtPageNum \<Rightarrow> usize" where
  "leaf_index v = VirtPageNum_indexes v ! 2"

lemma indexes_split: "VirtPageNum_indexes v = table_path v @ [leaf_index v]"
  by (simp add: VirtPageNum_indexes_bits table_path_def leaf_index_def)

lemma length_table_path [simp]: "length (table_path v) = 2"
  by (simp add: table_path_def)

lemma table_path_ok [simp]: "idx_ok (table_path v)" "unat (leaf_index v) < 512" "short_path (table_path v)"
proof -
  have "\<forall>x \<in> set (table_path v @ [leaf_index v]). unat x < 512"
    unfolding indexes_split [symmetric] using index_less_512 by blast
  then show "idx_ok (table_path v)" "unat (leaf_index v) < 512" "short_path (table_path v)"
    by (auto simp: idx_ok_def short_path_def)
qed

lemma indexes_inj:
  assumes "vpn_ok v" "vpn_ok w" "table_path v = table_path w" "leaf_index v = leaf_index w"
  shows "v = w"
proof -
  have "VirtPageNum_indexes v = VirtPageNum_indexes w"
    using assms by (simp add: indexes_split)
  then have eq: "unat (vpn_0 v) div 262144 mod 512 = unat (vpn_0 w) div 262144 mod 512"
      "unat (vpn_0 v) div 512 mod 512 = unat (vpn_0 w) div 512 mod 512"
      "unat (vpn_0 v) mod 512 = unat (vpn_0 w) mod 512"
    by (simp_all add: VirtPageNum_indexes_bits word_unat_eq_iff unat_take_bit_usize unat_drop_bit_usize)
  have dec: "n = 262144 * (n div 262144 mod 512) + 512 * (n div 512 mod 512) + n mod 512"
    if "n < 134217728" for n :: nat
  proof -
    have a: "n div 512 div 512 = n div 262144" by (simp add: div_mult2_eq [symmetric])
    have "n div 262144 < 512" using that by (simp add: less_mult_imp_div_less)
    then have b: "n div 262144 mod 512 = n div 262144" by simp
    have c: "512 * (n div 512) + n mod 512 = n" by simp
    have "512 * (n div 512 div 512) + n div 512 mod 512 = n div 512" by simp
    then show ?thesis unfolding a b using c by linarith
  qed
  have "unat (vpn_0 v) = unat (vpn_0 w)"
    using dec [of "unat (vpn_0 v)"] dec [of "unat (vpn_0 w)"] assms(1,2) eq by (simp add: vpn_ok_def)
  then show ?thesis by (metis VirtPageNum.expand word_unat_eq_iff)
qed

definition pt_lookup :: "mem \<Rightarrow> PhysPageNum \<Rightarrow> VirtPageNum \<Rightarrow> PageTableEntry option" where
  "pt_lookup m root v =
     (case walk m root (table_path v) of
        None \<Rightarrow> None
      | Some t \<Rightarrow>
          if PageTableEntry_is_valid (entry m t (leaf_index v)) then Some (entry m t (leaf_index v))
          else None)"

lemma find_pte_eq:
  "PageTable_find_pte pt m v =
     Inr (map_option (\<lambda>t. slot t (leaf_index v)) (walk m (pt_root_ppn pt) (table_path v)))"
proof -
  obtain i j where ij: "table_path v = [i, j]"
    by (simp add: table_path_def VirtPageNum_indexes_bits)
  have "unat i < 512" "unat j < 512" using table_path_ok(1) [of v] ij by auto
  then show ?thesis
    by (simp add: PageTable_find_pte_def indexes_split ij entry_def)
qed

definition pt_frame_set :: "PageTable \<Rightarrow> PhysPageNum set" where
  "pt_frame_set pt = ft_ppn ` set (pt_frames pt)"

definition pt_ok :: "usize \<Rightarrow> mm \<Rightarrow> PageTable \<Rightarrow> bool" where
  "pt_ok l s pt \<longleftrightarrow>
     mm_ok l s \<and> pt_frame_set pt \<subseteq> mm_live l s \<and>
     pt_tree (phys s) (pt_root_ppn pt) (pt_frame_set pt)"

abbreviation lookup :: "mm \<Rightarrow> PageTable \<Rightarrow> VirtPageNum \<Rightarrow> PageTableEntry option" where
  "lookup s pt v \<equiv> pt_lookup (phys s) (pt_root_ppn pt) v"

text \<open>
  How an operation on a page table may change the memory subsystem: frames in use keep their bytes unless
  they are tables of this page table, and every newly used frame is one. It grows when the map stays too.
\<close>

definition pt_evolve :: "usize \<Rightarrow> mm \<Rightarrow> PageTable \<Rightarrow> mm \<Rightarrow> PageTable \<Rightarrow> bool" where
  "pt_evolve l s pt s' pt' \<longleftrightarrow>
     pt_ok l s' pt' \<and> pt_root_ppn pt' = pt_root_ppn pt \<and>
     mm_live l s' = mm_live l s \<union> pt_frame_set pt' \<and>
     pt_frame_set pt \<subseteq> pt_frame_set pt' \<and> pt_frame_set pt' \<inter> mm_live l s = pt_frame_set pt \<and>
     (\<forall>q \<in> mm_live l s - pt_frame_set pt. get_bytes_array (phys s') q = get_bytes_array (phys s) q)"

definition pt_grow :: "usize \<Rightarrow> mm \<Rightarrow> PageTable \<Rightarrow> mm \<Rightarrow> PageTable \<Rightarrow> bool" where
  "pt_grow l s pt s' pt' \<longleftrightarrow> pt_evolve l s pt s' pt' \<and> (\<forall>v. lookup s' pt' v = lookup s pt v)"

lemma pt_evolve_refl: "pt_ok l s pt \<Longrightarrow> pt_evolve l s pt s pt"
  by (auto simp: pt_evolve_def pt_ok_def)

lemma pt_evolve_trans:
  "pt_evolve l s pt s' pt' \<Longrightarrow> pt_evolve l s' pt' s'' pt'' \<Longrightarrow> pt_evolve l s pt s'' pt''"
  unfolding pt_evolve_def by auto

lemma pt_grow_refl: "pt_ok l s pt \<Longrightarrow> pt_grow l s pt s pt"
  by (simp add: pt_grow_def pt_evolve_refl)

lemma pt_grow_trans: "pt_grow l s pt s' pt' \<Longrightarrow> pt_grow l s' pt' s'' pt'' \<Longrightarrow> pt_grow l s pt s'' pt''"
  unfolding pt_grow_def using pt_evolve_trans by simp blast

lemma pt_lookup_hang:
  assumes tree: "pt_tree m root F" and p: "walk m root p = Some t" "length p \<le> 1" "idx_ok p"
    and i: "unat i < 512" "\<not> PageTableEntry_is_valid (entry m t i)"
    and f: "f \<notin> F" "ppn_ok f"
  shows "pt_lookup (hang m t i f) root v = pt_lookup m root v"
proof -
  have sp: "short_path p" using p by (simp add: short_path_def)
  have t: "ppn_ok t" "t \<noteq> f" using pt_treeD(1) [OF tree] pt_treeD(2) [OF tree sp p(1)] f by auto
  have w: "walk (hang m t i f) root (table_path v) =
      (if table_path v = p @ [i] then Some f else walk m root (table_path v))"
    using walk_hang [OF assms] by simp
  show ?thesis
  proof (cases "table_path v = p @ [i]")
    case True
    then have "walk m root (table_path v) = None" using p i by (simp add: walk_append)
    moreover have "entry (hang m t i f) f (leaf_index v) = PageTableEntry_empty"
      using t f i by (simp add: entry_hang)
    ultimately show ?thesis using w True by (simp add: pt_lookup_def)
  next
    case False
    show ?thesis
    proof (cases "walk m root (table_path v)")
      case None
      then show ?thesis using w False by (simp add: pt_lookup_def)
    next
      case (Some u)
      have "p \<noteq> table_path v" using p(2) by (intro notI) simp
      then have "u \<noteq> t" using pt_treeD(3) [OF tree sp _ p(1)] Some by auto
      moreover have "u \<noteq> f" "ppn_ok u"
        using pt_treeD(1) [OF tree] pt_treeD(2) [OF tree _ Some] f by auto
      ultimately have "entry (hang m t i f) u (leaf_index v) = entry m u (leaf_index v)"
        using t f i by (simp add: entry_hang)
      then show ?thesis using w False Some by (simp add: pt_lookup_def)
    qed
  qed
qed


lemma pt_grow_hang:
  assumes ok: "pt_ok l s pt" and free: "0 < mm_free s"
    and p: "walk (phys s) (pt_root_ppn pt) p = Some t" "length p \<le> 1" "idx_ok p"
    and i: "unat i < 512" "\<not> PageTableEntry_is_valid (entry (phys s) t i)"
  obtains f s1 where "frame_alloc s = (Some (FrameTracker f), s1)" "ppn_ok f"
    "pt_grow l s pt (s1\<lparr>phys := write_pte (phys s1) (slot t i) (PageTableEntry_new f PTE_V)\<rparr>)
       (pt\<lparr>pt_frames := pt_frames pt @ [FrameTracker f]\<rparr>)"
    "Suc (mm_free s1) = mm_free s"
proof -
  have mm: "mm_ok l s" and sub: "pt_frame_set pt \<subseteq> mm_live l s"
    and tree: "pt_tree (phys s) (pt_root_ppn pt) (pt_frame_set pt)"
    using ok by (auto simp: pt_ok_def)
  obtain f s1 where al: "frame_alloc s = (Some (FrameTracker f), s1)" and mm1: "mm_ok l s1"
    and f: "f \<notin> mm_live l s" and live: "mm_live l s1 = insert f (mm_live l s)"
    and fr: "Suc (mm_free s1) = mm_free s"
    and ph: "phys s1 = set_bytes_array (phys s) f (replicate 4096 0)"
    using frame_alloc_spec [OF mm free] by metis
  let ?s' = "s1\<lparr>phys := write_pte (phys s1) (slot t i) (PageTableEntry_new f PTE_V)\<rparr>"
  let ?pt' = "pt\<lparr>pt_frames := pt_frames pt @ [FrameTracker f]\<rparr>"
  have fok: "ppn_ok f" using mm_live_ppn_ok [OF mm1] live by blast
  have fF: "f \<notin> pt_frame_set pt" using f sub by blast
  have sp: "short_path p" using p by (simp add: short_path_def)
  have t: "t \<in> pt_frame_set pt" "ppn_ok t"
    using pt_treeD(1) [OF tree] pt_treeD(2) [OF tree sp p(1)] by auto
  have ph': "phys ?s' = hang (phys s) t i f" by (simp add: hang_def ph)
  have F': "pt_frame_set ?pt' = insert f (pt_frame_set pt)" by (auto simp: pt_frame_set_def)
  have live': "mm_live l ?s' = mm_live l s1" and mm': "mm_ok l ?s'"
    using mm1 by (simp_all add: mm_live_def mm_ok_def)
  have "pt_tree (phys ?s') (pt_root_ppn ?pt') (pt_frame_set ?pt')"
    using pt_tree_hang [OF tree p i fF fok] F' ph' by simp
  then have "pt_ok l ?s' ?pt'"
    unfolding pt_ok_def using mm' live' live F' sub by auto
  moreover have "lookup ?s' ?pt' v = lookup s pt v" for v
    using pt_lookup_hang [OF tree p i fF fok] ph' by simp
  moreover have "get_bytes_array (phys ?s') q = get_bytes_array (phys s) q"
    if "q \<in> mm_live l s - pt_frame_set pt" for q
  proof -
    have "ppn_ok q" "q \<noteq> f" "q \<noteq> t" using that t f mm_live_ppn_ok [OF mm] by auto
    then show ?thesis
      using t fok i bytes_write_pte_other [of t q i] get_set_bytes_array_other [of f q]
      by (simp add: ph)
  qed
  ultimately have "pt_grow l s pt ?s' ?pt'"
    unfolding pt_grow_def pt_evolve_def using live' live F' sub f by auto
  with al fok fr show ?thesis by (intro that)
qed

lemma create_loop_step:
  assumes ok: "pt_ok l s pt" and free: "0 < mm_free s"
    and p: "walk (phys s) (pt_root_ppn pt) p = Some t" "length p \<le> 1" "idx_ok p"
    and i: "unat i < 512" and n: "n \<noteq> 2"
  obtains pt' s' u where
    "find_pte_create_loop n (i # idxs) t pt s = find_pte_create_loop (Suc n) idxs u pt' s'"
    "pt_grow l s pt s' pt'" "walk (phys s') (pt_root_ppn pt') (p @ [i]) = Some u"
    "mm_free s \<le> Suc (mm_free s')"
proof (cases "PageTableEntry_is_valid (entry (phys s) t i)")
  case True
  have "find_pte_create_loop n (i # idxs) t pt s =
      find_pte_create_loop (Suc n) idxs (PageTableEntry_ppn (entry (phys s) t i)) pt s"
    using True i n by (simp add: entry_def)
  moreover have "walk (phys s) (pt_root_ppn pt) (p @ [i]) = Some (PageTableEntry_ppn (entry (phys s) t i))"
    using p True by (simp add: walk_append)
  ultimately show ?thesis using that [of _ pt s] pt_grow_refl [OF ok] by simp
next
  case False
  obtain f s1 where al: "frame_alloc s = (Some (FrameTracker f), s1)" and fok: "ppn_ok f"
    and g: "pt_grow l s pt (s1\<lparr>phys := write_pte (phys s1) (slot t i) (PageTableEntry_new f PTE_V)\<rparr>)
       (pt\<lparr>pt_frames := pt_frames pt @ [FrameTracker f]\<rparr>)"
    and fr: "Suc (mm_free s1) = mm_free s"
    using pt_grow_hang [OF ok free p i False] by blast
  let ?s' = "s1\<lparr>phys := write_pte (phys s1) (slot t i) (PageTableEntry_new f PTE_V)\<rparr>"
  let ?pt' = "pt\<lparr>pt_frames := pt_frames pt @ [FrameTracker f]\<rparr>"
  have e: "entry (phys ?s') t i = PageTableEntry_new f PTE_V" by simp
  then have "find_pte_create_loop n (i # idxs) t pt s = find_pte_create_loop (Suc n) idxs f ?pt' ?s'"
    using False i n al fok by (simp add: entry_def)
  moreover have "walk (phys ?s') (pt_root_ppn ?pt') (p @ [i]) = Some f"
  proof -
    have mm: "mm_ok l s" and tree: "pt_tree (phys s) (pt_root_ppn pt) (pt_frame_set pt)"
      and sub: "pt_frame_set pt \<subseteq> mm_live l s"
      using ok by (auto simp: pt_ok_def)
    have "f \<notin> mm_live l s" "phys s1 = set_bytes_array (phys s) f (replicate 4096 0)"
      using frame_alloc_spec [OF mm free] al by auto
    then have "phys ?s' = hang (phys s) t i f" "f \<notin> pt_frame_set pt"
      using sub by (auto simp: hang_def)
    then show ?thesis
      using walk_hang [OF tree p i False _ fok, of "p @ [i]"] p i by (simp add: short_path_def)
  qed
  moreover have "mm_free s \<le> Suc (mm_free ?s')" using fr by (simp add: mm_free_def)
  ultimately show ?thesis using that g by blast
qed

lemma find_pte_create_spec:
  assumes ok: "pt_ok l s pt" and free: "2 \<le> mm_free s"
  obtains pt' s' t where
    "PageTable_find_pte_create pt s v = Inr (Some (slot t (leaf_index v)), pt', s')"
    "pt_grow l s pt s' pt'" "walk (phys s') (pt_root_ppn pt') (table_path v) = Some t"
    "mm_free s \<le> mm_free s' + 2"
proof -
  obtain i j where ij: "table_path v = [i, j]"
    by (simp add: table_path_def VirtPageNum_indexes_bits)
  have i: "unat i < 512" "unat j < 512" using table_path_ok(1) [of v] ij by auto
  let ?k = "leaf_index v"
  obtain pt1 s1 u where 1: "find_pte_create_loop 0 (i # [j, ?k]) (pt_root_ppn pt) pt s =
        find_pte_create_loop (Suc 0) [j, ?k] u pt1 s1"
      "pt_grow l s pt s1 pt1" "walk (phys s1) (pt_root_ppn pt1) ([] @ [i]) = Some u"
      "mm_free s \<le> Suc (mm_free s1)"
    by (rule create_loop_step [OF ok, of "[]" "pt_root_ppn pt" i 0 "[j, ?k]"])
      (use free i in simp_all)
  have ok1: "pt_ok l s1 pt1" using 1(2) by (simp add: pt_grow_def pt_evolve_def)
  obtain pt2 s2 t where 2: "find_pte_create_loop (Suc 0) (j # [?k]) u pt1 s1 =
        find_pte_create_loop (Suc (Suc 0)) [?k] t pt2 s2"
      "pt_grow l s1 pt1 s2 pt2" "walk (phys s2) (pt_root_ppn pt2) ([i] @ [j]) = Some t"
      "mm_free s1 \<le> Suc (mm_free s2)"
    by (rule create_loop_step [OF ok1, of "[i]" u j "Suc 0" "[?k]"])
      (use 1(3,4) free i in \<open>simp_all del: find_pte_create_loop.simps\<close>)
  show ?thesis
  proof (rule that)
    show "PageTable_find_pte_create pt s v = Inr (Some (slot t (leaf_index v)), pt2, s2)"
      using 1(1) 2(1) by (simp add: PageTable_find_pte_create_def indexes_split ij numeral_2_eq_2)
    show "pt_grow l s pt s2 pt2" using 1(2) 2(2) by (rule pt_grow_trans)
    show "walk (phys s2) (pt_root_ppn pt2) (table_path v) = Some t" using 2(3) ij by simp
    show "mm_free s \<le> mm_free s2 + 2" using 1(4) 2(4) by simp
  qed
qed

section \<open>Writing a leaf entry\<close>

lemma pt_lookup_write:
  assumes tree: "pt_tree m root F" and v: "vpn_ok v" "vpn_ok w"
    and t: "walk m root (table_path v) = Some t"
  shows "pt_lookup (write_pte m (slot t (leaf_index v)) e) root w =
     (if w = v then (if PageTableEntry_is_valid e then Some e else None) else pt_lookup m root w)"
proof -
  let ?m = "write_pte m (slot t (leaf_index v)) e"
  have same: "walk ?m root (table_path x) = walk m root (table_path x)" for x
    using walk_write_leaf [OF tree t] by simp
  show ?thesis
  proof (cases "w = v")
    case True
    then show ?thesis using same t by (simp add: pt_lookup_def)
  next
    case False
    have "entry ?m u (leaf_index w) = entry m u (leaf_index w)"
      if u: "walk m root (table_path w) = Some u" for u
    proof (rule entry_write_other)
      show "ppn_ok t" "ppn_ok u"
        using pt_treeD(1) [OF tree] pt_treeD(2) [OF tree _ u] pt_treeD(2) [OF tree _ t] by auto
      show "(t, leaf_index v) \<noteq> (u, leaf_index w)"
      proof
        assume "(t, leaf_index v) = (u, leaf_index w)"
        then have "table_path v = table_path w" "leaf_index v = leaf_index w"
          using pt_treeD(3) [OF tree _ _ t] u by auto
        then show False using indexes_inj [OF v] False by simp
      qed
    qed simp_all
    then show ?thesis using False same by (simp add: pt_lookup_def split: option.splits)
  qed
qed

lemma pt_evolve_write:
  assumes ok: "pt_ok l s pt" and t: "walk (phys s) (pt_root_ppn pt) (table_path v) = Some t"
  shows "pt_evolve l s pt (s\<lparr>phys := write_pte (phys s) (slot t (leaf_index v)) e\<rparr>) pt"
proof -
  let ?s' = "s\<lparr>phys := write_pte (phys s) (slot t (leaf_index v)) e\<rparr>"
  have mm: "mm_ok l s" and sub: "pt_frame_set pt \<subseteq> mm_live l s"
    and tree: "pt_tree (phys s) (pt_root_ppn pt) (pt_frame_set pt)"
    using ok by (auto simp: pt_ok_def)
  have same: "mm_ok l ?s'" "mm_live l ?s' = mm_live l s"
    using mm by (simp_all add: mm_ok_def mm_live_def)
  have w: "walk (phys ?s') (pt_root_ppn pt) js = walk (phys s) (pt_root_ppn pt) js" if "short_path js" for js
    using walk_write_leaf [OF tree t _ _ _ that] by simp
  then have "pt_tree (phys ?s') (pt_root_ppn pt) (pt_frame_set pt)"
    using tree unfolding pt_tree_def by simp
  then have "pt_ok l ?s' pt" using same sub by (simp add: pt_ok_def)
  moreover have "get_bytes_array (phys ?s') q = get_bytes_array (phys s) q"
    if "q \<in> mm_live l s - pt_frame_set pt" for q
  proof -
    have "t \<in> pt_frame_set pt" using pt_treeD(2) [OF tree _ t] by simp
    then have "ppn_ok t" "ppn_ok q" "t \<noteq> q"
      using that mm_live_ppn_ok [OF mm] sub by auto
    then show ?thesis by (simp add: bytes_write_pte_other)
  qed
  ultimately show ?thesis
    unfolding pt_evolve_def using same sub by auto
qed

section \<open>map, unmap and translate on the finite map\<close>

lemma PageTable_map_spec:
  assumes ok: "pt_ok l s pt" and v: "vpn_ok v" and free: "2 \<le> mm_free s"
    and unmapped: "lookup s pt v = None"
  obtains s' pt' where "PageTable_map pt s v ppn flags = Inr (pt', s')" "pt_evolve l s pt s' pt'"
    "\<And>w. vpn_ok w \<Longrightarrow> lookup s' pt' w =
       (if w = v then Some (PageTableEntry_new ppn (flags_or flags PTE_V)) else lookup s pt w)"
    "mm_free s \<le> mm_free s' + 2"
proof -
  obtain pt' s1 t where c: "PageTable_find_pte_create pt s v = Inr (Some (slot t (leaf_index v)), pt', s1)"
      and g: "pt_grow l s pt s1 pt'" and t: "walk (phys s1) (pt_root_ppn pt') (table_path v) = Some t"
      and fr: "mm_free s \<le> mm_free s1 + 2"
    using find_pte_create_spec [OF ok free] by blast
  let ?e = "PageTableEntry_new ppn (flags_or flags PTE_V)"
  let ?s' = "s1\<lparr>phys := write_pte (phys s1) (slot t (leaf_index v)) ?e\<rparr>"
  have ok1: "pt_ok l s1 pt'" and look: "\<And>w. lookup s1 pt' w = lookup s pt w"
    and ev: "pt_evolve l s pt s1 pt'"
    using g by (auto simp: pt_grow_def pt_evolve_def)
  have tree: "pt_tree (phys s1) (pt_root_ppn pt') (pt_frame_set pt')"
    using ok1 by (simp add: pt_ok_def)
  have "\<not> PageTableEntry_is_valid (read_pte (phys s1) (slot t (leaf_index v)))"
    using look [of v] unmapped t by (simp add: pt_lookup_def entry_def split: if_splits)
  then have "PageTable_map pt s v ppn flags = Inr (pt', ?s')"
    using c by (simp add: PageTable_map_def)
  moreover have "pt_evolve l s pt ?s' pt'"
    using ev pt_evolve_write [OF ok1 t] by (rule pt_evolve_trans)
  moreover have "lookup ?s' pt' w = (if w = v then Some ?e else lookup s pt w)" if "vpn_ok w" for w
    using pt_lookup_write [OF tree v that t, of ?e] look by simp
  ultimately show ?thesis using that fr by (simp add: mm_free_def)
qed

lemma PageTable_map_mapped:
  assumes ok: "pt_ok l s pt" and free: "2 \<le> mm_free s" and mapped: "lookup s pt v = Some e"
  shows "PageTable_map pt s v ppn flags = Inl AssertFailed"
proof -
  obtain pt' s1 t where c: "PageTable_find_pte_create pt s v = Inr (Some (slot t (leaf_index v)), pt', s1)"
      and g: "pt_grow l s pt s1 pt'" and t: "walk (phys s1) (pt_root_ppn pt') (table_path v) = Some t"
    using find_pte_create_spec [OF ok free] by blast
  have "lookup s1 pt' v = Some e" using g mapped by (simp add: pt_grow_def)
  then have "PageTableEntry_is_valid (read_pte (phys s1) (slot t (leaf_index v)))"
    using t by (simp add: pt_lookup_def entry_def split: if_splits)
  then show ?thesis using c by (simp add: PageTable_map_def)
qed

lemma PageTable_unmap_spec:
  assumes ok: "pt_ok l s pt" and v: "vpn_ok v" and mapped: "lookup s pt v = Some e"
  obtains s' where "PageTable_unmap pt s v = Inr s'" "pt_evolve l s pt s' pt"
    "\<And>w. vpn_ok w \<Longrightarrow> lookup s' pt w = (if w = v then None else lookup s pt w)"
    "frame_allocator s' = frame_allocator s"
    "PageTable_translate pt (phys s') v = Inr (Some PageTableEntry_empty)"
proof -
  obtain t where t: "walk (phys s) (pt_root_ppn pt) (table_path v) = Some t"
      and e: "PageTableEntry_is_valid (entry (phys s) t (leaf_index v))"
    using mapped by (auto simp: pt_lookup_def split: option.splits if_splits)
  let ?s' = "s\<lparr>phys := write_pte (phys s) (slot t (leaf_index v)) PageTableEntry_empty\<rparr>"
  have tree: "pt_tree (phys s) (pt_root_ppn pt) (pt_frame_set pt)"
    using ok by (simp add: pt_ok_def)
  show ?thesis
  proof (rule that)
    show "PageTable_unmap pt s v = Inr ?s'"
      using t e by (simp add: PageTable_unmap_def find_pte_eq entry_def)
    show "pt_evolve l s pt ?s' pt" by (rule pt_evolve_write [OF ok t])
    show "lookup ?s' pt w = (if w = v then None else lookup s pt w)" if "vpn_ok w" for w
      using pt_lookup_write [OF tree v that t, of PageTableEntry_empty] by simp
    show "frame_allocator ?s' = frame_allocator s" by simp
    show "PageTable_translate pt (phys ?s') v = Inr (Some PageTableEntry_empty)"
      using walk_write_leaf [OF tree t, of "leaf_index v" "table_path v"] t
      by (simp add: PageTable_translate_def find_pte_eq flip: entry_def)
  qed
qed

lemma PageTable_unmap_unmapped:
  assumes "lookup s pt v = None"
  shows "\<exists>p. PageTable_unmap pt s v = Inl p"
  using assms
  by (auto simp: PageTable_unmap_def find_pte_eq pt_lookup_def entry_def split: option.splits if_splits)

lemma translate_lookup:
  "lookup s pt v = Some e \<Longrightarrow> PageTable_translate pt (phys s) v = Inr (Some e)"
  by (auto simp: PageTable_translate_def find_pte_eq pt_lookup_def entry_def
      split: option.splits if_splits)

lemma PageTable_new_spec:
  assumes "mm_ok l s" "0 < mm_free s"
  obtains pt s' where "PageTable_new s = Inr (pt, s')" "pt_ok l s' pt" "\<And>v. lookup s' pt v = None"
    "mm_live l s' = insert (pt_root_ppn pt) (mm_live l s)" "pt_root_ppn pt \<notin> mm_live l s"
    "pt_frame_set pt = {pt_root_ppn pt}" "Suc (mm_free s') = mm_free s"
    "\<And>q. q \<in> mm_live l s \<Longrightarrow> get_bytes_array (phys s') q = get_bytes_array (phys s) q"
  using assms
proof (cases rule: frame_alloc_spec)
  case (1 f s')
  let ?pt = "\<lparr>pt_root_ppn = f, pt_frames = [FrameTracker f]\<rparr>"
  have f: "ppn_ok f" using mm_live_ppn_ok [OF 1(2)] 1(4) by blast
  have empty: "\<not> PageTableEntry_is_valid (entry (phys s') f i)" if "unat i < 512" for i
    using entry_clear_same [OF f that] 1(6) by simp
  have w: "walk (phys s') f js = (if js = [] then Some f else None)" if "idx_ok js" for js
    using that empty by (cases js) auto
  have "pt_tree (phys s') f {f}"
    unfolding pt_tree_def using f w by (auto simp: short_path_def split: if_splits)
  then have ok: "pt_ok l s' ?pt" using 1 by (simp add: pt_ok_def pt_frame_set_def)
  have "table_path v \<noteq> []" for v by (metis length_table_path list.size(3) zero_neq_numeral)
  then have none: "lookup s' ?pt v = None" for v
    using w by (simp add: pt_lookup_def)
  have bytes: "get_bytes_array (phys s') q = get_bytes_array (phys s) q" if "q \<in> mm_live l s" for q
  proof -
    have "f \<noteq> q" using that 1(3) by blast
    then show ?thesis
      using 1(6) f mm_live_ppn_ok [OF assms(1) that] by (simp add: get_set_bytes_array_other)
  qed
  show ?thesis
    by (rule that [of ?pt s']) (use 1 ok none bytes in \<open>simp_all add: PageTable_new_def pt_frame_set_def\<close>)
qed

section \<open>The refinement theorem\<close>

text \<open>
  A history of \<open>map\<close> and \<open>unmap\<close> calls, run on the multi-level table in memory, and the same history on a
  partial function from page numbers to entries, which is what the callers of the page table think of.
\<close>

datatype pt_op = Map VirtPageNum PhysPageNum PTEFlags | Unmap VirtPageNum

primrec op_vpn :: "pt_op \<Rightarrow> VirtPageNum" where
  "op_vpn (Map v p fl) = v"
| "op_vpn (Unmap v) = v"

primrec pt_step :: "pt_op \<Rightarrow> PageTable \<Rightarrow> mm \<Rightarrow> (PageTable \<times> mm) outcome" where
  "pt_step (Map v p fl) pt s = PageTable_map pt s v p fl"
| "pt_step (Unmap v) pt s = and_then (PageTable_unmap pt s v) (\<lambda>s'. Inr (pt, s'))"

fun pt_run :: "pt_op list \<Rightarrow> PageTable \<Rightarrow> mm \<Rightarrow> (PageTable \<times> mm) outcome" where
  "pt_run [] pt s = Inr (pt, s)"
| "pt_run (a # as) pt s = and_then (pt_step a pt s) (\<lambda>(pt', s'). pt_run as pt' s')"

primrec map_step :: "pt_op \<Rightarrow> (VirtPageNum \<rightharpoonup> PageTableEntry) \<Rightarrow> (VirtPageNum \<rightharpoonup> PageTableEntry) option" where
  "map_step (Map v p fl) m =
     (if m v = None then Some (m(v \<mapsto> PageTableEntry_new p (flags_or fl PTE_V))) else None)"
| "map_step (Unmap v) m = (if m v = None then None else Some (m(v := None)))"

fun map_run :: "pt_op list \<Rightarrow> (VirtPageNum \<rightharpoonup> PageTableEntry) \<Rightarrow> (VirtPageNum \<rightharpoonup> PageTableEntry) option" where
  "map_run [] m = Some m"
| "map_run (a # as) m = (case map_step a m of None \<Rightarrow> None | Some m' \<Rightarrow> map_run as m')"

definition pt_refines :: "mm \<Rightarrow> PageTable \<Rightarrow> (VirtPageNum \<rightharpoonup> PageTableEntry) \<Rightarrow> bool" where
  "pt_refines s pt m \<longleftrightarrow> (\<forall>v. vpn_ok v \<longrightarrow> lookup s pt v = m v)"

lemma pt_step_refines:
  assumes ok: "pt_ok l s pt" and r: "pt_refines s pt m" and v: "vpn_ok (op_vpn a)" and free: "2 \<le> mm_free s"
  shows "case map_step a m of None \<Rightarrow> \<exists>p. pt_step a pt s = Inl p
    | Some m' \<Rightarrow> \<exists>pt' s'. pt_step a pt s = Inr (pt', s') \<and> pt_evolve l s pt s' pt' \<and>
                  pt_refines s' pt' m' \<and> mm_free s \<le> mm_free s' + 2"
proof (cases a)
  case (Map w p fl)
  show ?thesis
  proof (cases "m w")
    case None
    then have "lookup s pt w = None" using r v Map by (simp add: pt_refines_def)
    then obtain s' pt' where "PageTable_map pt s w p fl = Inr (pt', s')" "pt_evolve l s pt s' pt'"
        "\<And>x. vpn_ok x \<Longrightarrow> lookup s' pt' x =
          (if x = w then Some (PageTableEntry_new p (flags_or fl PTE_V)) else lookup s pt x)"
        "mm_free s \<le> mm_free s' + 2"
      using PageTable_map_spec [OF ok _ free] v Map by (metis op_vpn.simps(1))
    then show ?thesis using r Map None by (simp add: pt_refines_def)
  next
    case (Some e)
    then show ?thesis
      using PageTable_map_mapped [OF ok free, of w e] r v Map by (simp add: pt_refines_def)
  qed
next
  case (Unmap w)
  have w: "lookup s pt w = m w" using r v Unmap by (simp add: pt_refines_def)
  show ?thesis
  proof (cases "m w")
    case None
    then show ?thesis using PageTable_unmap_unmapped [of s pt w] w Unmap by auto
  next
    case (Some e)
    then obtain s' where "PageTable_unmap pt s w = Inr s'" "pt_evolve l s pt s' pt"
        "\<And>x. vpn_ok x \<Longrightarrow> lookup s' pt x = (if x = w then None else lookup s pt x)"
        "frame_allocator s' = frame_allocator s"
      using PageTable_unmap_spec [OF ok] v w Unmap by (metis op_vpn.simps(2))
    then show ?thesis using r Unmap Some by (simp add: pt_refines_def mm_free_def)
  qed
qed

lemma pt_run_refines:
  assumes "pt_ok l s pt" "pt_refines s pt m" "\<forall>a \<in> set as. vpn_ok (op_vpn a)" "2 * length as \<le> mm_free s"
  shows "case map_run as m of None \<Rightarrow> \<exists>p. pt_run as pt s = Inl p
    | Some m' \<Rightarrow> \<exists>pt' s'. pt_run as pt s = Inr (pt', s') \<and> pt_evolve l s pt s' pt' \<and> pt_refines s' pt' m'"
  using assms
proof (induction as arbitrary: m pt s)
  case Nil
  then show ?case by (simp add: pt_evolve_refl)
next
  case (Cons a as)
  have step: "case map_step a m of None \<Rightarrow> \<exists>p. pt_step a pt s = Inl p
    | Some m' \<Rightarrow> \<exists>pt' s'. pt_step a pt s = Inr (pt', s') \<and> pt_evolve l s pt s' pt' \<and>
                  pt_refines s' pt' m' \<and> mm_free s \<le> mm_free s' + 2"
    by (rule pt_step_refines) (use Cons.prems in simp_all)
  show ?case
  proof (cases "map_step a m")
    case None
    then show ?thesis using step by auto
  next
    case (Some m1)
    then obtain pt1 s1 where 1: "pt_step a pt s = Inr (pt1, s1)" "pt_evolve l s pt s1 pt1"
        "pt_refines s1 pt1 m1" "mm_free s \<le> mm_free s1 + 2"
      using step by auto
    have "pt_ok l s1 pt1" using 1(2) by (simp add: pt_evolve_def)
    from Cons.IH [OF this 1(3)] show ?thesis
      using 1 Cons.prems(3,4) Some pt_evolve_trans [OF 1(2)] by (auto split: option.splits)
  qed
qed

lemma translate_unmapped:
  assumes "lookup s pt v = None"
  shows "PageTable_translate pt (phys s) v = Inr None \<or>
    (\<exists>e. PageTable_translate pt (phys s) v = Inr (Some e) \<and> \<not> PageTableEntry_is_valid e)"
  using assms
  by (auto simp: PageTable_translate_def find_pte_eq pt_lookup_def entry_def split: option.splits if_splits)

text \<open>
  C1. The three-level page table implements a finite map. Whatever sequence of \<open>map\<close> and \<open>unmap\<close> calls is
  made on a fresh table, as long as two frames per call are free: if the abstract map accepts the sequence,
  no call panics, \<open>translate\<close> of every page answers what the abstract map holds (no valid entry for an
  unmapped page), and no frame that was in use before is touched; if the abstract map refuses it (a page
  mapped twice, or unmapped without being mapped), the kernel panics.
\<close>
theorem page_table_refines_map:
  assumes "mm_ok l s0" "2 * length ops < mm_free s0" "\<forall>a \<in> set ops. vpn_ok (op_vpn a)"
  shows "case map_run ops Map.empty of
      None \<Rightarrow> \<exists>p. and_then (PageTable_new s0) (\<lambda>(pt, s). pt_run ops pt s) = Inl p
    | Some m \<Rightarrow> \<exists>pt s. and_then (PageTable_new s0) (\<lambda>(pt, s). pt_run ops pt s) = Inr (pt, s) \<and>
        (\<forall>v. vpn_ok v \<longrightarrow> (case m v of
            Some e \<Rightarrow> PageTable_translate pt (phys s) v = Inr (Some e)
          | None \<Rightarrow> PageTable_translate pt (phys s) v = Inr None \<or>
              (\<exists>e. PageTable_translate pt (phys s) v = Inr (Some e) \<and> \<not> PageTableEntry_is_valid e))) \<and>
        (\<forall>q \<in> mm_live l s0. get_bytes_array (phys s) q = get_bytes_array (phys s0) q)"
proof -
  have "0 < mm_free s0" using assms(2) by simp
  then obtain pt s1 where 1: "PageTable_new s0 = Inr (pt, s1)" "pt_ok l s1 pt" "\<And>v. lookup s1 pt v = None"
      "mm_live l s1 = insert (pt_root_ppn pt) (mm_live l s0)" "pt_root_ppn pt \<notin> mm_live l s0"
      "pt_frame_set pt = {pt_root_ppn pt}" "Suc (mm_free s1) = mm_free s0"
      "\<And>q. q \<in> mm_live l s0 \<Longrightarrow> get_bytes_array (phys s1) q = get_bytes_array (phys s0) q"
    using PageTable_new_spec [OF assms(1)] by blast
  have "pt_refines s1 pt Map.empty" using 1(3) by (simp add: pt_refines_def)
  then have run: "case map_run ops Map.empty of None \<Rightarrow> \<exists>p. pt_run ops pt s1 = Inl p
    | Some m' \<Rightarrow> \<exists>pt' s'. pt_run ops pt s1 = Inr (pt', s') \<and> pt_evolve l s1 pt s' pt' \<and> pt_refines s' pt' m'"
    by (rule pt_run_refines [OF 1(2)]) (use assms(2,3) 1(7) in simp_all)
  show ?thesis
  proof (cases "map_run ops Map.empty")
    case None
    then show ?thesis using run 1(1) by simp
  next
    case (Some m)
    then obtain pt' s' where 2: "pt_run ops pt s1 = Inr (pt', s')" "pt_evolve l s1 pt s' pt'" "pt_refines s' pt' m"
      using run by auto
    have look: "case m v of
            Some e \<Rightarrow> PageTable_translate pt' (phys s') v = Inr (Some e)
          | None \<Rightarrow> PageTable_translate pt' (phys s') v = Inr None \<or>
              (\<exists>e. PageTable_translate pt' (phys s') v = Inr (Some e) \<and> \<not> PageTableEntry_is_valid e)"
      if "vpn_ok v" for v
      using 2(3) that translate_lookup [of s' pt' v] translate_unmapped [of s' pt' v]
      by (simp add: pt_refines_def split: option.splits)
    have "get_bytes_array (phys s') q = get_bytes_array (phys s0) q" if "q \<in> mm_live l s0" for q
    proof -
      have "q \<in> mm_live l s1 - pt_frame_set pt" using that 1(4-6) by auto
      then show ?thesis using 2(2) 1(8) [OF that] by (simp add: pt_evolve_def)
    qed
    then show ?thesis using Some 1(1) 2(1) look by auto
  qed
qed

theorem page_table_refines_map_witness:
  "\<exists>pt s. and_then (PageTable_new
        \<lparr>frame_allocator = \<lparr>sfa_current = 5, sfa_end = 90, sfa_recycled = []\<rparr>, phys = (\<lambda>_. 7)\<rparr>)
        (\<lambda>(pt, s). pt_run [Map (VirtPageNum 3) (PhysPageNum 77) PTE_R, Map (VirtPageNum 4) (PhysPageNum 78) PTE_R,
            Unmap (VirtPageNum 4)] pt s) = Inr (pt, s) \<and>
      PageTable_translate pt (phys s) (VirtPageNum 3) =
        Inr (Some (PageTableEntry_new (PhysPageNum 77) (flags_or PTE_R PTE_V)))"
proof -
  let ?s = "\<lparr>frame_allocator = \<lparr>sfa_current = 5, sfa_end = 90, sfa_recycled = []\<rparr>, phys = (\<lambda>_. 7)\<rparr> :: mm"
  let ?ops = "[Map (VirtPageNum 3) (PhysPageNum 77) PTE_R, Map (VirtPageNum 4) (PhysPageNum 78) PTE_R,
            Unmap (VirtPageNum 4)]"
  let ?m = "Map.empty(VirtPageNum 3 \<mapsto> PageTableEntry_new (PhysPageNum 77) (flags_or PTE_R PTE_V))"
  have a: "mm_ok 5 ?s" by (simp add: mm_ok_def sfa_invar_def)
  have b: "2 * length ?ops < mm_free ?s" by (simp add: mm_free_def sfa_free_def)
  have c: "\<forall>a \<in> set ?ops. vpn_ok (op_vpn a)" by (simp add: vpn_ok_def)
  have d: "map_run ?ops Map.empty = Some ?m" by (simp add: fun_upd_def fun_eq_iff)
  obtain pt s where
      "and_then (PageTable_new ?s) (\<lambda>(pt, s). pt_run ?ops pt s) = Inr (pt, s)"
    and t: "\<And>v. vpn_ok v \<Longrightarrow> case ?m v of
            Some e \<Rightarrow> PageTable_translate pt (phys s) v = Inr (Some e)
          | None \<Rightarrow> PageTable_translate pt (phys s) v = Inr None \<or>
              (\<exists>e. PageTable_translate pt (phys s) v = Inr (Some e) \<and> \<not> PageTableEntry_is_valid e)"
    using page_table_refines_map [OF a b c, unfolded d option.case] by blast
  moreover have "PageTable_translate pt (phys s) (VirtPageNum 3) =
        Inr (Some (PageTableEntry_new (PhysPageNum 77) (flags_or PTE_R PTE_V)))"
    using t [of "VirtPageNum 3"] by (simp add: vpn_ok_def)
  ultimately show ?thesis by blast
qed

end
