(* ===== verification/Ordered_Map.thy ===== *)
theory Ordered_Map
  imports Prelude
begin

text \<open>
  Rust's \<^verbatim>\<open>BTreeMap\<close> as the kernel uses it (\<^verbatim>\<open>MapArea::data_frames\<close>, the pid table): an association
  list kept in key order, because iterating over or dropping the map visits the keys in that order.
  \<open>insert\<close> and \<open>remove\<close> give back the value they displace.
\<close>

type_synonym ('k, 'v) btree = "('k \<times> 'v) list"

fun btree_insert :: "'k::linorder \<Rightarrow> 'v \<Rightarrow> ('k, 'v) btree \<Rightarrow> 'v option \<times> ('k, 'v) btree" where
  "btree_insert k v [] = (None, [(k, v)])"
| "btree_insert k v ((k', v') # xs) =
     (if k < k' then (None, (k, v) # (k', v') # xs)
      else if k = k' then (Some v', (k, v) # xs)
      else (case btree_insert k v xs of (old, ys) \<Rightarrow> (old, (k', v') # ys)))"

fun btree_remove :: "'k::linorder \<Rightarrow> ('k, 'v) btree \<Rightarrow> 'v option \<times> ('k, 'v) btree" where
  "btree_remove k [] = (None, [])"
| "btree_remove k ((k', v') # xs) =
     (if k = k' then (Some v', xs)
      else (case btree_remove k xs of (old, ys) \<Rightarrow> (old, (k', v') # ys)))"

definition btree_ok :: "('k::linorder, 'v) btree \<Rightarrow> bool" where
  "btree_ok xs \<longleftrightarrow> sorted_wrt (<) (map fst xs)"

lemma btree_ok_simps [simp]:
  "btree_ok []" "btree_ok (x # xs) \<longleftrightarrow> (\<forall>y \<in> set xs. fst x < fst y) \<and> btree_ok xs"
  by (auto simp: btree_ok_def)

lemma btree_ok_distinct: "btree_ok xs \<Longrightarrow> distinct (map fst xs)"
  by (induction xs) fastforce+

lemma map_of_smaller: "\<forall>y \<in> set xs. k < fst y \<Longrightarrow> map_of xs (k :: 'k::linorder) = None"
  by (force simp: map_of_eq_None_iff)

lemma set_btree_insert: "set (snd (btree_insert k v xs)) \<subseteq> insert (k, v) (set xs)"
  by (induction k v xs rule: btree_insert.induct) (auto split: prod.splits)

lemma btree_insert_spec:
  assumes "btree_ok xs"
  shows "btree_ok (snd (btree_insert k v xs))" "fst (btree_insert k v xs) = map_of xs k"
    "map_of (snd (btree_insert k v xs)) = (map_of xs)(k \<mapsto> v)"
  using assms
proof (induction k v xs rule: btree_insert.induct)
  case (2 k v k' v' xs)
  { case 1 then show ?case using 2 set_btree_insert [of k v xs]
      by (fastforce split: prod.splits)
  next
    case 2
    have "k < k' \<Longrightarrow> map_of xs k = None" using 2 by (intro map_of_smaller) (auto intro: less_trans)
    then show ?case using 2 "2.IH"(2) by (auto split: prod.splits)
  next
    case 3 then show ?case using "2.IH"(3) by (auto split: prod.splits)
  }
qed auto

lemma set_btree_remove: "set (snd (btree_remove k xs)) \<subseteq> set xs"
  by (induction k xs rule: btree_remove.induct) (auto split: prod.splits)

lemma btree_remove_spec:
  assumes "btree_ok xs"
  shows "btree_ok (snd (btree_remove k xs))" "fst (btree_remove k xs) = map_of xs k"
    "map_of (snd (btree_remove k xs)) = (map_of xs)(k := None)"
  using assms
proof (induction k xs rule: btree_remove.induct)
  case (2 k k' v' xs)
  { case 1 then show ?case using 2 set_btree_remove [of k xs] by (fastforce split: prod.splits)
  next
    case 2 then show ?case using "2.IH"(2) by (auto split: prod.splits)
  next
    case 3 then show ?case using "2.IH"(3) map_of_smaller [of xs k'] by (auto split: prod.splits)
  }
qed auto

text \<open>Inserting a key above all keys appends, removing the smallest key drops the head.\<close>

lemma btree_insert_last:
  "\<forall>y \<in> set xs. fst y < k \<Longrightarrow> btree_insert k v xs = (None, xs @ [(k, v)])"
  by (induction xs) (auto simp: not_less_iff_gr_or_eq)

end
