(* ===== verification/Memory_Set.thy ===== *)
theory Memory_Set
  imports Page_Table Ordered_Map
begin

unbundle bit_operations_syntax

text \<open>
  Address spaces, \<^verbatim>\<open>os/src/mm/memory_set.rs\<close>: logical segments (\<open>MapArea\<close>) and the \<open>MemorySet\<close> that
  owns a page table and its segments. A Rust value that owns frames gives them back when it is dropped;
  every drop the code causes (a removed segment, a replaced map entry, a cleared vector) is written out as
  a change of the memory state.
\<close>

section \<open>Permissions and segments\<close>

datatype MapPermission = MapPermission (perm_bits: u8)

definition PERM_R :: MapPermission where "PERM_R = MapPermission (push_bit 1 1)"
definition PERM_W :: MapPermission where "PERM_W = MapPermission (push_bit 2 1)"
definition PERM_X :: MapPermission where "PERM_X = MapPermission (push_bit 3 1)"
definition PERM_U :: MapPermission where "PERM_U = MapPermission (push_bit 4 1)"

definition perm_or :: "MapPermission \<Rightarrow> MapPermission \<Rightarrow> MapPermission" where
  "perm_or p q = MapPermission (perm_bits p OR perm_bits q)"

datatype MapType = Identical | Framed

record MapArea =
  ma_vpn_range :: VPNRange
  ma_data_frames :: "(VirtPageNum, FrameTracker) btree"
  ma_map_type :: MapType
  ma_map_perm :: MapPermission

definition MapArea_new :: "VirtAddr \<Rightarrow> VirtAddr \<Rightarrow> MapType \<Rightarrow> MapPermission \<Rightarrow> MapArea outcome" where
  "MapArea_new start_va end_va map_type map_perm =
     (let start_vpn = VirtAddr_floor start_va; end_vpn = VirtAddr_ceil end_va in
      and_then (VPNRange_new start_vpn end_vpn) (\<lambda>r.
      Inr \<lparr>ma_vpn_range = r, ma_data_frames = [], ma_map_type = map_type, ma_map_perm = map_perm\<rparr>))"

definition MapArea_from_another :: "MapArea \<Rightarrow> MapArea outcome" where
  "MapArea_from_another a =
     and_then (VPNRange_new (VPNRange_get_start (ma_vpn_range a)) (VPNRange_get_end (ma_vpn_range a))) (\<lambda>r.
     Inr \<lparr>ma_vpn_range = r, ma_data_frames = [], ma_map_type = ma_map_type a, ma_map_perm = ma_map_perm a\<rparr>)"

text \<open>Dropping an \<open>Option<FrameTracker>\<close>, as the result of \<open>BTreeMap::insert\<close> and \<open>remove\<close> is.\<close>

definition drop_tracker :: "FrameTracker option \<Rightarrow> mm \<Rightarrow> mm outcome" where
  "drop_tracker r s = (case r of None \<Rightarrow> Inr s | Some f \<Rightarrow> FrameTracker_drop s f)"

definition MapArea_map_one ::
  "VirtPageNum \<Rightarrow> MapArea \<times> PageTable \<times> mm \<Rightarrow> (MapArea \<times> PageTable \<times> mm) outcome" where
  "MapArea_map_one vpn = (\<lambda>(a, pt, s).
     and_then
       (case ma_map_type a of
          Identical \<Rightarrow> Inr (PhysPageNum (vpn_0 vpn), a, s)
        | Framed \<Rightarrow>
            (case frame_alloc s of (r, s1) \<Rightarrow>
             and_then (unwrap r) (\<lambda>frame.
             let ppn = ft_ppn frame; (old, df) = btree_insert vpn frame (ma_data_frames a) in
             and_then (drop_tracker old s1) (\<lambda>s2.
             Inr (ppn, a\<lparr>ma_data_frames := df\<rparr>, s2)))))
       (\<lambda>(ppn, a', s').
     and_then (unwrap (PTEFlags_from_bits (perm_bits (ma_map_perm a')))) (\<lambda>pte_flags.
     and_then (PageTable_map pt s' vpn ppn pte_flags) (\<lambda>(pt', s'').
     Inr (a', pt', s'')))))"

definition MapArea_unmap_one ::
  "VirtPageNum \<Rightarrow> MapArea \<times> PageTable \<times> mm \<Rightarrow> (MapArea \<times> PageTable \<times> mm) outcome" where
  "MapArea_unmap_one vpn = (\<lambda>(a, pt, s).
     and_then
       (if ma_map_type a = Framed
        then (let (old, df) = btree_remove vpn (ma_data_frames a) in
              and_then (drop_tracker old s) (\<lambda>s'. Inr (a\<lparr>ma_data_frames := df\<rparr>, s')))
        else Inr (a, s))
       (\<lambda>(a', s').
     and_then (PageTable_unmap pt s' vpn) (\<lambda>s''. Inr (a', pt, s''))))"

definition MapArea_map :: "MapArea \<times> PageTable \<times> mm \<Rightarrow> (MapArea \<times> PageTable \<times> mm) outcome" where
  "MapArea_map = (\<lambda>(a, pt, s). for_each MapArea_map_one (vpns_of (ma_vpn_range a)) (a, pt, s))"

definition MapArea_unmap :: "MapArea \<times> PageTable \<times> mm \<Rightarrow> (MapArea \<times> PageTable \<times> mm) outcome" where
  "MapArea_unmap = (\<lambda>(a, pt, s). for_each MapArea_unmap_one (vpns_of (ma_vpn_range a)) (a, pt, s))"

definition MapArea_shrink_to ::
  "VirtPageNum \<Rightarrow> MapArea \<times> PageTable \<times> mm \<Rightarrow> (MapArea \<times> PageTable \<times> mm) outcome" where
  "MapArea_shrink_to new_end = (\<lambda>(a, pt, s).
     and_then (VPNRange_new new_end (VPNRange_get_end (ma_vpn_range a))) (\<lambda>r.
     and_then (for_each MapArea_unmap_one (vpns_of r) (a, pt, s)) (\<lambda>(a', pt', s').
     and_then (VPNRange_new (VPNRange_get_start (ma_vpn_range a')) new_end) (\<lambda>r'.
     Inr (a'\<lparr>ma_vpn_range := r'\<rparr>, pt', s')))))"

definition MapArea_append_to ::
  "VirtPageNum \<Rightarrow> MapArea \<times> PageTable \<times> mm \<Rightarrow> (MapArea \<times> PageTable \<times> mm) outcome" where
  "MapArea_append_to new_end = (\<lambda>(a, pt, s).
     and_then (VPNRange_new (VPNRange_get_end (ma_vpn_range a)) new_end) (\<lambda>r.
     and_then (for_each MapArea_map_one (vpns_of r) (a, pt, s)) (\<lambda>(a', pt', s').
     and_then (VPNRange_new (VPNRange_get_start (ma_vpn_range a')) new_end) (\<lambda>r'.
     Inr (a'\<lparr>ma_vpn_range := r'\<rparr>, pt', s')))))"

text \<open>
  The copy loop. \<open>start\<close> and \<open>len\<close> are offsets into a slice, which has less than \<open>2 ^ 63\<close> bytes, so
  \<open>start + PAGE_SIZE\<close> does not overflow and natural numbers stand for them.
\<close>

function copy_data_loop :: "PageTable \<Rightarrow> u8 list \<Rightarrow> nat \<Rightarrow> VirtPageNum \<Rightarrow> mem \<Rightarrow> mem outcome" where
  "copy_data_loop pt data start current_vpn m =
     (let len = length data; src = drop start (take (min len (start + 4096)) data) in
      and_then (PageTable_translate pt m current_vpn) (\<lambda>r.
      and_then (unwrap r) (\<lambda>pte.
      let m' = set_bytes_array m (PageTableEntry_ppn pte) src in
      if start + 4096 \<ge> len then Inr m'
      else copy_data_loop pt data (start + 4096) (VirtPageNum_step current_vpn) m')))"
  by pat_completeness auto
termination by (relation "measure (\<lambda>(pt, data, start, v, m). length data - start)") auto

declare copy_data_loop.simps [simp del]

definition MapArea_copy_data :: "MapArea \<Rightarrow> PageTable \<Rightarrow> u8 list \<Rightarrow> mem \<Rightarrow> mem outcome" where
  "MapArea_copy_data a pt data m =
     and_then (assert_that (ma_map_type a = Framed)) (\<lambda>_.
     copy_data_loop pt data 0 (VPNRange_get_start (ma_vpn_range a)) m)"

text \<open>The data frames still in a dropped segment go back to the allocator in key order.\<close>

definition MapArea_drop :: "MapArea \<Rightarrow> mm \<Rightarrow> mm outcome" where
  "MapArea_drop a s = for_each (\<lambda>(v, f) s. FrameTracker_drop s f) (ma_data_frames a) s"

section \<open>Address spaces\<close>

record MemorySet =
  ms_page_table :: PageTable
  ms_areas :: "MapArea list"

definition MemorySet_new_bare :: "mm \<Rightarrow> (MemorySet \<times> mm) outcome" where
  "MemorySet_new_bare s =
     and_then (PageTable_new s) (\<lambda>(pt, s'). Inr (\<lparr>ms_page_table = pt, ms_areas = []\<rparr>, s'))"

definition MemorySet_token :: "MemorySet \<Rightarrow> usize" where
  "MemorySet_token ms = PageTable_token (ms_page_table ms)"

definition MemorySet_translate :: "MemorySet \<Rightarrow> mem \<Rightarrow> VirtPageNum \<Rightarrow> PageTableEntry option outcome" where
  "MemorySet_translate ms m vpn = PageTable_translate (ms_page_table ms) m vpn"

definition MemorySet_push :: "MapArea \<Rightarrow> u8 list option \<Rightarrow> MemorySet \<times> mm \<Rightarrow> (MemorySet \<times> mm) outcome" where
  "MemorySet_push map_area data = (\<lambda>(ms, s).
     and_then (MapArea_map (map_area, ms_page_table ms, s)) (\<lambda>(a, pt, s').
     and_then (case data of
         None \<Rightarrow> Inr s'
       | Some d \<Rightarrow> and_then (MapArea_copy_data a pt d (phys s')) (\<lambda>m. Inr (s'\<lparr>phys := m\<rparr>))) (\<lambda>s''.
     Inr (\<lparr>ms_page_table = pt, ms_areas = ms_areas ms @ [a]\<rparr>, s''))))"

definition MemorySet_insert_framed_area ::
  "VirtAddr \<Rightarrow> VirtAddr \<Rightarrow> MapPermission \<Rightarrow> MemorySet \<times> mm \<Rightarrow> (MemorySet \<times> mm) outcome" where
  "MemorySet_insert_framed_area start_va end_va permission = (\<lambda>(ms, s).
     and_then (MapArea_new start_va end_va Framed permission) (\<lambda>a. MemorySet_push a None (ms, s)))"

definition MemorySet_remove_area_with_start_vpn ::
  "VirtPageNum \<Rightarrow> MemorySet \<times> mm \<Rightarrow> (MemorySet \<times> mm) outcome" where
  "MemorySet_remove_area_with_start_vpn start_vpn = (\<lambda>(ms, s).
     (case position (\<lambda>a. VPNRange_get_start (ma_vpn_range a) = start_vpn) (ms_areas ms) of
        None \<Rightarrow> Inr (ms, s)
      | Some idx \<Rightarrow>
          and_then (MapArea_unmap (ms_areas ms ! idx, ms_page_table ms, s)) (\<lambda>(a, pt, s').
          and_then (MapArea_drop a s') (\<lambda>s''.
          Inr (\<lparr>ms_page_table = pt, ms_areas = remove_at idx (ms_areas ms)\<rparr>, s'')))))"

text \<open>\<open>strampoline\<close> is the linker's symbol for the trampoline code.\<close>

definition TRAMPOLINE :: usize where "TRAMPOLINE = - 1 - PAGE_SIZE + 1"

definition MemorySet_map_trampoline :: "usize \<Rightarrow> MemorySet \<times> mm \<Rightarrow> (MemorySet \<times> mm) outcome" where
  "MemorySet_map_trampoline strampoline = (\<lambda>(ms, s).
     and_then (VirtPageNum_from_VirtAddr (VirtAddr_from TRAMPOLINE)) (\<lambda>vpn.
     and_then (PhysPageNum_from_PhysAddr (PhysAddr_from strampoline)) (\<lambda>ppn.
     and_then (PageTable_map (ms_page_table ms) s vpn ppn (flags_or PTE_R PTE_X)) (\<lambda>(pt, s').
     Inr (ms\<lparr>ms_page_table := pt\<rparr>, s')))))"

text \<open>The linker's symbols for the sections of the kernel image, and the device registers of the board.\<close>

record kernel_symbols =
  ks_stext :: usize
  ks_etext :: usize
  ks_srodata :: usize
  ks_erodata :: usize
  ks_sdata :: usize
  ks_edata :: usize
  ks_sbss_with_stack :: usize
  ks_ebss :: usize
  ks_ekernel :: usize
  ks_strampoline :: usize

definition MMIO :: "(usize \<times> usize) list" where
  "MMIO = [(0x00100000, 0x002000), (0x10001000, 0x001000)]"

definition push_identical :: "usize \<Rightarrow> usize \<Rightarrow> MapPermission \<Rightarrow> MemorySet \<times> mm \<Rightarrow> (MemorySet \<times> mm) outcome" where
  "push_identical l r perm st =
     and_then (MapArea_new (VirtAddr_from l) (VirtAddr_from r) Identical perm) (\<lambda>a. MemorySet_push a None st)"

definition MemorySet_new_kernel :: "kernel_symbols \<Rightarrow> mm \<Rightarrow> (MemorySet \<times> mm) outcome" where
  "MemorySet_new_kernel k s =
     and_then (MemorySet_new_bare s) (\<lambda>st.
     and_then (MemorySet_map_trampoline (ks_strampoline k) st) (\<lambda>st.
     and_then (push_identical (ks_stext k) (ks_etext k) (perm_or PERM_R PERM_X) st) (\<lambda>st.
     and_then (push_identical (ks_srodata k) (ks_erodata k) PERM_R st) (\<lambda>st.
     and_then (push_identical (ks_sdata k) (ks_edata k) (perm_or PERM_R PERM_W) st) (\<lambda>st.
     and_then (push_identical (ks_sbss_with_stack k) (ks_ebss k) (perm_or PERM_R PERM_W) st) (\<lambda>st.
     and_then (push_identical (ks_ekernel k) MEMORY_END (perm_or PERM_R PERM_W) st) (\<lambda>st.
     for_each (\<lambda>pair. push_identical (fst pair) (fst pair + snd pair) (perm_or PERM_R PERM_W)) MMIO st)))))))"

text \<open>
  What the loader reads of an ELF file. The parser is the crate \<^verbatim>\<open>xmas_elf\<close>; it is the argument
  \<open>parse\<close> of the loader, and a program header or its type that the crate refuses is \<open>None\<close>.
\<close>

datatype SegmentType = Load | OtherSegment

record ProgramHeader =
  ph_get_type :: "SegmentType option"
  ph_virtual_addr :: u64
  ph_mem_size :: u64
  ph_is_read :: bool
  ph_is_write :: bool
  ph_is_execute :: bool
  ph_offset :: u64
  ph_file_size :: u64

record ElfFile =
  elf_magic :: "u8 list"
  elf_ph_count :: nat
  elf_program_header :: "nat \<Rightarrow> ProgramHeader option"
  elf_entry_point :: u64

definition segment_perm :: "ProgramHeader \<Rightarrow> MapPermission" where
  "segment_perm ph =
     (let p = PERM_U;
          p = (if ph_is_read ph then perm_or p PERM_R else p);
          p = (if ph_is_write ph then perm_or p PERM_W else p);
          p = (if ph_is_execute ph then perm_or p PERM_X else p) in p)"

definition load_segment ::
  "u8 list \<Rightarrow> ElfFile \<Rightarrow> nat \<Rightarrow> VirtPageNum \<times> MemorySet \<times> mm \<Rightarrow> (VirtPageNum \<times> MemorySet \<times> mm) outcome" where
  "load_segment input elf i = (\<lambda>(max_end_vpn, ms, s).
     and_then (unwrap (elf_program_header elf i)) (\<lambda>ph.
     and_then (unwrap (ph_get_type ph)) (\<lambda>ty.
     if ty = Load
     then (let start_va = VirtAddr_from (ph_virtual_addr ph);
               end_va = VirtAddr_from (ph_virtual_addr ph + ph_mem_size ph) in
       and_then (MapArea_new start_va end_va Framed (segment_perm ph)) (\<lambda>map_area.
       and_then (slice input (ph_offset ph) (ph_offset ph + ph_file_size ph)) (\<lambda>data.
       and_then (MemorySet_push map_area (Some data) (ms, s)) (\<lambda>(ms', s').
       Inr (VPNRange_get_end (ma_vpn_range map_area), ms', s')))))
     else Inr (max_end_vpn, ms, s))))"

definition MemorySet_from_elf ::
  "(u8 list \<Rightarrow> ElfFile option) \<Rightarrow> usize \<Rightarrow> u8 list \<Rightarrow> mm \<Rightarrow> (MemorySet \<times> usize \<times> usize \<times> mm) outcome" where
  "MemorySet_from_elf parse strampoline elf_data s =
     and_then (MemorySet_new_bare s) (\<lambda>st.
     and_then (MemorySet_map_trampoline strampoline st) (\<lambda>(ms, s).
     and_then (unwrap (parse elf_data)) (\<lambda>elf.
     and_then (assert_that (elf_magic elf = [0x7f, 0x45, 0x4c, 0x46])) (\<lambda>_.
     and_then (for_each (load_segment elf_data elf) [0..<elf_ph_count elf] (VirtPageNum 0, ms, s))
       (\<lambda>(max_end_vpn, ms, s).
     let max_end_va = VirtAddr_from_VirtPageNum max_end_vpn;
         user_stack_base = usize_from_VirtAddr max_end_va + PAGE_SIZE in
     Inr (ms, user_stack_base, elf_entry_point elf, s))))))"

definition copy_page :: "MemorySet \<Rightarrow> MemorySet \<Rightarrow> VirtPageNum \<Rightarrow> mem \<Rightarrow> mem outcome" where
  "copy_page user_space memory_set vpn m =
     and_then (MemorySet_translate user_space m vpn) (\<lambda>r.
     and_then (unwrap r) (\<lambda>src_pte.
     and_then (MemorySet_translate memory_set m vpn) (\<lambda>r'.
     and_then (unwrap r') (\<lambda>dst_pte.
     Inr (set_bytes_array m (PageTableEntry_ppn dst_pte)
            (get_bytes_array m (PageTableEntry_ppn src_pte)))))))"

definition copy_area :: "MemorySet \<Rightarrow> MapArea \<Rightarrow> MemorySet \<times> mm \<Rightarrow> (MemorySet \<times> mm) outcome" where
  "copy_area user_space area st =
     and_then (MapArea_from_another area) (\<lambda>new_area.
     and_then (MemorySet_push new_area None st) (\<lambda>(ms, s).
     and_then (for_each (copy_page user_space ms) (vpns_of (ma_vpn_range area)) (phys s)) (\<lambda>m.
     Inr (ms, s\<lparr>phys := m\<rparr>))))"

definition MemorySet_from_existed_user :: "usize \<Rightarrow> MemorySet \<Rightarrow> mm \<Rightarrow> (MemorySet \<times> mm) outcome" where
  "MemorySet_from_existed_user strampoline user_space s =
     and_then (MemorySet_new_bare s) (\<lambda>st.
     and_then (MemorySet_map_trampoline strampoline st) (\<lambda>st.
     for_each (copy_area user_space) (ms_areas user_space) st))"

definition MemorySet_recycle_data_pages :: "MemorySet \<times> mm \<Rightarrow> (MemorySet \<times> mm) outcome" where
  "MemorySet_recycle_data_pages = (\<lambda>(ms, s).
     and_then (for_each MapArea_drop (ms_areas ms) s) (\<lambda>s'. Inr (ms\<lparr>ms_areas := []\<rparr>, s')))"

definition MemorySet_shrink_to :: "VirtAddr \<Rightarrow> VirtAddr \<Rightarrow> MemorySet \<times> mm \<Rightarrow> (bool \<times> MemorySet \<times> mm) outcome" where
  "MemorySet_shrink_to start new_end = (\<lambda>(ms, s).
     (case position (\<lambda>a. VPNRange_get_start (ma_vpn_range a) = VirtAddr_floor start) (ms_areas ms) of
        None \<Rightarrow> Inr (False, ms, s)
      | Some i \<Rightarrow>
          and_then (MapArea_shrink_to (VirtAddr_ceil new_end) (ms_areas ms ! i, ms_page_table ms, s))
            (\<lambda>(a, pt, s'). Inr (True, \<lparr>ms_page_table = pt, ms_areas = (ms_areas ms)[i := a]\<rparr>, s'))))"

definition MemorySet_append_to :: "VirtAddr \<Rightarrow> VirtAddr \<Rightarrow> MemorySet \<times> mm \<Rightarrow> (bool \<times> MemorySet \<times> mm) outcome" where
  "MemorySet_append_to start new_end = (\<lambda>(ms, s).
     (case position (\<lambda>a. VPNRange_get_start (ma_vpn_range a) = VirtAddr_floor start) (ms_areas ms) of
        None \<Rightarrow> Inr (False, ms, s)
      | Some i \<Rightarrow>
          and_then (MapArea_append_to (VirtAddr_ceil new_end) (ms_areas ms ! i, ms_page_table ms, s))
            (\<lambda>(a, pt, s'). Inr (True, \<lparr>ms_page_table = pt, ms_areas = (ms_areas ms)[i := a]\<rparr>, s'))))"

text \<open>Dropping an address space frees the tables first, then the segments, the order of its fields.\<close>

definition MemorySet_drop :: "MemorySet \<Rightarrow> mm \<Rightarrow> mm outcome" where
  "MemorySet_drop ms s =
     and_then (for_each (\<lambda>f s. FrameTracker_drop s f) (pt_frames (ms_page_table ms)) s) (\<lambda>s'.
     for_each MapArea_drop (ms_areas ms) s')"

section \<open>What a page table depends on\<close>

lemma entry_bytes:
  assumes "unat i < 512"
  shows "entry m t i = \<lparr>pte_bits = le_word (take 8 (drop (8 * unat i) (get_bytes_array m t)))\<rparr>"
proof -
  have "read_bytes m (slot t i) 8 = take 8 (drop (8 * unat i) (get_bytes_array m t))"
    using assms
    by (intro nth_equalityI) (simp_all add: read_bytes_def get_bytes_array_def slot_of_nat add.assoc)
  then show ?thesis by (simp add: entry_def read_pte_def read_u64_def)
qed

lemma walk_same_bytes:
  assumes tree: "pt_tree m root F" and same: "\<And>q. q \<in> F \<Longrightarrow> get_bytes_array m' q = get_bytes_array m q"
    and js: "short_path js"
  shows "walk m' root js = walk m root js"
proof (rule walk_same)
  fix p j q t
  assume js': "js = p @ j # q" and t: "walk m root p = Some t"
  have sp: "short_path p" "unat j < 512" using js js' by (auto simp: short_path_def)
  have "t \<in> F" using pt_treeD(2) [OF tree sp(1) t] .
  then show "entry m' t j = entry m t j" using same sp(2) by (simp add: entry_bytes)
qed

lemma pt_tree_same_bytes:
  assumes tree: "pt_tree m root F" and same: "\<And>q. q \<in> F \<Longrightarrow> get_bytes_array m' q = get_bytes_array m q"
  shows "pt_tree m' root F"
  using tree walk_same_bytes [OF tree same] unfolding pt_tree_def by simp

lemma pt_lookup_same_bytes:
  assumes tree: "pt_tree m root F" and same: "\<And>q. q \<in> F \<Longrightarrow> get_bytes_array m' q = get_bytes_array m q"
  shows "pt_lookup m' root v = pt_lookup m root v"
proof (cases "walk m root (table_path v)")
  case None
  then show ?thesis using walk_same_bytes [OF tree same] by (simp add: pt_lookup_def)
next
  case (Some t)
  have "t \<in> F" using pt_treeD(2) [OF tree _ Some] by simp
  then show ?thesis
    using Some walk_same_bytes [OF tree same] same by (simp add: pt_lookup_def entry_bytes)
qed

section \<open>Page ranges\<close>

lemma vpns_of_unat: "vr_l r \<le> vr_r r \<Longrightarrow> map (unat \<circ> vpn_0) (vpns_of r) = [unat (vpn_0 (vr_l r))..<unat (vpn_0 (vr_r r))]"
  using iterate_vpns_upt [of "VPNRange_into_iter r"] by (simp add: vpns_of_def VPNRange_into_iter_def)

lemma VirtPageNum_less_unat: "v < w \<longleftrightarrow> unat (vpn_0 v) < unat (vpn_0 w)"
  by (simp add: less_VirtPageNum_def word_less_nat_alt)

lemma VirtPageNum_le_unat: "v \<le> w \<longleftrightarrow> unat (vpn_0 v) \<le> unat (vpn_0 w)"
  by (simp add: less_eq_VirtPageNum_def word_le_nat_alt)

lemma VirtPageNum_eq_unat: "v = w \<longleftrightarrow> unat (vpn_0 v) = unat (vpn_0 w)"
  by (auto simp: word_unat_eq_iff intro: VirtPageNum.expand)

lemma sorted_vpns_of: "vr_l r \<le> vr_r r \<Longrightarrow> sorted_wrt (<) (vpns_of r)"
proof -
  assume "vr_l r \<le> vr_r r"
  then have "sorted_wrt (<) (map (unat \<circ> vpn_0) (vpns_of r))"
    by (simp only: vpns_of_unat sorted_wrt_upt)
  then show ?thesis by (simp add: sorted_wrt_map VirtPageNum_less_unat [abs_def])
qed

lemma distinct_vpns_of: "vr_l r \<le> vr_r r \<Longrightarrow> distinct (vpns_of r)"
  using sorted_vpns_of [of r] by (simp add: strict_sorted_iff)

lemma set_vpns_of: "vr_l r \<le> vr_r r \<Longrightarrow> set (vpns_of r) = {v. vr_l r \<le> v \<and> v < vr_r r}"
proof -
  assume r: "vr_l r \<le> vr_r r"
  have "v \<in> set (vpns_of r) \<longleftrightarrow> unat (vpn_0 v) \<in> set (map (unat \<circ> vpn_0) (vpns_of r))" for v
    by (auto simp: VirtPageNum_eq_unat [symmetric])
  then show ?thesis
    by (auto simp: vpns_of_unat [OF r] VirtPageNum_less_unat VirtPageNum_le_unat)
qed

section \<open>How an operation on an address space changes memory\<close>

text \<open>
  Between two states of the memory subsystem: the frames \<open>N\<close> are new data frames, the new tables belong to
  the page table, and every frame that was in use, other than the tables, keeps its bytes.
\<close>

definition as_evolve :: "usize \<Rightarrow> mm \<Rightarrow> PageTable \<Rightarrow> mm \<Rightarrow> PageTable \<Rightarrow> PhysPageNum set \<Rightarrow> bool" where
  "as_evolve l s pt s' pt' N \<longleftrightarrow>
     pt_ok l s' pt' \<and> pt_root_ppn pt' = pt_root_ppn pt \<and>
     N \<inter> mm_live l s = {} \<and> N \<inter> pt_frame_set pt' = {} \<and>
     mm_live l s' = mm_live l s \<union> pt_frame_set pt' \<union> N \<and>
     pt_frame_set pt \<subseteq> pt_frame_set pt' \<and> pt_frame_set pt' \<inter> mm_live l s = pt_frame_set pt \<and>
     (\<forall>q \<in> mm_live l s - pt_frame_set pt. get_bytes_array (phys s') q = get_bytes_array (phys s) q)"

lemma as_evolve_refl: "pt_ok l s pt \<Longrightarrow> as_evolve l s pt s pt {}"
  by (auto simp: as_evolve_def pt_ok_def)

lemma as_evolve_trans:
  "as_evolve l s pt s' pt' N \<Longrightarrow> as_evolve l s' pt' s'' pt'' N' \<Longrightarrow> as_evolve l s pt s'' pt'' (N \<union> N')"
  unfolding as_evolve_def by auto

lemma as_evolve_pt_evolve: "pt_evolve l s pt s' pt' \<Longrightarrow> as_evolve l s pt s' pt' {}"
  by (simp add: as_evolve_def pt_evolve_def)

text \<open>A second page table in the same memory is not affected.\<close>

lemma as_evolve_other:
  assumes ev: "as_evolve l s pt s' pt' N" and ok: "pt_ok l s pt2"
    and dis: "pt_frame_set pt2 \<inter> pt_frame_set pt = {}"
  shows "pt_ok l s' pt2" "lookup s' pt2 v = lookup s pt2 v" "pt_frame_set pt2 \<inter> pt_frame_set pt' = {}"
proof -
  have live: "pt_frame_set pt2 \<subseteq> mm_live l s" and tree: "pt_tree (phys s) (pt_root_ppn pt2) (pt_frame_set pt2)"
    using ok by (auto simp: pt_ok_def)
  have same: "get_bytes_array (phys s') q = get_bytes_array (phys s) q" if "q \<in> pt_frame_set pt2" for q
  proof -
    have "q \<in> mm_live l s - pt_frame_set pt" using that live dis by blast
    then show ?thesis using ev by (simp add: as_evolve_def)
  qed
  have "mm_ok l s'" "mm_live l s \<subseteq> mm_live l s'" using ev by (auto simp: as_evolve_def pt_ok_def)
  then show "pt_ok l s' pt2"
    using live pt_tree_same_bytes [OF tree same] by (auto simp: pt_ok_def)
  show "lookup s' pt2 v = lookup s pt2 v" using pt_lookup_same_bytes [OF tree same] by simp
  show "pt_frame_set pt2 \<inter> pt_frame_set pt' = {}" using ev live dis by (auto simp: as_evolve_def)
qed

text \<open>Writing into a data frame changes no page table.\<close>

lemma write_data_frame:
  assumes ok: "pt_ok l s pt" and q: "q \<in> mm_live l s - pt_frame_set pt" and len: "length bs \<le> 4096"
  defines "s' \<equiv> s\<lparr>phys := set_bytes_array (phys s) q bs\<rparr>"
  shows "pt_ok l s' pt" "lookup s' pt v = lookup s pt v" "mm_live l s' = mm_live l s" "mm_free s' = mm_free s"
    "\<And>p. p \<in> mm_live l s \<Longrightarrow> p \<noteq> q \<Longrightarrow> get_bytes_array (phys s') p = get_bytes_array (phys s) p"
    "length bs = 4096 \<Longrightarrow> get_bytes_array (phys s') q = bs"
proof -
  have mm: "mm_ok l s" and live: "pt_frame_set pt \<subseteq> mm_live l s"
    and tree: "pt_tree (phys s) (pt_root_ppn pt) (pt_frame_set pt)"
    using ok by (auto simp: pt_ok_def)
  show other: "get_bytes_array (phys s') p = get_bytes_array (phys s) p" if "p \<in> mm_live l s" "p \<noteq> q" for p
    using that q len mm_live_ppn_ok [OF mm] by (simp add: s'_def get_set_bytes_array_other)
  have same: "get_bytes_array (phys s') p = get_bytes_array (phys s) p" if "p \<in> pt_frame_set pt" for p
    by (rule other) (use that live q in auto)
  show "mm_live l s' = mm_live l s" "mm_free s' = mm_free s" by (simp_all add: s'_def mm_live_def mm_free_def)
  then show "pt_ok l s' pt"
    using mm live pt_tree_same_bytes [OF tree same] by (simp add: pt_ok_def mm_ok_def s'_def)
  show "lookup s' pt v = lookup s pt v" using pt_lookup_same_bytes [OF tree same] by simp
  show "length bs = 4096 \<Longrightarrow> get_bytes_array (phys s') q = bs"
    by (simp add: s'_def get_set_bytes_array_same)
qed

section \<open>Mapping a range\<close>

definition area_pte :: "MapArea \<Rightarrow> PhysPageNum \<Rightarrow> PageTableEntry" where
  "area_pte a p = PageTableEntry_new p (flags_or (PTEFlags (perm_bits (ma_map_perm a))) PTE_V)"

lemma area_pte_update [simp]: "area_pte (a\<lparr>ma_data_frames := df\<rparr>) = area_pte a"
  by (simp add: area_pte_def fun_eq_iff)

lemma PTEFlags_from_bits_Some [simp]: "PTEFlags_from_bits b = Some (PTEFlags b)"
proof -
  have "flag_bits all_flags = - 1"
    by (simp add: all_flags_def flags_or_def PTE_V_def PTE_R_def PTE_W_def PTE_X_def PTE_U_def PTE_G_def
        PTE_A_def PTE_D_def)
  then show ?thesis by (simp add: PTEFlags_from_bits_def)
qed

lemma frame_alloc_evolves:
  assumes ok: "pt_ok l s pt" and free: "0 < mm_free s"
  obtains f s' where "frame_alloc s = (Some (FrameTracker f), s')" "as_evolve l s pt s' pt {f}"
    "\<And>v. lookup s' pt v = lookup s pt v" "get_bytes_array (phys s') f = replicate 4096 0"
    "Suc (mm_free s') = mm_free s"
proof -
  have mm: "mm_ok l s" and live: "pt_frame_set pt \<subseteq> mm_live l s"
    and tree: "pt_tree (phys s) (pt_root_ppn pt) (pt_frame_set pt)"
    using ok by (auto simp: pt_ok_def)
  obtain f s' where f: "frame_alloc s = (Some (FrameTracker f), s')" "mm_ok l s'" "f \<notin> mm_live l s"
      "mm_live l s' = insert f (mm_live l s)" "Suc (mm_free s') = mm_free s"
      "phys s' = set_bytes_array (phys s) f (replicate 4096 0)"
    using frame_alloc_spec [OF mm free] by blast
  have fok: "ppn_ok f" using mm_live_ppn_ok [OF f(2)] f(4) by blast
  have same: "get_bytes_array (phys s') q = get_bytes_array (phys s) q" if "q \<in> mm_live l s" for q
  proof -
    have "f \<noteq> q" using that f(3) by blast
    then show ?thesis using f(6) fok mm_live_ppn_ok [OF mm that] by (simp add: get_set_bytes_array_other)
  qed
  then have same': "get_bytes_array (phys s') q = get_bytes_array (phys s) q" if "q \<in> pt_frame_set pt" for q
    using that live by blast
  have "pt_ok l s' pt"
    using f(2,4) live pt_tree_same_bytes [OF tree same'] by (auto simp: pt_ok_def)
  then have "as_evolve l s pt s' pt {f}"
    using f(3,4) live same by (auto simp: as_evolve_def)
  then show ?thesis
    using that f pt_lookup_same_bytes [OF tree same'] by (simp add: get_set_bytes_array_same)
qed

lemma map_one_framed:
  assumes ok: "pt_ok l s pt" and v: "vpn_ok v" "lookup s pt v = None" and free: "3 \<le> mm_free s"
    and a: "ma_map_type a = Framed" "\<forall>y \<in> set (ma_data_frames a). fst y < v"
  shows "\<exists>f pt' s'. MapArea_map_one v (a, pt, s) =
      Inr (a\<lparr>ma_data_frames := ma_data_frames a @ [(v, FrameTracker f)]\<rparr>, pt', s') \<and>
    as_evolve l s pt s' pt' {f} \<and> get_bytes_array (phys s') f = replicate 4096 0 \<and>
    (\<forall>w. vpn_ok w \<longrightarrow> lookup s' pt' w = (if w = v then Some (area_pte a f) else lookup s pt w)) \<and>
    mm_free s \<le> mm_free s' + 3"
proof -
  have "0 < mm_free s" using free by simp
  then obtain f s1 where f: "frame_alloc s = (Some (FrameTracker f), s1)" "as_evolve l s pt s1 pt {f}"
      "\<And>v. lookup s1 pt v = lookup s pt v" "get_bytes_array (phys s1) f = replicate 4096 0"
      "Suc (mm_free s1) = mm_free s"
    using frame_alloc_evolves [OF ok] by blast
  have ok1: "pt_ok l s1 pt" using f(2) by (simp add: as_evolve_def)
  obtain s' pt' where m: "PageTable_map pt s1 v f (PTEFlags (perm_bits (ma_map_perm a))) = Inr (pt', s')"
      "pt_evolve l s1 pt s' pt'"
      "\<And>w. vpn_ok w \<Longrightarrow> lookup s' pt' w = (if w = v then Some (area_pte a f) else lookup s1 pt w)"
      "mm_free s1 \<le> mm_free s' + 2"
    using PageTable_map_spec [OF ok1 v(1)] f(3,5) free v(2) unfolding area_pte_def by (metis add_2_eq_Suc'
        Suc_le_mono numeral_3_eq_3 numeral_2_eq_2)
  have ev: "as_evolve l s pt s' pt' {f}"
    using as_evolve_trans [OF f(2) as_evolve_pt_evolve [OF m(2)]] by simp
  have "f \<in> mm_live l s1 - pt_frame_set pt" using f(2) by (auto simp: as_evolve_def)
  then have "get_bytes_array (phys s') f = replicate 4096 0"
    using m(2) f(4) by (simp add: pt_evolve_def)
  moreover have "MapArea_map_one v (a, pt, s) =
      Inr (a\<lparr>ma_data_frames := ma_data_frames a @ [(v, FrameTracker f)]\<rparr>, pt', s')"
    using a f(1) m(1) by (simp add: MapArea_map_one_def btree_insert_last drop_tracker_def)
  ultimately show ?thesis using ev m(3,4) f(3,5) by auto
qed

lemma map_one_identical:
  assumes ok: "pt_ok l s pt" and v: "vpn_ok v" "lookup s pt v = None" and free: "2 \<le> mm_free s"
    and a: "ma_map_type a = Identical"
  shows "\<exists>pt' s'. MapArea_map_one v (a, pt, s) = Inr (a, pt', s') \<and> as_evolve l s pt s' pt' {} \<and>
    (\<forall>w. vpn_ok w \<longrightarrow> lookup s' pt' w =
       (if w = v then Some (area_pte a (PhysPageNum (vpn_0 v))) else lookup s pt w)) \<and>
    mm_free s \<le> mm_free s' + 2"
proof -
  obtain s' pt' where m: "PageTable_map pt s v (PhysPageNum (vpn_0 v)) (PTEFlags (perm_bits (ma_map_perm a))) = Inr (pt', s')"
      "pt_evolve l s pt s' pt'"
      "\<And>w. vpn_ok w \<Longrightarrow> lookup s' pt' w =
         (if w = v then Some (area_pte a (PhysPageNum (vpn_0 v))) else lookup s pt w)"
      "mm_free s \<le> mm_free s' + 2"
    using PageTable_map_spec [OF ok v(1) free v(2)] unfolding area_pte_def by metis
  then show ?thesis using a as_evolve_pt_evolve [OF m(2)] by (simp add: MapArea_map_one_def)
qed

lemma for_each_map_framed:
  assumes "pt_ok l s pt" "sorted_wrt (<) vs" "\<forall>v \<in> set vs. vpn_ok v \<and> lookup s pt v = None"
    "\<forall>y \<in> set (ma_data_frames a). \<forall>v \<in> set vs. fst y < v" "3 * length vs \<le> mm_free s"
    "ma_map_type a = Framed"
  shows "\<exists>fs pt' s'. for_each MapArea_map_one vs (a, pt, s) =
      Inr (a\<lparr>ma_data_frames := ma_data_frames a @ zip vs (map FrameTracker fs)\<rparr>, pt', s') \<and>
    length fs = length vs \<and> distinct fs \<and> as_evolve l s pt s' pt' (set fs) \<and>
    (\<forall>w. vpn_ok w \<longrightarrow> lookup s' pt' w =
       (case map_of (zip vs fs) w of Some f \<Rightarrow> Some (area_pte a f) | None \<Rightarrow> lookup s pt w)) \<and>
    (\<forall>f \<in> set fs. get_bytes_array (phys s') f = replicate 4096 0) \<and>
    mm_free s \<le> mm_free s' + 3 * length vs"
  using assms
proof (induction vs arbitrary: a pt s)
  case Nil
  then show ?case by (intro exI [of _ "[]"]) (simp add: as_evolve_refl)
next
  case (Cons v vs)
  obtain f pt1 s1 where 1: "MapArea_map_one v (a, pt, s) =
        Inr (a\<lparr>ma_data_frames := ma_data_frames a @ [(v, FrameTracker f)]\<rparr>, pt1, s1)"
      "as_evolve l s pt s1 pt1 {f}" "get_bytes_array (phys s1) f = replicate 4096 0"
      "\<And>w. vpn_ok w \<Longrightarrow> lookup s1 pt1 w = (if w = v then Some (area_pte a f) else lookup s pt w)"
      "mm_free s \<le> mm_free s1 + 3"
    using map_one_framed [OF Cons.prems(1), of v a] Cons.prems by auto
  let ?a = "a\<lparr>ma_data_frames := ma_data_frames a @ [(v, FrameTracker f)]\<rparr>"
  have ok1: "pt_ok l s1 pt1" using 1(2) by (simp add: as_evolve_def)
  have less: "\<forall>w \<in> set vs. v < w" using Cons.prems(2) by simp
  obtain fs pt' s' where 2: "for_each MapArea_map_one vs (?a, pt1, s1) =
        Inr (?a\<lparr>ma_data_frames := ma_data_frames ?a @ zip vs (map FrameTracker fs)\<rparr>, pt', s')"
      "length fs = length vs" "distinct fs" "as_evolve l s1 pt1 s' pt' (set fs)"
      "\<forall>w. vpn_ok w \<longrightarrow> lookup s' pt' w =
         (case map_of (zip vs fs) w of Some f \<Rightarrow> Some (area_pte ?a f) | None \<Rightarrow> lookup s1 pt1 w)"
      "\<forall>f \<in> set fs. get_bytes_array (phys s') f = replicate 4096 0"
      "mm_free s1 \<le> mm_free s' + 3 * length vs"
    using Cons.IH [OF ok1, of ?a] 1(4,5) Cons.prems less by fastforce
  have f: "f \<in> mm_live l s1 - pt_frame_set pt1" using 1(2) by (auto simp: as_evolve_def)
  have "v \<notin> set vs" using less by auto
  then have vn: "map_of (zip vs fs) v = None" using 2(2) by (simp add: map_of_zip_is_None)
  show ?case
  proof (intro exI conjI)
    show "for_each MapArea_map_one (v # vs) (a, pt, s) =
      Inr (a\<lparr>ma_data_frames := ma_data_frames a @ zip (v # vs) (map FrameTracker (f # fs))\<rparr>, pt', s')"
      using 1(1) 2(1) by simp
    show "length (f # fs) = length (v # vs)" using 2(2) by simp
    show "distinct (f # fs)" using 2(3,4) f by (auto simp: as_evolve_def)
    show "as_evolve l s pt s' pt' (set (f # fs))" using as_evolve_trans [OF 1(2) 2(4)] by simp
    show "\<forall>w. vpn_ok w \<longrightarrow> lookup s' pt' w =
       (case map_of (zip (v # vs) (f # fs)) w of Some f \<Rightarrow> Some (area_pte a f) | None \<Rightarrow> lookup s pt w)"
      using 2(5) 1(4) vn by (auto split: option.splits)
    have "get_bytes_array (phys s') f = replicate 4096 0" using 2(4) f 1(3) by (simp add: as_evolve_def)
    then show "\<forall>f \<in> set (f # fs). get_bytes_array (phys s') f = replicate 4096 0" using 2(6) by simp
    show "mm_free s \<le> mm_free s' + 3 * length (v # vs)" using 1(5) 2(7) by simp
  qed
qed

lemma for_each_map_identical:
  assumes "pt_ok l s pt" "distinct vs" "\<forall>v \<in> set vs. vpn_ok v \<and> lookup s pt v = None"
    "2 * length vs \<le> mm_free s" "ma_map_type a = Identical"
  shows "\<exists>pt' s'. for_each MapArea_map_one vs (a, pt, s) = Inr (a, pt', s') \<and> as_evolve l s pt s' pt' {} \<and>
    (\<forall>w. vpn_ok w \<longrightarrow> lookup s' pt' w =
       (if w \<in> set vs then Some (area_pte a (PhysPageNum (vpn_0 w))) else lookup s pt w)) \<and>
    mm_free s \<le> mm_free s' + 2 * length vs"
  using assms
proof (induction vs arbitrary: pt s)
  case Nil
  then show ?case by (simp add: as_evolve_refl)
next
  case (Cons v vs)
  obtain pt1 s1 where 1: "MapArea_map_one v (a, pt, s) = Inr (a, pt1, s1)" "as_evolve l s pt s1 pt1 {}"
      "\<And>w. vpn_ok w \<Longrightarrow> lookup s1 pt1 w =
         (if w = v then Some (area_pte a (PhysPageNum (vpn_0 v))) else lookup s pt w)"
      "mm_free s \<le> mm_free s1 + 2"
    using map_one_identical [OF Cons.prems(1), of v a] Cons.prems by auto
  have ok1: "pt_ok l s1 pt1" using 1(2) by (simp add: as_evolve_def)
  obtain pt' s' where 2: "for_each MapArea_map_one vs (a, pt1, s1) = Inr (a, pt', s')"
      "as_evolve l s1 pt1 s' pt' {}"
      "\<forall>w. vpn_ok w \<longrightarrow> lookup s' pt' w =
         (if w \<in> set vs then Some (area_pte a (PhysPageNum (vpn_0 w))) else lookup s1 pt1 w)"
      "mm_free s1 \<le> mm_free s' + 2 * length vs"
    using Cons.IH [OF ok1] 1(3,4) Cons.prems by fastforce
  show ?case
    using 1 2 as_evolve_trans [OF 1(2) 2(2)] Cons.prems(2) by (intro exI [of _ pt'] exI [of _ s']) auto
qed

section \<open>The invariant of an address space\<close>

definition area_vpns :: "MapArea \<Rightarrow> VirtPageNum list" where
  "area_vpns a = vpns_of (ma_vpn_range a)"

definition area_frames :: "MapArea \<Rightarrow> PhysPageNum list" where
  "area_frames a = map (ft_ppn \<circ> snd) (ma_data_frames a)"

definition ms_vpns :: "MemorySet \<Rightarrow> VirtPageNum list" where
  "ms_vpns ms = concat (map area_vpns (ms_areas ms))"

definition ms_frames :: "MemorySet \<Rightarrow> PhysPageNum list" where
  "ms_frames ms = concat (map area_frames (ms_areas ms))"

definition area_ok :: "mm \<Rightarrow> PageTable \<Rightarrow> MapArea \<Rightarrow> bool" where
  "area_ok s pt a \<longleftrightarrow>
     vr_l (ma_vpn_range a) \<le> vr_r (ma_vpn_range a) \<and> (\<forall>v \<in> set (area_vpns a). vpn_ok v) \<and>
     (case ma_map_type a of
        Framed \<Rightarrow> map fst (ma_data_frames a) = area_vpns a \<and>
          (\<forall>(v, f) \<in> set (ma_data_frames a). lookup s pt v = Some (area_pte a (ft_ppn f)))
      | Identical \<Rightarrow> ma_data_frames a = [] \<and>
          (\<forall>v \<in> set (area_vpns a). lookup s pt v = Some (area_pte a (PhysPageNum (vpn_0 v)))))"

definition tramp_vpn :: VirtPageNum where
  "tramp_vpn = VirtPageNum 0x7FFFFFF"

definition tramp_pte :: "usize \<Rightarrow> PageTableEntry" where
  "tramp_pte strampoline = PageTableEntry_new (PhysAddr_floor (PhysAddr_from strampoline))
     (flags_or (flags_or PTE_R PTE_X) PTE_V)"

text \<open>
  An address space in order: the segments are disjoint and none contains the trampoline page; the page
  table maps exactly the pages of the segments and the trampoline; each framed segment owns one frame per
  page, no frame is owned twice, none is a table, and all are in use.
\<close>

definition ms_ok :: "usize \<Rightarrow> usize \<Rightarrow> mm \<Rightarrow> MemorySet \<Rightarrow> bool" where
  "ms_ok l tr s ms \<longleftrightarrow>
     pt_ok l s (ms_page_table ms) \<and>
     (\<forall>a \<in> set (ms_areas ms). area_ok s (ms_page_table ms) a) \<and>
     distinct (tramp_vpn # ms_vpns ms) \<and> distinct (ms_frames ms) \<and>
     set (ms_frames ms) \<subseteq> mm_live l s - pt_frame_set (ms_page_table ms) \<and>
     lookup s (ms_page_table ms) tramp_vpn = Some (tramp_pte tr) \<and>
     (\<forall>v. vpn_ok v \<longrightarrow> v \<notin> set (tramp_vpn # ms_vpns ms) \<longrightarrow> lookup s (ms_page_table ms) v = None)"

lemma vpn_ok_tramp [simp]: "vpn_ok tramp_vpn"
  by (simp add: vpn_ok_def tramp_vpn_def)

lemma area_ok_keys:
  assumes "area_ok s pt a" "ma_map_type a = Framed"
  shows "fst ` set (ma_data_frames a) = set (area_vpns a)"
proof -
  have "map fst (ma_data_frames a) = area_vpns a" using assms by (simp add: area_ok_def)
  then show ?thesis by (metis set_map)
qed

lemma area_ok_cong:
  assumes "area_ok s pt a" "\<And>v. v \<in> set (area_vpns a) \<Longrightarrow> lookup s' pt' v = lookup s pt v"
  shows "area_ok s' pt' a"
proof (cases "ma_map_type a")
  case Framed
  have "v \<in> set (area_vpns a)" if "(v, f) \<in> set (ma_data_frames a)" for v f
    using area_ok_keys [OF assms(1) Framed] that by force
  then show ?thesis using assms Framed by (auto simp: area_ok_def)
qed (use assms in \<open>auto simp: area_ok_def\<close>)

lemma VirtPageNum_tramp: "VirtPageNum_from_VirtAddr (VirtAddr_from TRAMPOLINE) = Inr tramp_vpn"
proof -
  have "VirtAddr_from TRAMPOLINE = VirtAddr 0x7FFFFFF000"
    by (simp add: VirtAddr_from_bits TRAMPOLINE_def PAGE_SIZE_def take_bit_eq_mask mask_eq_exp_minus_1)
  then show ?thesis
    by (simp add: VirtPageNum_from_VirtAddr_def VirtAddr_page_offset_bits VirtAddr_floor_bits tramp_vpn_def
        take_bit_eq_mask mask_eq_exp_minus_1 drop_bit_eq_div)
qed

text \<open>The trampoline must start at a page boundary, or the kernel panics when it maps it.\<close>

definition page_aligned :: "usize \<Rightarrow> bool" where
  "page_aligned a \<longleftrightarrow> PhysAddr_page_offset (PhysAddr_from a) = 0"

lemma bare_with_trampoline:
  assumes mm: "mm_ok l s" and free: "3 \<le> mm_free s" and tr: "page_aligned tr"
  shows "\<exists>ms s'. and_then (MemorySet_new_bare s) (MemorySet_map_trampoline tr) = Inr (ms, s') \<and>
    ms_ok l tr s' ms \<and> ms_areas ms = [] \<and>
    mm_live l s' = mm_live l s \<union> pt_frame_set (ms_page_table ms) \<and>
    pt_frame_set (ms_page_table ms) \<inter> mm_live l s = {} \<and>
    (\<forall>q \<in> mm_live l s. get_bytes_array (phys s') q = get_bytes_array (phys s) q) \<and>
    mm_free s \<le> mm_free s' + 3"
proof -
  have "0 < mm_free s" using free by simp
  then obtain pt s1 where 1: "PageTable_new s = Inr (pt, s1)" "pt_ok l s1 pt" "\<And>v. lookup s1 pt v = None"
      "mm_live l s1 = insert (pt_root_ppn pt) (mm_live l s)" "pt_root_ppn pt \<notin> mm_live l s"
      "pt_frame_set pt = {pt_root_ppn pt}" "Suc (mm_free s1) = mm_free s"
      "\<And>q. q \<in> mm_live l s \<Longrightarrow> get_bytes_array (phys s1) q = get_bytes_array (phys s) q"
    using PageTable_new_spec [OF mm] by blast
  have "2 \<le> mm_free s1" using 1(7) free by simp
  then obtain s' pt' where 2:
      "PageTable_map pt s1 tramp_vpn (PhysAddr_floor (PhysAddr_from tr)) (flags_or PTE_R PTE_X) = Inr (pt', s')"
      "pt_evolve l s1 pt s' pt'"
      "\<And>w. vpn_ok w \<Longrightarrow> lookup s' pt' w = (if w = tramp_vpn then Some (tramp_pte tr) else lookup s1 pt w)"
      "mm_free s1 \<le> mm_free s' + 2"
    using PageTable_map_spec [OF 1(2) vpn_ok_tramp _ 1(3)] unfolding tramp_pte_def by metis
  let ?ms = "\<lparr>ms_page_table = pt', ms_areas = []\<rparr>"
  have al: "PhysPageNum_from_PhysAddr (PhysAddr_from tr) = Inr (PhysAddr_floor (PhysAddr_from tr))"
    using tr by (simp add: PhysPageNum_from_PhysAddr_def page_aligned_def)
  show ?thesis
  proof (intro exI conjI)
    show "and_then (MemorySet_new_bare s) (MemorySet_map_trampoline tr) = Inr (?ms, s')"
      using 1(1) 2(1) al by (simp add: MemorySet_new_bare_def MemorySet_map_trampoline_def VirtPageNum_tramp)
    show "ms_ok l tr s' ?ms"
      using 2(2,3) 1(3) by (simp add: ms_ok_def ms_vpns_def ms_frames_def pt_evolve_def)
    show "\<forall>q \<in> mm_live l s. get_bytes_array (phys s') q = get_bytes_array (phys s) q"
    proof
      fix q
      assume q: "q \<in> mm_live l s"
      then have "q \<in> mm_live l s1 - pt_frame_set pt" using 1(4-6) by auto
      then show "get_bytes_array (phys s') q = get_bytes_array (phys s) q"
        using 2(2) 1(8) [OF q] by (simp add: pt_evolve_def)
    qed
    show "mm_free s \<le> mm_free s' + 3" using 1(7) 2(4) by simp
  qed (use 1(4-6) 2(2) in \<open>auto simp: pt_evolve_def\<close>)
qed

section \<open>Adding a segment\<close>

text \<open>A segment as \<open>MapArea::new\<close> makes it, over pages of the address space that are free.\<close>

definition new_area_ok :: "MemorySet \<Rightarrow> MapArea \<Rightarrow> bool" where
  "new_area_ok ms a \<longleftrightarrow>
     vr_l (ma_vpn_range a) \<le> vr_r (ma_vpn_range a) \<and> ma_data_frames a = [] \<and>
     (\<forall>v \<in> set (area_vpns a). vpn_ok v) \<and> set (area_vpns a) \<inter> set (tramp_vpn # ms_vpns ms) = {}"

lemma ms_ok_add_area:
  assumes ok: "ms_ok l tr s ms" and ev: "as_evolve l s (ms_page_table ms) s' pt' (set (area_frames a))"
    and same: "\<And>w. vpn_ok w \<Longrightarrow> w \<notin> set (area_vpns a) \<Longrightarrow> lookup s' pt' w = lookup s (ms_page_table ms) w"
    and a: "area_ok s' pt' a" "distinct (area_frames a)" "set (area_vpns a) \<inter> set (tramp_vpn # ms_vpns ms) = {}"
  shows "ms_ok l tr s' \<lparr>ms_page_table = pt', ms_areas = ms_areas ms @ [a]\<rparr>"
proof -
  let ?ms = "\<lparr>ms_page_table = pt', ms_areas = ms_areas ms @ [a]\<rparr>"
  have vpns: "ms_vpns ?ms = ms_vpns ms @ area_vpns a" and frames: "ms_frames ?ms = ms_frames ms @ area_frames a"
    by (simp_all add: ms_vpns_def ms_frames_def)
  have sub: "set (area_vpns b) \<subseteq> set (ms_vpns ms)" if "b \<in> set (ms_areas ms)" for b
    using that by (auto simp: ms_vpns_def)
  have old: "area_ok s' pt' b" if b: "b \<in> set (ms_areas ms)" for b
  proof (rule area_ok_cong)
    show "area_ok s (ms_page_table ms) b" using ok b by (simp add: ms_ok_def)
    then have "\<forall>v \<in> set (area_vpns b). vpn_ok v" by (simp add: area_ok_def)
    then show "lookup s' pt' v = lookup s (ms_page_table ms) v" if "v \<in> set (area_vpns b)" for v
      using that sub [OF b] a(3) by (intro same) auto
  qed
  have "distinct (area_vpns a)" using a(1) by (simp add: area_ok_def area_vpns_def distinct_vpns_of)
  then have 1: "distinct (tramp_vpn # ms_vpns ?ms)" using ok a(3) by (auto simp: vpns ms_ok_def)
  have 2: "distinct (ms_frames ?ms)" "set (ms_frames ?ms) \<subseteq> mm_live l s' - pt_frame_set pt'"
    using ok ev a(2) by (auto simp: frames ms_ok_def as_evolve_def)
  have 3: "lookup s' pt' tramp_vpn = Some (tramp_pte tr)"
    using same [of tramp_vpn] a(3) ok by (simp add: ms_ok_def)
  have 4: "lookup s' pt' v = None" if "vpn_ok v" "v \<notin> set (tramp_vpn # ms_vpns ?ms)" for v
    using same [of v] that ok by (simp add: vpns ms_ok_def)
  show ?thesis
    using ev a(1) old 1 2 3 4 by (simp add: ms_ok_def as_evolve_def)
qed

lemma map_area_framed:
  assumes ok: "ms_ok l tr s ms" and a: "new_area_ok ms a" "ma_map_type a = Framed"
    and free: "3 * length (area_vpns a) \<le> mm_free s"
  shows "\<exists>fs s' pt'. let a' = a\<lparr>ma_data_frames := zip (area_vpns a) (map FrameTracker fs)\<rparr>;
      ms' = \<lparr>ms_page_table = pt', ms_areas = ms_areas ms @ [a']\<rparr> in
    MapArea_map (a, ms_page_table ms, s) = Inr (a', pt', s') \<and>
    length fs = length (area_vpns a) \<and> area_frames a' = fs \<and>
    ms_ok l tr s' ms' \<and> as_evolve l s (ms_page_table ms) s' pt' (set fs) \<and>
    (\<forall>f \<in> set fs. get_bytes_array (phys s') f = replicate 4096 0) \<and>
    mm_free s \<le> mm_free s' + 3 * length (area_vpns a)"
proof -
  have range: "vr_l (ma_vpn_range a) \<le> vr_r (ma_vpn_range a)" "ma_data_frames a = []"
    and vs: "\<forall>v \<in> set (area_vpns a). vpn_ok v" "set (area_vpns a) \<inter> set (tramp_vpn # ms_vpns ms) = {}"
    using a(1) by (auto simp: new_area_ok_def)
  have free': "\<forall>v \<in> set (area_vpns a). vpn_ok v \<and> lookup s (ms_page_table ms) v = None"
    using ok vs by (auto simp: ms_ok_def)
  obtain fs pt' s' where 1: "for_each MapArea_map_one (area_vpns a) (a, ms_page_table ms, s) =
        Inr (a\<lparr>ma_data_frames := zip (area_vpns a) (map FrameTracker fs)\<rparr>, pt', s')"
      "length fs = length (area_vpns a)" "distinct fs" "as_evolve l s (ms_page_table ms) s' pt' (set fs)"
      "\<forall>w. vpn_ok w \<longrightarrow> lookup s' pt' w =
         (case map_of (zip (area_vpns a) fs) w of Some f \<Rightarrow> Some (area_pte a f)
          | None \<Rightarrow> lookup s (ms_page_table ms) w)"
      "\<forall>f \<in> set fs. get_bytes_array (phys s') f = replicate 4096 0"
      "mm_free s \<le> mm_free s' + 3 * length (area_vpns a)"
    using for_each_map_framed [of l s "ms_page_table ms" "area_vpns a" a] ok sorted_vpns_of [OF range(1)]
      free' range(2) free a(2) by (auto simp: ms_ok_def area_vpns_def)
  let ?a = "a\<lparr>ma_data_frames := zip (area_vpns a) (map FrameTracker fs)\<rparr>"
  have vpns: "area_vpns ?a = area_vpns a" by (simp add: area_vpns_def)
  have frames: "area_frames ?a = fs"
    using 1(2) by (simp add: area_frames_def flip: map_map) (simp add: map_map comp_def)
  have dist: "distinct (area_vpns a)" using range by (simp add: area_vpns_def distinct_vpns_of)
  have look: "lookup s' pt' v = Some (area_pte a f)" if "(v, f) \<in> set (zip (area_vpns a) fs)" for v f
  proof -
    have "v \<in> set (area_vpns a)" using that by (rule set_zip_leftD)
    moreover have "map_of (zip (area_vpns a) fs) v = Some f" using that dist 1(2) by simp
    ultimately show ?thesis using 1(5) vs(1) by simp
  qed
  have look': "lookup s' pt' v = Some (area_pte a (ft_ppn f))"
    if "(v, f) \<in> set (zip (area_vpns a) (map FrameTracker fs))" for v f
    using that look by (auto simp: zip_map2)
  have aok: "area_ok s' pt' ?a"
    using range(1) vs(1) a(2) 1(2) look' by (auto simp: area_ok_def vpns)
  have "ms_ok l tr s' \<lparr>ms_page_table = pt', ms_areas = ms_areas ms @ [?a]\<rparr>"
  proof (rule ms_ok_add_area [OF ok])
    show "as_evolve l s (ms_page_table ms) s' pt' (set (area_frames ?a))" using 1(4) by (simp only: frames)
    show "area_ok s' pt' ?a" by (rule aok)
    show "distinct (area_frames ?a)" using 1(3) by (simp only: frames)
    show "set (area_vpns ?a) \<inter> set (tramp_vpn # ms_vpns ms) = {}" using vs(2) by (simp only: vpns)
    show "lookup s' pt' w = lookup s (ms_page_table ms) w" if "vpn_ok w" "w \<notin> set (area_vpns ?a)" for w
      using 1(2,5) that by (simp add: vpns map_of_zip_is_None [THEN iffD2])
  qed
  moreover have "MapArea_map (a, ms_page_table ms, s) = Inr (?a, pt', s')"
    using 1(1) by (simp add: MapArea_map_def area_vpns_def)
  ultimately show ?thesis
    using 1 frames by (intro exI [of _ fs] exI [of _ s'] exI [of _ pt']) (simp add: Let_def)
qed

lemma pt_ok_dealloc:
  assumes ok: "pt_ok l s pt" and f: "f \<in> mm_live l s - pt_frame_set pt"
  obtains s' where "frame_dealloc s f = Inr s'" "pt_ok l s' pt" "mm_live l s' = mm_live l s - {f}"
    "mm_free s' = Suc (mm_free s)" "phys s' = phys s"
proof -
  have mm: "mm_ok l s" and fl: "f \<in> mm_live l s" using ok f by (auto simp: pt_ok_def)
  obtain s' where 1: "frame_dealloc s f = Inr s'" "mm_ok l s'" "mm_live l s' = mm_live l s - {f}"
      "mm_free s' = Suc (mm_free s)" "phys s' = phys s"
    by (rule frame_dealloc_spec [OF mm fl])
  show ?thesis
  proof (rule that [OF 1(1) _ 1(3-5)])
    show "pt_ok l s' pt" using 1(2,3,5) ok f by (auto simp: pt_ok_def)
  qed
qed

lemma unmap_one_framed:
  assumes ok: "pt_ok l s pt" and a: "ma_map_type a = Framed" "ma_data_frames a = (v, FrameTracker f) # df"
    and v: "vpn_ok v" "lookup s pt v \<noteq> None" and f: "f \<in> mm_live l s - pt_frame_set pt"
  shows "\<exists>s'. MapArea_unmap_one v (a, pt, s) = Inr (a\<lparr>ma_data_frames := df\<rparr>, pt, s') \<and>
    pt_ok l s' pt \<and> mm_live l s' = mm_live l s - {f} \<and>
    (\<forall>w. vpn_ok w \<longrightarrow> lookup s' pt w = (if w = v then None else lookup s pt w)) \<and>
    (\<forall>q \<in> mm_live l s - pt_frame_set pt - {f}. get_bytes_array (phys s') q = get_bytes_array (phys s) q) \<and>
    mm_free s' = Suc (mm_free s)"
proof -
  obtain s1 where 1: "frame_dealloc s f = Inr s1" "pt_ok l s1 pt" "mm_live l s1 = mm_live l s - {f}"
      "mm_free s1 = Suc (mm_free s)" "phys s1 = phys s"
    by (rule pt_ok_dealloc [OF ok f])
  obtain e where "lookup s1 pt v = Some e" using v(2) 1(5) by auto
  then obtain s' where 2: "PageTable_unmap pt s1 v = Inr s'" "pt_evolve l s1 pt s' pt"
      "\<And>w. vpn_ok w \<Longrightarrow> lookup s' pt w = (if w = v then None else lookup s1 pt w)"
      "frame_allocator s' = frame_allocator s1"
    using PageTable_unmap_spec [OF 1(2) v(1)] by metis
  have "MapArea_unmap_one v (a, pt, s) = Inr (a\<lparr>ma_data_frames := df\<rparr>, pt, s')"
    using a 1(1) 2(1) by (simp add: MapArea_unmap_one_def drop_tracker_def FrameTracker_drop_def)
  moreover have "mm_live l s' = mm_live l s - {f}" "mm_free s' = Suc (mm_free s)"
    using 2(4) 1(3,4) by (simp_all add: mm_live_def mm_free_def)
  moreover have "\<forall>q \<in> mm_live l s - pt_frame_set pt - {f}.
      get_bytes_array (phys s') q = get_bytes_array (phys s) q"
    using 1(3,5) 2(2) by (simp add: pt_evolve_def)
  moreover have "pt_ok l s' pt" using 2(2) by (simp add: pt_evolve_def)
  ultimately show ?thesis using 1(5) 2(3) by simp
qed

definition area_keys :: "MapArea \<Rightarrow> VirtPageNum list" where
  "area_keys a = map fst (ma_data_frames a)"

lemma for_each_unmap_framed:
  assumes "pt_ok l s pt" "ma_map_type a = Framed" "distinct (area_keys a)" "distinct (area_frames a)"
    "set (area_frames a) \<subseteq> mm_live l s - pt_frame_set pt"
    "\<forall>v \<in> set (area_keys a). vpn_ok v \<and> lookup s pt v \<noteq> None"
  shows "\<exists>s'. for_each MapArea_unmap_one (area_keys a) (a, pt, s) = Inr (a\<lparr>ma_data_frames := []\<rparr>, pt, s') \<and>
    pt_ok l s' pt \<and> mm_live l s' = mm_live l s - set (area_frames a) \<and>
    (\<forall>w. vpn_ok w \<longrightarrow> lookup s' pt w = (if w \<in> set (area_keys a) then None else lookup s pt w)) \<and>
    (\<forall>q \<in> mm_live l s - pt_frame_set pt - set (area_frames a).
       get_bytes_array (phys s') q = get_bytes_array (phys s) q) \<and>
    mm_free s' = mm_free s + length (area_keys a)"
  using assms
proof (induction "ma_data_frames a" arbitrary: a s)
  case Nil
  then have "a\<lparr>ma_data_frames := []\<rparr> = a" by (cases a) simp
  then show ?case using Nil by (auto simp: area_frames_def area_keys_def)
next
  case (Cons p df)
  obtain v f where p: "p = (v, FrameTracker f)" by (metis FrameTracker.exhaust surj_pair)
  have df: "ma_data_frames a = (v, FrameTracker f) # df" using Cons.hyps(2) p by simp
  let ?a = "a\<lparr>ma_data_frames := df\<rparr>"
  have vpns: "area_keys a = v # area_keys ?a" and fr: "area_frames a = f # area_frames ?a"
    using df by (simp_all add: area_frames_def area_keys_def)
  obtain s1 where 1: "MapArea_unmap_one v (a, pt, s) = Inr (?a, pt, s1)"
      "pt_ok l s1 pt" "mm_live l s1 = mm_live l s - {f}"
      "\<And>w. vpn_ok w \<Longrightarrow> lookup s1 pt w = (if w = v then None else lookup s pt w)"
      "\<forall>q \<in> mm_live l s - pt_frame_set pt - {f}. get_bytes_array (phys s1) q = get_bytes_array (phys s) q"
      "mm_free s1 = Suc (mm_free s)"
    using unmap_one_framed [OF Cons.prems(1,2) df] Cons.prems(5,6) vpns fr by auto
  have "\<exists>s'. for_each MapArea_unmap_one (area_keys ?a) (?a, pt, s1) = Inr (?a\<lparr>ma_data_frames := []\<rparr>, pt, s') \<and>
    pt_ok l s' pt \<and> mm_live l s' = mm_live l s1 - set (area_frames ?a) \<and>
    (\<forall>w. vpn_ok w \<longrightarrow> lookup s' pt w = (if w \<in> set (area_keys ?a) then None else lookup s1 pt w)) \<and>
    (\<forall>q \<in> mm_live l s1 - pt_frame_set pt - set (area_frames ?a).
       get_bytes_array (phys s') q = get_bytes_array (phys s1) q) \<and>
    mm_free s' = mm_free s1 + length (area_keys ?a)"
  proof (rule Cons.hyps(1) [OF _ 1(2)])
    show "df = ma_data_frames ?a" by simp
    show "\<forall>w \<in> set (area_keys ?a). vpn_ok w \<and> lookup s1 pt w \<noteq> None"
      using Cons.prems(3,6) vpns 1(4) by auto
    show "set (area_frames ?a) \<subseteq> mm_live l s1 - pt_frame_set pt" using Cons.prems(4,5) fr 1(3) by auto
  qed (use Cons.prems vpns fr in simp_all)
  then obtain s' where 2: "for_each MapArea_unmap_one (area_keys ?a) (?a, pt, s1) = Inr (?a\<lparr>ma_data_frames := []\<rparr>, pt, s')"
      "pt_ok l s' pt" "mm_live l s' = mm_live l s1 - set (area_frames ?a)"
      "\<And>w. vpn_ok w \<Longrightarrow> lookup s' pt w = (if w \<in> set (area_keys ?a) then None else lookup s1 pt w)"
      "\<forall>q \<in> mm_live l s1 - pt_frame_set pt - set (area_frames ?a).
       get_bytes_array (phys s') q = get_bytes_array (phys s1) q"
      "mm_free s' = mm_free s1 + length (area_keys ?a)"
    by auto
  show ?case
  proof (intro exI conjI)
    show "for_each MapArea_unmap_one (area_keys a) (a, pt, s) = Inr (a\<lparr>ma_data_frames := []\<rparr>, pt, s')"
      using 1(1) 2(1) by (simp add: vpns)
    show "\<forall>w. vpn_ok w \<longrightarrow> lookup s' pt w = (if w \<in> set (area_keys a) then None else lookup s pt w)"
      using 1(4) 2(4) by (auto simp: vpns)
    show "\<forall>q \<in> mm_live l s - pt_frame_set pt - set (area_frames a).
       get_bytes_array (phys s') q = get_bytes_array (phys s) q"
      using 1(3,5) 2(5) by (auto simp: fr)
  qed (use 1 2 in \<open>auto simp: vpns fr\<close>)
qed

lemma remove_area_framed:
  assumes ok: "ms_ok l tr s ms" and pos: "ms_areas ms = as @ a # bs"
    and first: "\<forall>b \<in> set as. vr_l (ma_vpn_range b) \<noteq> vr_l (ma_vpn_range a)" and ty: "ma_map_type a = Framed"
  shows "\<exists>s'. let ms' = \<lparr>ms_page_table = ms_page_table ms, ms_areas = as @ bs\<rparr> in
    MemorySet_remove_area_with_start_vpn (vr_l (ma_vpn_range a)) (ms, s) = Inr (ms', s') \<and>
    ms_ok l tr s' ms' \<and> mm_live l s' = mm_live l s - set (area_frames a) \<and>
    mm_free s' = mm_free s + length (area_vpns a) \<and>
    (\<forall>q \<in> mm_live l s' - pt_frame_set (ms_page_table ms).
       get_bytes_array (phys s') q = get_bytes_array (phys s) q)"
proof -
  let ?pt = "ms_page_table ms" and ?ms = "\<lparr>ms_page_table = ms_page_table ms, ms_areas = as @ bs\<rparr>"
  have aok: "area_ok s ?pt a" using ok pos by (simp add: ms_ok_def)
  have keys: "area_keys a = area_vpns a" using aok ty by (simp add: area_ok_def area_keys_def)
  have vpns: "ms_vpns ms = concat (map area_vpns as) @ area_vpns a @ concat (map area_vpns bs)"
    and vpns': "ms_vpns ?ms = concat (map area_vpns as) @ concat (map area_vpns bs)"
    and frames: "ms_frames ms = concat (map area_frames as) @ area_frames a @ concat (map area_frames bs)"
    and frames': "ms_frames ?ms = concat (map area_frames as) @ concat (map area_frames bs)"
    using pos by (simp_all add: ms_vpns_def ms_frames_def)
  have mapped: "vpn_ok v \<and> lookup s ?pt v \<noteq> None" if v: "v \<in> set (area_vpns a)" for v
  proof -
    have "v \<in> fst ` set (ma_data_frames a)" using v area_ok_keys [OF aok ty] by simp
    then obtain f where "(v, f) \<in> set (ma_data_frames a)" by auto
    then show ?thesis using v aok ty by (auto simp: area_ok_def)
  qed
  have "\<exists>s'. for_each MapArea_unmap_one (area_keys a) (a, ?pt, s) = Inr (a\<lparr>ma_data_frames := []\<rparr>, ?pt, s') \<and>
    pt_ok l s' ?pt \<and> mm_live l s' = mm_live l s - set (area_frames a) \<and>
    (\<forall>w. vpn_ok w \<longrightarrow> lookup s' ?pt w = (if w \<in> set (area_keys a) then None else lookup s ?pt w)) \<and>
    (\<forall>q \<in> mm_live l s - pt_frame_set ?pt - set (area_frames a).
       get_bytes_array (phys s') q = get_bytes_array (phys s) q) \<and>
    mm_free s' = mm_free s + length (area_keys a)"
  proof (rule for_each_unmap_framed)
    show "distinct (area_keys a)" "distinct (area_frames a)"
      using ok by (auto simp: ms_ok_def vpns frames keys)
    show "set (area_frames a) \<subseteq> mm_live l s - pt_frame_set ?pt" using ok by (simp add: ms_ok_def frames)
  qed (use ok ty mapped keys in \<open>simp_all add: ms_ok_def\<close>)
  then obtain s' where 1: "for_each MapArea_unmap_one (area_vpns a) (a, ?pt, s) = Inr (a\<lparr>ma_data_frames := []\<rparr>, ?pt, s')"
      "pt_ok l s' ?pt" "mm_live l s' = mm_live l s - set (area_frames a)"
      "\<And>w. vpn_ok w \<Longrightarrow> lookup s' ?pt w = (if w \<in> set (area_vpns a) then None else lookup s ?pt w)"
      "\<forall>q \<in> mm_live l s - pt_frame_set ?pt - set (area_frames a).
         get_bytes_array (phys s') q = get_bytes_array (phys s) q"
      "mm_free s' = mm_free s + length (area_vpns a)"
    unfolding keys by blast
  have pos': "position (\<lambda>b. VPNRange_get_start (ma_vpn_range b) = vr_l (ma_vpn_range a)) (ms_areas ms) = Some (length as)"
    using first pos by (auto simp: position_Some VPNRange_get_start_def nth_append)
  have run: "MemorySet_remove_area_with_start_vpn (vr_l (ma_vpn_range a)) (ms, s) = Inr (?ms, s')"
    using pos' 1(1) pos
    by (simp add: MemorySet_remove_area_with_start_vpn_def MapArea_unmap_def MapArea_drop_def remove_at_def
        flip: area_vpns_def)
  have old: "area_ok s' ?pt b" if b: "b \<in> set (as @ bs)" for b
  proof (rule area_ok_cong)
    show bok: "area_ok s ?pt b" using ok b pos by (auto simp: ms_ok_def)
    show "lookup s' ?pt v = lookup s ?pt v" if "v \<in> set (area_vpns b)" for v
    proof -
      have "v \<notin> set (area_vpns a)" using ok b that by (auto simp: ms_ok_def vpns)
      then show ?thesis using 1(4) bok that by (simp add: area_ok_def)
    qed
  qed
  have "ms_ok l tr s' ?ms"
    unfolding ms_ok_def
  proof (intro conjI)
    show "distinct (tramp_vpn # ms_vpns ?ms)" using ok by (auto simp: ms_ok_def vpns vpns')
    show "distinct (ms_frames ?ms)" using ok by (auto simp: ms_ok_def frames frames')
    show "set (ms_frames ?ms) \<subseteq> mm_live l s' - pt_frame_set (ms_page_table ?ms)"
      using ok 1(3) by (auto simp: ms_ok_def frames frames')
    show "lookup s' (ms_page_table ?ms) tramp_vpn = Some (tramp_pte tr)"
      using ok 1(4) by (simp add: ms_ok_def vpns)
    show "\<forall>v. vpn_ok v \<longrightarrow> v \<notin> set (tramp_vpn # ms_vpns ?ms) \<longrightarrow> lookup s' (ms_page_table ?ms) v = None"
      using ok 1(4) by (simp add: ms_ok_def vpns vpns')
  qed (use 1(2) old in simp_all)
  then show ?thesis using run 1(3,5,6) by (auto simp: Let_def)
qed

section \<open>Copying an address space\<close>

lemma copy_page_spec:
  assumes "lookup s (ms_page_table P) v = Some e" "lookup s (ms_page_table C) v = Some e'"
  shows "copy_page P C v (phys s) =
    Inr (set_bytes_array (phys s) (PageTableEntry_ppn e') (get_bytes_array (phys s) (PageTableEntry_ppn e)))"
  using assms by (simp add: copy_page_def MemorySet_translate_def translate_lookup)

lemma for_each_copy_page:
  assumes "pt_ok l s (ms_page_table P)" "pt_ok l s (ms_page_table C)" "distinct vs" "inj_on dst (set vs)"
    and "\<forall>v \<in> set vs. \<exists>e e'. lookup s (ms_page_table P) v = Some e \<and> PageTableEntry_ppn e = src v \<and>
           lookup s (ms_page_table C) v = Some e' \<and> PageTableEntry_ppn e' = dst v"
    and "\<forall>v \<in> set vs. src v \<in> mm_live l s \<and> src v \<notin> dst ` set vs \<and>
           dst v \<in> mm_live l s - pt_frame_set (ms_page_table P) - pt_frame_set (ms_page_table C)"
  shows "\<exists>m. for_each (copy_page P C) vs (phys s) = Inr m \<and>
    (\<forall>q \<in> mm_live l s - dst ` set vs. get_bytes_array m q = get_bytes_array (phys s) q) \<and>
    (\<forall>v \<in> set vs. get_bytes_array m (dst v) = get_bytes_array (phys s) (src v))"
  using assms
proof (induction vs arbitrary: s)
  case Nil
  then show ?case by simp
next
  case (Cons v vs)
  let ?s = "s\<lparr>phys := set_bytes_array (phys s) (dst v) (get_bytes_array (phys s) (src v))\<rparr>"
  have dst: "dst v \<in> mm_live l s - pt_frame_set (ms_page_table P)" "dst v \<in> mm_live l s - pt_frame_set (ms_page_table C)"
    and nd: "dst v \<notin> dst ` set vs"
    using Cons.prems(3,4,6) by (auto simp: inj_on_def)
  note P = write_data_frame [OF Cons.prems(1) dst(1), of "get_bytes_array (phys s) (src v)"]
  note C = write_data_frame [OF Cons.prems(2) dst(2), of "get_bytes_array (phys s) (src v)"]
  have step: "copy_page P C v (phys s) = Inr (phys ?s)"
    using Cons.prems(5) copy_page_spec [of s P v _ C] by auto
  have "\<exists>m. for_each (copy_page P C) vs (phys ?s) = Inr m \<and>
    (\<forall>q \<in> mm_live l ?s - dst ` set vs. get_bytes_array m q = get_bytes_array (phys ?s) q) \<and>
    (\<forall>v \<in> set vs. get_bytes_array m (dst v) = get_bytes_array (phys ?s) (src v))"
  proof (rule Cons.IH)
    show "pt_ok l ?s (ms_page_table P)" "pt_ok l ?s (ms_page_table C)" using P(1) C(1) by simp_all
    show "\<forall>v \<in> set vs. \<exists>e e'. lookup ?s (ms_page_table P) v = Some e \<and> PageTableEntry_ppn e = src v \<and>
           lookup ?s (ms_page_table C) v = Some e' \<and> PageTableEntry_ppn e' = dst v"
      using Cons.prems(5) P(2) C(2) by simp
    show "\<forall>v \<in> set vs. src v \<in> mm_live l ?s \<and> src v \<notin> dst ` set vs \<and>
           dst v \<in> mm_live l ?s - pt_frame_set (ms_page_table P) - pt_frame_set (ms_page_table C)"
      using Cons.prems(6) P(3) by simp
  qed (use Cons.prems(3,4) in simp_all)
  then obtain m where m: "for_each (copy_page P C) vs (phys ?s) = Inr m"
      "\<And>q. q \<in> mm_live l s - dst ` set vs \<Longrightarrow> get_bytes_array m q = get_bytes_array (phys ?s) q"
      "\<And>v. v \<in> set vs \<Longrightarrow> get_bytes_array m (dst v) = get_bytes_array (phys ?s) (src v)"
    using P(3) by auto
  have other: "get_bytes_array (phys ?s) q = get_bytes_array (phys s) q"
    if "q \<in> mm_live l s" "q \<noteq> dst v" for q
    using P(5) that by simp
  show ?case
  proof (intro exI conjI ballI)
    show "for_each (copy_page P C) (v # vs) (phys s) = Inr m" using step m(1) by simp
    show "get_bytes_array m q = get_bytes_array (phys s) q" if "q \<in> mm_live l s - dst ` set (v # vs)" for q
      using that m(2) [of q] other [of q] by auto
    show "get_bytes_array m (dst w) = get_bytes_array (phys s) (src w)" if "w \<in> set (v # vs)" for w
    proof (cases "w = v")
      case True
      then show ?thesis using m(2) [of "dst v"] dst(1) nd P(6) by simp
    next
      case False
      then have "w \<in> set vs" "src w \<in> mm_live l s" "src w \<noteq> dst v" using that Cons.prems(6) by auto
      then show ?thesis using m(3) [of w] other [of "src w"] by simp
    qed
  qed
qed

text \<open>
  The copy of a framed segment: same range, type and permissions, and page by page the same bytes. \<open>m0\<close>
  holds the bytes of the original.
\<close>

definition area_copy :: "mem \<Rightarrow> MapArea \<Rightarrow> mem \<Rightarrow> MapArea \<Rightarrow> bool" where
  "area_copy m0 a m c \<longleftrightarrow>
     ma_vpn_range c = ma_vpn_range a \<and> ma_map_type c = ma_map_type a \<and> ma_map_perm c = ma_map_perm a \<and>
     map (get_bytes_array m) (area_frames c) = map (get_bytes_array m0) (area_frames a)"

lemma MapArea_from_another_ok:
  "vr_l (ma_vpn_range a) \<le> vr_r (ma_vpn_range a) \<Longrightarrow>
   MapArea_from_another a = Inr (a\<lparr>ma_data_frames := []\<rparr>)"
  by (cases a) (simp add: MapArea_from_another_def VPNRange_new_def VPNRange_get_start_def VPNRange_get_end_def)

lemma map_of_frames:
  assumes aok: "area_ok s pt a" "ma_map_type a = Framed" and v: "v \<in> set (area_vpns a)"
  obtains f where "map_of (ma_data_frames a) v = Some f" "lookup s pt v = Some (area_pte a (ft_ppn f))"
    "ft_ppn f \<in> set (area_frames a)"
proof -
  have "v \<in> fst ` set (ma_data_frames a)" using v area_ok_keys [OF aok] by simp
  then obtain f where "(v, f) \<in> set (ma_data_frames a)" by auto
  moreover have "distinct (map fst (ma_data_frames a))"
    using aok by (simp add: area_ok_def area_vpns_def distinct_vpns_of)
  ultimately show ?thesis
    using that aok by (force simp: area_ok_def area_frames_def)
qed

lemma frames_map_of:
  assumes "area_ok s pt a" "ma_map_type a = Framed"
  shows "area_frames a = map (\<lambda>v. ft_ppn (the (map_of (ma_data_frames a) v))) (area_vpns a)"
proof -
  have keys: "map fst (ma_data_frames a) = area_vpns a" and "distinct (area_vpns a)"
    using assms by (auto simp: area_ok_def area_vpns_def distinct_vpns_of)
  then have "distinct (map fst (ma_data_frames a))" by simp
  then have "map (\<lambda>v. the (map_of (ma_data_frames a) v)) (map fst (ma_data_frames a)) = map snd (ma_data_frames a)"
    by (induction "ma_data_frames a") (auto simp: comp_def cong: map_cong)
  then show ?thesis
    unfolding keys area_frames_def by (metis (no_types, lifting) list.map_comp comp_apply map_eq_conv)
qed

lemma pt_same_bytes:
  assumes ok: "pt_ok l s pt" and same: "\<And>q. q \<in> pt_frame_set pt \<Longrightarrow> get_bytes_array m q = get_bytes_array (phys s) q"
  shows "pt_ok l (s\<lparr>phys := m\<rparr>) pt" "pt_lookup m (pt_root_ppn pt) v = lookup s pt v"
proof -
  have tree: "pt_tree (phys s) (pt_root_ppn pt) (pt_frame_set pt)" using ok by (simp add: pt_ok_def)
  show "pt_ok l (s\<lparr>phys := m\<rparr>) pt"
    using ok pt_tree_same_bytes [OF tree same] by (simp add: pt_ok_def mm_ok_def mm_live_def)
  show "pt_lookup m (pt_root_ppn pt) v = lookup s pt v" by (rule pt_lookup_same_bytes [OF tree same])
qed

lemma ms_ok_same_bytes:
  assumes ok: "ms_ok l tr s ms"
    and same: "\<And>q. q \<in> pt_frame_set (ms_page_table ms) \<Longrightarrow> get_bytes_array m q = get_bytes_array (phys s) q"
  shows "ms_ok l tr (s\<lparr>phys := m\<rparr>) ms"
proof -
  have pt: "pt_ok l s (ms_page_table ms)" using ok by (simp add: ms_ok_def)
  note look = pt_same_bytes(2) [OF pt same]
  have "area_ok (s\<lparr>phys := m\<rparr>) (ms_page_table ms) a" if "a \<in> set (ms_areas ms)" for a
    by (rule area_ok_cong [of s "ms_page_table ms"]) (use ok that look in \<open>simp_all add: ms_ok_def\<close>)
  then show ?thesis
    using ok pt_same_bytes(1) [OF pt same] look by (simp add: ms_ok_def mm_live_def)
qed

lemma as_evolve_write:
  assumes ev: "as_evolve l s pt s1 pt1 N"
    and same: "\<And>q. q \<in> mm_live l s1 - N \<Longrightarrow> get_bytes_array m q = get_bytes_array (phys s1) q"
  shows "as_evolve l s pt (s1\<lparr>phys := m\<rparr>) pt1 N"
proof -
  have "pt_ok l s1 pt1" using ev by (simp add: as_evolve_def)
  moreover have "get_bytes_array m q = get_bytes_array (phys s1) q" if "q \<in> pt_frame_set pt1" for q
    by (rule same) (use ev that in \<open>auto simp: as_evolve_def\<close>)
  ultimately have 1: "pt_ok l (s1\<lparr>phys := m\<rparr>) pt1" by (rule pt_same_bytes(1))
  have 2: "mm_live l (s1\<lparr>phys := m\<rparr>) = mm_live l s1" by (simp add: mm_live_def)
  have "get_bytes_array m q = get_bytes_array (phys s) q" if "q \<in> mm_live l s - pt_frame_set pt" for q
    using that ev same [of q] by (auto simp: as_evolve_def)
  then show ?thesis using ev 1 2 by (simp add: as_evolve_def)
qed

lemma copy_area_pages:
  assumes P: "pt_ok l s (ms_page_table P)" "area_ok s (ms_page_table P) a" "ma_map_type a = Framed"
    and C: "pt_ok l s (ms_page_table C)" "area_ok s (ms_page_table C) c" "ma_map_type c = Framed"
    and same: "area_vpns c = area_vpns a" "distinct (area_frames c)" "set (area_frames a) \<inter> set (area_frames c) = {}"
    and live: "set (area_frames a) \<subseteq> mm_live l s"
      "set (area_frames c) \<subseteq> mm_live l s - pt_frame_set (ms_page_table P) - pt_frame_set (ms_page_table C)"
  shows "\<exists>m. for_each (copy_page P C) (area_vpns a) (phys s) = Inr m \<and>
    (\<forall>q \<in> mm_live l s - set (area_frames c). get_bytes_array m q = get_bytes_array (phys s) q) \<and>
    map (get_bytes_array m) (area_frames c) = map (get_bytes_array (phys s)) (area_frames a)"
proof -
  let ?src = "\<lambda>v. ft_ppn (the (map_of (ma_data_frames a) v))" and ?dst = "\<lambda>v. ft_ppn (the (map_of (ma_data_frames c) v))"
  have src: "area_frames a = map ?src (area_vpns a)" using frames_map_of [OF P(2,3)] .
  have dst: "area_frames c = map ?dst (area_vpns a)" using frames_map_of [OF C(2,3)] same(1) by simp
  have srcs: "set (area_frames a) = ?src ` set (area_vpns a)" and dsts: "set (area_frames c) = ?dst ` set (area_vpns a)"
    using arg_cong [OF src, of set] arg_cong [OF dst, of set] by (simp_all only: set_map)
  have mm: "mm_ok l s" using P(1) by (simp add: pt_ok_def)
  have "\<exists>m. for_each (copy_page P C) (area_vpns a) (phys s) = Inr m \<and>
    (\<forall>q \<in> mm_live l s - ?dst ` set (area_vpns a). get_bytes_array m q = get_bytes_array (phys s) q) \<and>
    (\<forall>v \<in> set (area_vpns a). get_bytes_array m (?dst v) = get_bytes_array (phys s) (?src v))"
  proof (rule for_each_copy_page [OF P(1) C(1)])
    show "distinct (area_vpns a)" using P(2) by (simp add: area_ok_def area_vpns_def distinct_vpns_of)
    show "inj_on ?dst (set (area_vpns a))" using same(2) by (subst (asm) dst) (simp add: distinct_map)
    show "\<forall>v \<in> set (area_vpns a). \<exists>e e'. lookup s (ms_page_table P) v = Some e \<and> PageTableEntry_ppn e = ?src v \<and>
           lookup s (ms_page_table C) v = Some e' \<and> PageTableEntry_ppn e' = ?dst v"
    proof
      fix v
      assume v: "v \<in> set (area_vpns a)"
      obtain f where f: "map_of (ma_data_frames a) v = Some f"
          "lookup s (ms_page_table P) v = Some (area_pte a (ft_ppn f))" "ft_ppn f \<in> set (area_frames a)"
        using map_of_frames [OF P(2,3) v] .
      obtain g where g: "map_of (ma_data_frames c) v = Some g"
          "lookup s (ms_page_table C) v = Some (area_pte c (ft_ppn g))" "ft_ppn g \<in> set (area_frames c)"
        using map_of_frames [OF C(2,3)] v unfolding same(1) by blast
      have "ppn_ok (ft_ppn f)" "ppn_ok (ft_ppn g)"
        using mm_live_ppn_ok [OF mm] f(3) g(3) live by auto
      then show "\<exists>e e'. lookup s (ms_page_table P) v = Some e \<and> PageTableEntry_ppn e = ?src v \<and>
           lookup s (ms_page_table C) v = Some e' \<and> PageTableEntry_ppn e' = ?dst v"
        using f(1,2) g(1,2) by (simp add: area_pte_def)
    qed
    show "\<forall>v \<in> set (area_vpns a). ?src v \<in> mm_live l s \<and> ?src v \<notin> ?dst ` set (area_vpns a) \<and>
           ?dst v \<in> mm_live l s - pt_frame_set (ms_page_table P) - pt_frame_set (ms_page_table C)"
      using live same(3) unfolding srcs dsts by blast
  qed
  moreover have "map (get_bytes_array m) (area_frames c) = map (get_bytes_array (phys s)) (area_frames a)"
    if "\<forall>v \<in> set (area_vpns a). get_bytes_array m (?dst v) = get_bytes_array (phys s) (?src v)" for m
    unfolding src by (subst dst) (use that in simp)
  ultimately show ?thesis unfolding dsts by blast
qed

lemma copy_area_spec:
  assumes P: "pt_ok l s (ms_page_table P)" "area_ok s (ms_page_table P) a" "ma_map_type a = Framed"
      "set (area_frames a) \<subseteq> mm_live l s"
    and C: "ms_ok l tr s C" "set (area_vpns a) \<inter> set (tramp_vpn # ms_vpns C) = {}"
    and dis: "pt_frame_set (ms_page_table P) \<inter> pt_frame_set (ms_page_table C) = {}"
      "set (area_frames a) \<inter> pt_frame_set (ms_page_table C) = {}"
    and free: "3 * length (area_vpns a) \<le> mm_free s"
  shows "\<exists>C' s' c. copy_area P a (C, s) = Inr (C', s') \<and> ms_ok l tr s' C' \<and> ms_areas C' = ms_areas C @ [c] \<and>
    area_copy (phys s) a (phys s') c \<and>
    as_evolve l s (ms_page_table C) s' (ms_page_table C') (set (area_frames c)) \<and>
    mm_free s \<le> mm_free s' + 3 * length (area_vpns a)"
proof -
  let ?n = "a\<lparr>ma_data_frames := []\<rparr>"
  have range: "vr_l (ma_vpn_range a) \<le> vr_r (ma_vpn_range a)" "\<forall>v \<in> set (area_vpns a). vpn_ok v"
    using P(2) by (auto simp: area_ok_def)
  have vpns: "area_vpns ?n = area_vpns a" by (simp add: area_vpns_def)
  have new: "new_area_ok C ?n" using range C(2) by (simp add: new_area_ok_def vpns)
  obtain fs s1 pt1 where m: "MapArea_map (?n, ms_page_table C, s) =
        Inr (?n\<lparr>ma_data_frames := zip (area_vpns a) (map FrameTracker fs)\<rparr>, pt1, s1)"
      "area_frames (?n\<lparr>ma_data_frames := zip (area_vpns a) (map FrameTracker fs)\<rparr>) = fs"
      "ms_ok l tr s1 \<lparr>ms_page_table = pt1, ms_areas = ms_areas C @
         [?n\<lparr>ma_data_frames := zip (area_vpns a) (map FrameTracker fs)\<rparr>]\<rparr>"
      "as_evolve l s (ms_page_table C) s1 pt1 (set fs)"
      "mm_free s \<le> mm_free s1 + 3 * length (area_vpns a)"
    using map_area_framed [OF C(1) new] P(3) free unfolding Let_def vpns by auto
  define c where "c = ?n\<lparr>ma_data_frames := zip (area_vpns a) (map FrameTracker fs)\<rparr>"
  define C1 where "C1 = \<lparr>ms_page_table = pt1, ms_areas = ms_areas C @ [c]\<rparr>"
  note m = m [folded c_def, folded C1_def]
  have push: "MemorySet_push ?n None (C, s) = Inr (C1, s1)"
    using m(1) by (simp add: MemorySet_push_def C1_def)
  have cok: "area_ok s1 pt1 c" "ma_map_type c = Framed" and cv: "area_vpns c = area_vpns a"
    using m(3) P(3) by (simp_all add: ms_ok_def C1_def) (simp_all add: c_def area_vpns_def)
  note oth = as_evolve_other [OF m(4) P(1) dis(1)]
  have aok1: "area_ok s1 (ms_page_table P) a"
    by (rule area_ok_cong [OF P(2)]) (simp add: oth(2))
  have new': "set fs \<inter> mm_live l s = {}" "set fs \<subseteq> mm_live l s1 - pt_frame_set pt1" "mm_live l s \<subseteq> mm_live l s1"
    using m(4) by (auto simp: as_evolve_def)
  have "\<exists>m. for_each (copy_page P C1) (area_vpns a) (phys s1) = Inr m \<and>
    (\<forall>q \<in> mm_live l s1 - set (area_frames c). get_bytes_array m q = get_bytes_array (phys s1) q) \<and>
    map (get_bytes_array m) (area_frames c) = map (get_bytes_array (phys s1)) (area_frames a)"
  proof (rule copy_area_pages [OF oth(1) aok1 P(3) _ _ cok(2) cv])
    show "pt_ok l s1 (ms_page_table C1)" using m(4) by (simp add: as_evolve_def C1_def)
    show "area_ok s1 (ms_page_table C1) c" using cok(1) by (simp add: C1_def)
    show "distinct (area_frames c)" using m(3) by (simp add: ms_ok_def C1_def ms_frames_def)
    show "set (area_frames a) \<inter> set (area_frames c) = {}" "set (area_frames a) \<subseteq> mm_live l s1"
      using P(4) new' m(2) by auto
    show "set (area_frames c) \<subseteq> mm_live l s1 - pt_frame_set (ms_page_table P) - pt_frame_set (ms_page_table C1)"
      using P(1) new' m(2) by (auto simp: C1_def pt_ok_def)
  qed
  then obtain m' where m': "for_each (copy_page P C1) (area_vpns a) (phys s1) = Inr m'"
      "\<And>q. q \<in> mm_live l s1 - set fs \<Longrightarrow> get_bytes_array m' q = get_bytes_array (phys s1) q"
      "map (get_bytes_array m') fs = map (get_bytes_array (phys s1)) (area_frames a)"
    unfolding m(2) by blast
  have "get_bytes_array (phys s1) q = get_bytes_array (phys s) q" if "q \<in> set (area_frames a)" for q
    using that m(4) P(4) dis(2) by (auto simp: as_evolve_def)
  then have "map (get_bytes_array m') fs = map (get_bytes_array (phys s)) (area_frames a)"
    using m'(3) by simp
  then have cp: "area_copy (phys s) a m' c"
    using m(2) by (simp add: area_copy_def) (simp add: c_def)
  have "ms_ok l tr (s1\<lparr>phys := m'\<rparr>) C1"
  proof (rule ms_ok_same_bytes [OF m(3)])
    fix q
    assume "q \<in> pt_frame_set (ms_page_table C1)"
    then show "get_bytes_array m' q = get_bytes_array (phys s1) q"
      using m(4) by (intro m'(2)) (auto simp: C1_def as_evolve_def)
  qed
  moreover have "as_evolve l s (ms_page_table C) (s1\<lparr>phys := m'\<rparr>) (ms_page_table C1) (set (area_frames c))"
    using as_evolve_write [OF m(4) m'(2)] m(2) by (simp add: C1_def)
  moreover have "copy_area P a (C, s) = Inr (C1, s1\<lparr>phys := m'\<rparr>)"
    using MapArea_from_another_ok [OF range(1)] push m'(1) by (simp add: copy_area_def flip: area_vpns_def)
  moreover have "mm_free (s1\<lparr>phys := m'\<rparr>) = mm_free s1" by (simp add: mm_free_def)
  ultimately show ?thesis
    using cp m(5) by (intro exI [of _ C1] exI [of _ "s1\<lparr>phys := m'\<rparr>"] exI [of _ c]) (simp add: C1_def)
qed

lemma area_copy_trans:
  assumes "area_copy m0 a m1 c" "\<And>q. q \<in> set (area_frames c) \<Longrightarrow> get_bytes_array m2 q = get_bytes_array m1 q"
  shows "area_copy m0 a m2 c"
  using assms by (simp add: area_copy_def cong: map_cong)

lemma area_copy_source:
  assumes "area_copy m1 a m2 c" "\<And>q. q \<in> set (area_frames a) \<Longrightarrow> get_bytes_array m1 q = get_bytes_array m0 q"
  shows "area_copy m0 a m2 c"
  using assms by (simp add: area_copy_def cong: map_cong)

lemma area_copy_vpns: "area_copy m0 a m c \<Longrightarrow> area_vpns c = area_vpns a"
  by (simp add: area_copy_def area_vpns_def)

lemma for_each_copy_area:
  assumes "pt_ok l s (ms_page_table P)" "ms_ok l tr s C"
    "\<forall>a \<in> set as. area_ok s (ms_page_table P) a \<and> ma_map_type a = Framed \<and>
       set (area_frames a) \<subseteq> mm_live l s - pt_frame_set (ms_page_table C)"
    "distinct (concat (map area_vpns as))" "set (concat (map area_vpns as)) \<inter> set (tramp_vpn # ms_vpns C) = {}"
    "pt_frame_set (ms_page_table P) \<inter> pt_frame_set (ms_page_table C) = {}"
    "3 * length (concat (map area_vpns as)) \<le> mm_free s"
  shows "\<exists>C' s' cs. for_each (copy_area P) as (C, s) = Inr (C', s') \<and> ms_ok l tr s' C' \<and>
    ms_areas C' = ms_areas C @ cs \<and> list_all2 (\<lambda>a c. area_copy (phys s) a (phys s') c) as cs \<and>
    as_evolve l s (ms_page_table C) s' (ms_page_table C') (set (concat (map area_frames cs)))"
  using assms
proof (induction as arbitrary: C s)
  case Nil
  then show ?case by (auto simp: ms_ok_def as_evolve_refl)
next
  case (Cons a as)
  have "\<exists>C' s' c. copy_area P a (C, s) = Inr (C', s') \<and> ms_ok l tr s' C' \<and> ms_areas C' = ms_areas C @ [c] \<and>
    area_copy (phys s) a (phys s') c \<and>
    as_evolve l s (ms_page_table C) s' (ms_page_table C') (set (area_frames c)) \<and>
    mm_free s \<le> mm_free s' + 3 * length (area_vpns a)"
    by (rule copy_area_spec [OF Cons.prems(1)]) (use Cons.prems in auto)
  then obtain C1 s1 c where 1: "copy_area P a (C, s) = Inr (C1, s1)" "ms_ok l tr s1 C1" "ms_areas C1 = ms_areas C @ [c]"
      "area_copy (phys s) a (phys s1) c"
      "as_evolve l s (ms_page_table C) s1 (ms_page_table C1) (set (area_frames c))"
      "mm_free s \<le> mm_free s1 + 3 * length (area_vpns a)"
    by blast
  note oth = as_evolve_other [OF 1(5) Cons.prems(1,6)]
  have live: "mm_live l s - pt_frame_set (ms_page_table C) \<subseteq> mm_live l s1 - pt_frame_set (ms_page_table C1)"
    using 1(5) by (auto simp: as_evolve_def)
  have vpns: "ms_vpns C1 = ms_vpns C @ area_vpns a" using 1(3) area_copy_vpns [OF 1(4)] by (simp add: ms_vpns_def)
  have "\<exists>C' s' cs. for_each (copy_area P) as (C1, s1) = Inr (C', s') \<and> ms_ok l tr s' C' \<and>
    ms_areas C' = ms_areas C1 @ cs \<and> list_all2 (\<lambda>a c. area_copy (phys s1) a (phys s') c) as cs \<and>
    as_evolve l s1 (ms_page_table C1) s' (ms_page_table C') (set (concat (map area_frames cs)))"
  proof (rule Cons.IH [OF oth(1) 1(2)])
    show "\<forall>b \<in> set as. area_ok s1 (ms_page_table P) b \<and> ma_map_type b = Framed \<and>
       set (area_frames b) \<subseteq> mm_live l s1 - pt_frame_set (ms_page_table C1)"
      using Cons.prems(3) live area_ok_cong [OF _ oth(2)] by fastforce
    show "set (concat (map area_vpns as)) \<inter> set (tramp_vpn # ms_vpns C1) = {}"
      using Cons.prems(4,5) vpns by auto
    show "3 * length (concat (map area_vpns as)) \<le> mm_free s1" using Cons.prems(7) 1(6) by simp
  qed (use Cons.prems(4) oth(3) in auto)
  then obtain C' s' cs where 2: "for_each (copy_area P) as (C1, s1) = Inr (C', s')" "ms_ok l tr s' C'"
      "ms_areas C' = ms_areas C1 @ cs" "list_all2 (\<lambda>a c. area_copy (phys s1) a (phys s') c) as cs"
      "as_evolve l s1 (ms_page_table C1) s' (ms_page_table C') (set (concat (map area_frames cs)))"
    by blast
  have cfr: "set (area_frames c) \<subseteq> mm_live l s1 - pt_frame_set (ms_page_table C1)"
    using 1(5) by (auto simp: as_evolve_def)
  show ?case
  proof (intro exI conjI)
    show "for_each (copy_area P) (a # as) (C, s) = Inr (C', s')" using 1(1) 2(1) by simp
    show "ms_areas C' = ms_areas C @ c # cs" using 1(3) 2(3) by simp
    have "area_copy (phys s) a (phys s') c"
      by (rule area_copy_trans [OF 1(4)]) (use 2(5) cfr in \<open>auto simp: as_evolve_def\<close>)
    moreover have "list_all2 (\<lambda>a c. area_copy (phys s) a (phys s') c) as cs"
    proof (rule list.rel_mono_strong [OF 2(4)])
      show "area_copy (phys s) b (phys s') d" if "b \<in> set as" "area_copy (phys s1) b (phys s') d" for b d
        by (rule area_copy_source [OF that(2)]) (use Cons.prems(3) that(1) 1(5) in \<open>fastforce simp: as_evolve_def\<close>)
    qed
    ultimately show "list_all2 (\<lambda>a c. area_copy (phys s) a (phys s') c) (a # as) (c # cs)" by simp
    show "as_evolve l s (ms_page_table C) s' (ms_page_table C') (set (concat (map area_frames (c # cs))))"
      using as_evolve_trans [OF 1(5) 2(5)] by simp
  qed (rule 2(2))
qed

section \<open>What a process sees of its address space\<close>

text \<open>
  The view of a page through the page table: its permission bits and its 4096 bytes, or nothing when
  there is no valid entry.
\<close>

definition page_view :: "mem \<Rightarrow> MemorySet \<Rightarrow> VirtPageNum \<Rightarrow> (PTEFlags \<times> u8 list) option" where
  "page_view m ms v =
     (case MemorySet_translate ms m v of
        Inr (Some e) \<Rightarrow>
          if PageTableEntry_is_valid e
          then Some (PageTableEntry_flags e, get_bytes_array m (PageTableEntry_ppn e)) else None
      | _ \<Rightarrow> None)"

definition all_framed :: "MemorySet \<Rightarrow> bool" where
  "all_framed ms \<longleftrightarrow> (\<forall>a \<in> set (ms_areas ms). ma_map_type a = Framed)"

lemma page_view_lookup:
  "page_view (phys s) ms v =
     map_option (\<lambda>e. (PageTableEntry_flags e, get_bytes_array (phys s) (PageTableEntry_ppn e)))
       (lookup s (ms_page_table ms) v)"
  by (simp add: page_view_def MemorySet_translate_def PageTable_translate_def find_pte_eq pt_lookup_def
      entry_def split: option.splits)

definition perm_flags :: "MapPermission \<Rightarrow> PTEFlags" where
  "perm_flags p = flags_or (PTEFlags (perm_bits p)) PTE_V"

lemma page_view_area:
  assumes ok: "ms_ok l tr s ms" and a: "a \<in> set (ms_areas ms)" "ma_map_type a = Framed"
  shows "map (page_view (phys s) ms) (area_vpns a) =
    map (\<lambda>f. Some (perm_flags (ma_map_perm a), get_bytes_array (phys s) f)) (area_frames a)"
proof -
  have aok: "area_ok s (ms_page_table ms) a" using ok a by (simp add: ms_ok_def)
  have live: "f \<in> mm_live l s" if "f \<in> set (area_frames a)" for f
    using that ok a by (auto simp: ms_ok_def ms_frames_def)
  have mm: "mm_ok l s" using ok by (simp add: ms_ok_def pt_ok_def)
  have "page_view (phys s) ms v =
      Some (perm_flags (ma_map_perm a), get_bytes_array (phys s) (ft_ppn (the (map_of (ma_data_frames a) v))))"
    if v: "v \<in> set (area_vpns a)" for v
  proof -
    obtain f where f: "map_of (ma_data_frames a) v = Some f"
        "lookup s (ms_page_table ms) v = Some (area_pte a (ft_ppn f))" "ft_ppn f \<in> set (area_frames a)"
      by (rule map_of_frames [OF aok a(2) v])
    have "ppn_ok (ft_ppn f)" using mm_live_ppn_ok [OF mm] live f(3) by blast
    then show ?thesis using f(1,2) by (simp add: page_view_lookup area_pte_def perm_flags_def)
  qed
  then show ?thesis by (simp add: frames_map_of [OF aok a(2)])
qed

text \<open>The frame a page is mapped to.\<close>

definition frame_of :: "mem \<Rightarrow> MemorySet \<Rightarrow> VirtPageNum \<Rightarrow> PhysPageNum option" where
  "frame_of m ms v =
     (case MemorySet_translate ms m v of
        Inr (Some e) \<Rightarrow> if PageTableEntry_is_valid e then Some (PageTableEntry_ppn e) else None
      | _ \<Rightarrow> None)"

lemma frame_of_lookup:
  "frame_of (phys s) ms v = map_option PageTableEntry_ppn (lookup s (ms_page_table ms) v)"
  by (simp add: frame_of_def MemorySet_translate_def PageTable_translate_def find_pte_eq pt_lookup_def
      entry_def split: option.splits)

lemma frame_of_area:
  assumes ok: "ms_ok l tr s ms" and a: "a \<in> set (ms_areas ms)" "ma_map_type a = Framed"
  shows "map (frame_of (phys s) ms) (area_vpns a) = map Some (area_frames a)"
proof -
  have aok: "area_ok s (ms_page_table ms) a" using ok a by (simp add: ms_ok_def)
  have live: "f \<in> mm_live l s" if "f \<in> set (area_frames a)" for f
    using that ok a by (auto simp: ms_ok_def ms_frames_def)
  have mm: "mm_ok l s" using ok by (simp add: ms_ok_def pt_ok_def)
  have "frame_of (phys s) ms v = Some (ft_ppn (the (map_of (ma_data_frames a) v)))"
    if v: "v \<in> set (area_vpns a)" for v
  proof -
    obtain f where f: "map_of (ma_data_frames a) v = Some f"
        "lookup s (ms_page_table ms) v = Some (area_pte a (ft_ppn f))" "ft_ppn f \<in> set (area_frames a)"
      by (rule map_of_frames [OF aok a(2) v])
    have "ppn_ok (ft_ppn f)" using mm_live_ppn_ok [OF mm] live f(3) by blast
    then show ?thesis using f(1,2) by (simp add: frame_of_lookup area_pte_def)
  qed
  then show ?thesis by (simp add: frames_map_of [OF aok a(2)])
qed

lemma page_view_none:
  assumes "ms_ok l tr s ms" "vpn_ok v" "v \<notin> set (tramp_vpn # ms_vpns ms)"
  shows "page_view (phys s) ms v = None"
  using assms by (simp add: ms_ok_def page_view_lookup)

lemma page_view_same:
  assumes ok: "ms_ok l tr s ms" and fr: "all_framed ms" and v: "vpn_ok v" "v \<noteq> tramp_vpn"
    and look: "lookup s' (ms_page_table ms') v = lookup s (ms_page_table ms) v"
    and bytes: "\<And>q. q \<in> set (ms_frames ms) \<Longrightarrow> get_bytes_array (phys s') q = get_bytes_array (phys s) q"
  shows "page_view (phys s') ms' v = page_view (phys s) ms v"
proof (cases "v \<in> set (ms_vpns ms)")
  case True
  then obtain a where a: "a \<in> set (ms_areas ms)" "v \<in> set (area_vpns a)" by (auto simp: ms_vpns_def)
  have aok: "area_ok s (ms_page_table ms) a" and ty: "ma_map_type a = Framed"
    using ok fr a by (auto simp: ms_ok_def all_framed_def)
  obtain f where f: "lookup s (ms_page_table ms) v = Some (area_pte a (ft_ppn f))" "ft_ppn f \<in> set (area_frames a)"
    using map_of_frames [OF aok ty a(2)] by blast
  have fr: "ft_ppn f \<in> set (ms_frames ms)" using f(2) a(1) by (auto simp: ms_frames_def)
  have mm: "mm_ok l s" using ok by (simp add: ms_ok_def pt_ok_def)
  have "ft_ppn f \<in> mm_live l s" using fr ok by (auto simp: ms_ok_def)
  then have "ppn_ok (ft_ppn f)" using mm_live_ppn_ok [OF mm] by blast
  then show ?thesis using look f(1) bytes [OF fr] by (simp add: page_view_lookup area_pte_def)
next
  case False
  then have "lookup s (ms_page_table ms) v = None" using ok v by (simp add: ms_ok_def)
  then show ?thesis using look by (simp add: page_view_lookup)
qed

lemma area_copy_view:
  assumes P: "ms_ok l tr s P" "a \<in> set (ms_areas P)" "ma_map_type a = Framed"
    and C: "ms_ok l tr s' C" "c \<in> set (ms_areas C)" and cp: "area_copy (phys s) a (phys s') c"
    and v: "v \<in> set (area_vpns a)"
  shows "page_view (phys s') C v = page_view (phys s) P v"
proof -
  let ?pf = "perm_flags (ma_map_perm a)"
  have ty: "ma_map_type c = Framed" and perm: "ma_map_perm c = ma_map_perm a"
    and eq: "map (get_bytes_array (phys s')) (area_frames c) = map (get_bytes_array (phys s)) (area_frames a)"
    using cp P(3) by (simp_all add: area_copy_def)
  have "map (\<lambda>f. Some (?pf, get_bytes_array (phys s') f)) (area_frames c) =
      map (\<lambda>f. Some (?pf, get_bytes_array (phys s) f)) (area_frames a)"
    using arg_cong [OF eq, of "map (\<lambda>b. Some (?pf, b))"] by (simp add: comp_def)
  then have "map (page_view (phys s') C) (area_vpns a) = map (page_view (phys s) P) (area_vpns a)"
    using page_view_area [OF P] page_view_area [OF C ty] unfolding area_copy_vpns [OF cp] perm by simp
  then show ?thesis using v by simp
qed

lemma fork_copies:
  assumes P: "ms_ok l tr s P" "all_framed P" and tr: "page_aligned tr"
    and free: "3 + 3 * length (ms_vpns P) \<le> mm_free s"
  shows "\<exists>C s'. MemorySet_from_existed_user tr P s = Inr (C, s') \<and> ms_ok l tr s' C \<and>
    list_all2 (\<lambda>a c. area_copy (phys s) a (phys s') c) (ms_areas P) (ms_areas C) \<and>
    (set (ms_frames C) \<union> pt_frame_set (ms_page_table C)) \<inter> mm_live l s = {} \<and>
    mm_live l s \<subseteq> mm_live l s' \<and>
    (\<forall>q \<in> mm_live l s. get_bytes_array (phys s') q = get_bytes_array (phys s) q)"
proof -
  have mm: "mm_ok l s" and ptP: "pt_ok l s (ms_page_table P)" using P(1) by (auto simp: ms_ok_def pt_ok_def)
  have "3 \<le> mm_free s" using free by simp
  then obtain C0 s0 where 0: "and_then (MemorySet_new_bare s) (MemorySet_map_trampoline tr) = Inr (C0, s0)"
      "ms_ok l tr s0 C0" "ms_areas C0 = []" "mm_live l s0 = mm_live l s \<union> pt_frame_set (ms_page_table C0)"
      "pt_frame_set (ms_page_table C0) \<inter> mm_live l s = {}"
      "\<forall>q \<in> mm_live l s. get_bytes_array (phys s0) q = get_bytes_array (phys s) q"
      "mm_free s \<le> mm_free s0 + 3"
    using bare_with_trampoline [OF mm _ tr] by blast
  have sub: "pt_frame_set (ms_page_table P) \<subseteq> mm_live l s" using ptP by (simp add: pt_ok_def)
  have same: "get_bytes_array (phys s0) q = get_bytes_array (phys s) q" if "q \<in> pt_frame_set (ms_page_table P)" for q
    using 0(6) sub that by blast
  have tree: "pt_tree (phys s) (pt_root_ppn (ms_page_table P)) (pt_frame_set (ms_page_table P))"
    using ptP by (simp add: pt_ok_def)
  have ptP0: "pt_ok l s0 (ms_page_table P)"
    using 0(2,4) sub pt_tree_same_bytes [OF tree same] by (auto simp: pt_ok_def ms_ok_def)
  have look0: "lookup s0 (ms_page_table P) v = lookup s (ms_page_table P) v" for v
    by (rule pt_lookup_same_bytes [OF tree same])
  have fr: "set (area_frames a) \<subseteq> mm_live l s" if "a \<in> set (ms_areas P)" for a
    using P(1) that by (auto simp: ms_ok_def ms_frames_def)
  have "\<exists>C' s' cs. for_each (copy_area P) (ms_areas P) (C0, s0) = Inr (C', s') \<and> ms_ok l tr s' C' \<and>
    ms_areas C' = ms_areas C0 @ cs \<and> list_all2 (\<lambda>a c. area_copy (phys s0) a (phys s') c) (ms_areas P) cs \<and>
    as_evolve l s0 (ms_page_table C0) s' (ms_page_table C') (set (concat (map area_frames cs)))"
  proof (rule for_each_copy_area [OF ptP0 0(2)])
    show "\<forall>a \<in> set (ms_areas P). area_ok s0 (ms_page_table P) a \<and> ma_map_type a = Framed \<and>
       set (area_frames a) \<subseteq> mm_live l s0 - pt_frame_set (ms_page_table C0)"
      using P fr 0(4,5) area_ok_cong [OF _ look0] by (fastforce simp: ms_ok_def all_framed_def)
    show "distinct (concat (map area_vpns (ms_areas P)))"
      "set (concat (map area_vpns (ms_areas P))) \<inter> set (tramp_vpn # ms_vpns C0) = {}"
      using P(1) 0(3) by (auto simp: ms_ok_def ms_vpns_def)
    show "pt_frame_set (ms_page_table P) \<inter> pt_frame_set (ms_page_table C0) = {}" using sub 0(5) by auto
    show "3 * length (concat (map area_vpns (ms_areas P))) \<le> mm_free s0"
      using free 0(7) unfolding ms_vpns_def by linarith
  qed
  then obtain C s' where 1: "for_each (copy_area P) (ms_areas P) (C0, s0) = Inr (C, s')" "ms_ok l tr s' C"
      "list_all2 (\<lambda>a c. area_copy (phys s0) a (phys s') c) (ms_areas P) (ms_areas C)"
      "as_evolve l s0 (ms_page_table C0) s' (ms_page_table C) (set (ms_frames C))"
    using 0(3) by (auto simp: ms_frames_def)
  have "list_all2 (\<lambda>a c. area_copy (phys s) a (phys s') c) (ms_areas P) (ms_areas C)"
  proof (rule list.rel_mono_strong [OF 1(3)])
    show "area_copy (phys s) a (phys s') c" if "a \<in> set (ms_areas P)" "area_copy (phys s0) a (phys s') c" for a c
      by (rule area_copy_source [OF that(2)]) (use fr [OF that(1)] 0(6) in blast)
  qed
  moreover have "MemorySet_from_existed_user tr P s = Inr (C, s')"
    using 0(1) 1(1) by (simp add: MemorySet_from_existed_user_def flip: and_then_assoc)
  moreover have "get_bytes_array (phys s') q = get_bytes_array (phys s) q" if "q \<in> mm_live l s" for q
    using that 0(4-6) 1(4) by (auto simp: as_evolve_def)
  moreover have "(set (ms_frames C) \<union> pt_frame_set (ms_page_table C)) \<inter> mm_live l s = {}"
    "mm_live l s \<subseteq> mm_live l s'"
    using 0(4,5) 1(4) by (auto simp: as_evolve_def)
  ultimately show ?thesis using 1(2) by blast
qed

text \<open>
  C2. \<open>fork\<close> copies the address space and shares nothing: \<open>MemorySet::from_existed_user\<close> succeeds when
  there are enough frames, the copy shows at every page below the trampoline the permissions and bytes the
  original shows, the original is left as it was, and no frame of the copy, data or table, was in use
  before.
\<close>
theorem fork_isolates_address_spaces:
  assumes "ms_ok l tr s P" "all_framed P" "page_aligned tr" "3 + 3 * length (ms_vpns P) \<le> mm_free s"
  shows "\<exists>C s'. MemorySet_from_existed_user tr P s = Inr (C, s') \<and> ms_ok l tr s' C \<and>
    (\<forall>v. vpn_ok v \<longrightarrow> v \<noteq> tramp_vpn \<longrightarrow>
       page_view (phys s') C v = page_view (phys s) P v \<and> page_view (phys s') P v = page_view (phys s) P v) \<and>
    (set (ms_frames C) \<union> pt_frame_set (ms_page_table C)) \<inter> mm_live l s = {}"
proof -
  obtain C s' where 1: "MemorySet_from_existed_user tr P s = Inr (C, s')" "ms_ok l tr s' C"
      "list_all2 (\<lambda>a c. area_copy (phys s) a (phys s') c) (ms_areas P) (ms_areas C)"
      "(set (ms_frames C) \<union> pt_frame_set (ms_page_table C)) \<inter> mm_live l s = {}"
      "\<forall>q \<in> mm_live l s. get_bytes_array (phys s') q = get_bytes_array (phys s) q"
    using fork_copies [OF assms] by blast
  have vpns: "ms_vpns C = ms_vpns P"
    using 1(3) unfolding ms_vpns_def by (induction rule: list_all2_induct) (simp_all add: area_copy_vpns)
  have child: "page_view (phys s') C v = page_view (phys s) P v" if v: "vpn_ok v" "v \<noteq> tramp_vpn" for v
  proof (cases "v \<in> set (ms_vpns P)")
    case True
    then obtain a where a: "a \<in> set (ms_areas P)" "v \<in> set (area_vpns a)" by (auto simp: ms_vpns_def)
    obtain c where c: "c \<in> set (ms_areas C)" "area_copy (phys s) a (phys s') c"
      using list_all2_left [OF 1(3) a(1)] by blast
    have "ma_map_type a = Framed" using assms(2) a(1) by (simp add: all_framed_def)
    from area_copy_view [OF assms(1) a(1) this 1(2) c a(2)] show ?thesis .
  next
    case False
    then show ?thesis
      using page_view_none [OF assms(1) v(1)] page_view_none [OF 1(2) v(1)] v(2) vpns by simp
  qed
  have pt: "pt_ok l s (ms_page_table P)" using assms(1) by (simp add: ms_ok_def)
  then have sub: "pt_frame_set (ms_page_table P) \<subseteq> mm_live l s"
    and tree: "pt_tree (phys s) (pt_root_ppn (ms_page_table P)) (pt_frame_set (ms_page_table P))"
    by (auto simp: pt_ok_def)
  have look: "lookup s' (ms_page_table P) v = lookup s (ms_page_table P) v" for v
    by (rule pt_lookup_same_bytes [OF tree]) (use 1(5) sub in blast)
  have "set (ms_frames P) \<subseteq> mm_live l s" using assms(1) by (auto simp: ms_ok_def)
  then have "page_view (phys s') P v = page_view (phys s) P v" if "vpn_ok v" "v \<noteq> tramp_vpn" for v
    by (intro page_view_same [OF assms(1,2) that look]) (use 1(5) in blast)
  then show ?thesis using 1(1,2,4) child by blast
qed

section \<open>Inserting and removing a segment\<close>

definition in_range :: "VirtAddr \<Rightarrow> VirtAddr \<Rightarrow> VirtPageNum \<Rightarrow> bool" where
  "in_range start_va end_va v \<longleftrightarrow> VirtAddr_floor start_va \<le> v \<and> v < VirtAddr_ceil end_va"

lemma insert_framed_area_spec:
  assumes ok: "ms_ok l tr s ms" and r: "VirtAddr_floor sa \<le> VirtAddr_ceil ea"
    and new: "\<And>v. in_range sa ea v \<Longrightarrow> vpn_ok v \<and> v \<notin> set (tramp_vpn # ms_vpns ms)"
    and free: "3 * (unat (vpn_0 (VirtAddr_ceil ea)) - unat (vpn_0 (VirtAddr_floor sa))) \<le> mm_free s"
  shows "\<exists>a ms' s'. MemorySet_insert_framed_area sa ea perm (ms, s) = Inr (ms', s') \<and> ms_ok l tr s' ms' \<and>
    ms_areas ms' = ms_areas ms @ [a] \<and> ma_map_type a = Framed \<and> ma_map_perm a = perm \<and>
    ma_vpn_range a = \<lparr>vr_l = VirtAddr_floor sa, vr_r = VirtAddr_ceil ea\<rparr> \<and>
    (\<forall>v. v \<in> set (area_vpns a) \<longleftrightarrow> in_range sa ea v) \<and>
    length (area_vpns a) = unat (vpn_0 (VirtAddr_ceil ea)) - unat (vpn_0 (VirtAddr_floor sa)) \<and>
    as_evolve l s (ms_page_table ms) s' (ms_page_table ms') (set (area_frames a)) \<and>
    (\<forall>f \<in> set (area_frames a). get_bytes_array (phys s') f = replicate 4096 0) \<and>
    mm_free s \<le> mm_free s' + 3 * length (area_vpns a)"
proof -
  let ?r = "\<lparr>vr_l = VirtAddr_floor sa, vr_r = VirtAddr_ceil ea\<rparr>"
  let ?a = "\<lparr>ma_vpn_range = ?r, ma_data_frames = [], ma_map_type = Framed, ma_map_perm = perm\<rparr>"
  have a: "MapArea_new sa ea Framed perm = Inr ?a" using r by (simp add: MapArea_new_def VPNRange_new_def)
  have vpns: "set (area_vpns ?a) = {v. in_range sa ea v}"
    using r by (simp add: area_vpns_def set_vpns_of in_range_def)
  have len: "length (area_vpns ?a) = unat (vpn_0 (VirtAddr_ceil ea)) - unat (vpn_0 (VirtAddr_floor sa))"
    using arg_cong [OF vpns_of_unat [of ?r], of length] r by (simp add: area_vpns_def)
  have "new_area_ok ms ?a" using r new by (auto simp: new_area_ok_def vpns)
  then obtain fs s' pt' where 1: "MapArea_map (?a, ms_page_table ms, s) =
        Inr (?a\<lparr>ma_data_frames := zip (area_vpns ?a) (map FrameTracker fs)\<rparr>, pt', s')"
      "area_frames (?a\<lparr>ma_data_frames := zip (area_vpns ?a) (map FrameTracker fs)\<rparr>) = fs"
      "ms_ok l tr s' \<lparr>ms_page_table = pt', ms_areas = ms_areas ms @
         [?a\<lparr>ma_data_frames := zip (area_vpns ?a) (map FrameTracker fs)\<rparr>]\<rparr>"
      "as_evolve l s (ms_page_table ms) s' pt' (set fs)"
      "\<forall>f \<in> set fs. get_bytes_array (phys s') f = replicate 4096 0"
      "mm_free s \<le> mm_free s' + 3 * length (area_vpns ?a)"
    using map_area_framed [OF ok, of ?a] free len unfolding Let_def by auto
  let ?c = "?a\<lparr>ma_data_frames := zip (area_vpns ?a) (map FrameTracker fs)\<rparr>"
  have cv: "area_vpns ?c = area_vpns ?a" by (simp add: area_vpns_def)
  show ?thesis
  proof (intro exI [of _ ?c] exI conjI)
    show "MemorySet_insert_framed_area sa ea perm (ms, s) =
        Inr (\<lparr>ms_page_table = pt', ms_areas = ms_areas ms @ [?c]\<rparr>, s')"
      using a 1(1) by (simp add: MemorySet_insert_framed_area_def MemorySet_push_def)
  qed (use 1 vpns len cv in simp_all)
qed

lemma kept_area_view:
  assumes "ms_ok l tr s ms" "b \<in> set (ms_areas ms)" "ma_map_type b = Framed" "ms_ok l tr s' ms'" "b \<in> set (ms_areas ms')"
    and "\<And>q. q \<in> set (area_frames b) \<Longrightarrow> get_bytes_array (phys s') q = get_bytes_array (phys s) q"
    and "v \<in> set (area_vpns b)"
  shows "page_view (phys s') ms' v = page_view (phys s) ms v"
  by (rule area_copy_view [OF assms(1-5) _ assms(7)]) (use assms(6) in \<open>simp add: area_copy_def cong: map_cong\<close>)

lemma zero_area_view:
  assumes "ms_ok l tr s ms" "a \<in> set (ms_areas ms)" "ma_map_type a = Framed"
    and "\<forall>f \<in> set (area_frames a). get_bytes_array (phys s) f = replicate 4096 0" and v: "v \<in> set (area_vpns a)"
  shows "page_view (phys s) ms v = Some (perm_flags (ma_map_perm a), replicate 4096 0)"
proof -
  have "map (page_view (phys s) ms) (area_vpns a) =
      map (\<lambda>f. Some (perm_flags (ma_map_perm a), replicate 4096 0)) (area_frames a)"
    using page_view_area [OF assms(1-3)] assms(4) by simp
  from arg_cong [OF this, of set] show ?thesis using v by auto
qed

lemma ms_ok_area_frames:
  "ms_ok l tr s ms \<Longrightarrow> b \<in> set (ms_areas ms) \<Longrightarrow>
     set (area_frames b) \<subseteq> mm_live l s - pt_frame_set (ms_page_table ms)"
  by (auto simp: ms_ok_def ms_frames_def)

lemma insert_framed_area_view:
  assumes "ms_ok l tr s ms" "all_framed ms" "VirtAddr_floor sa \<le> VirtAddr_ceil ea"
    and "\<And>v. in_range sa ea v \<Longrightarrow> vpn_ok v \<and> v \<notin> set (tramp_vpn # ms_vpns ms)"
    and "3 * (unat (vpn_0 (VirtAddr_ceil ea)) - unat (vpn_0 (VirtAddr_floor sa))) \<le> mm_free s"
  shows "\<exists>a ms' s'. MemorySet_insert_framed_area sa ea perm (ms, s) = Inr (ms', s') \<and> ms_ok l tr s' ms' \<and>
    ms_areas ms' = ms_areas ms @ [a] \<and> ma_map_type a = Framed \<and>
    (\<forall>v. v \<in> set (area_vpns a) \<longleftrightarrow> in_range sa ea v) \<and> ma_vpn_range a = \<lparr>vr_l = VirtAddr_floor sa, vr_r = VirtAddr_ceil ea\<rparr> \<and>
    mm_free s \<le> mm_free s' + 3 * (unat (vpn_0 (VirtAddr_ceil ea)) - unat (vpn_0 (VirtAddr_floor sa))) \<and>
    (\<forall>v. vpn_ok v \<longrightarrow> v \<noteq> tramp_vpn \<longrightarrow>
       page_view (phys s') ms' v =
         (if in_range sa ea v then Some (perm_flags perm, replicate 4096 0) else page_view (phys s) ms v))"
proof -
  obtain a ms' s' where run: "MemorySet_insert_framed_area sa ea perm (ms, s) = Inr (ms', s')"
    and ok': "ms_ok l tr s' ms'" and areas: "ms_areas ms' = ms_areas ms @ [a]"
    and a: "ma_map_type a = Framed" "ma_map_perm a = perm" "\<And>v. v \<in> set (area_vpns a) \<longleftrightarrow> in_range sa ea v"
    and ev: "as_evolve l s (ms_page_table ms) s' (ms_page_table ms') (set (area_frames a))"
    and zero: "\<forall>f \<in> set (area_frames a). get_bytes_array (phys s') f = replicate 4096 0"
    and rest: "ma_vpn_range a = \<lparr>vr_l = VirtAddr_floor sa, vr_r = VirtAddr_ceil ea\<rparr>"
      "mm_free s \<le> mm_free s' + 3 * (unat (vpn_0 (VirtAddr_ceil ea)) - unat (vpn_0 (VirtAddr_floor sa)))"
    using insert_framed_area_spec [OF assms(1,3,4,5)] by metis
  have "page_view (phys s') ms' v =
      (if in_range sa ea v then Some (perm_flags perm, replicate 4096 0) else page_view (phys s) ms v)"
    if v: "vpn_ok v" "v \<noteq> tramp_vpn" for v
  proof -
    consider (new) "in_range sa ea v" | (old) b where "\<not> in_range sa ea v" "b \<in> set (ms_areas ms)" "v \<in> set (area_vpns b)" |
        (none) "\<not> in_range sa ea v" "v \<notin> set (ms_vpns ms)" by (auto simp: ms_vpns_def)
    then show ?thesis
    proof cases
      case new
      then show ?thesis using zero_area_view [OF ok' _ a(1) zero] a areas by simp
    next
      case old
      have "get_bytes_array (phys s') q = get_bytes_array (phys s) q" if "q \<in> set (area_frames b)" for q
        using ev ms_ok_area_frames [OF assms(1) old(2)] that by (auto simp: as_evolve_def)
      then show ?thesis
        using kept_area_view [OF assms(1) old(2) _ ok' _ _ old(3)] old(1,2) assms(2) areas
        by (simp add: all_framed_def)
    next
      case none
      then show ?thesis
        using page_view_none [OF assms(1) v(1)] page_view_none [OF ok' v(1)] v(2) areas a(3)
        by (simp add: ms_vpns_def)
    qed
  qed
  then show ?thesis using run ok' areas a(1,3) rest by blast
qed

text \<open>The frames behind the pages of a range: every page has its own, and none of them is in \<open>used\<close>.\<close>

definition own_frames :: "mem \<Rightarrow> MemorySet \<Rightarrow> (VirtPageNum \<Rightarrow> bool) \<Rightarrow> PhysPageNum set \<Rightarrow> PhysPageNum set \<Rightarrow> bool" where
  "own_frames m ms P live used \<longleftrightarrow>
     inj_on (frame_of m ms) {v. P v} \<and>
     (\<forall>v. P v \<longrightarrow> (\<exists>f. frame_of m ms v = Some f \<and> f \<in> live \<and> f \<notin> used))"

lemma own_frames_areas:
  assumes "ms_ok l tr s ms" "all_framed ms" "ms_areas ms = as @ new"
    and "\<And>v. P v \<longleftrightarrow> (\<exists>a \<in> set new. v \<in> set (area_vpns a))"
    and "set (concat (map area_frames new)) \<inter> used = {}"
  shows "own_frames (phys s) ms P (mm_live l s) used"
proof -
  have sub: "set new \<subseteq> set (ms_areas ms)" using assms(3) by simp
  have "map (map (frame_of (phys s) ms)) (map area_vpns new) = map (map Some) (map area_frames new)"
    using assms(2) sub by (auto simp: all_framed_def intro: frame_of_area [OF assms(1)])
  from arg_cong [OF this, of concat]
  have fr: "map (frame_of (phys s) ms) (concat (map area_vpns new)) = map Some (concat (map area_frames new))"
    by (simp add: map_concat)
  have "distinct (concat (map area_frames new))" using assms(1,3) by (simp add: ms_ok_def ms_frames_def)
  then have "distinct (map (frame_of (phys s) ms) (concat (map area_vpns new)))" unfolding fr distinct_map by simp
  moreover have P: "{v. P v} = set (concat (map area_vpns new))" using assms(4) by auto
  ultimately have "inj_on (frame_of (phys s) ms) {v. P v}" by (simp only: P distinct_map)
  moreover have "\<exists>f. frame_of (phys s) ms v = Some f \<and> f \<in> mm_live l s \<and> f \<notin> used" if "P v" for v
  proof -
    have "v \<in> set (concat (map area_vpns new))" using that P by blast
    then have "frame_of (phys s) ms v \<in> set (map Some (concat (map area_frames new)))"
      unfolding fr [symmetric] by simp
    moreover have "set (concat (map area_frames new)) \<subseteq> mm_live l s"
      using assms(1,3) by (auto simp: ms_ok_def ms_frames_def)
    ultimately show ?thesis using assms(5) by auto
  qed
  ultimately show ?thesis by (simp add: own_frames_def)
qed

lemma insert_framed_area_evolve:
  assumes "ms_ok l tr s ms" "VirtAddr_floor sa \<le> VirtAddr_ceil ea"
    and "\<And>v. in_range sa ea v \<Longrightarrow> vpn_ok v \<and> v \<notin> set (tramp_vpn # ms_vpns ms)"
    and "3 * (unat (vpn_0 (VirtAddr_ceil ea)) - unat (vpn_0 (VirtAddr_floor sa))) \<le> mm_free s"
    and "MemorySet_insert_framed_area sa ea perm (ms, s) = Inr (ms', s')" "ms_areas ms' = ms_areas ms @ [a]"
  shows "as_evolve l s (ms_page_table ms) s' (ms_page_table ms') (set (area_frames a))"
  using insert_framed_area_spec [OF assms(1-4), of perm] assms(5,6) by auto

lemma remove_area_view:
  assumes "ms_ok l tr s ms" "all_framed ms" "ms_areas ms = as @ a # bs"
    and "\<forall>b \<in> set as. vr_l (ma_vpn_range b) \<noteq> vr_l (ma_vpn_range a)"
  shows "\<exists>ms' s'. MemorySet_remove_area_with_start_vpn (vr_l (ma_vpn_range a)) (ms, s) = Inr (ms', s') \<and>
    ms_ok l tr s' ms' \<and> ms_areas ms' = as @ bs \<and> ms_page_table ms' = ms_page_table ms \<and> mm_live l s' = mm_live l s - set (area_frames a) \<and>
    mm_free s' = mm_free s + length (area_vpns a) \<and>
    (\<forall>v. vpn_ok v \<longrightarrow> v \<noteq> tramp_vpn \<longrightarrow>
       page_view (phys s') ms' v = (if v \<in> set (area_vpns a) then None else page_view (phys s) ms v))"
proof -
  have "ma_map_type a = Framed" using assms(2,3) by (simp add: all_framed_def)
  then obtain ms' s' where run: "MemorySet_remove_area_with_start_vpn (vr_l (ma_vpn_range a)) (ms, s) = Inr (ms', s')"
    and ms': "ms' = \<lparr>ms_page_table = ms_page_table ms, ms_areas = as @ bs\<rparr>"
    and ok': "ms_ok l tr s' ms'" and live: "mm_live l s' = mm_live l s - set (area_frames a)"
    and free: "mm_free s' = mm_free s + length (area_vpns a)"
    and bytes: "\<forall>q \<in> mm_live l s' - pt_frame_set (ms_page_table ms).
       get_bytes_array (phys s') q = get_bytes_array (phys s) q"
    using remove_area_framed [OF assms(1,3,4)] unfolding Let_def by blast
  have dis: "set (area_vpns a) \<inter> set (ms_vpns ms') = {}"
    using assms(1,3) ms' by (auto simp: ms_ok_def ms_vpns_def)
  have vpns: "set (ms_vpns ms) = set (area_vpns a) \<union> set (ms_vpns ms')"
    using assms(3) ms' by (auto simp: ms_vpns_def)
  have "page_view (phys s') ms' v = (if v \<in> set (area_vpns a) then None else page_view (phys s) ms v)"
    if v: "vpn_ok v" "v \<noteq> tramp_vpn" for v
  proof (cases "v \<in> set (ms_vpns ms')")
    case True
    then obtain b where b: "b \<in> set (ms_areas ms')" "v \<in> set (area_vpns b)" by (auto simp: ms_vpns_def)
    have b': "b \<in> set (ms_areas ms)" "ma_map_type b = Framed"
      using b(1) ms' assms(2,3) by (auto simp: all_framed_def)
    have "get_bytes_array (phys s') q = get_bytes_array (phys s) q" if "q \<in> set (area_frames b)" for q
      using bytes ms_ok_area_frames [OF ok' b(1)] that ms' by auto
    then show ?thesis using kept_area_view [OF assms(1) b' ok' b(1) _ b(2)] True dis by auto
  next
    case False
    then show ?thesis using page_view_none [OF ok' v(1)] page_view_none [OF assms(1) v(1)] v(2) vpns by simp
  qed
  then show ?thesis using run ok' live free ms' by auto
qed

text \<open>
  C4. \<open>insert_framed_area\<close> on a range of free pages maps exactly the pages of the range, with the
  requested permissions and full of zeros, each page to a frame of its own that was not in use before; it
  changes nothing a process sees on any other page, keeps every frame that was in use and writes to none of
  them but those of the page table itself.
\<close>
theorem insert_framed_area_maps:
  assumes "ms_ok l tr s ms" "all_framed ms" "VirtAddr_floor sa \<le> VirtAddr_ceil ea"
    and "\<And>v. in_range sa ea v \<Longrightarrow> vpn_ok v \<and> v \<notin> set (tramp_vpn # ms_vpns ms)"
    and "3 * (unat (vpn_0 (VirtAddr_ceil ea)) - unat (vpn_0 (VirtAddr_floor sa))) \<le> mm_free s"
  shows "\<exists>ms' s'. MemorySet_insert_framed_area sa ea perm (ms, s) = Inr (ms', s') \<and> ms_ok l tr s' ms' \<and>
    (\<forall>v. vpn_ok v \<longrightarrow> v \<noteq> tramp_vpn \<longrightarrow>
       page_view (phys s') ms' v =
         (if in_range sa ea v then Some (perm_flags perm, replicate 4096 0) else page_view (phys s) ms v)) \<and>
    inj_on (frame_of (phys s') ms') {v. in_range sa ea v} \<and>
    (\<forall>v. in_range sa ea v \<longrightarrow>
       (\<exists>f. frame_of (phys s') ms' v = Some f \<and> f \<in> mm_live l s' \<and> f \<notin> mm_live l s)) \<and>
    mm_live l s \<subseteq> mm_live l s' \<and>
    (\<forall>q \<in> mm_live l s - pt_frame_set (ms_page_table ms). get_bytes_array (phys s') q = get_bytes_array (phys s) q)"
proof -
  obtain a ms' s' where 1: "MemorySet_insert_framed_area sa ea perm (ms, s) = Inr (ms', s')" "ms_ok l tr s' ms'"
      "ms_areas ms' = ms_areas ms @ [a]" "ma_map_type a = Framed" "\<forall>v. v \<in> set (area_vpns a) \<longleftrightarrow> in_range sa ea v"
      "\<forall>v. vpn_ok v \<longrightarrow> v \<noteq> tramp_vpn \<longrightarrow> page_view (phys s') ms' v =
         (if in_range sa ea v then Some (perm_flags perm, replicate 4096 0) else page_view (phys s) ms v)"
    using insert_framed_area_view [OF assms] by blast
  have ev: "as_evolve l s (ms_page_table ms) s' (ms_page_table ms') (set (area_frames a))"
    by (rule insert_framed_area_evolve [OF assms(1,3,4,5) 1(1,3)])
  have "all_framed ms'" using assms(2) 1(3,4) by (simp add: all_framed_def)
  from own_frames_areas [OF 1(2) this 1(3), of "in_range sa ea" "mm_live l s"] 1(5) ev
  have "own_frames (phys s') ms' (in_range sa ea) (mm_live l s') (mm_live l s)" by (simp add: as_evolve_def)
  then show ?thesis
    using 1(1,2,6) ev by (intro exI [of _ ms'] exI [of _ s']) (auto simp: own_frames_def as_evolve_def)
qed

text \<open>
  C17. \<open>remove_area_with_start_vpn\<close> of a framed segment unmaps exactly its pages, gives back exactly its
  frames and changes nothing a process sees on any other page.
\<close>
theorem remove_area_unmaps:
  assumes "ms_ok l tr s ms" "all_framed ms" "ms_areas ms = as @ a # bs"
    and "\<forall>b \<in> set as. vr_l (ma_vpn_range b) \<noteq> vr_l (ma_vpn_range a)"
  shows "\<exists>ms' s'. MemorySet_remove_area_with_start_vpn (vr_l (ma_vpn_range a)) (ms, s) = Inr (ms', s') \<and>
    ms_ok l tr s' ms' \<and> mm_live l s' = mm_live l s - set (area_frames a) \<and>
    mm_free s' = mm_free s + length (area_vpns a) \<and>
    (\<forall>v. vpn_ok v \<longrightarrow> v \<noteq> tramp_vpn \<longrightarrow>
       page_view (phys s') ms' v = (if v \<in> set (area_vpns a) then None else page_view (phys s) ms v))"
  using remove_area_view [OF assms] by blast

section \<open>A concrete address space\<close>

text \<open>Memory after boot on the board, with a kernel image that ends at 4 MiB, and a small user space on it.\<close>

definition boot_mm :: mm where
  "boot_mm = \<lparr>frame_allocator = init_frame_allocator 0x80400000 StackFrameAllocator_new, phys = (\<lambda>_. 0)\<rparr>"

lemma boot_mm_ok: "mm_ok 0x80400 boot_mm" "mm_free boot_mm = 0x7C00"
  by (simp_all add: boot_mm_def mm_ok_def mm_free_def sfa_invar_def sfa_free_def init_frame_allocator_def
      StackFrameAllocator_init_def StackFrameAllocator_new_def PhysAddr_ceil_def PhysAddr_floor_def
      PhysAddr_from_def address_consts MEMORY_END_def)

definition bare_user :: "(MemorySet \<times> mm) outcome" where
  "bare_user = and_then (MemorySet_new_bare boot_mm) (MemorySet_map_trampoline 0x80200000)"

definition demo_user :: "(MemorySet \<times> mm) outcome" where
  "demo_user = and_then bare_user
     (MemorySet_insert_framed_area (VirtAddr 0x10000) (VirtAddr 0x11800) (perm_or PERM_R PERM_U))"

lemma demo_range:
  "VirtAddr_floor (VirtAddr 0x10000) = VirtPageNum 16" "VirtAddr_ceil (VirtAddr 0x11800) = VirtPageNum 18"
  "in_range (VirtAddr 0x10000) (VirtAddr 0x11800) v \<longleftrightarrow> v = VirtPageNum 16 \<or> v = VirtPageNum 17"
proof -
  show 1: "VirtAddr_floor (VirtAddr 0x10000) = VirtPageNum 16" "VirtAddr_ceil (VirtAddr 0x11800) = VirtPageNum 18"
    by (simp_all add: VirtAddr_floor_def VirtAddr_ceil_def VirtPageNum_from_def address_consts)
  have "v = VirtPageNum 16 \<longleftrightarrow> unat (vpn_0 v) = 16" "v = VirtPageNum 17 \<longleftrightarrow> unat (vpn_0 v) = 17"
    by (simp_all add: VirtPageNum_eq_unat)
  then show "in_range (VirtAddr 0x10000) (VirtAddr 0x11800) v \<longleftrightarrow> v = VirtPageNum 16 \<or> v = VirtPageNum 17"
    by (auto simp: in_range_def 1 VirtPageNum_le_unat VirtPageNum_less_unat)
qed

lemma tr_aligned: "page_aligned 0x80200000"
  by (simp add: page_aligned_def PhysAddr_page_offset_def PhysAddr_from_def address_consts)

lemma bare_user_ok:
  "\<exists>ms s. bare_user = Inr (ms, s) \<and> ms_ok 0x80400 0x80200000 s ms \<and> ms_areas ms = [] \<and> 0x7BFD \<le> mm_free s"
  using bare_with_trampoline [OF boot_mm_ok(1) _ tr_aligned] boot_mm_ok(2) by (fastforce simp: bare_user_def)

lemma demo_pages_free:
  "in_range (VirtAddr 0x10000) (VirtAddr 0x11800) v \<Longrightarrow> ms_areas ms = [] \<Longrightarrow>
     vpn_ok v \<and> v \<notin> set (tramp_vpn # ms_vpns ms)"
  by (auto simp: demo_range vpn_ok_def tramp_vpn_def ms_vpns_def)

lemma demo_user_ok:
  "\<exists>ms s a. demo_user = Inr (ms, s) \<and> ms_ok 0x80400 0x80200000 s ms \<and> ms_areas ms = [a] \<and>
     ma_map_type a = Framed \<and> set (area_vpns a) = {VirtPageNum 16, VirtPageNum 17} \<and>
     length (ms_vpns ms) = 2 \<and> 0x7000 \<le> mm_free s"
proof -
  obtain ms s where 1: "bare_user = Inr (ms, s)" "ms_ok 0x80400 0x80200000 s ms" "ms_areas ms = []" "0x7BFD \<le> mm_free s"
    using bare_user_ok by blast
  have "\<exists>a ms' s'. MemorySet_insert_framed_area (VirtAddr 0x10000) (VirtAddr 0x11800) (perm_or PERM_R PERM_U) (ms, s) =
      Inr (ms', s') \<and> ms_ok 0x80400 0x80200000 s' ms' \<and> ms_areas ms' = ms_areas ms @ [a] \<and>
    ma_map_type a = Framed \<and> ma_map_perm a = perm_or PERM_R PERM_U \<and>
    ma_vpn_range a = \<lparr>vr_l = VirtAddr_floor (VirtAddr 0x10000), vr_r = VirtAddr_ceil (VirtAddr 0x11800)\<rparr> \<and>
    (\<forall>v. v \<in> set (area_vpns a) \<longleftrightarrow> in_range (VirtAddr 0x10000) (VirtAddr 0x11800) v) \<and>
    length (area_vpns a) = unat (vpn_0 (VirtAddr_ceil (VirtAddr 0x11800))) - unat (vpn_0 (VirtAddr_floor (VirtAddr 0x10000))) \<and>
    as_evolve 0x80400 s (ms_page_table ms) s' (ms_page_table ms') (set (area_frames a)) \<and>
    (\<forall>f \<in> set (area_frames a). get_bytes_array (phys s') f = replicate 4096 0) \<and>
    mm_free s \<le> mm_free s' + 3 * length (area_vpns a)"
    by (rule insert_framed_area_spec [OF 1(2)])
      (use 1(3,4) demo_pages_free in \<open>simp_all add: demo_range(1,2) less_eq_VirtPageNum_def\<close>)
  then obtain a ms' s' where 2: "MemorySet_insert_framed_area (VirtAddr 0x10000) (VirtAddr 0x11800) (perm_or PERM_R PERM_U) (ms, s) = Inr (ms', s')"
    "ms_ok 0x80400 0x80200000 s' ms'" "ms_areas ms' = [a]" "ma_map_type a = Framed"
    "\<And>v. v \<in> set (area_vpns a) \<longleftrightarrow> in_range (VirtAddr 0x10000) (VirtAddr 0x11800) v"
    "length (area_vpns a) = 2" "mm_free s \<le> mm_free s' + 3 * length (area_vpns a)"
    using 1(3) by (auto simp: demo_range(1,2))
  have "set (area_vpns a) = {VirtPageNum 16, VirtPageNum 17}" using 2(5) by (auto simp: demo_range)
  moreover have "demo_user = Inr (ms', s')" unfolding demo_user_def unfolding 1(1) and_then_Inr by (rule 2(1))
  ultimately show ?thesis
    using 1(4) 2 by (intro exI [of _ ms'] exI [of _ s'] exI [of _ a]) (simp add: ms_vpns_def)
qed

theorem fork_isolates_address_spaces_witness:
  "\<exists>P s C s'. demo_user = Inr (P, s) \<and> MemorySet_from_existed_user 0x80200000 P s = Inr (C, s') \<and>
     page_view (phys s') C (VirtPageNum 16) = page_view (phys s) P (VirtPageNum 16)"
proof -
  obtain P s a where 1: "demo_user = Inr (P, s)" "ms_ok 0x80400 0x80200000 s P" "ms_areas P = [a]"
      "ma_map_type a = Framed" "length (ms_vpns P) = 2" "0x7000 \<le> mm_free s"
    using demo_user_ok by blast
  have v: "vpn_ok (VirtPageNum 16)" "VirtPageNum 16 \<noteq> tramp_vpn" by (simp_all add: vpn_ok_def tramp_vpn_def)
  have "all_framed P" using 1(3,4) by (simp add: all_framed_def)
  from fork_isolates_address_spaces [OF 1(2) this tr_aligned] 1(5,6) v 1(1) show ?thesis by fastforce
qed

theorem insert_framed_area_maps_witness:
  "\<exists>ms s ms' s' f. bare_user = Inr (ms, s) \<and>
     MemorySet_insert_framed_area (VirtAddr 0x10000) (VirtAddr 0x11800) PERM_R (ms, s) = Inr (ms', s') \<and>
     page_view (phys s') ms' (VirtPageNum 17) = Some (perm_flags PERM_R, replicate 4096 0) \<and>
     frame_of (phys s') ms' (VirtPageNum 17) = Some f \<and> f \<notin> mm_live 0x80400 s"
proof -
  let ?r = "in_range (VirtAddr 0x10000) (VirtAddr 0x11800)"
  obtain ms s where 1: "bare_user = Inr (ms, s)" "ms_ok 0x80400 0x80200000 s ms" "ms_areas ms = []" "0x7BFD \<le> mm_free s"
    using bare_user_ok by blast
  have r: "vpn_ok (VirtPageNum 17)" "VirtPageNum 17 \<noteq> tramp_vpn" "?r (VirtPageNum 17)"
    by (simp_all add: vpn_ok_def tramp_vpn_def demo_range(3))
  have "\<exists>ms' s'. MemorySet_insert_framed_area (VirtAddr 0x10000) (VirtAddr 0x11800) PERM_R (ms, s) = Inr (ms', s') \<and>
    ms_ok 0x80400 0x80200000 s' ms' \<and>
    (\<forall>v. vpn_ok v \<longrightarrow> v \<noteq> tramp_vpn \<longrightarrow>
       page_view (phys s') ms' v =
         (if ?r v then Some (perm_flags PERM_R, replicate 4096 0) else page_view (phys s) ms v)) \<and>
    inj_on (frame_of (phys s') ms') {v. ?r v} \<and>
    (\<forall>v. ?r v \<longrightarrow>
       (\<exists>f. frame_of (phys s') ms' v = Some f \<and> f \<in> mm_live 0x80400 s' \<and> f \<notin> mm_live 0x80400 s)) \<and>
    mm_live 0x80400 s \<subseteq> mm_live 0x80400 s' \<and>
    (\<forall>q \<in> mm_live 0x80400 s - pt_frame_set (ms_page_table ms). get_bytes_array (phys s') q = get_bytes_array (phys s) q)"
    by (rule insert_framed_area_maps [OF 1(2)])
      (use 1(3,4) demo_pages_free in \<open>simp_all add: demo_range(1,2) less_eq_VirtPageNum_def all_framed_def\<close>)
  then show ?thesis using 1(1) r by force
qed

theorem remove_area_unmaps_witness:
  "\<exists>ms s a ms' s'. demo_user = Inr (ms, s) \<and> ms_areas ms = [a] \<and>
     MemorySet_remove_area_with_start_vpn (vr_l (ma_vpn_range a)) (ms, s) = Inr (ms', s') \<and>
     page_view (phys s') ms' (VirtPageNum 16) = None"
proof -
  obtain ms s a where 1: "demo_user = Inr (ms, s)" "ms_ok 0x80400 0x80200000 s ms" "ms_areas ms = [a]"
      "ma_map_type a = Framed" "set (area_vpns a) = {VirtPageNum 16, VirtPageNum 17}"
    using demo_user_ok by blast
  have v: "vpn_ok (VirtPageNum 16)" "VirtPageNum 16 \<noteq> tramp_vpn" by (simp_all add: vpn_ok_def tramp_vpn_def)
  have "all_framed ms" using 1(3,4) by (simp add: all_framed_def)
  from remove_area_unmaps [OF 1(2) this, of "[]" a "[]"] 1(3,5) v 1(1) show ?thesis by fastforce
qed

end
