(* ===== verification/Ring_Buffer.thy ===== *)
theory Ring_Buffer
  imports Prelude
begin

text \<open>
  The ring buffer behind a pipe (\<^verbatim>\<open>PipeRingBuffer\<close> of \<^verbatim>\<open>os/src/fs/pipe.rs\<close>): a 32-byte array with
  a head, a tail and a status that tells the full buffer from the empty one. The contract
  \<open>bounded_fifo\<close> is what the pipe relies on; the ring buffer is shown to be a first-in first-out queue
  of at most 32 bytes.
\<close>

section \<open>The ring buffer\<close>

definition RING_BUFFER_SIZE :: usize where
  "RING_BUFFER_SIZE = 32"

datatype RingBufferStatus = Full | Empty | Normal

text \<open>
  \<open>write_end\<close> is the weak reference to the write end, here the identity of the \<open>Pipe\<close> object it
  points to.
\<close>

record PipeRingBuffer =
  rb_arr :: "u8 list"
  rb_head :: usize
  rb_tail :: usize
  rb_status :: RingBufferStatus
  rb_write_end :: "nat option"

definition PipeRingBuffer_new :: PipeRingBuffer where
  "PipeRingBuffer_new =
     \<lparr>rb_arr = replicate (unat RING_BUFFER_SIZE) 0, rb_head = 0, rb_tail = 0,
      rb_status = Empty, rb_write_end = None\<rparr>"

definition set_write_end :: "PipeRingBuffer \<Rightarrow> nat \<Rightarrow> PipeRingBuffer" where
  "set_write_end rb pipe = rb\<lparr>rb_write_end := Some pipe\<rparr>"

definition write_byte :: "PipeRingBuffer \<Rightarrow> u8 \<Rightarrow> PipeRingBuffer outcome" where
  "write_byte rb byte =
     (let rb1 = rb\<lparr>rb_status := Normal\<rparr> in
      and_then (vec_update (rb_arr rb1) (rb_tail rb1) byte) (\<lambda>arr.
      let rb2 = rb1\<lparr>rb_arr := arr, rb_tail := (rb_tail rb1 + 1) mod RING_BUFFER_SIZE\<rparr> in
      Inr (if rb_tail rb2 = rb_head rb2 then rb2\<lparr>rb_status := Full\<rparr> else rb2)))"

definition read_byte :: "PipeRingBuffer \<Rightarrow> (u8 \<times> PipeRingBuffer) outcome" where
  "read_byte rb =
     (let rb1 = rb\<lparr>rb_status := Normal\<rparr> in
      and_then (vec_index (rb_arr rb1) (rb_head rb1)) (\<lambda>c.
      let rb2 = rb1\<lparr>rb_head := (rb_head rb1 + 1) mod RING_BUFFER_SIZE\<rparr> in
      Inr (c, if rb_head rb2 = rb_tail rb2 then rb2\<lparr>rb_status := Empty\<rparr> else rb2)))"

definition available_read :: "PipeRingBuffer \<Rightarrow> usize" where
  "available_read rb =
     (if rb_status rb = Empty then 0
      else if rb_tail rb > rb_head rb then rb_tail rb - rb_head rb
      else rb_tail rb + RING_BUFFER_SIZE - rb_head rb)"

definition available_write :: "PipeRingBuffer \<Rightarrow> usize" where
  "available_write rb =
     (if rb_status rb = Full then 0 else RING_BUFFER_SIZE - available_read rb)"

text \<open>
  \<open>alive p\<close> says that the write end \<open>p\<close> still has an owner, so that upgrading the weak reference
  succeeds.
\<close>

definition all_write_ends_closed :: "(nat \<Rightarrow> bool) \<Rightarrow> PipeRingBuffer \<Rightarrow> bool outcome" where
  "all_write_ends_closed alive rb =
     and_then (unwrap (rb_write_end rb)) (\<lambda>p. Inr (\<not> alive p))"

section \<open>The contract of a bounded queue of bytes\<close>

locale bounded_fifo =
  fixes invar :: "'s \<Rightarrow> bool"
    and contents :: "'s \<Rightarrow> 'b list"
    and capacity :: nat
    and push :: "'s \<Rightarrow> 'b \<Rightarrow> 's outcome"
    and pop :: "'s \<Rightarrow> ('b \<times> 's) outcome"
  assumes contents_bound: "invar s \<Longrightarrow> length (contents s) \<le> capacity"
    and push_spec: "invar s \<Longrightarrow> length (contents s) < capacity \<Longrightarrow>
      \<exists>s'. push s b = Inr s' \<and> invar s' \<and> contents s' = contents s @ [b]"
    and pop_spec: "invar s \<Longrightarrow> contents s = b # bs \<Longrightarrow>
      \<exists>s'. pop s = Inr (b, s') \<and> invar s' \<and> contents s' = bs"
begin

lemma push_contents:
  "invar s \<Longrightarrow> length (contents s) < capacity \<Longrightarrow> push s b = Inr s' \<Longrightarrow>
     invar s' \<and> contents s' = contents s @ [b]"
  using push_spec [of s b] by auto

lemma pop_contents:
  "invar s \<Longrightarrow> contents s \<noteq> [] \<Longrightarrow> pop s = Inr (b, s') \<Longrightarrow>
     invar s' \<and> contents s = b # contents s'"
  using pop_spec [of s] by (cases "contents s") fastforce+

end

section \<open>The ring buffer meets the contract\<close>

definition rb_invar :: "PipeRingBuffer \<Rightarrow> bool" where
  "rb_invar rb \<longleftrightarrow>
     length (rb_arr rb) = 32 \<and> unat (rb_head rb) < 32 \<and> unat (rb_tail rb) < 32 \<and>
     (rb_status rb = Normal \<longleftrightarrow> rb_head rb \<noteq> rb_tail rb)"

definition rb_count :: "PipeRingBuffer \<Rightarrow> nat" where
  "rb_count rb =
     (if rb_status rb = Empty then 0
      else if rb_status rb = Full then 32
      else (unat (rb_tail rb) + 32 - unat (rb_head rb)) mod 32)"

definition rb_contents :: "PipeRingBuffer \<Rightarrow> u8 list" where
  "rb_contents rb =
     map (\<lambda>i. rb_arr rb ! ((unat (rb_head rb) + i) mod 32)) [0..<rb_count rb]"

lemma length_rb_contents [simp]: "length (rb_contents rb) = rb_count rb"
  by (simp add: rb_contents_def)

lemma unat_ring_succ:
  fixes x :: usize
  assumes "unat x < 32"
  shows "unat ((x + 1) mod RING_BUFFER_SIZE) = (unat x + 1) mod 32"
proof -
  have "unat (x + 1) = unat x + 1"
    using assms by (subst unat_plus_one) auto
  then show ?thesis by (simp add: RING_BUFFER_SIZE_def unat_mod)
qed

lemma ring_eq_unat: "x = y \<longleftrightarrow> unat (x :: usize) = unat y"
  by (simp add: word_unat_eq_iff)

lemma rb_count_le: "rb_count rb \<le> 32"
  by (simp add: rb_count_def less_imp_le)

lemma rb_new_invar: "rb_invar PipeRingBuffer_new" "rb_contents PipeRingBuffer_new = []"
  by (simp_all add: rb_invar_def rb_contents_def rb_count_def PipeRingBuffer_new_def
      RING_BUFFER_SIZE_def)

lemma rb_tail_position:
  assumes "rb_invar rb"
  shows "unat (rb_tail rb) = (unat (rb_head rb) + rb_count rb) mod 32"
  using assms
  by (cases "rb_status rb") (auto simp: rb_invar_def rb_count_def mod_if ring_eq_unat)

lemma rb_status_count:
  assumes "rb_invar rb"
  shows "rb_status rb = Full \<longleftrightarrow> rb_count rb = 32" "rb_status rb = Empty \<longleftrightarrow> rb_count rb = 0"
proof -
  have "rb_status rb = Normal \<Longrightarrow> 0 < rb_count rb \<and> rb_count rb < 32"
    using assms by (auto simp: rb_invar_def rb_count_def mod_if ring_eq_unat)
  then show "rb_status rb = Full \<longleftrightarrow> rb_count rb = 32" "rb_status rb = Empty \<longleftrightarrow> rb_count rb = 0"
    by (cases "rb_status rb"; auto simp: rb_count_def)+
qed

lemma ring_slot_differs:
  fixes h i c :: nat
  assumes "i < c" "c < 32"
  shows "(h + i) mod 32 \<noteq> (h + c) mod 32"
proof
  assume "(h + i) mod 32 = (h + c) mod 32"
  then have "(c - i) mod 32 = 0"
    using assms(1) by (metis add_diff_cancel_left less_imp_le_nat mod_eq_dvd_iff_nat
        nat_add_left_cancel_le mod_0_imp_dvd dvd_imp_mod_0)
  then show False using assms by simp
qed

lemma ring_count_write:
  fixes h c :: nat
  assumes "h < 32" "c < 32"
  shows "(if ((h + c) mod 32 + 1) mod 32 = h then 32 else (((h + c) mod 32 + 1) mod 32 + 32 - h) mod 32) = Suc c"
proof -
  consider "h + c < 31" | "h + c = 31" | "h + c > 31" by linarith
  then show ?thesis
  proof cases
    case 3
    then have "(h + c) mod 32 = h + c - 32" using assms by (simp add: mod_if)
    then show ?thesis using 3 assms by (simp add: mod_if) arith
  qed (use assms in \<open>auto simp: mod_if\<close>)
qed

lemma ring_count_read:
  fixes h c :: nat
  assumes "h < 32" "0 < c" "c \<le> 32"
  shows "Suc (if (h + 1) mod 32 = (h + c) mod 32 then 0 else ((h + c) mod 32 + 32 - (h + 1) mod 32) mod 32) = c"
proof -
  consider "h + c < 32" | "h + c \<ge> 32" "h = 31" | "h + c \<ge> 32" "h < 31" using assms by linarith
  then show ?thesis
  proof cases
    case 2
    then have "(h + c) mod 32 = h + c - 32" using assms by (simp add: mod_if)
    then show ?thesis using 2 assms by (simp add: mod_if)
  next
    case 3
    then have "(h + c) mod 32 = h + c - 32" using assms by (simp add: mod_if)
    then show ?thesis using 3 assms by (auto simp: mod_if)
  qed (use assms in \<open>auto simp: mod_if\<close>)
qed
lemma write_byte_spec:
  assumes inv: "rb_invar rb" and room: "rb_count rb < 32"
  shows "\<exists>rb'. write_byte rb b = Inr rb' \<and> rb_invar rb' \<and>
           rb_contents rb' = rb_contents rb @ [b] \<and> rb_write_end rb' = rb_write_end rb"
proof -
  let ?t = "(rb_tail rb + 1) mod RING_BUFFER_SIZE"
  define rb' where "rb' = rb\<lparr>rb_status := if ?t = rb_head rb then Full else Normal,
      rb_arr := (rb_arr rb)[unat (rb_tail rb) := b], rb_tail := ?t\<rparr>"
  have len: "length (rb_arr rb) = 32" and h: "unat (rb_head rb) < 32" and t: "unat (rb_tail rb) < 32"
    using inv by (auto simp: rb_invar_def)
  have run: "write_byte rb b = Inr rb'"
    using len t by (simp add: write_byte_def rb'_def Let_def)
  have ut: "unat ?t = (unat (rb_tail rb) + 1) mod 32"
    using unat_ring_succ [OF t] .
  have inv': "rb_invar rb'"
    using len h by (auto simp: rb'_def rb_invar_def ut)
  have tp: "unat (rb_tail rb) = (unat (rb_head rb) + rb_count rb) mod 32"
    by (rule rb_tail_position [OF inv])
  have "rb_count rb' = (if ?t = rb_head rb then 32 else (unat ?t + 32 - unat (rb_head rb)) mod 32)"
    by (simp add: rb'_def rb_count_def)
  then have cnt: "rb_count rb' = Suc (rb_count rb)"
    using ring_count_write [OF h room] by (simp only: ring_eq_unat ut tp)
  have "rb_contents rb' = rb_contents rb @ [b]"
    unfolding rb_contents_def cnt
    using len t room ring_slot_differs [of _ "rb_count rb" "unat (rb_head rb)", symmetric]
    by (simp add: rb'_def tp nth_list_update)
  moreover have "rb_write_end rb' = rb_write_end rb" by (simp add: rb'_def)
  ultimately show ?thesis using run inv' by blast
qed

lemma read_byte_spec:
  assumes inv: "rb_invar rb" and some: "0 < rb_count rb"
  shows "\<exists>rb'. read_byte rb = Inr (hd (rb_contents rb), rb') \<and> rb_invar rb' \<and>
           rb_contents rb' = tl (rb_contents rb) \<and> rb_write_end rb' = rb_write_end rb"
proof -
  let ?h = "(rb_head rb + 1) mod RING_BUFFER_SIZE"
  define rb' where "rb' = rb\<lparr>rb_status := if ?h = rb_tail rb then Empty else Normal, rb_head := ?h\<rparr>"
  have len: "length (rb_arr rb) = 32" and h: "unat (rb_head rb) < 32" and t: "unat (rb_tail rb) < 32"
    using inv by (auto simp: rb_invar_def)
  have run: "read_byte rb = Inr (rb_arr rb ! unat (rb_head rb), rb')"
    using len h by (simp add: read_byte_def rb'_def Let_def)
  have uh: "unat ?h = (unat (rb_head rb) + 1) mod 32"
    using unat_ring_succ [OF h] .
  have inv': "rb_invar rb'"
    using len t by (auto simp: rb'_def rb_invar_def uh)
  have "rb_count rb' = (if ?h = rb_tail rb then 0 else (unat (rb_tail rb) + 32 - unat ?h) mod 32)"
    by (simp add: rb'_def rb_count_def)
  then have cnt: "rb_count rb = Suc (rb_count rb')"
    using ring_count_read [OF h some rb_count_le]
    by (simp only: ring_eq_unat uh rb_tail_position [OF inv])
  have c: "rb_contents rb = rb_arr rb ! unat (rb_head rb) # rb_contents rb'"
    unfolding rb_contents_def cnt map_upt_Suc
    using h by (simp add: rb'_def uh mod_add_left_eq)
  show ?thesis using run inv' c by (auto simp: rb'_def)
qed

interpretation ring: bounded_fifo rb_invar rb_contents 32 write_byte read_byte
proof (standard, goal_cases)
  case (1 s)
  show ?case using rb_count_le by simp
next
  case (2 s b)
  then show ?case using write_byte_spec [of s b] by auto
next
  case (3 s b bs)
  then have "0 < rb_count s" by (metis length_rb_contents length_greater_0_conv list.distinct(1))
  with 3 show ?case using read_byte_spec [of s] by auto
qed

lemma available_read_count: "rb_invar rb \<Longrightarrow> unat (available_read rb) = rb_count rb"
  by (cases "rb_status rb")
    (auto simp: available_read_def rb_count_def rb_invar_def RING_BUFFER_SIZE_def unat_word_ariths
      word_less_nat_alt ring_eq_unat unat_sub_if_size mod_if)

lemma available_write_count: "rb_invar rb \<Longrightarrow> unat (available_write rb) = 32 - rb_count rb"
  using available_read_count [of rb] rb_status_count [of rb] rb_count_le [of rb]
  by (auto simp: available_write_def RING_BUFFER_SIZE_def unat_sub_if_size)

end
