(* ===== verification/User_Memory.thy ===== *)
theory User_Memory
  imports Page_Table
begin

unbundle bit_operations_syntax

text \<open>
  How the kernel reads and writes the memory of a user process, \<^verbatim>\<open>os/src/mm/page_table.rs\<close> from line 159:
  \<open>translated_byte_buffer\<close>, \<open>translated_str\<close>, \<open>translated_ref\<close> and \<open>translated_refmut\<close> translate a user
  pointer page by page through the page table behind a token; \<open>UserBuffer\<close> and its iterator walk over the
  slices. The two loops need not end for arbitrary arguments, so they are partial functions: \<open>None\<close> would
  be a loop that never ends.
\<close>

section \<open>Slices and references in kernel space\<close>

text \<open>A byte slice the kernel holds: where it starts in physical memory and how many bytes it has.\<close>

record byte_slice =
  bs_addr :: usize
  bs_len :: nat

definition slice_addrs :: "byte_slice \<Rightarrow> usize list" where
  "slice_addrs b = map (\<lambda>k. bs_addr b + of_nat k) [0..<bs_len b]"

text \<open>\<open>&mut ppn.get_bytes_array()[i..j]\<close>, a panic when the bounds are not in order or in range.\<close>

definition page_slice :: "PhysPageNum \<Rightarrow> nat \<Rightarrow> nat \<Rightarrow> byte_slice outcome" where
  "page_slice ppn i j =
     (if i \<le> j \<and> j \<le> 4096
      then Inr \<lparr>bs_addr = pa_0 (PhysAddr_from_PhysPageNum ppn) + of_nat i, bs_len = j - i\<rparr>
      else Inl IndexOutOfBounds)"

text \<open>\<open>PhysAddr::get_ref\<close> and \<open>get_mut\<close> turn an address into a reference; a null pointer panics.\<close>

definition PhysAddr_get_mut :: "PhysAddr \<Rightarrow> usize outcome" where
  "PhysAddr_get_mut p = (if pa_0 p = 0 then Inl UnwrapNone else Inr (pa_0 p))"

section \<open>Reading through a user page table\<close>

partial_function (option) byte_buffer_loop ::
  "PageTable \<Rightarrow> mem \<Rightarrow> usize \<Rightarrow> usize \<Rightarrow> byte_slice list \<Rightarrow> byte_slice list outcome option" where
  "byte_buffer_loop pt m start end' v =
     (if start < end'
      then (let start_va = VirtAddr_from start; vpn = VirtAddr_floor start_va in
        case and_then (PageTable_translate pt m vpn) unwrap of
          Inl p \<Rightarrow> Some (Inl p)
        | Inr pte \<Rightarrow>
            (let ppn = PageTableEntry_ppn pte;
                 end_va = min (VirtAddr_from_VirtPageNum (VirtPageNum_step vpn)) (VirtAddr_from end') in
             case (if VirtAddr_page_offset end_va = 0
                   then page_slice ppn (unat (VirtAddr_page_offset start_va)) 4096
                   else page_slice ppn (unat (VirtAddr_page_offset start_va)) (unat (VirtAddr_page_offset end_va))) of
               Inl p \<Rightarrow> Some (Inl p)
             | Inr b \<Rightarrow> byte_buffer_loop pt m (usize_from_VirtAddr end_va) end' (v @ [b])))
      else Some (Inr v))"

definition translated_byte_buffer :: "usize \<Rightarrow> mem \<Rightarrow> usize \<Rightarrow> usize \<Rightarrow> byte_slice list outcome option" where
  "translated_byte_buffer token m ptr len =
     (let page_table = PageTable_from_token token; start = ptr; end' = start + len in
      byte_buffer_loop page_table m start end' [])"

text \<open>
  The string is the list of its characters; \<open>ch as char\<close> makes the character with the code of the byte.
\<close>

partial_function (option) translated_str_loop :: "PageTable \<Rightarrow> mem \<Rightarrow> usize \<Rightarrow> u8 list \<Rightarrow> u8 list outcome option" where
  "translated_str_loop pt m va string =
     (case and_then (and_then (PageTable_translate_va pt m (VirtAddr_from va)) unwrap) PhysAddr_get_mut of
        Inl p \<Rightarrow> Some (Inl p)
      | Inr a \<Rightarrow>
          if m a = 0 then Some (Inr string)
          else translated_str_loop pt m (va + 1) (string @ [m a]))"

definition translated_str :: "usize \<Rightarrow> mem \<Rightarrow> usize \<Rightarrow> u8 list outcome option" where
  "translated_str token m ptr = translated_str_loop (PageTable_from_token token) m ptr []"

text \<open>The reference of \<open>translated_ref\<close> and \<open>translated_refmut\<close> is the physical address behind the pointer.\<close>

definition translated_ref :: "usize \<Rightarrow> mem \<Rightarrow> usize \<Rightarrow> usize outcome" where
  "translated_ref token m ptr =
     and_then (and_then (PageTable_translate_va (PageTable_from_token token) m (VirtAddr_from ptr)) unwrap)
       PhysAddr_get_mut"

definition translated_refmut :: "usize \<Rightarrow> mem \<Rightarrow> usize \<Rightarrow> usize outcome" where
  "translated_refmut token m ptr =
     and_then (and_then (PageTable_translate_va (PageTable_from_token token) m (VirtAddr_from ptr)) unwrap)
       PhysAddr_get_mut"

section \<open>User buffers\<close>

record UserBuffer =
  ub_buffers :: "byte_slice list"

definition UserBuffer_new :: "byte_slice list \<Rightarrow> UserBuffer" where
  "UserBuffer_new bs = \<lparr>ub_buffers = bs\<rparr>"

definition UserBuffer_len :: "UserBuffer \<Rightarrow> usize" where
  "UserBuffer_len ub = fold (\<lambda>b total. total + of_nat (bs_len b)) (ub_buffers ub) 0"

record UserBufferIterator =
  ui_buffers :: "byte_slice list"
  ui_current_buffer :: nat
  ui_current_idx :: nat

definition UserBuffer_into_iter :: "UserBuffer \<Rightarrow> UserBufferIterator" where
  "UserBuffer_into_iter ub = \<lparr>ui_buffers = ub_buffers ub, ui_current_buffer = 0, ui_current_idx = 0\<rparr>"

definition UserBufferIterator_next :: "UserBufferIterator \<Rightarrow> (usize option \<times> UserBufferIterator) outcome" where
  "UserBufferIterator_next it =
     (if ui_current_buffer it \<ge> length (ui_buffers it) then Inr (None, it)
      else (let b = ui_buffers it ! ui_current_buffer it in
        if ui_current_idx it < bs_len b
        then (let r = bs_addr b + of_nat (ui_current_idx it) in
          Inr (Some r,
            if ui_current_idx it + 1 = bs_len b
            then it\<lparr>ui_current_idx := 0, ui_current_buffer := ui_current_buffer it + 1\<rparr>
            else it\<lparr>ui_current_idx := ui_current_idx it + 1\<rparr>))
        else Inl IndexOutOfBounds))"

section \<open>Addresses below the sign bit\<close>

lemma VirtAddr_from_small: "unat a < 2 ^ 39 \<Longrightarrow> VirtAddr_from a = VirtAddr a"
  by (simp add: VirtAddr_from_bits word_unat_eq_iff unat_take_bit_usize)

lemma usize_from_small: "unat a < 2 ^ 38 \<Longrightarrow> usize_from_VirtAddr (VirtAddr a) = a"
  by (simp add: usize_from_VirtAddr_def VA_WIDTH_SV39_def word_le_nat_alt push_bit_eq_mult)

lemma unat_next_page:
  assumes "unat a < 2 ^ 38"
  shows "unat (va_0 (VirtAddr_from_VirtPageNum (VirtPageNum_step (VirtAddr_floor (VirtAddr a))))) = 4096 * (unat a div 4096) + 4096"
proof -
  have d: "unat (drop_bit 12 a) = unat a div 4096" by (simp add: unat_drop_bit_usize)
  then have s: "unat (drop_bit 12 a + 1) = unat a div 4096 + 1"
    using assms by (simp add: unat_word_ariths)
  have "unat (push_bit 12 (drop_bit 12 a + 1)) = 4096 * unat (drop_bit 12 a + 1)"
    by (rule unat_push_bit_12) (use s assms in simp)
  then show ?thesis
    using s by (simp add: VirtAddr_floor_bits VirtPageNum_step_def VirtAddr_from_VirtPageNum_def PAGE_SIZE_BITS_def)
qed

lemma translate_va_small:
  assumes "unat a < 2 ^ 39" "PageTable_translate pt m (VirtAddr_floor (VirtAddr a)) = Inr (Some e)"
  shows "PageTable_translate_va pt m (VirtAddr_from a) =
    Inr (Some (PhysAddr (pa_0 (PhysAddr_from_PhysPageNum (PageTableEntry_ppn e)) + of_nat (unat a mod 4096))))"
proof -
  let ?b = "pa_0 (PhysAddr_from_PhysPageNum (PageTableEntry_ppn e))"
  have off: "VirtAddr_page_offset (VirtAddr a) = of_nat (unat a mod 4096)"
    by (simp add: VirtAddr_page_offset_bits word_unat_eq_iff unat_take_bit_usize unat_of_nat_usize)
  have "unat (?b + of_nat (unat a mod 4096)) = 4096 * unat (ppn_0 (PageTableEntry_ppn e)) + unat a mod 4096"
    by (rule unat_in_page) simp_all
  moreover have "unat (ppn_0 (PageTableEntry_ppn e)) < 2 ^ 44" using pte_ppn_ok [of e] by (simp add: ppn_ok_def)
  moreover have "unat a mod 4096 < 4096" by simp
  ultimately have "unat (?b + of_nat (unat a mod 4096)) < 2 ^ 56" by simp
  then have "PhysAddr_from (?b + of_nat (unat a mod 4096)) = PhysAddr (?b + of_nat (unat a mod 4096))"
    by (simp add: PhysAddr_from_bits word_unat_eq_iff unat_take_bit_usize)
  moreover obtain p where "PageTable_find_pte pt m (VirtAddr_floor (VirtAddr a)) = Inr (Some p)" "read_pte m p = e"
    using assms(2) by (auto simp: PageTable_translate_def panic_simps)
  ultimately show ?thesis
    using assms(1) off by (simp add: PageTable_translate_va_def VirtAddr_from_small)
qed

lemma page_of_range:
  fixes a k :: nat
  assumes "a < k" "k \<le> 4096 * (a div 4096) + 4096"
  shows "(if k mod 4096 = 0 then 4096 else k mod 4096) = a mod 4096 + (k - a)" "a mod 4096 + (k - a) \<le> 4096"
    "i < k - a \<Longrightarrow> (a + i) div 4096 = a div 4096" "i < k - a \<Longrightarrow> (a + i) mod 4096 = a mod 4096 + i"
proof -
  define q r where qr: "q = a div 4096" "r = a mod 4096"
  have a: "a = 4096 * q + r" "r < 4096" by (simp_all add: qr)
  show "a mod 4096 + (k - a) \<le> 4096" using assms a by (simp flip: qr)
  have in_page: "(4096 * q + x) div 4096 = q \<and> (4096 * q + x) mod 4096 = x" if "x < 4096" for x
    using that by simp
  show "(a + i) div 4096 = a div 4096" "(a + i) mod 4096 = a mod 4096 + i" if "i < k - a"
  proof -
    have "r + i < 4096" "a + i = 4096 * q + (r + i)" using that assms a by (simp_all flip: qr)
    then show "(a + i) div 4096 = a div 4096" "(a + i) mod 4096 = a mod 4096 + i"
      using in_page [of "r + i"] by (simp_all only: flip: qr)
  qed
  show "(if k mod 4096 = 0 then 4096 else k mod 4096) = a mod 4096 + (k - a)"
  proof (cases "k = 4096 * q + 4096")
    case True
    then have "k mod 4096 = 0" by simp
    then show ?thesis using True a by (simp flip: qr)
  next
    case False
    then have "k = 4096 * q + (k - 4096 * q)" "0 < k - 4096 * q" "k - 4096 * q < 4096"
      using assms a by (simp_all flip: qr)
    then have "k mod 4096 = k - 4096 * q" using in_page [of "k - 4096 * q"] by simp
    then show ?thesis using \<open>0 < k - 4096 * q\<close> assms a by (simp flip: qr)
  qed
qed

definition pages_present :: "PageTable \<Rightarrow> mem \<Rightarrow> nat \<Rightarrow> nat \<Rightarrow> bool" where
  "pages_present pt m i j \<longleftrightarrow>
     (\<forall>x. i \<le> unat x \<longrightarrow> unat x < j \<longrightarrow> (\<exists>e. PageTable_translate pt m (VirtAddr_floor (VirtAddr x)) = Inr (Some e)))"

lemma page_slice_addrs:
  assumes e: "PageTable_translate pt m (VirtAddr_floor (VirtAddr a)) = Inr (Some e)"
    and k: "unat a < k" "k \<le> 4096 * (unat a div 4096) + 4096" "k < 2 ^ 38"
  shows "map (\<lambda>x. Inr (Some (PhysAddr x)))
      (slice_addrs \<lparr>bs_addr = pa_0 (PhysAddr_from_PhysPageNum (PageTableEntry_ppn e)) + of_nat (unat a mod 4096), bs_len = k - unat a\<rparr>) =
    map (\<lambda>i. PageTable_translate_va pt m (VirtAddr_from (a + of_nat i))) [0..<k - unat a]"
proof -
  have "PageTable_translate_va pt m (VirtAddr_from (a + of_nat i)) =
      Inr (Some (PhysAddr (pa_0 (PhysAddr_from_PhysPageNum (PageTableEntry_ppn e)) + of_nat (unat a mod 4096) + of_nat i)))"
    if i: "i < k - unat a" for i
  proof -
    have u: "unat (a + of_nat i) = unat a + i"
      using i k(3) by (simp add: unat_word_ariths unat_of_nat_usize)
    have "VirtAddr_floor (VirtAddr (a + of_nat i)) = VirtAddr_floor (VirtAddr a)"
      using page_of_range(3) [OF k(1,2) i] u
      by (simp add: VirtAddr_floor_bits word_unat_eq_iff unat_drop_bit_usize)
    then show ?thesis
      using translate_va_small [of "a + of_nat i" pt m e] e u page_of_range(4) [OF k(1,2) i] i k(3)
      by (simp add: add.assoc)
  qed
  then show ?thesis by (simp add: slice_addrs_def)
qed

lemma byte_buffer_loop_spec:
  assumes "unat e < 2 ^ 38" "unat a \<le> unat e" "pages_present pt m (unat a) (unat e)"
  shows "\<exists>bs. byte_buffer_loop pt m a e v = Some (Inr (v @ bs)) \<and> (\<forall>b \<in> set bs. 0 < bs_len b) \<and>
    map (\<lambda>x. Inr (Some (PhysAddr x))) (concat (map slice_addrs bs)) =
      map (\<lambda>i. PageTable_translate_va pt m (VirtAddr_from (a + of_nat i))) [0..<unat e - unat a]"
  using assms
proof (induction "unat e - unat a" arbitrary: a v rule: less_induct)
  case less
  show ?case
  proof (cases "a < e")
    case False
    then have "unat a = unat e" using less.prems(2) by (simp add: word_less_nat_alt)
    then show ?thesis using False by (intro exI [of _ "[]"]) (simp add: byte_buffer_loop.simps)
  next
    case True
    then have lt: "unat a < unat e" by (simp add: word_less_nat_alt)
    obtain t where t: "PageTable_translate pt m (VirtAddr_floor (VirtAddr a)) = Inr (Some t)"
      using less.prems(3) lt by (auto simp: pages_present_def)
    let ?next = "VirtAddr_from_VirtPageNum (VirtPageNum_step (VirtAddr_floor (VirtAddr a)))"
    define w where "w = va_0 (min ?next (VirtAddr e))"
    have small: "unat a < 2 ^ 38" using lt less.prems(1) by simp
    have w: "unat w = min (4096 * (unat a div 4096) + 4096) (unat e)"
      using unat_next_page [OF small]
      by (auto simp: w_def min_def less_eq_VirtAddr_def word_le_nat_alt)
    have k: "unat a < unat w" "unat w \<le> 4096 * (unat a div 4096) + 4096" "unat w < 2 ^ 38" "unat w \<le> unat e"
      using w lt less.prems(1) by auto
    have va: "VirtAddr_from a = VirtAddr a" "VirtAddr_from e = VirtAddr e"
      using small less.prems(1) by (simp_all add: VirtAddr_from_small)
    have endva: "min ?next (VirtAddr e) = VirtAddr w" by (simp add: w_def)
    have off: "VirtAddr_page_offset (VirtAddr x) = 0 \<longleftrightarrow> unat x mod 4096 = 0"
        "unat (VirtAddr_page_offset (VirtAddr x)) = unat x mod 4096" for x
      by (simp_all add: VirtAddr_page_offset_bits word_unat_eq_iff unat_take_bit_usize)
    let ?b = "\<lparr>bs_addr = pa_0 (PhysAddr_from_PhysPageNum (PageTableEntry_ppn t)) + of_nat (unat a mod 4096), bs_len = unat w - unat a\<rparr>"
    have sl: "(if VirtAddr_page_offset (VirtAddr w) = 0 then page_slice (PageTableEntry_ppn t) (unat a mod 4096) 4096
        else page_slice (PageTableEntry_ppn t) (unat a mod 4096) (unat w mod 4096)) = Inr ?b"
      using page_of_range(1,2) [OF k(1,2)] by (auto simp: off page_slice_def split: if_splits)
    have step: "byte_buffer_loop pt m a e v = byte_buffer_loop pt m w e (v @ [?b])"
      using True t sl usize_from_small [OF k(3)]
      by (cases "VirtAddr_page_offset (VirtAddr w) = 0")
        (simp_all add: byte_buffer_loop.simps [of pt m a] Let_def va endva off(2))
    have "unat e - unat w < unat e - unat a" using k by simp
    then obtain bs where bs: "byte_buffer_loop pt m w e (v @ [?b]) = Some (Inr ((v @ [?b]) @ bs))"
        "\<forall>b \<in> set bs. 0 < bs_len b"
        "map (\<lambda>x. Inr (Some (PhysAddr x))) (concat (map slice_addrs bs)) =
          map (\<lambda>i. PageTable_translate_va pt m (VirtAddr_from (w + of_nat i))) [0..<unat e - unat w]"
      using less.hyps [of w "v @ [?b]"] less.prems(1,3) k by (fastforce simp: pages_present_def)
    have wa: "w = a + of_nat (unat w - unat a)"
      using k(1) by (simp add: word_unat_eq_iff unat_word_ariths unat_of_nat_usize less_imp_le)
    have shift: "w + of_nat i = a + of_nat ((unat w - unat a) + i)" for i
      by (subst wa) (simp only: of_nat_add add.assoc)
    have split: "[0..<unat e - unat a] = [0..<unat w - unat a] @ map (\<lambda>i. (unat w - unat a) + i) [0..<unat e - unat w]"
      using k(1,4) by (intro nth_equalityI) (auto simp: nth_append)
    show ?thesis
    proof (intro exI [of _ "?b # bs"] conjI)
      show "byte_buffer_loop pt m a e v = Some (Inr (v @ ?b # bs))" using step bs(1) by simp
      show "\<forall>b \<in> set (?b # bs). 0 < bs_len b" using bs(2) k(1) by simp
      show "map (\<lambda>x. Inr (Some (PhysAddr x))) (concat (map slice_addrs (?b # bs))) =
          map (\<lambda>i. PageTable_translate_va pt m (VirtAddr_from (a + of_nat i))) [0..<unat e - unat a]"
        using bs(3) page_slice_addrs [OF t k(1-3)]
        by (simp only: split map_append list.map concat.simps map_map comp_def shift)
    qed
  qed
qed

section \<open>Iterating over a user buffer\<close>

definition ub_remaining :: "UserBufferIterator \<Rightarrow> usize list" where
  "ub_remaining it =
     (case drop (ui_current_buffer it) (ui_buffers it) of
        [] \<Rightarrow> []
      | b # bs \<Rightarrow> drop (ui_current_idx it) (slice_addrs b) @ concat (map slice_addrs bs))"

definition ub_invar :: "UserBufferIterator \<Rightarrow> bool" where
  "ub_invar it \<longleftrightarrow>
     (\<forall>b \<in> set (ui_buffers it). 0 < bs_len b) \<and>
     (ui_current_buffer it < length (ui_buffers it) \<longrightarrow>
        ui_current_idx it < bs_len (ui_buffers it ! ui_current_buffer it)) \<and>
     (length (ui_buffers it) \<le> ui_current_buffer it \<longrightarrow> ui_current_idx it = 0)"

lemma length_slice_addrs [simp]: "length (slice_addrs b) = bs_len b"
  by (simp add: slice_addrs_def)

lemma ub_remaining_start [simp]:
  "ub_remaining \<lparr>ui_buffers = bs, ui_current_buffer = 0, ui_current_idx = 0\<rparr> = concat (map slice_addrs bs)"
  by (cases bs) (simp_all add: ub_remaining_def)

lemma drop_Suc_nth: "i < length xs \<Longrightarrow> drop i xs = xs ! i # drop (Suc i) xs"
  by (simp add: Cons_nth_drop_Suc)

lemma next_spec:
  assumes inv: "ub_invar it"
  shows "(ub_remaining it = [] \<and> UserBufferIterator_next it = Inr (None, it)) \<or>
    (\<exists>x xs it'. ub_remaining it = x # xs \<and> UserBufferIterator_next it = Inr (Some x, it') \<and>
       ub_invar it' \<and> ub_remaining it' = xs)"
proof (cases "ui_current_buffer it < length (ui_buffers it)")
  case False
  then show ?thesis by (simp add: ub_remaining_def UserBufferIterator_next_def)
next
  case True
  define b where "b = ui_buffers it ! ui_current_buffer it"
  have i: "ui_current_idx it < bs_len b" using inv True by (simp add: ub_invar_def b_def)
  have drop: "drop (ui_current_buffer it) (ui_buffers it) = b # drop (Suc (ui_current_buffer it)) (ui_buffers it)"
    using True by (simp add: drop_Suc_nth b_def)
  have x: "drop (ui_current_idx it) (slice_addrs b) =
      (bs_addr b + of_nat (ui_current_idx it)) # drop (Suc (ui_current_idx it)) (slice_addrs b)"
    using i by (simp add: drop_Suc_nth) (simp add: slice_addrs_def)
  show ?thesis
  proof (cases "ui_current_idx it + 1 = bs_len b")
    case last: True
    let ?it = "it\<lparr>ui_current_idx := 0, ui_current_buffer := ui_current_buffer it + 1\<rparr>"
    have "ub_remaining ?it = concat (map slice_addrs (drop (Suc (ui_current_buffer it)) (ui_buffers it)))"
      by (simp add: ub_remaining_def split: list.splits)
    moreover have "ub_invar ?it" using inv by (simp add: ub_invar_def)
    moreover have "UserBufferIterator_next it = Inr (Some (bs_addr b + of_nat (ui_current_idx it)), ?it)"
      using True i last by (simp add: UserBufferIterator_next_def Let_def b_def)
    ultimately show ?thesis using drop x last by (simp add: ub_remaining_def)
  next
    case more: False
    let ?it = "it\<lparr>ui_current_idx := ui_current_idx it + 1\<rparr>"
    have "ub_remaining ?it = drop (Suc (ui_current_idx it)) (slice_addrs b) @
        concat (map slice_addrs (drop (Suc (ui_current_buffer it)) (ui_buffers it)))"
      using drop by (simp add: ub_remaining_def)
    moreover have "ub_invar ?it" using inv True i more by (simp add: ub_invar_def b_def)
    moreover have "UserBufferIterator_next it = Inr (Some (bs_addr b + of_nat (ui_current_idx it)), ?it)"
      using True i more by (simp add: UserBufferIterator_next_def Let_def b_def)
    ultimately show ?thesis using drop x by (simp add: ub_remaining_def)
  qed
qed

text \<open>The first \<open>n\<close> addresses the iterator gives, fewer when it ends.\<close>

fun ub_take :: "nat \<Rightarrow> UserBufferIterator \<Rightarrow> (usize list \<times> UserBufferIterator) outcome" where
  "ub_take 0 it = Inr ([], it)"
| "ub_take (Suc n) it =
     and_then (UserBufferIterator_next it) (\<lambda>(r, it').
     (case r of
        None \<Rightarrow> Inr ([], it')
      | Some x \<Rightarrow> and_then (ub_take n it') (\<lambda>(xs, it''). Inr (x # xs, it''))))"

lemma ub_take_spec:
  "ub_invar it \<Longrightarrow> \<exists>it'. ub_take n it = Inr (take n (ub_remaining it), it') \<and> ub_invar it' \<and>
     ub_remaining it' = drop n (ub_remaining it)"
proof (induction n arbitrary: it)
  case (Suc n)
  show ?case
    using next_spec [OF Suc.prems]
  proof (elim disjE exE conjE)
    fix x xs it'
    assume 1: "ub_remaining it = x # xs" "UserBufferIterator_next it = Inr (Some x, it')" "ub_invar it'"
      "ub_remaining it' = xs"
    then show ?thesis using Suc.IH [OF 1(3)] by auto
  qed (use Suc.prems in auto)
qed simp

lemma UserBuffer_len_sum: "UserBuffer_len \<lparr>ub_buffers = bs\<rparr> = of_nat (length (concat (map slice_addrs bs)))"
proof -
  have "fold (\<lambda>b total. total + of_nat (bs_len b)) bs t = t + of_nat (length (concat (map slice_addrs bs)))" for t :: usize
    by (induction bs arbitrary: t) (simp_all add: add.assoc)
  then show ?thesis by (simp add: UserBuffer_len_def)
qed

text \<open>
  C19. A system call that reads or writes a user buffer touches exactly the user's bytes: for a buffer in the
  lower half of the address space all of whose pages are present, \<open>translated_byte_buffer\<close> ends without a
  panic, the \<open>UserBuffer\<close> made of its slices has the length asked for, and iterating over it gives, in
  order and once each, the physical addresses behind \<open>ptr\<close>, \<open>ptr + 1\<close>, ..., \<open>ptr + len - 1\<close>.
\<close>
theorem user_buffer_addresses:
  assumes "unat ptr + unat len < 2 ^ 38"
    and "pages_present (PageTable_from_token token) m (unat ptr) (unat ptr + unat len)"
  shows "\<exists>bs addrs it. translated_byte_buffer token m ptr len = Some (Inr bs) \<and>
    UserBuffer_len (UserBuffer_new bs) = len \<and>
    ub_take (unat len) (UserBuffer_into_iter (UserBuffer_new bs)) = Inr (addrs, it) \<and>
    UserBufferIterator_next it = Inr (None, it) \<and>
    map (\<lambda>x. Inr (Some (PhysAddr x))) addrs =
      map (\<lambda>i. PageTable_translate_va (PageTable_from_token token) m (VirtAddr_from (ptr + of_nat i))) [0..<unat len]"
proof -
  have e: "unat (ptr + len) = unat ptr + unat len" using assms(1) by (simp add: unat_word_ariths)
  have "\<exists>bs. byte_buffer_loop (PageTable_from_token token) m ptr (ptr + len) [] = Some (Inr ([] @ bs)) \<and>
    (\<forall>b \<in> set bs. 0 < bs_len b) \<and>
    map (\<lambda>x. Inr (Some (PhysAddr x))) (concat (map slice_addrs bs)) =
      map (\<lambda>i. PageTable_translate_va (PageTable_from_token token) m (VirtAddr_from (ptr + of_nat i)))
        [0..<unat (ptr + len) - unat ptr]"
    by (rule byte_buffer_loop_spec) (use assms e in simp_all)
  then obtain bs where bs: "translated_byte_buffer token m ptr len = Some (Inr bs)" "\<forall>b \<in> set bs. 0 < bs_len b"
    "map (\<lambda>x. Inr (Some (PhysAddr x))) (concat (map slice_addrs bs)) =
      map (\<lambda>i. PageTable_translate_va (PageTable_from_token token) m (VirtAddr_from (ptr + of_nat i))) [0..<unat len]"
    by (auto simp: translated_byte_buffer_def e)
  have len: "length (concat (map slice_addrs bs)) = unat len" using arg_cong [OF bs(3), of length] by simp
  let ?it = "UserBuffer_into_iter (UserBuffer_new bs)"
  have "ub_invar ?it" using bs(2) by (auto simp: ub_invar_def UserBuffer_into_iter_def UserBuffer_new_def)
  moreover have "ub_remaining ?it = concat (map slice_addrs bs)"
    by (simp add: UserBuffer_into_iter_def UserBuffer_new_def)
  ultimately obtain it where it: "ub_take (unat len) ?it = Inr (concat (map slice_addrs bs), it)" "ub_invar it"
      "ub_remaining it = []"
    using ub_take_spec [of ?it "unat len"] len by auto
  have "UserBufferIterator_next it = Inr (None, it)" using next_spec [OF it(2)] it(3) by auto
  moreover have "UserBuffer_len (UserBuffer_new bs) = len"
    using len by (simp add: UserBuffer_new_def UserBuffer_len_sum)
  ultimately show ?thesis using bs(1,3) it(1) by blast
qed

section \<open>Strings\<close>

text \<open>
  C20. \<open>translated_str\<close> returns the user's string: when the addresses behind \<open>ptr\<close>, ..., \<open>ptr + n\<close> are
  present, the first \<open>n\<close> bytes are not zero and the next one is, the loop ends with exactly these bytes.
\<close>
theorem translated_str_reads:
  assumes "\<And>i. i \<le> n \<Longrightarrow> PageTable_translate_va (PageTable_from_token token) m (VirtAddr_from (ptr + of_nat i)) =
      Inr (Some (PhysAddr (addr i))) \<and> addr i \<noteq> 0"
    and "\<And>i. i < n \<Longrightarrow> m (addr i) \<noteq> 0" "m (addr n) = 0"
  shows "translated_str token m ptr = Some (Inr (map (\<lambda>i. m (addr i)) [0..<n]))"
proof -
  have "translated_str_loop (PageTable_from_token token) m (ptr + of_nat (n - k)) (map (\<lambda>i. m (addr i)) [0..<n - k]) =
      Some (Inr (map (\<lambda>i. m (addr i)) [0..<n]))" if "k \<le> n" for k
    using that
  proof (induction k)
    case 0
    then show ?case
      using assms(1) [of n] assms(3) by (simp add: translated_str_loop.simps PhysAddr_get_mut_def)
  next
    case (Suc k)
    then have lt: "n - Suc k < n" and next': "n - k = Suc (n - Suc k)" by auto
    have "translated_str_loop (PageTable_from_token token) m (ptr + of_nat (n - Suc k)) (map (\<lambda>i. m (addr i)) [0..<n - Suc k]) =
        translated_str_loop (PageTable_from_token token) m (ptr + of_nat (n - k)) (map (\<lambda>i. m (addr i)) [0..<n - k])"
      using assms(1) [of "n - Suc k"] assms(2) [OF lt] unfolding next'
      by (simp add: translated_str_loop.simps [of _ m "ptr + of_nat (n - Suc k)"] PhysAddr_get_mut_def add.assoc
          add.commute [of 1])
    then show ?case using Suc by simp
  qed
  from this [of n] show ?thesis by (simp add: translated_str_def)
qed

section \<open>A small memory\<close>

text \<open>
  A page table in one page: entry 0 of page 1 points to page 1, so the page is its own second-level and
  third-level table and virtual page 0 is mapped to it. The bytes at 16 are a string.
\<close>

definition self_map :: mem where
  "self_map a =
     (if a = 0x1000 then 0x01 else if a = 0x1001 then 0x04 else
      if a = 0x1010 then 0x68 else if a = 0x1011 then 0x69 else 0)"

definition self_token :: usize where
  "self_token = push_bit 60 8 OR 1"

lemma self_root: "pt_root_ppn (PageTable_from_token self_token) = PhysPageNum 1"
  by (simp add: PageTable_from_token_def self_token_def PhysPageNum_from_bits take_bit_eq_mask mask_eq_exp_minus_1)

lemma self_entry: "entry self_map (PhysPageNum 1) 0 = \<lparr>pte_bits = 0x401\<rparr>"
proof -
  have "read_bytes self_map 0x1000 8 = [0x01, 0x04, 0, 0, 0, 0, 0, 0]"
    by (simp add: read_bytes_def self_map_def upt_rec)
  then show ?thesis
    by (simp add: entry_def slot_def read_pte_def read_u64_def PhysAddr_from_PhysPageNum_def PAGE_SIZE_BITS_def)
qed

lemma self_translate:
  assumes "unat x < 4096"
  shows "PageTable_translate (PageTable_from_token self_token) self_map (VirtAddr_floor (VirtAddr x)) =
    Inr (Some \<lparr>pte_bits = 0x401\<rparr>)"
proof -
  have "VirtAddr_floor (VirtAddr x) = VirtPageNum 0"
    using assms by (simp add: VirtAddr_floor_bits word_unat_eq_iff unat_drop_bit_usize)
  moreover have "table_path (VirtPageNum 0) = [0, 0]" "leaf_index (VirtPageNum 0) = 0"
    by (simp_all add: table_path_def leaf_index_def VirtPageNum_indexes_bits)
  moreover have "PageTableEntry_is_valid \<lparr>pte_bits = 0x401\<rparr>" "PageTableEntry_ppn \<lparr>pte_bits = 0x401\<rparr> = PhysPageNum 1"
    by (simp_all add: pte_is_valid_bit pte_ppn_bits take_bit_eq_mask mask_eq_exp_minus_1)
  ultimately show ?thesis
    using self_entry by (simp add: PageTable_translate_def find_pte_eq self_root flip: entry_def)
qed

lemma self_present: "j \<le> 4096 \<Longrightarrow> pages_present (PageTable_from_token self_token) self_map i j"
  using self_translate by (simp add: pages_present_def)

theorem user_buffer_addresses_witness:
  "\<exists>bs. translated_byte_buffer self_token self_map 16 2 = Some (Inr bs) \<and> UserBuffer_len (UserBuffer_new bs) = 2"
  using user_buffer_addresses [of 16 2 self_token self_map] self_present by auto

theorem translated_str_reads_witness: "translated_str self_token self_map 16 = Some (Inr [0x68, 0x69])"
proof -
  have "PageTable_translate_va (PageTable_from_token self_token) self_map (VirtAddr_from (16 + of_nat i)) =
      Inr (Some (PhysAddr (0x1010 + of_nat i))) \<and> (0x1010 + of_nat i :: usize) \<noteq> 0" if "i \<le> 2" for i
  proof -
    have "i = 0 \<or> i = 1 \<or> i = 2" using that by auto
    then show ?thesis
      using translate_va_small [OF _ self_translate, of "16 + of_nat i"]
      by (auto simp: pte_ppn_bits take_bit_eq_mask mask_eq_exp_minus_1 PhysAddr_from_PhysPageNum_def PAGE_SIZE_BITS_def)
  qed
  moreover have "self_map (0x1010 + of_nat i) \<noteq> 0" if "i < 2" for i
    using that by (auto simp: self_map_def less_2_cases_iff)
  moreover have "self_map (0x1010 + of_nat 2) = 0" by (simp add: self_map_def)
  ultimately have "translated_str self_token self_map 16 = Some (Inr (map (\<lambda>i. self_map (0x1010 + of_nat i)) [0..<2]))"
    by (rule translated_str_reads)
  then show ?thesis by (simp add: self_map_def upt_rec)
qed

end
