(* ===== verification/Pipe.thy ===== *)
theory Pipe
  imports Ring_Buffer User_Memory
begin

text \<open>
  Pipes, \<^verbatim>\<open>os/src/fs/pipe.rs\<close>: the two ends over a shared ring buffer, and the loops of \<open>Pipe::read\<close> and
  \<open>Pipe::write\<close>. The kernel gives up the processor only at \<open>suspend_current_and_run_next\<close>, so a call is a
  sequence of turns, each running until the loop suspends or the call returns; between turns any other
  process may take turns on the same buffer.
\<close>

section \<open>The ends of a pipe\<close>

record Pipe =
  pipe_readable :: bool
  pipe_writable :: bool
  pipe_buffer :: nat

definition read_end_with_buffer :: "nat \<Rightarrow> Pipe" where
  "read_end_with_buffer buffer = \<lparr>pipe_readable = True, pipe_writable = False, pipe_buffer = buffer\<rparr>"

definition write_end_with_buffer :: "nat \<Rightarrow> Pipe" where
  "write_end_with_buffer buffer = \<lparr>pipe_readable = False, pipe_writable = True, pipe_buffer = buffer\<rparr>"

text \<open>\<open>buffer\<close> and \<open>w\<close> are the addresses of the two new objects the weak and strong references point to.\<close>

definition make_pipe :: "nat \<Rightarrow> nat \<Rightarrow> Pipe \<times> Pipe \<times> PipeRingBuffer" where
  "make_pipe buffer w =
     (let rb = PipeRingBuffer_new;
          read_end = read_end_with_buffer buffer;
          write_end = write_end_with_buffer buffer in
      (read_end, write_end, set_write_end rb w))"

section \<open>Calls and their turns\<close>

record pipe_call =
  pc_iter :: UserBufferIterator
  pc_already :: usize
  pc_want :: usize

datatype turn = Return usize | Suspend pipe_call

definition Pipe_read_start :: "Pipe \<Rightarrow> UserBuffer \<Rightarrow> pipe_call outcome" where
  "Pipe_read_start p buf =
     and_then (assert_that (pipe_readable p)) (\<lambda>_.
     Inr \<lparr>pc_iter = UserBuffer_into_iter buf, pc_already = 0, pc_want = UserBuffer_len buf\<rparr>)"

definition Pipe_write_start :: "Pipe \<Rightarrow> UserBuffer \<Rightarrow> pipe_call outcome" where
  "Pipe_write_start p buf =
     and_then (assert_that (pipe_writable p)) (\<lambda>_.
     Inr \<lparr>pc_iter = UserBuffer_into_iter buf, pc_already = 0, pc_want = UserBuffer_len buf\<rparr>)"

text \<open>The inner \<open>for\<close> loops; \<open>Some n\<close> is a return from the call.\<close>

fun read_chunk ::
  "nat \<Rightarrow> PipeRingBuffer \<Rightarrow> mem \<Rightarrow> pipe_call \<Rightarrow> (usize option \<times> PipeRingBuffer \<times> mem \<times> pipe_call) outcome" where
  "read_chunk 0 rb m c = Inr (None, rb, m, c)"
| "read_chunk (Suc k) rb m c =
     and_then (UserBufferIterator_next (pc_iter c)) (\<lambda>(r, it).
     (case r of
        None \<Rightarrow> Inr (Some (pc_already c), rb, m, c\<lparr>pc_iter := it\<rparr>)
      | Some byte_ref \<Rightarrow>
          and_then (read_byte rb) (\<lambda>(b, rb').
          let c' = c\<lparr>pc_iter := it, pc_already := pc_already c + 1\<rparr>; m' = m(byte_ref := b) in
          if pc_already c' = pc_want c' then Inr (Some (pc_want c'), rb', m', c')
          else read_chunk k rb' m' c')))"

fun write_chunk ::
  "nat \<Rightarrow> PipeRingBuffer \<Rightarrow> mem \<Rightarrow> pipe_call \<Rightarrow> (usize option \<times> PipeRingBuffer \<times> pipe_call) outcome" where
  "write_chunk 0 rb m c = Inr (None, rb, c)"
| "write_chunk (Suc k) rb m c =
     and_then (UserBufferIterator_next (pc_iter c)) (\<lambda>(r, it).
     (case r of
        None \<Rightarrow> Inr (Some (pc_already c), rb, c\<lparr>pc_iter := it\<rparr>)
      | Some byte_ref \<Rightarrow>
          and_then (write_byte rb (m byte_ref)) (\<lambda>rb'.
          let c' = c\<lparr>pc_iter := it, pc_already := pc_already c + 1\<rparr> in
          if pc_already c' = pc_want c' then Inr (Some (pc_want c'), rb', c')
          else write_chunk k rb' m c')))"

partial_function (option) read_turn ::
  "(nat \<Rightarrow> bool) \<Rightarrow> PipeRingBuffer \<Rightarrow> mem \<Rightarrow> pipe_call \<Rightarrow> (turn \<times> PipeRingBuffer \<times> mem) outcome option" where
  "read_turn alive rb m c =
     (let loop_read = available_read rb in
      if loop_read = 0
      then (case all_write_ends_closed alive rb of
          Inl p \<Rightarrow> Some (Inl p)
        | Inr closed \<Rightarrow> Some (Inr (if closed then Return (pc_already c) else Suspend c, rb, m)))
      else (case read_chunk (unat loop_read) rb m c of
          Inl p \<Rightarrow> Some (Inl p)
        | Inr (Some n, rb', m', c') \<Rightarrow> Some (Inr (Return n, rb', m'))
        | Inr (None, rb', m', c') \<Rightarrow> read_turn alive rb' m' c'))"

partial_function (option) write_turn ::
  "PipeRingBuffer \<Rightarrow> mem \<Rightarrow> pipe_call \<Rightarrow> (turn \<times> PipeRingBuffer) outcome option" where
  "write_turn rb m c =
     (let loop_write = available_write rb in
      if loop_write = 0 then Some (Inr (Suspend c, rb))
      else (case write_chunk (unat loop_write) rb m c of
          Inl p \<Rightarrow> Some (Inl p)
        | Inr (Some n, rb', c') \<Rightarrow> Some (Inr (Return n, rb'))
        | Inr (None, rb', c') \<Rightarrow> write_turn rb' m c'))"

section \<open>What a turn does\<close>

text \<open>A call in progress: the bytes still wanted are the addresses the iterator still has to give.\<close>

definition call_ok :: "pipe_call \<Rightarrow> bool" where
  "call_ok c \<longleftrightarrow> ub_invar (pc_iter c) \<and> unat (pc_want c) = unat (pc_already c) + length (ub_remaining (pc_iter c))"

definition advance :: "nat \<Rightarrow> pipe_call \<Rightarrow> pipe_call \<Rightarrow> bool" where
  "advance k c c' \<longleftrightarrow>
     call_ok c' \<and> pc_want c' = pc_want c \<and> unat (pc_already c') = unat (pc_already c) + k \<and>
     ub_remaining (pc_iter c') = drop k (ub_remaining (pc_iter c))"

lemma call_ok_next:
  assumes ok: "call_ok c" and x: "ub_remaining (pc_iter c) = x # xs"
  obtains it where "UserBufferIterator_next (pc_iter c) = Inr (Some x, it)"
    "advance 1 c (c\<lparr>pc_iter := it, pc_already := pc_already c + 1\<rparr>)"
    "pc_already c + 1 = pc_want c \<longleftrightarrow> xs = []"
proof -
  have inv: "ub_invar (pc_iter c)" using ok by (simp add: call_ok_def)
  obtain it where it: "UserBufferIterator_next (pc_iter c) = Inr (Some x, it)" "ub_invar it" "ub_remaining it = xs"
    using next_spec [OF inv] x by auto
  have "unat (pc_already c) + 1 \<le> unat (pc_want c)" using ok x by (simp add: call_ok_def)
  then have "unat (pc_already c) + 1 < 18446744073709551616"
    using unat_less_2p64 [of "pc_want c"] by linarith
  then have a: "unat (pc_already c + 1) = unat (pc_already c) + 1" by (simp add: unat_word_ariths)
  have "pc_already c + 1 = pc_want c \<longleftrightarrow> xs = []"
    using a ok x by (simp add: word_unat_eq_iff call_ok_def)
  then show ?thesis
    using that [OF it(1)] it a ok x by (simp add: advance_def call_ok_def)
qed

lemma advance_trans: "advance j c c' \<Longrightarrow> advance k c' c'' \<Longrightarrow> advance (j + k) c c''"
  by (simp add: advance_def add.commute)

lemma advance_0: "call_ok c \<Longrightarrow> advance 0 c c"
  by (simp add: advance_def)

text \<open>Storing bytes at a list of addresses, one after the other.\<close>

fun store :: "mem \<Rightarrow> usize list \<Rightarrow> u8 list \<Rightarrow> mem" where
  "store m (a # as) (b # bs) = store (m(a := b)) as bs"
| "store m as bs = m"

lemma store_nil [simp]: "store m [] bs = m" "store m as [] = m"
  by (cases bs; simp) (cases as; simp)

lemma store_other: "a \<notin> set as \<Longrightarrow> store m as bs a = m a"
  by (induction m as bs rule: store.induct) auto

lemma store_same: "distinct as \<Longrightarrow> length bs = length as \<Longrightarrow> map (store m as bs) as = bs"
  by (induction m as bs rule: store.induct) (auto simp: store_other)

lemma read_chunk_spec:
  assumes "rb_invar rb" "call_ok c" "k \<le> length (rb_contents rb)" "ub_remaining (pc_iter c) \<noteq> []"
  shows "\<exists>rb' c'. read_chunk k rb m c =
      Inr (if k < length (ub_remaining (pc_iter c)) then None else Some (pc_want c), rb',
           store m (ub_remaining (pc_iter c)) (take k (rb_contents rb)), c') \<and>
    rb_invar rb' \<and> rb_contents rb' = drop (min k (length (ub_remaining (pc_iter c)))) (rb_contents rb) \<and>
    rb_write_end rb' = rb_write_end rb \<and> advance (min k (length (ub_remaining (pc_iter c)))) c c'"
  using assms
proof (induction k arbitrary: rb m c)
  case 0
  then show ?case by (simp add: advance_0)
next
  case (Suc k)
  obtain x xs where x: "ub_remaining (pc_iter c) = x # xs" using Suc.prems(4) by (cases "ub_remaining (pc_iter c)") auto
  obtain b bs where b: "rb_contents rb = b # bs" using Suc.prems(3) by (cases "rb_contents rb") auto
  obtain it where it: "UserBufferIterator_next (pc_iter c) = Inr (Some x, it)"
      "advance 1 c (c\<lparr>pc_iter := it, pc_already := pc_already c + 1\<rparr>)" "pc_already c + 1 = pc_want c \<longleftrightarrow> xs = []"
    by (rule call_ok_next [OF Suc.prems(2) x])
  define c1 where "c1 = c\<lparr>pc_iter := it, pc_already := pc_already c + 1\<rparr>"
  have c1: "call_ok c1" "ub_remaining (pc_iter c1) = xs" "pc_want c1 = pc_want c" "pc_already c1 = pc_already c + 1"
    using it(2) x by (simp_all add: advance_def flip: c1_def) (simp add: c1_def)
  have "0 < rb_count rb" using b by (metis length_rb_contents length_Cons zero_less_Suc)
  then obtain rb1 where rb1: "read_byte rb = Inr (b, rb1)" "rb_invar rb1" "rb_contents rb1 = bs"
      "rb_write_end rb1 = rb_write_end rb"
    using read_byte_spec [OF Suc.prems(1)] b by auto
  have step: "read_chunk (Suc k) rb m c =
      (if xs = [] then Inr (Some (pc_want c), rb1, m(x := b), c1) else read_chunk k rb1 (m(x := b)) c1)"
    using it(1,3) rb1(1) c1(3,4) by (simp add: Let_def flip: c1_def)
  show ?case
  proof (cases "xs = []")
    case True
    then show ?thesis using step it(2) x b rb1 by (auto simp: c1_def)
  next
    case False
    then have "k \<le> length (rb_contents rb1)" "ub_remaining (pc_iter c1) \<noteq> []"
      using Suc.prems(3) c1(2) rb1(3) b by simp_all
    from Suc.IH [OF rb1(2) c1(1) this, of "m(x := b)"]
    have "\<exists>rb' c'. read_chunk k rb1 (m(x := b)) c1 =
        Inr (if k < length xs then None else Some (pc_want c), rb', store (m(x := b)) xs (take k bs), c') \<and>
      rb_invar rb' \<and> rb_contents rb' = drop (min k (length xs)) bs \<and> rb_write_end rb' = rb_write_end rb \<and>
      advance (min k (length xs)) c1 c'"
      unfolding c1(2,3) rb1(3,4) .
    then show ?thesis
      using step False x b advance_trans [OF it(2)] unfolding c1_def [symmetric] by fastforce
  qed
qed

lemma write_chunk_spec:
  assumes "rb_invar rb" "call_ok c" "k \<le> 32 - rb_count rb" "ub_remaining (pc_iter c) \<noteq> []"
  shows "\<exists>rb' c'. write_chunk k rb m c =
      Inr (if k < length (ub_remaining (pc_iter c)) then None else Some (pc_want c), rb', c') \<and>
    rb_invar rb' \<and> rb_contents rb' = rb_contents rb @ map m (take k (ub_remaining (pc_iter c))) \<and>
    rb_write_end rb' = rb_write_end rb \<and> advance (min k (length (ub_remaining (pc_iter c)))) c c'"
  using assms
proof (induction k arbitrary: rb c)
  case 0
  then show ?case by (simp add: advance_0)
next
  case (Suc k)
  obtain x xs where x: "ub_remaining (pc_iter c) = x # xs" using Suc.prems(4) by (cases "ub_remaining (pc_iter c)") auto
  obtain it where it: "UserBufferIterator_next (pc_iter c) = Inr (Some x, it)"
      "advance 1 c (c\<lparr>pc_iter := it, pc_already := pc_already c + 1\<rparr>)" "pc_already c + 1 = pc_want c \<longleftrightarrow> xs = []"
    by (rule call_ok_next [OF Suc.prems(2) x])
  define c1 where "c1 = c\<lparr>pc_iter := it, pc_already := pc_already c + 1\<rparr>"
  have c1: "call_ok c1" "ub_remaining (pc_iter c1) = xs" "pc_want c1 = pc_want c" "pc_already c1 = pc_already c + 1"
    using it(2) x by (simp_all add: advance_def flip: c1_def) (simp add: c1_def)
  have "rb_count rb < 32" using Suc.prems(3) by simp
  then obtain rb1 where rb1: "write_byte rb (m x) = Inr rb1" "rb_invar rb1" "rb_contents rb1 = rb_contents rb @ [m x]"
      "rb_write_end rb1 = rb_write_end rb"
    using write_byte_spec [OF Suc.prems(1)] by blast
  have cnt: "rb_count rb1 = Suc (rb_count rb)" using arg_cong [OF rb1(3), of length] by simp
  have step: "write_chunk (Suc k) rb m c =
      (if xs = [] then Inr (Some (pc_want c), rb1, c1) else write_chunk k rb1 m c1)"
    using it(1,3) rb1(1) c1(3,4) by (simp add: Let_def flip: c1_def)
  show ?case
  proof (cases "xs = []")
    case True
    then show ?thesis using step it(2) x rb1 by (auto simp: c1_def)
  next
    case False
    have "k \<le> 32 - rb_count rb1" using Suc.prems(3) cnt by simp
    then have "\<exists>rb' c'. write_chunk k rb1 m c1 =
        Inr (if k < length xs then None else Some (pc_want c), rb', c') \<and>
      rb_invar rb' \<and> rb_contents rb' = (rb_contents rb @ [m x]) @ map m (take k xs) \<and>
      rb_write_end rb' = rb_write_end rb \<and> advance (min k (length xs)) c1 c'"
      using Suc.IH [OF rb1(2) c1(1)] False unfolding c1(2,3) rb1(3,4) by simp
    then show ?thesis
      using step False x advance_trans [OF it(2)] unfolding c1_def [symmetric] by fastforce
  qed
qed

lemma available_read_0: "rb_invar rb \<Longrightarrow> available_read rb = 0 \<longleftrightarrow> rb_contents rb = []"
  using available_read_count [of rb] by (simp add: word_unat_eq_iff flip: length_0_conv)

lemma read_turn_empty:
  assumes "rb_invar rb" "rb_contents rb = []" "rb_write_end rb = Some w"
  shows "read_turn alive rb m c = Some (Inr (if alive w then Suspend c else Return (pc_already c), rb, m))"
  using assms by (simp add: read_turn.simps available_read_0 all_write_ends_closed_def)

lemma read_turn_spec:
  assumes inv: "rb_invar rb" and c: "call_ok c" "ub_remaining (pc_iter c) \<noteq> []" and w: "rb_write_end rb = Some w"
  defines "n \<equiv> min (length (rb_contents rb)) (length (ub_remaining (pc_iter c)))"
  shows "\<exists>res rb' c'. read_turn alive rb m c =
      Some (Inr (res, rb', store m (ub_remaining (pc_iter c)) (rb_contents rb))) \<and>
    rb_invar rb' \<and> rb_contents rb' = drop n (rb_contents rb) \<and> rb_write_end rb' = Some w \<and> advance n c c' \<and>
    res = (if length (ub_remaining (pc_iter c)) \<le> length (rb_contents rb) then Return (pc_want c)
           else if alive w then Suspend c' else Return (pc_already c'))"
proof (cases "rb_contents rb = []")
  case True
  then show ?thesis
    using read_turn_empty [OF inv True w] inv w advance_0 [OF c(1)] c(2) by (auto simp: n_def)
next
  case False
  let ?k = "length (rb_contents rb)" and ?R = "ub_remaining (pc_iter c)"
  have k: "unat (available_read rb) = ?k" "available_read rb \<noteq> 0"
    using available_read_count [OF inv] available_read_0 [OF inv] False by simp_all
  obtain rb' c' where r: "read_chunk ?k rb m c =
      Inr (if ?k < length ?R then None else Some (pc_want c), rb', store m ?R (rb_contents rb), c')"
      "rb_invar rb'" "rb_contents rb' = drop n (rb_contents rb)" "rb_write_end rb' = Some w" "advance n c c'"
    using read_chunk_spec [OF inv c(1) order_refl c(2), of m] w unfolding n_def by auto
  show ?thesis
  proof (cases "?k < length ?R")
    case True
    then have "rb_contents rb' = []" using r(3) by (simp add: n_def)
    from read_turn_empty [OF r(2) this r(4)] show ?thesis
      using True r k by (intro exI [of _ "if alive w then Suspend c' else Return (pc_already c')"] exI [of _ rb'] exI [of _ c'])
        (simp add: read_turn.simps [of alive rb m c])
  next
    case False
    then show ?thesis
      using r k by (intro exI [of _ "Return (pc_want c)"] exI [of _ rb'] exI [of _ c'])
        (simp add: read_turn.simps [of alive rb m c])
  qed
qed

lemma write_turn_full: "rb_invar rb \<Longrightarrow> rb_count rb = 32 \<Longrightarrow> write_turn rb m c = Some (Inr (Suspend c, rb))"
  using available_write_count [of rb] by (simp add: write_turn.simps word_unat_eq_iff)

lemma write_turn_spec:
  assumes inv: "rb_invar rb" and c: "call_ok c" "ub_remaining (pc_iter c) \<noteq> []"
  defines "n \<equiv> min (32 - length (rb_contents rb)) (length (ub_remaining (pc_iter c)))"
  shows "\<exists>res rb' c'. write_turn rb m c = Some (Inr (res, rb')) \<and>
    rb_invar rb' \<and> rb_contents rb' = rb_contents rb @ map m (take n (ub_remaining (pc_iter c))) \<and>
    rb_write_end rb' = rb_write_end rb \<and> advance n c c' \<and>
    res = (if length (ub_remaining (pc_iter c)) \<le> 32 - length (rb_contents rb) then Return (pc_want c) else Suspend c')"
proof (cases "rb_count rb = 32")
  case True
  then show ?thesis
    using write_turn_full [OF inv True] inv advance_0 [OF c(1)] c(2) by (auto simp: n_def)
next
  case False
  let ?k = "32 - rb_count rb" and ?R = "ub_remaining (pc_iter c)"
  have k: "unat (available_write rb) = ?k" "available_write rb \<noteq> 0"
    using available_write_count [OF inv] False rb_count_le [of rb] by (auto simp: word_unat_eq_iff)
  have tk: "take n ?R = take ?k ?R" by (simp add: n_def min_def)
  obtain rb' c' where r: "write_chunk ?k rb m c =
      Inr (if ?k < length ?R then None else Some (pc_want c), rb', c')"
      "rb_invar rb'" "rb_contents rb' = rb_contents rb @ map m (take ?k ?R)" "rb_write_end rb' = rb_write_end rb"
      "advance n c c'"
    using write_chunk_spec [OF inv c(1) order_refl c(2), of m] unfolding n_def by auto
  note r = r [folded tk]
  show ?thesis
  proof (cases "?k < length ?R")
    case True
    then have "rb_count rb' = 32"
      using arg_cong [OF r(3), of length] rb_count_le [of rb] by (simp add: n_def)
    from write_turn_full [OF r(2) this] show ?thesis
      using True r k by (intro exI [of _ "Suspend c'"] exI [of _ rb'] exI [of _ c'])
        (simp add: write_turn.simps [of rb m c])
  next
    case False
    then show ?thesis
      using r k by (intro exI [of _ "Return (pc_want c)"] exI [of _ rb'] exI [of _ c'])
        (simp add: write_turn.simps [of rb m c])
  qed
qed

section \<open>Any interleaving of turns\<close>

text \<open>How many bytes a turn moved, seen from its result.\<close>

definition moved :: "pipe_call \<Rightarrow> turn \<Rightarrow> nat" where
  "moved c res = (case res of Return n \<Rightarrow> unat n | Suspend c' \<Rightarrow> unat (pc_already c')) - unat (pc_already c)"

text \<open>
  The ring buffers a pipe goes through, with the bytes the writers' buffers have supplied and the bytes that
  have arrived in the readers' buffers so far. Calls may be of any process, in any order, at any progress.
\<close>

inductive pipe_trace :: "PipeRingBuffer \<Rightarrow> u8 list \<Rightarrow> u8 list \<Rightarrow> bool" where
  pipe_start: "make_pipe b w = (read_end, write_end, rb) \<Longrightarrow> pipe_trace rb [] []"
| pipe_write: "pipe_trace rb ws rs \<Longrightarrow> call_ok c \<Longrightarrow> ub_remaining (pc_iter c) \<noteq> [] \<Longrightarrow>
    write_turn rb m c = Some (Inr (res, rb')) \<Longrightarrow>
    pipe_trace rb' (ws @ map m (take (moved c res) (ub_remaining (pc_iter c)))) rs"
| pipe_read: "pipe_trace rb ws rs \<Longrightarrow> call_ok c \<Longrightarrow> ub_remaining (pc_iter c) \<noteq> [] \<Longrightarrow>
    distinct (ub_remaining (pc_iter c)) \<Longrightarrow> read_turn alive rb m c = Some (Inr (res, rb', m')) \<Longrightarrow>
    pipe_trace rb' ws (rs @ map m' (take (moved c res) (ub_remaining (pc_iter c))))"

lemma moved_want: "call_ok c \<Longrightarrow> moved c (Return (pc_want c)) = length (ub_remaining (pc_iter c))"
  by (simp add: moved_def call_ok_def)

lemma moved_advance:
  "advance n c c' \<Longrightarrow> moved c (Suspend c') = n" "advance n c c' \<Longrightarrow> moved c (Return (pc_already c')) = n"
  by (simp_all add: moved_def advance_def)

lemma store_take:
  assumes "distinct as"
  shows "map (store m as bs) (take (length bs) as) = take (length as) bs"
  using assms
proof (induction m as bs rule: store.induct)
  case (1 m a as b bs)
  have "store (m(a := b)) as bs a = b" using "1.prems" by (simp add: store_other)
  then show ?case using 1 by (simp add: fun_upd_def)
qed auto

lemma pipe_trace_invar:
  "pipe_trace rb ws rs \<Longrightarrow> rb_invar rb \<and> rb_write_end rb \<noteq> None \<and> ws = rs @ rb_contents rb"
proof (induction rule: pipe_trace.induct)
  case (pipe_start b w read_end write_end rb)
  then have "rb = set_write_end PipeRingBuffer_new w" by (simp add: make_pipe_def Let_def)
  then show ?case
    by (simp add: set_write_end_def rb_invar_def rb_contents_def rb_count_def PipeRingBuffer_new_def
        RING_BUFFER_SIZE_def)
next
  case (pipe_write rb ws rs c m res rb')
  define n where "n = min (32 - length (rb_contents rb)) (length (ub_remaining (pc_iter c)))"
  obtain c' where w: "rb_invar rb'" "rb_contents rb' = rb_contents rb @ map m (take n (ub_remaining (pc_iter c)))"
      "rb_write_end rb' = rb_write_end rb" "advance n c c'"
      "res = (if length (ub_remaining (pc_iter c)) \<le> 32 - length (rb_contents rb) then Return (pc_want c) else Suspend c')"
    using write_turn_spec [of rb c m] pipe_write unfolding n_def by fastforce
  have "moved c res = n" using w(4,5) moved_want [OF pipe_write.hyps(2)] moved_advance by (auto simp: n_def)
  then show ?case using w(1-3) pipe_write.IH by simp
next
  case (pipe_read rb ws rs c alive m res rb' m')
  define n where "n = min (length (rb_contents rb)) (length (ub_remaining (pc_iter c)))"
  obtain w where we: "rb_write_end rb = Some w" using pipe_read.IH by auto
  obtain c' where r: "m' = store m (ub_remaining (pc_iter c)) (rb_contents rb)" "rb_invar rb'"
      "rb_contents rb' = drop n (rb_contents rb)" "rb_write_end rb' = Some w" "advance n c c'"
      "res = (if length (ub_remaining (pc_iter c)) \<le> length (rb_contents rb) then Return (pc_want c)
           else if alive w then Suspend c' else Return (pc_already c'))"
    using read_turn_spec [of rb c w alive m] pipe_read we unfolding n_def by fastforce
  have mv: "moved c res = n" using r(5,6) moved_want [OF pipe_read.hyps(2)] moved_advance by (auto simp: n_def)
  have "map m' (take n (ub_remaining (pc_iter c))) = take n (rb_contents rb)"
    using store_take [OF pipe_read.hyps(4), of m "rb_contents rb"] unfolding r(1) n_def
    by (auto simp: min_def split: if_splits)
  then show ?case using mv r(2-4) pipe_read.IH by simp
qed

text \<open>
  C8. A pipe is a first-in first-out channel under every interleaving: however many readers and writers take
  turns, and wherever each of them is suspended, the bytes that arrived in readers' memory, followed by
  the at most 32 bytes in the ring buffer, are exactly the bytes taken from the writers' memory, in order.
\<close>
theorem pipe_fifo:
  assumes "pipe_trace rb ws rs"
  shows "ws = rs @ rb_contents rb \<and> length (rb_contents rb) \<le> 32"
  using pipe_trace_invar [OF assms] rb_count_le by simp

text \<open>
  C18. A turn on a reachable pipe never panics and always ends. A writer suspends only with the buffer full
  and otherwise returns the number of bytes asked for; a reader suspends only with the buffer empty and a
  write end open, and returns less than asked only when every write end is closed.
\<close>
theorem pipe_turns_end:
  assumes "pipe_trace rb ws rs" "call_ok c" "ub_remaining (pc_iter c) \<noteq> []"
  shows "(\<exists>res rb'. write_turn rb m c = Some (Inr (res, rb')) \<and>
      (case res of Return n \<Rightarrow> n = pc_want c | Suspend c' \<Rightarrow> available_write rb' = 0)) \<and>
    (\<exists>res rb' m' w. read_turn alive rb m c = Some (Inr (res, rb', m')) \<and> rb_write_end rb = Some w \<and>
      (case res of Return n \<Rightarrow> n = pc_want c \<or> \<not> alive w | Suspend c' \<Rightarrow> available_read rb' = 0 \<and> alive w))"
proof
  have inv: "rb_invar rb" using pipe_trace_invar [OF assms(1)] by simp
  obtain w where w: "rb_write_end rb = Some w" using pipe_trace_invar [OF assms(1)] by auto
  obtain res rb' c' where 1: "write_turn rb m c = Some (Inr (res, rb'))" "rb_invar rb'"
      "rb_contents rb' = rb_contents rb @
         map m (take (min (32 - length (rb_contents rb)) (length (ub_remaining (pc_iter c)))) (ub_remaining (pc_iter c)))"
      "res = (if length (ub_remaining (pc_iter c)) \<le> 32 - length (rb_contents rb) then Return (pc_want c) else Suspend c')"
    using write_turn_spec [OF inv assms(2,3)] by blast
  have "rb_count rb' = 32" if "\<not> length (ub_remaining (pc_iter c)) \<le> 32 - length (rb_contents rb)"
    using arg_cong [OF 1(3), of length] that rb_count_le [of rb] by simp
  then have "case res of Return n \<Rightarrow> n = pc_want c | Suspend c' \<Rightarrow> available_write rb' = 0"
    using 1(4) available_write_count [OF 1(2)] by (simp add: word_unat_eq_iff)
  then show "\<exists>res rb'. write_turn rb m c = Some (Inr (res, rb')) \<and>
      (case res of Return n \<Rightarrow> n = pc_want c | Suspend c' \<Rightarrow> available_write rb' = 0)"
    using 1(1) by blast
  obtain res rb' m' c' where 2: "read_turn alive rb m c = Some (Inr (res, rb', m'))" "rb_invar rb'"
      "rb_contents rb' = drop (min (length (rb_contents rb)) (length (ub_remaining (pc_iter c)))) (rb_contents rb)"
      "res = (if length (ub_remaining (pc_iter c)) \<le> length (rb_contents rb) then Return (pc_want c)
           else if alive w then Suspend c' else Return (pc_already c'))"
    using read_turn_spec [OF inv assms(2,3) w] by blast
  have "case res of Return n \<Rightarrow> n = pc_want c \<or> \<not> alive w | Suspend c' \<Rightarrow> available_read rb' = 0 \<and> alive w"
    using 2(3,4) available_read_0 [OF 2(2)] by (auto split: if_splits)
  then show "\<exists>res rb' m' w. read_turn alive rb m c = Some (Inr (res, rb', m')) \<and> rb_write_end rb = Some w \<and>
      (case res of Return n \<Rightarrow> n = pc_want c \<or> \<not> alive w | Suspend c' \<Rightarrow> available_read rb' = 0 \<and> alive w)"
    using 2(1) w by blast
qed

section \<open>A short conversation\<close>

definition demo_write :: pipe_call where
  "demo_write = \<lparr>pc_iter = UserBuffer_into_iter \<lparr>ub_buffers = [\<lparr>bs_addr = 100, bs_len = 3\<rparr>]\<rparr>, pc_already = 0, pc_want = 3\<rparr>"

definition demo_read :: pipe_call where
  "demo_read = \<lparr>pc_iter = UserBuffer_into_iter \<lparr>ub_buffers = [\<lparr>bs_addr = 200, bs_len = 2\<rparr>]\<rparr>, pc_already = 0, pc_want = 2\<rparr>"

lemma demo_calls:
  "ub_remaining (pc_iter demo_write) = [100, 101, 102]" "call_ok demo_write"
  "ub_remaining (pc_iter demo_read) = [200, 201]" "call_ok demo_read"
  by (simp_all add: demo_write_def demo_read_def call_ok_def UserBuffer_into_iter_def slice_addrs_def upt_rec
      ub_invar_def)

lemma demo_moved: "moved demo_write (Return 3) = 3" "moved demo_read (Return 2) = 2"
  by (simp_all add: moved_def demo_write_def demo_read_def)

lemma demo_trace:
  "\<exists>rb. pipe_trace rb [97, 98, 99] [97, 98]"
proof -
  let ?m = "\<lambda>a :: usize. if a = 100 then 97 else if a = 101 then 98 else 99 :: u8"
  define rb where "rb = snd (snd (make_pipe 0 1))"
  have 0: "pipe_trace rb [] []" by (rule pipe_start [of 0 1]) (simp add: rb_def make_pipe_def Let_def)
  then have inv: "rb_invar rb" "rb_contents rb = []" using pipe_trace_invar [OF 0] by auto
  obtain res rb1 where 1: "write_turn rb ?m demo_write = Some (Inr (res, rb1))" "res = Return 3"
    using write_turn_spec [OF inv(1) demo_calls(2), of ?m] by (auto simp: demo_calls inv(2) demo_write_def [symmetric])
      (simp add: demo_write_def)
  have t1: "pipe_trace rb1 [97, 98, 99] []"
    using pipe_write [OF 0 demo_calls(2) _ 1(1)] 1(2) by (simp add: demo_calls demo_moved)
  have rb1: "rb_invar rb1" "rb_contents rb1 = [97, 98, 99]" "rb_write_end rb1 \<noteq> None"
    using pipe_trace_invar [OF t1] by auto
  then obtain w where w: "rb_write_end rb1 = Some w" by auto
  obtain res' rb2 m' where 2: "read_turn (\<lambda>_. True) rb1 ?m demo_read = Some (Inr (res', rb2, m'))" "res' = Return 2"
      "m' = store ?m [200, 201] [97, 98, 99]"
    using read_turn_spec [OF rb1(1) demo_calls(4) _ w, of "\<lambda>_. True" ?m] by (auto simp: demo_calls rb1(2) demo_read_def [symmetric])
      (simp add: demo_read_def)
  have "pipe_trace rb2 [97, 98, 99] ([] @ map m' (take (moved demo_read res') (ub_remaining (pc_iter demo_read))))"
    by (rule pipe_read [OF t1 demo_calls(4) _ _ 2(1)]) (simp_all add: demo_calls)
  then show ?thesis using 2(2,3) by (auto simp: demo_calls demo_moved)
qed

theorem pipe_fifo_witness: "\<exists>rb. pipe_trace rb [97, 98, 99] [97, 98] \<and> rb_contents rb = [99]"
  using demo_trace pipe_fifo by fastforce

theorem pipe_turns_end_witness:
  "\<exists>rb res rb'. pipe_trace rb [97, 98, 99] [97, 98] \<and>
     write_turn rb (\<lambda>_. 0) demo_write = Some (Inr (res, rb')) \<and>
     (case res of Return n \<Rightarrow> n = 3 | Suspend c' \<Rightarrow> available_write rb' = 0)"
proof -
  obtain rb where rb: "pipe_trace rb [97, 98, 99] [97, 98]" using demo_trace by blast
  have want: "pc_want demo_write = 3" by (simp add: demo_write_def)
  from pipe_turns_end [OF rb demo_calls(2), of "\<lambda>_. 0"] rb show ?thesis
    unfolding want demo_calls(1) by auto
qed

end
