(* ===== verification/Virtio.thy ===== *)
theory Virtio
  imports Page_Table
begin

text \<open>
  The memory hooks of the block device driver (\<^verbatim>\<open>os/src/drivers/block/virtio_blk.rs\<close>) and the encoding of exit codes for
  the test device of the board (\<^verbatim>\<open>os/src/boards/qemu.rs\<close>). The protocol of the device is a third-party crate; of the driver these
  hooks are the part that is written here. They take frames from the frame allocator, which they need to be consecutive:
  the code asserts it, and on an allocator that has given back nothing yet, as at boot, it holds.
\<close>

unbundle bit_operations_syntax

section \<open>Frames for the device\<close>

definition PhysPageNum_step :: "PhysPageNum \<Rightarrow> PhysPageNum" where
  "PhysPageNum_step p = PhysPageNum (ppn_0 p + 1)"

text \<open>\<open>QUEUE_FRAMES\<close> is a list of trackers that is passed and returned.\<close>

definition dma_alloc_one ::
  "nat \<Rightarrow> PhysPageNum \<times> FrameTracker list \<times> mm \<Rightarrow> (PhysPageNum \<times> FrameTracker list \<times> mm) outcome" where
  "dma_alloc_one i = (\<lambda>(ppn_base, queue, s).
     let (frame, s) = frame_alloc s in
     and_then (unwrap frame) (\<lambda>frame.
     let ppn_base = if i = 0 then ft_ppn frame else ppn_base in
     and_then (assert_that (ppn_0 (ft_ppn frame) = ppn_0 ppn_base + of_nat i)) (\<lambda>_.
     Inr (ppn_base, queue @ [frame], s))))"

definition dma_alloc :: "usize \<Rightarrow> FrameTracker list \<times> mm \<Rightarrow> (usize \<times> FrameTracker list \<times> mm) outcome" where
  "dma_alloc pages = (\<lambda>(queue, s).
     and_then (for_each dma_alloc_one [0..<unat pages] (PhysPageNum 0, queue, s)) (\<lambda>(ppn_base, queue, s).
     Inr (pa_0 (PhysAddr_from_PhysPageNum ppn_base), queue, s)))"

definition dma_dealloc :: "usize \<Rightarrow> usize \<Rightarrow> mm \<Rightarrow> (32 word \<times> mm) outcome" where
  "dma_dealloc pa pages s =
     and_then (PhysPageNum_from_PhysAddr (PhysAddr_from pa)) (\<lambda>ppn_base.
     and_then (for_each (\<lambda>_ (ppn_base, s). and_then (frame_dealloc s ppn_base) (\<lambda>s. Inr (PhysPageNum_step ppn_base, s)))
       [0..<unat pages] (ppn_base, s)) (\<lambda>(_, s).
     Inr (0, s)))"

definition phys_to_virt :: "usize \<Rightarrow> usize" where
  "phys_to_virt addr = addr"

definition virt_to_phys :: "usize \<Rightarrow> mem \<Rightarrow> usize \<Rightarrow> usize outcome" where
  "virt_to_phys kernel_token m vaddr =
     and_then (PageTable_translate_va (PageTable_from_token kernel_token) m (VirtAddr_from vaddr)) (\<lambda>r.
     and_then (unwrap r) (\<lambda>pa. Inr (pa_0 pa)))"

section \<open>A fresh allocator hands out consecutive frames\<close>

lemma frame_alloc_next:
  assumes "sfa_recycled (frame_allocator s) = []" "unat (sfa_current (frame_allocator s)) < unat (sfa_end (frame_allocator s))"
    "unat (sfa_end (frame_allocator s)) \<le> 2 ^ 44"
  obtains s' where "frame_alloc s = (Some (FrameTracker (PhysPageNum (sfa_current (frame_allocator s)))), s')"
    "frame_allocator s' = (frame_allocator s)\<lparr>sfa_current := sfa_current (frame_allocator s) + 1\<rparr>"
proof -
  let ?fa = "frame_allocator s"
  have "sfa_current ?fa \<noteq> sfa_end ?fa" "unat (sfa_current ?fa) < 2 ^ 44" using assms(2,3) by auto
  then have "StackFrameAllocator_alloc ?fa = (Some (PhysPageNum (sfa_current ?fa)), ?fa\<lparr>sfa_current := sfa_current ?fa + 1\<rparr>)"
    using assms(1) by (simp add: StackFrameAllocator_alloc_def PhysPageNum_from_small Let_def)
  then show ?thesis
    by (intro that [of "s\<lparr>frame_allocator := ?fa\<lparr>sfa_current := sfa_current ?fa + 1\<rparr>,
          phys := set_bytes_array (phys s) (PhysPageNum (sfa_current ?fa)) (replicate 4096 0)\<rparr>"])
      (simp_all add: frame_alloc_def FrameTracker_new_def)
qed

lemma dma_alloc_frames:
  assumes fa: "frame_allocator s = \<lparr>sfa_current = c, sfa_end = e, sfa_recycled = []\<rparr>" and e: "unat e \<le> 2 ^ 44"
    and n: "unat c + n \<le> unat e"
  shows "\<exists>s'. for_each dma_alloc_one [0..<n] (PhysPageNum 0, queue, s) =
      Inr (if n = 0 then PhysPageNum 0 else PhysPageNum c, queue @ map (\<lambda>i. FrameTracker (PhysPageNum (c + of_nat i))) [0..<n], s') \<and>
    frame_allocator s' = \<lparr>sfa_current = c + of_nat n, sfa_end = e, sfa_recycled = []\<rparr>"
  using n
proof (induction n)
  case 0
  then show ?case using fa by simp
next
  case (Suc n)
  obtain s1 where 1: "for_each dma_alloc_one [0..<n] (PhysPageNum 0, queue, s) =
      Inr (if n = 0 then PhysPageNum 0 else PhysPageNum c, queue @ map (\<lambda>i. FrameTracker (PhysPageNum (c + of_nat i))) [0..<n], s1)"
    "frame_allocator s1 = \<lparr>sfa_current = c + of_nat n, sfa_end = e, sfa_recycled = []\<rparr>"
    using Suc by auto
  have "unat c + n < 2 ^ 64" using Suc.prems e by simp
  then have "unat (c + of_nat n) = unat c + n" by (simp add: unat_word_ariths unat_of_nat)
  then obtain s2 where 2: "frame_alloc s1 = (Some (FrameTracker (PhysPageNum (c + of_nat n))), s2)"
    "frame_allocator s2 = \<lparr>sfa_current = c + of_nat n + 1, sfa_end = e, sfa_recycled = []\<rparr>"
    using frame_alloc_next [of s1] 1(2) Suc.prems e by auto
  then have "dma_alloc_one n (if n = 0 then PhysPageNum 0 else PhysPageNum c, q, s1) =
      Inr (PhysPageNum c, q @ [FrameTracker (PhysPageNum (c + of_nat n))], s2)" for q
    by (simp add: dma_alloc_one_def Let_def)
  then show ?case using 1(1) 2(2) by (simp add: for_each_append add.commute add.left_commute)
qed

lemma dma_alloc_consecutive:
  assumes "frame_allocator s = \<lparr>sfa_current = c, sfa_end = e, sfa_recycled = []\<rparr>" "unat e \<le> 2 ^ 44"
    and "0 < unat pages" "unat c + unat pages \<le> unat e"
  shows "\<exists>s'. dma_alloc pages (queue, s) =
      Inr (pa_0 (PhysAddr_from_PhysPageNum (PhysPageNum c)),
        queue @ map (\<lambda>i. FrameTracker (PhysPageNum (c + of_nat i))) [0..<unat pages], s')"
  using dma_alloc_frames [OF assms(1,2,4), of queue] assms(3) by (auto simp: dma_alloc_def)

text \<open>Once frames have come back in another order, the assertion fails: here frame 6 was given back after frame 5.\<close>

lemma dma_alloc_after_recycling:
  "dma_alloc 2 ([], \<lparr>frame_allocator = \<lparr>sfa_current = 9, sfa_end = 20, sfa_recycled = [5, 6]\<rparr>, phys = m\<rparr>) = Inl AssertFailed"
proof -
  have "[0..<unat (2 :: usize)] = [0, 1]" by (simp add: upt_rec)
  then show ?thesis
    by (simp add: dma_alloc_def dma_alloc_one_def frame_alloc_def FrameTracker_new_def StackFrameAllocator_alloc_def
        vec_pop_def PhysPageNum_from_small assert_that_def)
qed

section \<open>The exit device\<close>

definition EXIT_SUCCESS :: "32 word" where "EXIT_SUCCESS = 0x5555"
definition EXIT_FAILURE_FLAG :: "32 word" where "EXIT_FAILURE_FLAG = 0x3333"
definition EXIT_RESET :: "32 word" where "EXIT_RESET = 0x7777"

definition exit_code_encode :: "32 word \<Rightarrow> 32 word" where
  "exit_code_encode code = push_bit 16 code OR EXIT_FAILURE_FLAG"

definition EXIT_FAILURE :: "32 word" where "EXIT_FAILURE = exit_code_encode 1"

text \<open>The word that \<open>exit\<close> writes to the device; the loop after it never returns.\<close>

definition exit_word :: "32 word \<Rightarrow> 32 word" where
  "exit_word code =
     (if code = EXIT_SUCCESS \<or> code = EXIT_FAILURE \<or> code = EXIT_RESET then code else exit_code_encode code)"

text \<open>The device finds the flag in the lower half of the word and the code, when it has at most 16 bits, in the upper half.\<close>

lemma exit_code_decode:
  "take_bit 16 (exit_code_encode code) = EXIT_FAILURE_FLAG"
  "unat code < 2 ^ 16 \<Longrightarrow> drop_bit 16 (exit_code_encode code) = code"
proof -
  show "take_bit 16 (exit_code_encode code) = EXIT_FAILURE_FLAG"
    by (rule bit_word_eqI) (auto simp: exit_code_encode_def EXIT_FAILURE_FLAG_def bit_simps)
  show "drop_bit 16 (exit_code_encode code) = code" if small: "unat code < 2 ^ 16"
  proof -
    have "drop_bit 16 (push_bit 16 code) = take_bit 16 code" by (rule bit_word_eqI) (auto simp: bit_simps)
    also have "\<dots> = code" using small by (simp add: word_unat_eq_iff unsigned_take_bit_eq take_bit_nat_eq_self)
    finally show ?thesis by (simp add: exit_code_encode_def EXIT_FAILURE_FLAG_def)
  qed
qed

end
