(* ===== verification/Block_Store.thy ===== *)
theory Block_Store
  imports Prelude
begin

text \<open>
  What the layers of easy-fs above the block cache rely on. They reach a block only as
  \<^verbatim>\<open>get_block_cache(id, dev).lock().read(off, f)\<close> or \<^verbatim>\<open>.modify(off, f)\<close>: take the cached block and its lock, look
  at or change its bytes, give both back at the end of the statement. A \<open>store\<close> bundles these steps; the
  file system is written over a store, and its properties are proved for every store that meets the
  contract \<open>block_store\<close>: a disk of blocks that changes only where it is written.
\<close>

section \<open>The steps of a block access\<close>

type_synonym block = "u8 list"

definition BLOCK_SZ :: nat where "BLOCK_SZ = 512"

record 's store =
  st_get :: "nat \<Rightarrow> 's \<Rightarrow> (block \<times> 's) outcome"
  st_put :: "nat \<Rightarrow> block \<Rightarrow> 's \<Rightarrow> 's"
  st_release :: "nat \<Rightarrow> 's \<Rightarrow> 's"
  st_sync_all :: "'s \<Rightarrow> 's outcome"

text \<open>
  A typed reference into a block: how many bytes the type has, how they are read, and how a value is
  written over the old bytes.
\<close>

record 'a byte_view =
  bv_size :: nat
  bv_decode :: "u8 list \<Rightarrow> 'a"
  bv_encode :: "'a \<Rightarrow> u8 list \<Rightarrow> u8 list"

definition view_at :: "'a byte_view \<Rightarrow> nat \<Rightarrow> block \<Rightarrow> 'a" where
  "view_at vw off b = bv_decode vw (take (bv_size vw) (drop off b))"

definition set_view :: "'a byte_view \<Rightarrow> nat \<Rightarrow> 'a \<Rightarrow> block \<Rightarrow> block" where
  "set_view vw off x b =
     take off b @ bv_encode vw x (take (bv_size vw) (drop off b)) @ drop (off + bv_size vw) b"

text \<open>
  \<open>BlockCache::read\<close> and \<open>BlockCache::modify\<close> under the lock. The closure may itself use the store: the
  block stays held while it runs.
\<close>

definition cache_read ::
  "'s store \<Rightarrow> nat \<Rightarrow> 'a byte_view \<Rightarrow> nat \<Rightarrow> ('a \<Rightarrow> 's \<Rightarrow> ('r \<times> 's) outcome) \<Rightarrow> 's \<Rightarrow> ('r \<times> 's) outcome" where
  "cache_read st i vw off f s =
     and_then (st_get st i s) (\<lambda>(b, s1).
     and_then (assert_that (off + bv_size vw \<le> BLOCK_SZ)) (\<lambda>_.
     and_then (f (view_at vw off b) s1) (\<lambda>(r, s2).
     Inr (r, st_release st i s2))))"

definition cache_modify ::
  "'s store \<Rightarrow> nat \<Rightarrow> 'a byte_view \<Rightarrow> nat \<Rightarrow> ('a \<Rightarrow> 's \<Rightarrow> ('r \<times> 'a \<times> 's) outcome) \<Rightarrow> 's \<Rightarrow> ('r \<times> 's) outcome" where
  "cache_modify st i vw off f s =
     and_then (st_get st i s) (\<lambda>(b, s1).
     and_then (assert_that (off + bv_size vw \<le> BLOCK_SZ)) (\<lambda>_.
     and_then (f (view_at vw off b) s1) (\<lambda>(r, x, s2).
     Inr (r, st_release st i (st_put st i (set_view vw off x b) s2)))))"

section \<open>The contract\<close>

text \<open>
  \<open>disk s i\<close> is the content of block \<open>i\<close> as the file system sees it, \<open>size s\<close> the number of blocks,
  \<open>held s\<close> the blocks that are locked at the moment, of which there can be up to 15 when another one is
  taken. \<open>stable s i\<close> is what would be left of block \<open>i\<close> if the machine stopped now: after a write-back,
  everything.
\<close>

locale block_store =
  fixes st :: "'s store"
    and inv :: "'s \<Rightarrow> bool"
    and disk :: "'s \<Rightarrow> nat \<Rightarrow> block"
    and size :: "'s \<Rightarrow> nat"
    and held :: "'s \<Rightarrow> nat list"
    and stable :: "'s \<Rightarrow> nat \<Rightarrow> block"
  assumes get_ok: "inv s \<Longrightarrow> i < size s \<Longrightarrow> i \<notin> set (held s) \<Longrightarrow> length (held s) < 16 \<Longrightarrow>
      \<exists>s'. st_get st i s = Inr (disk s i, s') \<and> inv s' \<and> disk s' = disk s \<and> size s' = size s \<and>
        held s' = i # held s"
    and put_ok: "inv s \<Longrightarrow> i \<in> set (held s) \<Longrightarrow> length b = BLOCK_SZ \<Longrightarrow>
      inv (st_put st i b s) \<and> disk (st_put st i b s) = (disk s)(i := b) \<and>
      size (st_put st i b s) = size s \<and> held (st_put st i b s) = held s"
    and release_ok: "inv s \<Longrightarrow> held s = i # hs \<Longrightarrow>
      inv (st_release st i s) \<and> disk (st_release st i s) = disk s \<and>
      size (st_release st i s) = size s \<and> held (st_release st i s) = hs"
    and sync_ok: "inv s \<Longrightarrow> held s = [] \<Longrightarrow>
      \<exists>s'. st_sync_all st s = Inr s' \<and> inv s' \<and> disk s' = disk s \<and> size s' = size s \<and> held s' = [] \<and>
        stable s' = disk s"
    and block_len: "inv s \<Longrightarrow> i < size s \<Longrightarrow> length (disk s i) = BLOCK_SZ"
begin

text \<open>\<open>goes s D s'\<close>: from \<open>s\<close> to \<open>s'\<close> only the contents changed, to \<open>D\<close>.\<close>

definition goes :: "'s \<Rightarrow> (nat \<Rightarrow> block) \<Rightarrow> 's \<Rightarrow> bool" where
  "goes s D s' \<longleftrightarrow> inv s' \<and> disk s' = D \<and> size s' = size s \<and> held s' = held s"

definition free :: "'s \<Rightarrow> nat \<Rightarrow> bool" where
  "free s i \<longleftrightarrow> inv s \<and> i < size s \<and> i \<notin> set (held s) \<and> length (held s) < 16"

lemma goes_refl: "inv s \<Longrightarrow> goes s (disk s) s"
  by (simp add: goes_def)

lemma goes_trans: "goes s D s' \<Longrightarrow> goes s' D' s'' \<Longrightarrow> goes s D' s''"
  by (simp add: goes_def)

lemma goes_free: "inv s \<Longrightarrow> goes s D s' \<Longrightarrow> free s' i \<longleftrightarrow> free s i"
  by (auto simp: goes_def free_def)

lemma cache_read_rule:
  assumes "free s i" "off + bv_size vw \<le> BLOCK_SZ"
    and f: "\<And>s1. inv s1 \<Longrightarrow> disk s1 = disk s \<Longrightarrow> size s1 = size s \<Longrightarrow> held s1 = i # held s \<Longrightarrow>
      \<exists>s2. f (view_at vw off (disk s i)) s1 = Inr (r, s2) \<and> goes s1 D s2"
  shows "\<exists>s'. cache_read st i vw off f s = Inr (r, s') \<and> goes s D s'"
proof -
  obtain s1 where s1: "st_get st i s = Inr (disk s i, s1)" "inv s1" "disk s1 = disk s" "size s1 = size s"
    "held s1 = i # held s" using get_ok [of s i] assms(1) by (auto simp: free_def)
  obtain s2 where s2: "f (view_at vw off (disk s i)) s1 = Inr (r, s2)" "goes s1 D s2"
    using f [OF s1(2-5)] by blast
  have "goes s D (st_release st i s2)"
    using release_ok [of s2 i "held s"] s2(2) s1(4,5) by (simp add: goes_def)
  then show ?thesis using s1(1) s2(1) assms(2) by (simp add: cache_read_def)
qed

lemma cache_read_pure:
  assumes "free s i" "off + bv_size vw \<le> BLOCK_SZ"
  shows "\<exists>s'. cache_read st i vw off (\<lambda>x s. Inr (g x, s)) s = Inr (g (view_at vw off (disk s i)), s') \<and>
    goes s (disk s) s'"
  using assms by (intro cache_read_rule) (auto simp: goes_def)

lemma cache_modify_rule:
  assumes "free s i" "off + bv_size vw \<le> BLOCK_SZ"
    and f: "\<And>s1. inv s1 \<Longrightarrow> disk s1 = disk s \<Longrightarrow> size s1 = size s \<Longrightarrow> held s1 = i # held s \<Longrightarrow>
      \<exists>s2. f (view_at vw off (disk s i)) s1 = Inr (r, x, s2) \<and> goes s1 D s2"
    and len: "length (set_view vw off x (disk s i)) = BLOCK_SZ"
  shows "\<exists>s'. cache_modify st i vw off f s = Inr (r, s') \<and> goes s (D(i := set_view vw off x (disk s i))) s'"
proof -
  obtain s1 where s1: "st_get st i s = Inr (disk s i, s1)" "inv s1" "disk s1 = disk s" "size s1 = size s"
    "held s1 = i # held s" using get_ok [of s i] assms(1) by (auto simp: free_def)
  obtain s2 where s2: "f (view_at vw off (disk s i)) s1 = Inr (r, x, s2)" "goes s1 D s2"
    using f [OF s1(2-5)] by blast
  define s3 where "s3 = st_put st i (set_view vw off x (disk s i)) s2"
  have "inv s3 \<and> disk s3 = D(i := set_view vw off x (disk s i)) \<and> size s3 = size s \<and> held s3 = i # held s"
    using put_ok [of s2 i "set_view vw off x (disk s i)"] s2(2) s1(4,5) len by (simp add: goes_def s3_def)
  then have "goes s (D(i := set_view vw off x (disk s i))) (st_release st i s3)"
    using release_ok [of s3 i "held s"] by (simp add: goes_def)
  then show ?thesis using s1(1) s2(1) assms(2) by (simp add: cache_modify_def s3_def)
qed

lemma cache_modify_pure:
  assumes "free s i" "off + bv_size vw \<le> BLOCK_SZ" "length (set_view vw off (snd (g (view_at vw off (disk s i)))) (disk s i)) = BLOCK_SZ"
  shows "\<exists>s'. cache_modify st i vw off (\<lambda>x s. Inr (fst (g x), snd (g x), s)) s = Inr (fst (g (view_at vw off (disk s i))), s') \<and>
    goes s ((disk s)(i := set_view vw off (snd (g (view_at vw off (disk s i)))) (disk s i))) s'"
  using assms by (intro cache_modify_rule) (auto simp: goes_def)

end

text \<open>When a typed reference is sound: what is written is read back, and the length is kept.\<close>

locale sound_view =
  fixes vw :: "'a byte_view" and ok :: "'a \<Rightarrow> bool"
  assumes encode_len: "ok x \<Longrightarrow> length bs = bv_size vw \<Longrightarrow> length (bv_encode vw x bs) = bv_size vw"
    and decode_encode: "ok x \<Longrightarrow> length bs = bv_size vw \<Longrightarrow> bv_decode vw (bv_encode vw x bs) = x"
    and decode_ok: "length bs = bv_size vw \<Longrightarrow> ok (bv_decode vw bs)"
begin

lemma length_set_view:
  "ok x \<Longrightarrow> length b = BLOCK_SZ \<Longrightarrow> off + bv_size vw \<le> BLOCK_SZ \<Longrightarrow> length (set_view vw off x b) = BLOCK_SZ"
  by (simp add: set_view_def encode_len)

lemma view_set_view:
  assumes "ok x" "length b = BLOCK_SZ" "off + bv_size vw \<le> BLOCK_SZ"
  shows "view_at vw off (set_view vw off x b) = x"
  using assms decode_encode [of x "take (bv_size vw) (drop off b)"] encode_len [of x "take (bv_size vw) (drop off b)"]
  by (simp add: view_at_def set_view_def)

lemma view_at_ok:
  "length b = BLOCK_SZ \<Longrightarrow> off + bv_size vw \<le> BLOCK_SZ \<Longrightarrow> ok (view_at vw off b)"
  unfolding view_at_def by (rule decode_ok) simp

end

text \<open>Bytes outside the reference stay as they are.\<close>

lemma set_view_other:
  assumes "length (bv_encode vw x (take (bv_size vw) (drop off b))) = bv_size vw" "off + bv_size vw \<le> length b"
    "off' + n \<le> off \<or> off + bv_size vw \<le> off'"
  shows "take n (drop off' (set_view vw off x b)) = take n (drop off' b)"
proof -
  have len: "length (set_view vw off x b) = length b" using assms(1,2) by (simp add: set_view_def)
  have eq: "set_view vw off x b ! k = b ! k" if "k < length b" "k < off \<or> off + bv_size vw \<le> k" for k
    using that assms(1,2) by (auto simp: set_view_def nth_append not_less)
  show ?thesis using len eq assms(2,3) by (intro nth_equalityI) auto
qed

section \<open>Whole blocks\<close>

text \<open>\<open>DataBlock\<close>, a block as an array of bytes.\<close>

definition DataBlock :: "block byte_view" where
  "DataBlock = \<lparr>bv_size = BLOCK_SZ, bv_decode = id, bv_encode = \<lambda>x _. x\<rparr>"

interpretation data_block: sound_view DataBlock "\<lambda>b. length b = BLOCK_SZ"
  by unfold_locales (simp_all add: DataBlock_def)

lemma view_DataBlock [simp]: "length b = BLOCK_SZ \<Longrightarrow> view_at DataBlock 0 b = b"
  by (simp add: view_at_def DataBlock_def)

lemma set_DataBlock [simp]: "length b = BLOCK_SZ \<Longrightarrow> set_view DataBlock 0 x b = x"
  by (simp add: set_view_def DataBlock_def)

lemma size_DataBlock [simp]: "bv_size DataBlock = BLOCK_SZ"
  by (simp add: DataBlock_def)

end
