(* ===== verification/Block_Cache.thy ===== *)
theory Block_Cache
  imports Block_Store
begin

text \<open>
  The block cache of easy-fs (\<^verbatim>\<open>easy-fs/src/block_cache.rs\<close>) over a block device
  (\<^verbatim>\<open>easy-fs/src/block_dev.rs\<close>), and the device of the image packer, a file
  (\<open>BlockFile\<close> of \<^verbatim>\<open>easy-fs-fuse/src/main.rs\<close>). The cache is a queue of at most 16 blocks; a block
  that is not in it is loaded, and when the queue is full the first entry nobody holds is dropped, which
  writes it back. \<open>cache_ok\<close> is its invariant. The cache over any device meets the contract \<open>block_store\<close>:
  the file system above sees one array of blocks, whatever is cached, evicted or written back. After
  \<open>block_cache_sync_all\<close> that array is the device's.
\<close>

section \<open>Block devices\<close>

record 'd BlockDevice =
  bd_read_block :: "nat \<Rightarrow> 'd \<Rightarrow> block outcome"
  bd_write_block :: "nat \<Rightarrow> block \<Rightarrow> 'd \<Rightarrow> 'd outcome"

text \<open>What a device driver promises: sectors of 512 bytes that keep what is written to them.\<close>

locale block_device =
  fixes dev :: "'d BlockDevice"
    and dinv :: "'d \<Rightarrow> bool"
    and sector :: "'d \<Rightarrow> nat \<Rightarrow> block"
    and sectors :: "'d \<Rightarrow> nat"
  assumes read_ok: "dinv d \<Longrightarrow> i < sectors d \<Longrightarrow> bd_read_block dev i d = Inr (sector d i)"
    and write_ok: "dinv d \<Longrightarrow> i < sectors d \<Longrightarrow> length b = BLOCK_SZ \<Longrightarrow>
      \<exists>d'. bd_write_block dev i b d = Inr d' \<and> dinv d' \<and> sector d' = (sector d)(i := b) \<and> sectors d' = sectors d"
    and sector_len: "dinv d \<Longrightarrow> i < sectors d \<Longrightarrow> length (sector d i) = BLOCK_SZ"

subsection \<open>A file as a device\<close>

text \<open>
  The state is the content of the file. Reading at a position returns as many bytes as there are, writing
  extends the file, with zeros up to the position.
\<close>

definition BlockFile_read_block :: "nat \<Rightarrow> u8 list \<Rightarrow> block outcome" where
  "BlockFile_read_block block_id file =
     (let pos = (block_id * BLOCK_SZ) mod 2 ^ 64;
          buf = take BLOCK_SZ (drop pos file)
      in and_then (assert_that (length buf = BLOCK_SZ)) (\<lambda>_. Inr buf))"

definition BlockFile_write_block :: "nat \<Rightarrow> block \<Rightarrow> u8 list \<Rightarrow> u8 list outcome" where
  "BlockFile_write_block block_id buf file =
     (let pos = (block_id * BLOCK_SZ) mod 2 ^ 64
      in and_then (assert_that (length buf = BLOCK_SZ)) (\<lambda>_.
         Inr (take pos file @ replicate (pos - length file) 0 @ buf @ drop (pos + length buf) file)))"

definition BlockFile :: "u8 list BlockDevice" where
  "BlockFile = \<lparr>bd_read_block = BlockFile_read_block, bd_write_block = BlockFile_write_block\<rparr>"

definition file_ok :: "u8 list \<Rightarrow> bool" where
  "file_ok file \<longleftrightarrow> length file < 2 ^ 64"

definition file_sector :: "u8 list \<Rightarrow> nat \<Rightarrow> block" where
  "file_sector file i = take BLOCK_SZ (drop (i * BLOCK_SZ) file)"

definition file_sectors :: "u8 list \<Rightarrow> nat" where
  "file_sectors file = length file div BLOCK_SZ"

lemma BLOCK_SZ_pos [simp]: "0 < BLOCK_SZ"
  by (simp add: BLOCK_SZ_def)

lemma file_sectors_bound: "i < file_sectors file \<Longrightarrow> i * BLOCK_SZ + BLOCK_SZ \<le> length file"
proof -
  assume "i < file_sectors file"
  then have "Suc i * BLOCK_SZ \<le> file_sectors file * BLOCK_SZ" by (intro mult_le_mono1) simp
  also have "\<dots> \<le> length file" by (simp add: file_sectors_def)
  finally show ?thesis by simp
qed

lemma take_drop_splice:
  assumes "pos + length b \<le> length xs" "q + length b \<le> pos \<or> pos + length b \<le> q \<or> q = pos"
  shows "take (length b) (drop q (take pos xs @ b @ drop (pos + length b) xs)) =
    (if q = pos then b else take (length b) (drop q xs))"
proof (cases "q = pos")
  case True
  then show ?thesis using assms(1) by simp
next
  case False
  have "(take pos xs @ b @ drop (pos + length b) xs) ! k = xs ! k"
    if "k < length xs" "k < pos \<or> pos + length b \<le> k" for k
    using that assms(1) by (auto simp: nth_append not_less)
  then show ?thesis using False assms by (intro nth_equalityI) auto
qed

lemma sector_apart: "i \<noteq> j \<Longrightarrow> i * BLOCK_SZ + BLOCK_SZ \<le> j * BLOCK_SZ \<or> j * BLOCK_SZ + BLOCK_SZ \<le> i * BLOCK_SZ"
proof -
  assume "i \<noteq> j"
  then have "Suc i \<le> j \<or> Suc j \<le> i" by auto
  then have "Suc i * BLOCK_SZ \<le> j * BLOCK_SZ \<or> Suc j * BLOCK_SZ \<le> i * BLOCK_SZ"
    using mult_le_mono1 by blast
  then show ?thesis by (simp add: add.commute)
qed

lemma BlockFile_write:
  assumes "file_ok d" "i < file_sectors d" "length b = BLOCK_SZ"
  shows "\<exists>d'. bd_write_block BlockFile i b d = Inr d' \<and> file_ok d' \<and>
    file_sector d' = (file_sector d)(i := b) \<and> file_sectors d' = file_sectors d"
proof -
  define d' where "d' = take (i * BLOCK_SZ) d @ b @ drop (i * BLOCK_SZ + length b) d"
  have bound: "i * BLOCK_SZ + BLOCK_SZ \<le> length d" using file_sectors_bound assms(2) by simp
  then have "i * BLOCK_SZ < 2 ^ 64" using assms(1) BLOCK_SZ_pos unfolding file_ok_def by linarith
  then have "bd_write_block BlockFile i b d = Inr d'"
    using bound assms(3) by (simp add: BlockFile_def BlockFile_write_block_def d'_def Let_def)
  moreover have len: "length d' = length d" using bound assms(3) by (simp add: d'_def)
  moreover have "file_sector d' j = ((file_sector d)(i := b)) j" for j
    using take_drop_splice [of "i * BLOCK_SZ" b d "j * BLOCK_SZ"] sector_apart [of i j] bound assms(3)
    by (auto simp: file_sector_def d'_def)
  ultimately show ?thesis using assms(1) by (auto simp: file_ok_def file_sectors_def)
qed

interpretation bf: block_device BlockFile file_ok file_sector file_sectors
proof (unfold_locales, goal_cases)
  case (1 d i)
  then have bound: "i * BLOCK_SZ + BLOCK_SZ \<le> length d" using file_sectors_bound by simp
  then have "i * BLOCK_SZ < 2 ^ 64" using 1 BLOCK_SZ_pos unfolding file_ok_def by linarith
  then show ?case
    using bound by (simp add: BlockFile_def BlockFile_read_block_def file_sector_def Let_def)
next
  case (2 d i b)
  then show ?case by (rule BlockFile_write)
next
  case (3 d i)
  then show ?case using file_sectors_bound [of i d] by (simp add: file_sector_def)
qed

section \<open>The cache\<close>

record BlockCache =
  bc_cache :: block
  bc_block_id :: nat
  bc_modified :: bool

definition BlockCache_new :: "'d BlockDevice \<Rightarrow> nat \<Rightarrow> 'd \<Rightarrow> BlockCache outcome" where
  "BlockCache_new dev block_id d =
     and_then (bd_read_block dev block_id d) (\<lambda>cache.
     Inr \<lparr>bc_cache = cache, bc_block_id = block_id, bc_modified = False\<rparr>)"

definition BlockCache_sync :: "'d BlockDevice \<Rightarrow> BlockCache \<Rightarrow> 'd \<Rightarrow> (BlockCache \<times> 'd) outcome" where
  "BlockCache_sync dev c d =
     (if bc_modified c
      then and_then (bd_write_block dev (bc_block_id c) (bc_cache c) d) (\<lambda>d'.
           Inr (c\<lparr>bc_modified := False\<rparr>, d'))
      else Inr (c, d))"

definition BlockCache_drop :: "'d BlockDevice \<Rightarrow> BlockCache \<Rightarrow> 'd \<Rightarrow> 'd outcome" where
  "BlockCache_drop dev c d = and_then (BlockCache_sync dev c d) (\<lambda>(_, d'). Inr d')"

definition BLOCK_CACHE_SIZE :: nat where "BLOCK_CACHE_SIZE = 16"

text \<open>
  The manager's queue, the device behind it, and the blocks whose \<open>Arc\<close> and lock are held by a running
  access: an entry has the strong count 1 exactly when it is not among them.
\<close>

type_synonym queue = "(nat \<times> BlockCache) list"

record 'd cache_state =
  cm_queue :: queue
  cm_device :: 'd
  cm_held :: "nat list"

definition BlockCacheManager_new :: "'d \<Rightarrow> 'd cache_state" where
  "BlockCacheManager_new d = \<lparr>cm_queue = [], cm_device = d, cm_held = []\<rparr>"

definition evict :: "'d BlockDevice \<Rightarrow> 'd cache_state \<Rightarrow> 'd cache_state outcome" where
  "evict dev s =
     (if length (cm_queue s) = BLOCK_CACHE_SIZE
      then case position (\<lambda>pair. fst pair \<notin> set (cm_held s)) (cm_queue s) of
             Some idx \<Rightarrow> and_then (BlockCache_drop dev (snd (cm_queue s ! idx)) (cm_device s)) (\<lambda>d'.
               Inr (s\<lparr>cm_queue := remove_at idx (cm_queue s), cm_device := d'\<rparr>))
           | None \<Rightarrow> Inl ExplicitPanic
      else Inr s)"

definition BlockCacheManager_get_block_cache ::
  "'d BlockDevice \<Rightarrow> nat \<Rightarrow> 'd cache_state \<Rightarrow> (BlockCache \<times> 'd cache_state) outcome" where
  "BlockCacheManager_get_block_cache dev block_id s =
     (case find (\<lambda>pair. fst pair = block_id) (cm_queue s) of
        Some pair \<Rightarrow> Inr (snd pair, s)
      | None \<Rightarrow> and_then (evict dev s) (\<lambda>s1.
          and_then (BlockCache_new dev block_id (cm_device s1)) (\<lambda>c.
          Inr (c, s1\<lparr>cm_queue := cm_queue s1 @ [(block_id, c)]\<rparr>))))"

text \<open>\<open>get_block_cache(id, dev).lock()\<close>, the store through the mutable reference, and the end of the statement.\<close>

definition cache_get :: "'d BlockDevice \<Rightarrow> nat \<Rightarrow> 'd cache_state \<Rightarrow> (block \<times> 'd cache_state) outcome" where
  "cache_get dev i s =
     and_then (BlockCacheManager_get_block_cache dev i s) (\<lambda>(c, s1).
     if i \<in> set (cm_held s1) then Inl LockHeld
     else Inr (bc_cache c, s1\<lparr>cm_held := i # cm_held s1\<rparr>))"

definition set_cached :: "nat \<Rightarrow> block \<Rightarrow> queue \<Rightarrow> queue" where
  "set_cached i b = map (\<lambda>(j, c). (j, if j = i then c\<lparr>bc_cache := b, bc_modified := True\<rparr> else c))"

definition cache_put :: "nat \<Rightarrow> block \<Rightarrow> 'd cache_state \<Rightarrow> 'd cache_state" where
  "cache_put i b s = s\<lparr>cm_queue := set_cached i b (cm_queue s)\<rparr>"

definition cache_release :: "nat \<Rightarrow> 'd cache_state \<Rightarrow> 'd cache_state" where
  "cache_release i s = s\<lparr>cm_held := remove1 i (cm_held s)\<rparr>"

fun sync_queue :: "'d BlockDevice \<Rightarrow> nat list \<Rightarrow> queue \<Rightarrow> 'd \<Rightarrow> (queue \<times> 'd) outcome" where
  "sync_queue dev held [] d = Inr ([], d)"
| "sync_queue dev held ((i, c) # q) d =
     (if i \<in> set held then Inl LockHeld
      else and_then (BlockCache_sync dev c d) (\<lambda>(c', d').
           and_then (sync_queue dev held q d') (\<lambda>(q', d'').
           Inr ((i, c') # q', d''))))"

definition block_cache_sync_all :: "'d BlockDevice \<Rightarrow> 'd cache_state \<Rightarrow> 'd cache_state outcome" where
  "block_cache_sync_all dev s =
     and_then (sync_queue dev (cm_held s) (cm_queue s) (cm_device s)) (\<lambda>(q', d').
     Inr (s\<lparr>cm_queue := q', cm_device := d'\<rparr>))"

definition cache_store :: "'d BlockDevice \<Rightarrow> 'd cache_state store" where
  "cache_store dev = \<lparr>st_get = cache_get dev, st_put = cache_put, st_release = cache_release,
     st_sync_all = block_cache_sync_all dev\<rparr>"

section \<open>The invariant and the disk the cache shows\<close>

definition entry_ok :: "('d \<Rightarrow> nat \<Rightarrow> block) \<Rightarrow> ('d \<Rightarrow> nat) \<Rightarrow> 'd \<Rightarrow> nat \<times> BlockCache \<Rightarrow> bool" where
  "entry_ok sector sectors d e \<longleftrightarrow>
     bc_block_id (snd e) = fst e \<and> fst e < sectors d \<and> length (bc_cache (snd e)) = BLOCK_SZ \<and>
     (\<not> bc_modified (snd e) \<longrightarrow> bc_cache (snd e) = sector d (fst e))"

definition cache_ok ::
  "('d \<Rightarrow> bool) \<Rightarrow> ('d \<Rightarrow> nat \<Rightarrow> block) \<Rightarrow> ('d \<Rightarrow> nat) \<Rightarrow> 'd cache_state \<Rightarrow> bool" where
  "cache_ok dinv sector sectors s \<longleftrightarrow>
     dinv (cm_device s) \<and> distinct (map fst (cm_queue s)) \<and> length (cm_queue s) \<le> BLOCK_CACHE_SIZE \<and>
     (\<forall>e \<in> set (cm_queue s). entry_ok sector sectors (cm_device s) e) \<and>
     distinct (cm_held s) \<and> set (cm_held s) \<subseteq> fst ` set (cm_queue s)"

definition cache_disk :: "('d \<Rightarrow> nat \<Rightarrow> block) \<Rightarrow> 'd cache_state \<Rightarrow> nat \<Rightarrow> block" where
  "cache_disk sector s i =
     (case map_of (cm_queue s) i of Some c \<Rightarrow> bc_cache c | None \<Rightarrow> sector (cm_device s) i)"

lemma remove_at_Cons: "remove_at 0 (x # xs) = xs" "remove_at (Suc n) (x # xs) = x # remove_at n xs"
  by (simp_all add: remove_at_def)

lemma map_of_remove_at:
  "distinct (map fst q) \<Longrightarrow> idx < length q \<Longrightarrow> map_of (remove_at idx q) = (map_of q)(fst (q ! idx) := None)"
proof (induction q arbitrary: idx)
  case (Cons e q)
  show ?case
  proof (cases idx)
    case 0
    have "map_of q (fst e) = None" using Cons.prems(1) by (simp add: map_of_eq_None_iff)
    then show ?thesis using 0 by (auto simp: remove_at_Cons)
  next
    case (Suc n)
    then have n: "n < length q" using Cons.prems by simp
    have "fst e \<notin> fst ` set q" using Cons.prems(1) by simp
    then have "fst (q ! n) \<noteq> fst e" using n by (metis image_eqI nth_mem)
    then show ?thesis using Suc Cons n by (auto simp: remove_at_Cons)
  qed
qed simp

lemma find_fst_map_of: "find (\<lambda>pair. fst pair = i) q = map_option (Pair i) (map_of q i)"
  by (induction q) auto

lemma map_of_set_cached:
  "map_of (set_cached i b q) j =
     map_option (\<lambda>c. if j = i then c\<lparr>bc_cache := b, bc_modified := True\<rparr> else c) (map_of q j)"
  by (induction q) (auto simp: set_cached_def)

lemma fst_set_cached: "map fst (set_cached i b q) = map fst q"
  by (induction q) (auto simp: set_cached_def)

text \<open>Writing an entry back makes the sector equal to it, whether or not it was modified.\<close>

context block_device
begin

abbreviation ok_entry :: "'d \<Rightarrow> nat \<times> BlockCache \<Rightarrow> bool" where
  "ok_entry \<equiv> entry_ok sector sectors"

abbreviation ok_cache :: "'d cache_state \<Rightarrow> bool" where
  "ok_cache \<equiv> cache_ok dinv sector sectors"

lemma BlockCache_sync_spec:
  assumes "dinv d" "ok_entry d (i, c)"
  shows "\<exists>d'. BlockCache_sync dev c d = Inr (c\<lparr>bc_modified := False\<rparr>, d') \<and> dinv d' \<and>
    sector d' = (sector d)(i := bc_cache c) \<and> sectors d' = sectors d"
proof (cases "bc_modified c")
  case True
  then show ?thesis
    using write_ok [of d i "bc_cache c"] assms by (auto simp: BlockCache_sync_def entry_ok_def)
next
  case False
  then have "c\<lparr>bc_modified := False\<rparr> = c" by simp
  then show ?thesis using assms False by (auto simp: BlockCache_sync_def entry_ok_def)
qed

lemma BlockCache_drop_spec:
  assumes "dinv d" "ok_entry d (i, c)"
  shows "\<exists>d'. BlockCache_drop dev c d = Inr d' \<and> dinv d' \<and>
    sector d' = (sector d)(i := bc_cache c) \<and> sectors d' = sectors d"
  using BlockCache_sync_spec [OF assms] by (auto simp: BlockCache_drop_def)

lemma ok_entry_other:
  "ok_entry d e \<Longrightarrow> sector d' = (sector d)(i := b) \<Longrightarrow> sectors d' = sectors d \<Longrightarrow> fst e \<noteq> i \<Longrightarrow> ok_entry d' e"
  by (simp add: entry_ok_def)

lemma free_entry:
  assumes "ok_cache s" "length (cm_queue s) = BLOCK_CACHE_SIZE" "length (cm_held s) < 16"
  obtains idx where "position (\<lambda>pair. fst pair \<notin> set (cm_held s)) (cm_queue s) = Some idx"
proof (cases "position (\<lambda>pair. fst pair \<notin> set (cm_held s)) (cm_queue s)")
  case None
  then have "set (map fst (cm_queue s)) \<subseteq> set (cm_held s)" by (auto simp: position_None)
  then have "card (set (map fst (cm_queue s))) \<le> card (set (cm_held s))" by (intro card_mono) auto
  also have "\<dots> \<le> length (cm_held s)" by (rule card_length)
  finally have "length (map fst (cm_queue s)) \<le> length (cm_held s)"
    using assms(1) distinct_card [of "map fst (cm_queue s)"] by (simp add: cache_ok_def)
  then show ?thesis using assms(2,3) by (simp add: BLOCK_CACHE_SIZE_def)
qed (rule that)

lemma map_fst_remove_at: "map fst (remove_at idx q) = remove_at idx (map fst q)"
  by (simp add: remove_at_def take_map drop_map)

lemma set_remove_at_subset: "set (remove_at idx xs) \<subseteq> set xs"
  by (auto simp: remove_at_def dest: in_set_takeD in_set_dropD)

lemma evict_spec:
  assumes ok: "ok_cache s" and held: "length (cm_held s) < 16"
  shows "\<exists>s'. evict dev s = Inr s' \<and> ok_cache s' \<and> cache_disk sector s' = cache_disk sector s \<and>
    sectors (cm_device s') = sectors (cm_device s) \<and> cm_held s' = cm_held s \<and>
    length (cm_queue s') < BLOCK_CACHE_SIZE \<and> fst ` set (cm_queue s') \<subseteq> fst ` set (cm_queue s)"
proof (cases "length (cm_queue s) = BLOCK_CACHE_SIZE")
  case False
  then show ?thesis using ok by (auto simp: evict_def cache_ok_def)
next
  case True
  obtain idx where pos: "position (\<lambda>pair. fst pair \<notin> set (cm_held s)) (cm_queue s) = Some idx"
    using free_entry [OF ok True held] .
  define i c where "i = fst (cm_queue s ! idx)" and "c = snd (cm_queue s ! idx)"
  have idx: "idx < length (cm_queue s)" and free: "i \<notin> set (cm_held s)"
    using pos by (simp_all add: position_Some i_def)
  have e: "(i, c) = cm_queue s ! idx" by (simp add: i_def c_def)
  have ent: "ok_entry (cm_device s) (i, c)" and dist: "distinct (map fst (cm_queue s))"
    using ok idx unfolding e by (simp_all add: cache_ok_def)
  obtain d' where d': "BlockCache_drop dev c (cm_device s) = Inr d'" "dinv d'"
    "sector d' = (sector (cm_device s))(i := bc_cache c)" "sectors d' = sectors (cm_device s)"
    using BlockCache_drop_spec [OF _ ent] ok by (auto simp: cache_ok_def)
  define s' where "s' = s\<lparr>cm_queue := remove_at idx (cm_queue s), cm_device := d'\<rparr>"
  have ids: "set (map fst (remove_at idx (cm_queue s))) = set (map fst (cm_queue s)) - {i}"
    "distinct (map fst (remove_at idx (cm_queue s)))"
    using set_remove_at [OF dist] distinct_remove_at [OF dist] idx by (simp_all add: map_fst_remove_at i_def)
  have "evict dev s = Inr s'" using True pos d'(1) by (simp add: evict_def s'_def c_def)
  moreover have "ok_entry d' e" if "e \<in> set (remove_at idx (cm_queue s))" for e
  proof (rule ok_entry_other [OF _ d'(3,4)])
    show "ok_entry (cm_device s) e" using subsetD [OF set_remove_at_subset that] ok by (simp add: cache_ok_def)
    show "fst e \<noteq> i" using that ids(1) by auto
  qed
  then have "ok_cache s'"
    using ok d'(2) ids free length_remove_at [OF idx] by (auto simp: cache_ok_def s'_def)
  moreover have "map_of (cm_queue s) i = Some c" using dist idx e by (metis map_of_is_SomeI nth_mem)
  then have "cache_disk sector s' = cache_disk sector s"
    using map_of_remove_at [OF dist idx] d'(3) by (auto simp: cache_disk_def s'_def i_def fun_eq_iff split: option.split)
  ultimately show ?thesis
    using d'(4) True length_remove_at [OF idx] ids(1) by (auto simp: s'_def BLOCK_CACHE_SIZE_def)
qed

lemma BlockCache_new_spec:
  "dinv d \<Longrightarrow> i < sectors d \<Longrightarrow>
     BlockCache_new dev i d = Inr \<lparr>bc_cache = sector d i, bc_block_id = i, bc_modified = False\<rparr>"
  by (simp add: BlockCache_new_def read_ok)

lemma ok_cache_sector_len:
  assumes "ok_cache s" "i < sectors (cm_device s)"
  shows "length (cache_disk sector s i) = BLOCK_SZ"
proof (cases "map_of (cm_queue s) i")
  case None
  then show ?thesis using assms sector_len by (simp add: cache_disk_def cache_ok_def)
next
  case (Some c)
  then have "(i, c) \<in> set (cm_queue s)" by (rule map_of_SomeD)
  then have "length (bc_cache c) = BLOCK_SZ" using assms(1) by (auto simp: cache_ok_def entry_ok_def)
  then show ?thesis using Some by (simp add: cache_disk_def)
qed

lemma get_block_cache_spec:
  assumes ok: "ok_cache s" and i: "i < sectors (cm_device s)" and held: "length (cm_held s) < 16"
  shows "\<exists>c s'. BlockCacheManager_get_block_cache dev i s = Inr (c, s') \<and> bc_cache c = cache_disk sector s i \<and>
    ok_cache s' \<and> cache_disk sector s' = cache_disk sector s \<and>
    sectors (cm_device s') = sectors (cm_device s) \<and> cm_held s' = cm_held s \<and> i \<in> fst ` set (cm_queue s')"
proof (cases "map_of (cm_queue s) i")
  case (Some c)
  then have "(i, c) \<in> set (cm_queue s)" by (rule map_of_SomeD)
  then have "i \<in> fst ` set (cm_queue s)" by force
  then show ?thesis
    using Some ok by (auto simp: BlockCacheManager_get_block_cache_def find_fst_map_of cache_disk_def)
next
  case None
  obtain s1 where s1: "evict dev s = Inr s1" "ok_cache s1" "cache_disk sector s1 = cache_disk sector s"
    "sectors (cm_device s1) = sectors (cm_device s)" "cm_held s1 = cm_held s"
    "length (cm_queue s1) < BLOCK_CACHE_SIZE" "fst ` set (cm_queue s1) \<subseteq> fst ` set (cm_queue s)"
    using evict_spec [OF ok held] by auto
  define c where "c = \<lparr>bc_cache = sector (cm_device s1) i, bc_block_id = i, bc_modified = False\<rparr>"
  define s' where "s' = s1\<lparr>cm_queue := cm_queue s1 @ [(i, c)]\<rparr>"
  have fresh: "i \<notin> fst ` set (cm_queue s1)" using None s1(7) by (auto simp: map_of_eq_None_iff)
  then have none: "map_of (cm_queue s1) i = None" by (simp add: map_of_eq_None_iff)
  have d1: "dinv (cm_device s1)" using s1(2) by (simp add: cache_ok_def)
  have cd: "bc_cache c = cache_disk sector s i"
    unfolding s1(3) [symmetric] using none by (simp add: c_def cache_disk_def)
  have "BlockCacheManager_get_block_cache dev i s = Inr (c, s')"
    using None s1(1,4) i d1
    by (simp add: BlockCacheManager_get_block_cache_def find_fst_map_of BlockCache_new_spec c_def s'_def)
  moreover have "ok_entry (cm_device s1) (i, c)" using sector_len d1 i s1(4) by (simp add: entry_ok_def c_def)
  then have "ok_cache s'" using s1(2,6) fresh by (auto simp: cache_ok_def s'_def)
  moreover have "cache_disk sector s' j = cache_disk sector s1 j" for j
    using none by (simp add: cache_disk_def s'_def c_def map_add_def split: option.split)
  ultimately show ?thesis using s1(3-5) cd by (auto simp: s'_def)
qed

lemma cache_get_spec:
  assumes "ok_cache s" "i < sectors (cm_device s)" "i \<notin> set (cm_held s)" "length (cm_held s) < 16"
  shows "\<exists>s'. cache_get dev i s = Inr (cache_disk sector s i, s') \<and> ok_cache s' \<and>
    cache_disk sector s' = cache_disk sector s \<and> sectors (cm_device s') = sectors (cm_device s) \<and>
    cm_held s' = i # cm_held s"
proof -
  obtain c s1 where s1: "BlockCacheManager_get_block_cache dev i s = Inr (c, s1)"
    "bc_cache c = cache_disk sector s i" "ok_cache s1" "cache_disk sector s1 = cache_disk sector s"
    "sectors (cm_device s1) = sectors (cm_device s)" "cm_held s1 = cm_held s" "i \<in> fst ` set (cm_queue s1)"
    using get_block_cache_spec [OF assms(1,2,4)] by auto
  define s' where "s' = s1\<lparr>cm_held := i # cm_held s1\<rparr>"
  have "cache_get dev i s = Inr (cache_disk sector s i, s')"
    using s1(1,2,6) assms(3) by (simp add: cache_get_def s'_def)
  moreover have "ok_cache s'" using s1(3,6,7) assms(3) by (auto simp: cache_ok_def s'_def)
  moreover have "cache_disk sector s' j = cache_disk sector s1 j" for j
    by (simp add: cache_disk_def s'_def split: option.split)
  ultimately show ?thesis using s1(4-6) by (auto simp: s'_def)
qed

lemma cache_put_spec:
  assumes ok: "ok_cache s" and i: "i \<in> set (cm_held s)" and b: "length b = BLOCK_SZ"
  shows "ok_cache (cache_put i b s) \<and> cache_disk sector (cache_put i b s) = (cache_disk sector s)(i := b)"
proof
  have "ok_entry (cm_device s) e" if "e \<in> set (set_cached i b (cm_queue s))" for e
    using that ok b by (fastforce simp: set_cached_def cache_ok_def entry_ok_def split: if_splits)
  moreover have "fst ` set (set_cached i b (cm_queue s)) = fst ` set (cm_queue s)"
    using arg_cong [OF fst_set_cached, of set i b "cm_queue s"] by simp
  moreover have "length (set_cached i b (cm_queue s)) = length (cm_queue s)" by (simp add: set_cached_def)
  ultimately show "ok_cache (cache_put i b s)"
    using ok by (simp add: cache_ok_def cache_put_def fst_set_cached)
next
  have "i \<in> fst ` set (cm_queue s)" using ok i by (auto simp: cache_ok_def)
  then obtain c where "map_of (cm_queue s) i = Some c"
    by (metis map_of_eq_None_iff not_None_eq)
  then show "cache_disk sector (cache_put i b s) = (cache_disk sector s)(i := b)"
    by (auto simp: cache_disk_def cache_put_def map_of_set_cached fun_eq_iff split: option.split)
qed

lemma sync_queue_spec:
  assumes "dinv d" "distinct (map fst q)" "\<forall>e \<in> set q. ok_entry d e" "fst ` set q \<inter> set held = {}"
  shows "\<exists>d'. sync_queue dev held q d = Inr (map (\<lambda>(i, c). (i, c\<lparr>bc_modified := False\<rparr>)) q, d') \<and> dinv d' \<and>
    sectors d' = sectors d \<and>
    (\<forall>i. sector d' i = (case map_of q i of Some c \<Rightarrow> bc_cache c | None \<Rightarrow> sector d i))"
  using assms
proof (induction q arbitrary: d)
  case (Cons e q)
  obtain i c where e: "e = (i, c)" by force
  obtain d1 where d1: "BlockCache_sync dev c d = Inr (c\<lparr>bc_modified := False\<rparr>, d1)" "dinv d1"
    "sector d1 = (sector d)(i := bc_cache c)" "sectors d1 = sectors d"
    using BlockCache_sync_spec [of d i c] Cons.prems(1,3) e by auto
  have none: "map_of q i = None" using Cons.prems(2) e by (simp add: map_of_eq_None_iff)
  have "\<forall>e' \<in> set q. ok_entry d1 e'"
  proof
    fix e' assume "e' \<in> set q"
    then show "ok_entry d1 e'" using ok_entry_other [OF _ d1(3,4), of e'] Cons.prems(2,3) e by auto
  qed
  then obtain d' where d': "sync_queue dev held q d1 = Inr (map (\<lambda>(i, c). (i, c\<lparr>bc_modified := False\<rparr>)) q, d')"
    "dinv d'" "sectors d' = sectors d1"
    "\<forall>i. sector d' i = (case map_of q i of Some c \<Rightarrow> bc_cache c | None \<Rightarrow> sector d1 i)"
    using Cons.IH [OF d1(2)] Cons.prems(2,4) by auto
  then show ?case using d1 e none Cons.prems(4) by (auto split: option.split)
qed simp

lemma block_cache_sync_all_spec:
  assumes ok: "ok_cache s" and held: "cm_held s = []"
  shows "\<exists>s'. block_cache_sync_all dev s = Inr s' \<and> ok_cache s' \<and> cache_disk sector s' = cache_disk sector s \<and>
    sectors (cm_device s') = sectors (cm_device s) \<and> cm_held s' = [] \<and>
    sector (cm_device s') = cache_disk sector s"
proof -
  define q where "q = map (\<lambda>(i, c). (i, c\<lparr>bc_modified := False\<rparr>)) (cm_queue s)"
  obtain d' where d': "sync_queue dev [] (cm_queue s) (cm_device s) = Inr (q, d')" "dinv d'"
    "sectors d' = sectors (cm_device s)"
    "\<forall>i. sector d' i = cache_disk sector s i"
    using sync_queue_spec [of "cm_device s" "cm_queue s" "[]"] ok
    by (auto simp: cache_ok_def q_def cache_disk_def)
  define s' where "s' = s\<lparr>cm_queue := q, cm_device := d'\<rparr>"
  have q: "map_of q i = map_option (bc_modified_update (\<lambda>_. False)) (map_of (cm_queue s) i)" for i
    unfolding q_def by (induction "cm_queue s") (auto simp: map_of_map)
  have fq: "map fst q = map fst (cm_queue s)" by (auto simp: q_def)
  have dsk: "cache_disk sector s' = cache_disk sector s"
    using d'(4) q by (auto simp: cache_disk_def s'_def fun_eq_iff split: option.split)
  have "ok_entry d' e" if mem: "e \<in> set q" for e
  proof -
    obtain i c where e: "e = (i, c\<lparr>bc_modified := False\<rparr>)" "(i, c) \<in> set (cm_queue s)"
      using mem by (auto simp: q_def)
    then have "map_of (cm_queue s) i = Some c" using ok by (simp add: cache_ok_def)
    then have "sector d' i = bc_cache c" using d'(4) by (simp add: cache_disk_def)
    then show ?thesis using e ok d'(3) by (auto simp: entry_ok_def cache_ok_def)
  qed
  moreover have "fst ` set q = fst ` set (cm_queue s)" using arg_cong [OF fq, of set] by simp
  moreover have "length q = length (cm_queue s)" by (simp add: q_def)
  ultimately have "ok_cache s'" using ok d'(2) fq by (simp add: cache_ok_def s'_def)
  moreover have "block_cache_sync_all dev s = Inr s'"
    using d'(1) held by (simp add: block_cache_sync_all_def s'_def)
  ultimately show ?thesis using dsk d'(3,4) held by (auto simp: s'_def)
qed

lemma cache_is_block_store:
  "block_store (cache_store dev) ok_cache (cache_disk sector) (\<lambda>s. sectors (cm_device s)) cm_held
     (\<lambda>s. sector (cm_device s))"
proof (unfold_locales, goal_cases)
  case (1 s i)
  then show ?case using cache_get_spec by (simp add: cache_store_def)
next
  case (2 s i b)
  then show ?case using cache_put_spec by (simp add: cache_store_def) (simp add: cache_put_def)
next
  case (3 s i hs)
  have "cache_disk sector (cache_release i s) j = cache_disk sector s j" for j
    by (simp add: cache_disk_def cache_release_def split: option.split)
  then show ?case using 3 by (auto simp: cache_store_def cache_release_def cache_ok_def)
next
  case (4 s)
  then show ?case using block_cache_sync_all_spec [of s] by (auto simp: cache_store_def)
next
  case (5 s i)
  then show ?case using ok_cache_sector_len by simp
qed

lemma fresh_cache_ok:
  "dinv d \<Longrightarrow> ok_cache (BlockCacheManager_new d) \<and> cache_disk sector (BlockCacheManager_new d) = sector d"
  by (auto simp: BlockCacheManager_new_def cache_ok_def cache_disk_def)

end

sublocale block_device \<subseteq> cs: block_store "cache_store dev" "cache_ok dinv sector sectors" "cache_disk sector"
    "\<lambda>s. sectors (cm_device s)" cm_held "\<lambda>s. sector (cm_device s)"
  by (rule cache_is_block_store)

section \<open>Sequences of accesses\<close>

text \<open>A run of whole-block reads and writes and of write-backs, through a store and on a flat array of blocks.\<close>

datatype access = Read nat | Write nat block | Sync

fun run_access :: "'s store \<Rightarrow> access \<Rightarrow> 's \<Rightarrow> (block list \<times> 's) outcome" where
  "run_access st (Read i) s = cache_read st i DataBlock 0 (\<lambda>b s. Inr ([b], s)) s"
| "run_access st (Write i b) s = cache_modify st i DataBlock 0 (\<lambda>_ s. Inr ([], b, s)) s"
| "run_access st Sync s = and_then (st_sync_all st s) (\<lambda>s'. Inr ([], s'))"

fun run_accesses :: "'s store \<Rightarrow> access list \<Rightarrow> 's \<Rightarrow> (block list \<times> 's) outcome" where
  "run_accesses st [] s = Inr ([], s)"
| "run_accesses st (a # as) s =
     and_then (run_access st a s) (\<lambda>(out, s1).
     and_then (run_accesses st as s1) (\<lambda>(outs, s2). Inr (out @ outs, s2)))"

fun flat_access :: "access \<Rightarrow> (nat \<Rightarrow> block) \<Rightarrow> block list \<times> (nat \<Rightarrow> block)" where
  "flat_access (Read i) D = ([D i], D)"
| "flat_access (Write i b) D = ([], D(i := b))"
| "flat_access Sync D = ([], D)"

fun flat_accesses :: "access list \<Rightarrow> (nat \<Rightarrow> block) \<Rightarrow> block list \<times> (nat \<Rightarrow> block)" where
  "flat_accesses [] D = ([], D)"
| "flat_accesses (a # as) D =
     (let (out, D1) = flat_access a D; (outs, D2) = flat_accesses as D1 in (out @ outs, D2))"

fun access_ok :: "nat \<Rightarrow> access \<Rightarrow> bool" where
  "access_ok n (Read i) = (i < n)"
| "access_ok n (Write i b) = (i < n \<and> length b = BLOCK_SZ)"
| "access_ok n Sync = True"

context block_store
begin

lemma run_access_flat:
  assumes "inv s" "held s = []" "access_ok (size s) a"
  shows "\<exists>s'. run_access st a s = Inr (fst (flat_access a (disk s)), s') \<and> goes s (snd (flat_access a (disk s))) s'"
proof (cases a)
  case (Read i)
  then have "free s i" "length (disk s i) = BLOCK_SZ" using assms block_len by (auto simp: free_def)
  then show ?thesis using Read cache_read_pure [of s i 0 DataBlock "\<lambda>b. [b]"] by simp
next
  case (Write i b)
  then have "free s i" "length (disk s i) = BLOCK_SZ" using assms block_len by (auto simp: free_def)
  then show ?thesis
    using Write assms(3) cache_modify_pure [of s i 0 DataBlock "\<lambda>_. ([], b)"] by simp
next
  case Sync
  then show ?thesis using sync_ok [OF assms(1,2)] assms(2) by (auto simp: goes_def)
qed

lemma run_accesses_flat:
  assumes "inv s" "held s = []" "\<forall>a \<in> set as. access_ok (size s) a"
  shows "\<exists>s'. run_accesses st as s = Inr (fst (flat_accesses as (disk s)), s') \<and>
    goes s (snd (flat_accesses as (disk s))) s'"
  using assms
proof (induction as arbitrary: s)
  case Nil
  then show ?case by (simp add: goes_def)
next
  case (Cons a as)
  obtain s1 where s1: "run_access st a s = Inr (fst (flat_access a (disk s)), s1)"
    "goes s (snd (flat_access a (disk s))) s1" using run_access_flat [of s a] Cons.prems by auto
  then have "inv s1" "held s1 = []" "\<forall>a \<in> set as. access_ok (size s1) a" "disk s1 = snd (flat_access a (disk s))"
    using Cons.prems by (simp_all add: goes_def)
  then obtain s2 where s2: "run_accesses st as s1 = Inr (fst (flat_accesses as (disk s1)), s2)"
    "goes s1 (snd (flat_accesses as (disk s1))) s2" using Cons.IH [of s1] by auto
  show ?case using s1 s2 goes_trans \<open>disk s1 = _\<close> by (auto simp: Let_def split_def)
qed

end

text \<open>
  C5. The block cache is transparent and durable. On every device that keeps its sectors, any sequence of
  block reads, block writes and write-backs through the cache succeeds and returns what the same sequence
  returns on a flat array of blocks, however the blocks are cached and evicted meanwhile; and a final
  \<open>block_cache_sync_all\<close> succeeds and leaves that array on the device.
\<close>

theorem cache_transparent_and_durable:
  assumes "block_device dev dinv sector sectors" "cache_ok dinv sector sectors s" "cm_held s = []"
    "\<forall>a \<in> set as. access_ok (sectors (cm_device s)) a"
  shows "\<exists>s' s''. run_accesses (cache_store dev) as s = Inr (fst (flat_accesses as (cache_disk sector s)), s') \<and>
    block_cache_sync_all dev s' = Inr s'' \<and>
    sector (cm_device s'') = snd (flat_accesses as (cache_disk sector s))"
proof -
  note bs = block_device.cache_is_block_store [OF assms(1)]
  obtain s' where s': "run_accesses (cache_store dev) as s = Inr (fst (flat_accesses as (cache_disk sector s)), s')"
    "cache_ok dinv sector sectors s'" "cm_held s' = []" "cache_disk sector s' = snd (flat_accesses as (cache_disk sector s))"
    using block_store.run_accesses_flat [OF bs assms(2-4)] assms(3) by (auto simp: block_store.goes_def [OF bs])
  show ?thesis using block_device.block_cache_sync_all_spec [OF assms(1) s'(2,3)] s'(1,4) by auto
qed

theorem cache_transparent_and_durable_witness:
  "\<exists>s' s''. run_accesses (cache_store BlockFile) [Write 1 (replicate 512 7), Read 1]
      (BlockCacheManager_new (replicate 1024 0)) = Inr ([replicate 512 7], s') \<and>
    block_cache_sync_all BlockFile s' = Inr s'' \<and> file_sector (cm_device s'') 1 = replicate 512 7"
proof -
  have "file_ok (replicate 1024 0)" by (simp add: file_ok_def)
  note f = bf.fresh_cache_ok [OF this]
  have "\<forall>a \<in> set [Write 1 (replicate 512 7), Read 1].
      access_ok (file_sectors (cm_device (BlockCacheManager_new (replicate 1024 0)))) a"
    by (simp add: BlockCacheManager_new_def file_sectors_def BLOCK_SZ_def)
  then show ?thesis
    using cache_transparent_and_durable [OF bf.block_device_axioms conjunct1 [OF f], of "[Write 1 (replicate 512 7), Read 1]"]
    by (auto simp: BlockCacheManager_new_def Let_def)
qed

text \<open>
  A full cache whose blocks are all held refuses another block: the manager panics rather than
  dropping a block in use.
\<close>

lemma cache_full_of_held_blocks_panics:
  assumes "length (cm_queue s) = BLOCK_CACHE_SIZE" "\<forall>e \<in> set (cm_queue s). fst e \<in> set (cm_held s)"
    "i \<notin> set (cm_held s)"
  shows "BlockCacheManager_get_block_cache dev i s = Inl ExplicitPanic"
proof -
  have "map_of (cm_queue s) i = None" using assms(2,3) by (auto simp: map_of_eq_None_iff)
  moreover have "position (\<lambda>pair. fst pair \<notin> set (cm_held s)) (cm_queue s) = None"
    using assms(2) by (simp add: position_None)
  ultimately show ?thesis
    using assms(1) by (simp add: BlockCacheManager_get_block_cache_def find_fst_map_of evict_def)
qed

end
