(* ===== verification/Bitmap.thy ===== *)
theory Bitmap
  imports Block_Cache Byte_Order
begin

text \<open>
  The allocation bitmaps of easy-fs (\<^verbatim>\<open>easy-fs/src/bitmap.rs\<close>): a run of blocks read as arrays of 64
  words of 64 bits. Block numbers and bit numbers are natural numbers: they are made from \<open>u32\<close> values, so
  their sums and products stay far below the width of \<open>usize\<close>. \<open>bitmap_bit\<close> reads a bitmap as a set of
  numbers; \<open>alloc\<close> adds the least number that is not in it, \<open>dealloc\<close> takes one out.
\<close>

section \<open>Bitmap blocks\<close>

definition BLOCK_BITS :: nat where "BLOCK_BITS = BLOCK_SZ * 8"

definition BitmapBlock :: "u64 list byte_view" where
  "BitmapBlock = \<lparr>bv_size = 512, bv_decode = le_words 64, bv_encode = \<lambda>ws _. le_words_bytes ws\<rparr>"

interpretation bitmap_block: sound_view BitmapBlock "\<lambda>ws. length ws = 64"
  by unfold_locales (simp_all add: BitmapBlock_def le_words_le_words_bytes)

record Bitmap =
  bm_start_block_id :: nat
  bm_blocks :: nat

definition decomposition :: "nat \<Rightarrow> nat \<times> nat \<times> nat" where
  "decomposition n =
     (let block_pos = n div BLOCK_BITS; n = n mod BLOCK_BITS in (block_pos, n div 64, n mod 64))"

definition Bitmap_new :: "nat \<Rightarrow> nat \<Rightarrow> Bitmap" where
  "Bitmap_new start_block_id blocks = \<lparr>bm_start_block_id = start_block_id, bm_blocks = blocks\<rparr>"

definition trailing_ones :: "u64 \<Rightarrow> nat" where
  "trailing_ones w = length (takeWhile (bit w) [0..<64])"

definition alloc_in_block :: "nat \<Rightarrow> u64 list \<Rightarrow> nat option \<times> u64 list" where
  "alloc_in_block block_id bitmap_block =
     (case position (\<lambda>bits64. bits64 \<noteq> - 1) bitmap_block of
        Some bits64_pos \<Rightarrow>
          let inner_pos = trailing_ones (bitmap_block ! bits64_pos)
          in (Some (block_id * BLOCK_BITS + bits64_pos * 64 + inner_pos),
              bitmap_block[bits64_pos := bitmap_block ! bits64_pos OR push_bit inner_pos 1])
      | None \<Rightarrow> (None, bitmap_block))"

fun alloc_in_blocks :: "'s store \<Rightarrow> nat \<Rightarrow> nat list \<Rightarrow> 's \<Rightarrow> (nat option \<times> 's) outcome" where
  "alloc_in_blocks st start [] s = Inr (None, s)"
| "alloc_in_blocks st start (block_id # ids) s =
     and_then (cache_modify st (block_id + start) BitmapBlock 0
       (\<lambda>bitmap_block s. Inr (fst (alloc_in_block block_id bitmap_block), snd (alloc_in_block block_id bitmap_block), s)) s)
     (\<lambda>(pos, s1). case pos of Some n \<Rightarrow> Inr (Some n, s1) | None \<Rightarrow> alloc_in_blocks st start ids s1)"

definition Bitmap_alloc :: "'s store \<Rightarrow> Bitmap \<Rightarrow> 's \<Rightarrow> (nat option \<times> 's) outcome" where
  "Bitmap_alloc st bm s = alloc_in_blocks st (bm_start_block_id bm) [0..<bm_blocks bm] s"

definition Bitmap_dealloc :: "'s store \<Rightarrow> Bitmap \<Rightarrow> nat \<Rightarrow> 's \<Rightarrow> 's outcome" where
  "Bitmap_dealloc st bm n s =
     (let (block_pos, bits64_pos, inner_pos) = decomposition n
      in and_then (cache_modify st (block_pos + bm_start_block_id bm) BitmapBlock 0
           (\<lambda>bitmap_block s.
              and_then (assert_that (bitmap_block ! bits64_pos AND push_bit inner_pos 1 > 0)) (\<lambda>_.
              Inr ((), bitmap_block[bits64_pos := bitmap_block ! bits64_pos - push_bit inner_pos 1], s))) s)
         (\<lambda>(_, s1). Inr s1))"

definition Bitmap_maximum :: "Bitmap \<Rightarrow> nat" where
  "Bitmap_maximum bm = bm_blocks bm * BLOCK_BITS"

section \<open>One block\<close>

lemma trailing_ones_spec:
  assumes "w \<noteq> - 1"
  shows "trailing_ones w < 64 \<and> \<not> bit w (trailing_ones w) \<and> (\<forall>j < trailing_ones w. bit w j)"
proof -
  let ?t = "takeWhile (bit w) [0..<64]"
  have "\<exists>n < 64. \<not> bit w n" using assms by (auto intro!: bit_word_eqI simp: bit_minus_1_iff)
  then have "?t \<noteq> [0..<64]" by (auto simp: takeWhile_eq_all_conv)
  then have "0 < length (dropWhile (bit w) [0..<64])" by (metis append_Nil2 length_greater_0_conv takeWhile_dropWhile_id)
  moreover have "length ?t + length (dropWhile (bit w) [0..<64]) = 64"
    unfolding length_append [symmetric] takeWhile_dropWhile_id by simp
  ultimately have less: "length ?t < 64" by linarith
  have "\<not> bit w ([0..<64] ! length ?t)" using less nth_length_takeWhile [of "bit w" "[0..<64]"] by simp
  moreover have "bit w j" if "j < length ?t" for j
    using that less takeWhile_nth [of j "bit w" "[0..<64]"] set_takeWhileD [of j "bit w" "[0..<64]"]
    by (metis (no_types, lifting) add_0 less_trans nth_mem nth_upt)
  ultimately show ?thesis using less by (simp add: trailing_ones_def)
qed

definition blk_bit :: "u64 list \<Rightarrow> nat \<Rightarrow> bool" where
  "blk_bit ws k = bit (ws ! (k div 64)) (k mod 64)"

lemma blk_bit_set:
  assumes "length ws = 64" "p < 64" "i < 64" "k < 4096"
  shows "blk_bit (ws[p := ws ! p OR push_bit i 1]) k \<longleftrightarrow> k = p * 64 + i \<or> blk_bit ws k"
proof -
  have k: "k div 64 < 64" using assms(4) by simp
  have "k = p * 64 + i \<longleftrightarrow> k div 64 = p \<and> k mod 64 = i" using assms(3) by auto
  then show ?thesis using assms k by (auto simp: blk_bit_def nth_list_update bit_simps)
qed

lemma alloc_in_block_None:
  assumes "length ws = 64" "fst (alloc_in_block b ws) = None"
  shows "snd (alloc_in_block b ws) = ws \<and> (\<forall>k < 4096. blk_bit ws k)"
proof -
  have none: "position (\<lambda>bits64. bits64 \<noteq> - 1) ws = None"
    using assms(2) by (auto simp: alloc_in_block_def Let_def split: option.splits)
  have "blk_bit ws k" if "k < 4096" for k
  proof -
    have "ws ! (k div 64) = - 1" using none that assms(1) by (simp add: position_None)
    then show ?thesis by (simp add: blk_bit_def bit_minus_1_iff)
  qed
  then show ?thesis using none by (simp add: alloc_in_block_def)
qed

lemma alloc_in_block_Some:
  assumes "length ws = 64" "fst (alloc_in_block b ws) = Some n"
  obtains k where "n = b * 4096 + k" "k < 4096" "\<not> blk_bit ws k" "\<forall>j < k. blk_bit ws j"
    "length (snd (alloc_in_block b ws)) = 64"
    "\<forall>j < 4096. blk_bit (snd (alloc_in_block b ws)) j \<longleftrightarrow> j = k \<or> blk_bit ws j"
proof -
  obtain p where p: "position (\<lambda>bits64. bits64 \<noteq> - 1) ws = Some p"
    using assms(2) by (auto simp: alloc_in_block_def split: option.splits)
  define i where "i = trailing_ones (ws ! p)"
  have p64: "p < 64" and wp: "ws ! p \<noteq> - 1" and before: "\<forall>j < p. ws ! j = - 1"
    using p assms(1) by (auto simp: position_Some)
  have i: "i < 64" "\<not> bit (ws ! p) i" "\<forall>j < i. bit (ws ! p) j"
    using trailing_ones_spec [OF wp] by (simp_all add: i_def)
  have lower: "blk_bit ws j" if j: "j < p * 64 + i" for j
  proof (cases "j div 64 = p")
    case True
    then have "j mod 64 < i" using j div_mult_mod_eq [of j 64] by simp
    then show ?thesis using True i(3) by (simp add: blk_bit_def)
  next
    case False
    have "j < Suc p * 64" using j i(1) by simp
    then have "j div 64 < p" using False less_mult_imp_div_less by fastforce
    then show ?thesis using before by (simp add: blk_bit_def bit_minus_1_iff)
  qed
  show thesis
  proof (rule that [of "p * 64 + i"])
    show "n = b * 4096 + (p * 64 + i)"
      using assms(2) p by (simp add: alloc_in_block_def Let_def i_def BLOCK_BITS_def BLOCK_SZ_def)
    show "p * 64 + i < 4096" using p64 i(1) by simp
    show "\<not> blk_bit ws (p * 64 + i)" using i by (simp add: blk_bit_def)
    show "\<forall>j < p * 64 + i. blk_bit ws j" using lower by blast
    show "length (snd (alloc_in_block b ws)) = 64"
      using p assms(1) by (simp add: alloc_in_block_def Let_def)
    show "\<forall>j < 4096. blk_bit (snd (alloc_in_block b ws)) j \<longleftrightarrow> j = p * 64 + i \<or> blk_bit ws j"
      using p blk_bit_set [OF assms(1) p64 i(1)] by (simp add: alloc_in_block_def Let_def i_def)
  qed
qed

section \<open>The bitmap as a set of numbers\<close>

definition bitmap_bit :: "Bitmap \<Rightarrow> (nat \<Rightarrow> block) \<Rightarrow> nat \<Rightarrow> bool" where
  "bitmap_bit bm D n =
     blk_bit (view_at BitmapBlock 0 (D (n div BLOCK_BITS + bm_start_block_id bm))) (n mod BLOCK_BITS)"

definition bitmap_blocks :: "Bitmap \<Rightarrow> nat set" where
  "bitmap_blocks bm = {bm_start_block_id bm ..< bm_start_block_id bm + bm_blocks bm}"

lemma BLOCK_BITS_eq: "BLOCK_BITS = 4096"
  by (simp add: BLOCK_BITS_def BLOCK_SZ_def)

lemma size_BitmapBlock [simp]: "bv_size BitmapBlock = BLOCK_SZ"
  by (simp add: BitmapBlock_def BLOCK_SZ_def)

lemma set_same_BitmapBlock: "length b = BLOCK_SZ \<Longrightarrow> set_view BitmapBlock 0 (view_at BitmapBlock 0 b) b = b"
  by (simp add: set_view_def view_at_def BitmapBlock_def BLOCK_SZ_def le_words_bytes_le_words)

lemma length_view_BitmapBlock: "length b = BLOCK_SZ \<Longrightarrow> length (view_at BitmapBlock 0 b) = 64"
  using bitmap_block.view_at_ok [of b 0] by simp

lemma bitmap_bit_update:
  assumes "n < Bitmap_maximum bm" "length (D (n div BLOCK_BITS + bm_start_block_id bm)) = BLOCK_SZ" "length ws = 64"
    "\<forall>j < 4096. blk_bit ws j \<longleftrightarrow> (if j = n mod BLOCK_BITS then v else
      blk_bit (view_at BitmapBlock 0 (D (n div BLOCK_BITS + bm_start_block_id bm))) j)"
    "D' = D(n div BLOCK_BITS + bm_start_block_id bm :=
      set_view BitmapBlock 0 ws (D (n div BLOCK_BITS + bm_start_block_id bm)))"
  shows "bitmap_bit bm D' = (bitmap_bit bm D)(n := v)"
proof
  fix k
  have [simp]: "view_at BitmapBlock 0 (set_view BitmapBlock 0 ws (D (n div BLOCK_BITS + bm_start_block_id bm))) = ws"
    using bitmap_block.view_set_view [of ws "D (n div BLOCK_BITS + bm_start_block_id bm)" 0] assms(2,3) by simp
  have k: "k mod BLOCK_BITS < 4096" by (simp add: BLOCK_BITS_eq)
  show "bitmap_bit bm D' k = ((bitmap_bit bm D)(n := v)) k"
  proof (cases "k div BLOCK_BITS = n div BLOCK_BITS")
    case True
    then have "k mod BLOCK_BITS = n mod BLOCK_BITS \<longleftrightarrow> k = n" by (metis div_mod_decomp)
    then show ?thesis using True assms(4,5) k by (simp add: bitmap_bit_def)
  next
    case False
    then show ?thesis using assms(5) by (auto simp: bitmap_bit_def)
  qed
qed

text \<open>The same search on the contents of the disk.\<close>

fun find_free :: "nat \<Rightarrow> nat list \<Rightarrow> (nat \<Rightarrow> block) \<Rightarrow> nat option \<times> (nat \<Rightarrow> block)" where
  "find_free start [] D = (None, D)"
| "find_free start (b # ids) D =
     (let ws = view_at BitmapBlock 0 (D (b + start)) in
      case fst (alloc_in_block b ws) of
        Some n \<Rightarrow> (Some n, D(b + start := set_view BitmapBlock 0 (snd (alloc_in_block b ws)) (D (b + start))))
      | None \<Rightarrow> find_free start ids D)"

lemma find_free_None:
  assumes "fst (find_free start ids D) = None" "\<forall>b \<in> set ids. length (D (b + start)) = BLOCK_SZ"
  shows "snd (find_free start ids D) = D \<and>
    (\<forall>b \<in> set ids. \<forall>k < 4096. blk_bit (view_at BitmapBlock 0 (D (b + start))) k)"
  using assms
proof (induction ids)
  case (Cons b ids)
  have "length (view_at BitmapBlock 0 (D (b + start))) = 64" using Cons.prems(2) length_view_BitmapBlock by simp
  from alloc_in_block_None [OF this] show ?case using Cons by (auto simp: Let_def split: option.splits)
qed simp

lemma find_free_Some:
  assumes "find_free start ids D = (Some n, D')" "\<forall>b \<in> set ids. length (D (b + start)) = BLOCK_SZ"
  shows "\<exists>as b bs. ids = as @ b # bs \<and> fst (alloc_in_block b (view_at BitmapBlock 0 (D (b + start)))) = Some n \<and>
    D' = D(b + start := set_view BitmapBlock 0
      (snd (alloc_in_block b (view_at BitmapBlock 0 (D (b + start))))) (D (b + start))) \<and>
    (\<forall>a \<in> set as. \<forall>k < 4096. blk_bit (view_at BitmapBlock 0 (D (a + start))) k)"
  using assms
proof (induction ids)
  case (Cons b ids)
  let ?ws = "view_at BitmapBlock 0 (D (b + start))"
  have ws: "length ?ws = 64" using Cons.prems(2) length_view_BitmapBlock by simp
  show ?case
  proof (cases "fst (alloc_in_block b ?ws)")
    case (Some m)
    then show ?thesis using Cons.prems(1) by (intro exI [of _ "[]"] exI [of _ b] exI [of _ ids]) (auto simp: Let_def)
  next
    case None
    then have "find_free start ids D = (Some n, D')" using Cons.prems(1) by (simp add: Let_def)
    then obtain as c bs where "ids = as @ c # bs"
      "fst (alloc_in_block c (view_at BitmapBlock 0 (D (c + start)))) = Some n"
      "D' = D(c + start := set_view BitmapBlock 0
        (snd (alloc_in_block c (view_at BitmapBlock 0 (D (c + start))))) (D (c + start)))"
      "\<forall>a \<in> set as. \<forall>k < 4096. blk_bit (view_at BitmapBlock 0 (D (a + start))) k"
      using Cons.IH Cons.prems(2) by (meson list.set_intros(2))
    then show ?thesis using alloc_in_block_None [OF ws None]
      by (intro exI [of _ "b # as"] exI [of _ c] exI [of _ bs]) auto
  qed
qed simp

text \<open>What the search finds is the least number whose bit is clear, and it sets that bit.\<close>

lemma find_free_all_set:
  assumes "fst (find_free (bm_start_block_id bm) [0..<bm_blocks bm] D) = None"
    "\<forall>i \<in> bitmap_blocks bm. length (D i) = BLOCK_SZ" "n < Bitmap_maximum bm"
  shows "bitmap_bit bm D n"
proof -
  have "n div BLOCK_BITS < bm_blocks bm" using assms(3) by (simp add: Bitmap_maximum_def less_mult_imp_div_less)
  moreover have "\<forall>b \<in> set [0..<bm_blocks bm]. length (D (b + bm_start_block_id bm)) = BLOCK_SZ"
    using assms(2) by (auto simp: bitmap_blocks_def)
  ultimately show ?thesis using find_free_None [OF assms(1)] by (simp add: bitmap_bit_def BLOCK_BITS_eq)
qed

lemma upt_split:
  assumes "[0..<n] = as @ b # bs"
  shows "b < n \<and> as = [0..<b]"
proof -
  have n: "length as < n" using arg_cong [OF assms, of length] by simp
  have "[0..<n] ! length as = b" unfolding assms by simp
  then have b: "b = length as" using n by simp
  have "take (length as) [0..<n] = as" unfolding assms by simp
  then have "[0..<length as] = as" using n by (simp add: take_upt)
  then show ?thesis using n b by simp
qed

lemma find_free_least:
  assumes "find_free (bm_start_block_id bm) [0..<bm_blocks bm] D = (Some n, D')"
    "\<forall>i \<in> bitmap_blocks bm. length (D i) = BLOCK_SZ"
  shows "n < Bitmap_maximum bm \<and> \<not> bitmap_bit bm D n \<and> (\<forall>k < n. bitmap_bit bm D k) \<and>
    bitmap_bit bm D' = (bitmap_bit bm D)(n := True) \<and> (\<forall>i. i \<notin> bitmap_blocks bm \<longrightarrow> D' i = D i) \<and>
    (\<forall>i \<in> bitmap_blocks bm. length (D' i) = BLOCK_SZ)"
proof -
  let ?st = "bm_start_block_id bm"
  have lens: "\<forall>b \<in> set [0..<bm_blocks bm]. length (D (b + ?st)) = BLOCK_SZ"
    using assms(2) by (auto simp: bitmap_blocks_def)
  obtain as b bs where ids: "[0..<bm_blocks bm] = as @ b # bs"
    and n: "fst (alloc_in_block b (view_at BitmapBlock 0 (D (b + ?st)))) = Some n"
    and D': "D' = D(b + ?st := set_view BitmapBlock 0
        (snd (alloc_in_block b (view_at BitmapBlock 0 (D (b + ?st))))) (D (b + ?st)))"
    and before: "\<forall>a \<in> set as. \<forall>k < 4096. blk_bit (view_at BitmapBlock 0 (D (a + ?st))) k"
    using find_free_Some [OF assms(1) lens] by blast
  have b: "b < bm_blocks bm" "as = [0..<b]" using upt_split [OF ids] by blast+
  have len: "length (D (b + ?st)) = BLOCK_SZ" using lens b(1) by simp
  obtain k where k: "n = b * 4096 + k" "k < 4096" "\<not> blk_bit (view_at BitmapBlock 0 (D (b + ?st))) k"
    "\<forall>j < k. blk_bit (view_at BitmapBlock 0 (D (b + ?st))) j"
    "length (snd (alloc_in_block b (view_at BitmapBlock 0 (D (b + ?st))))) = 64"
    "\<forall>j < 4096. blk_bit (snd (alloc_in_block b (view_at BitmapBlock 0 (D (b + ?st))))) j \<longleftrightarrow>
      j = k \<or> blk_bit (view_at BitmapBlock 0 (D (b + ?st))) j"
    by (rule alloc_in_block_Some [OF length_view_BitmapBlock [OF len] n])
  have nd: "n div BLOCK_BITS = b" "n mod BLOCK_BITS = k" using k(1,2) by (simp_all add: BLOCK_BITS_eq)
  have max: "n < Bitmap_maximum bm"
  proof -
    have "Suc b * 4096 \<le> bm_blocks bm * 4096" using b(1) by (intro mult_le_mono1) simp
    then show ?thesis using k(1,2) by (simp add: Bitmap_maximum_def BLOCK_BITS_eq)
  qed
  have least: "bitmap_bit bm D j" if "j < n" for j
  proof (cases "j div BLOCK_BITS = b")
    case True
    then have "j mod BLOCK_BITS < k" using that k(1) div_mult_mod_eq [of j BLOCK_BITS] by (simp add: BLOCK_BITS_eq)
    then show ?thesis using k(4) True by (simp add: bitmap_bit_def)
  next
    case False
    have "j < Suc b * 4096" using that k(1,2) by simp
    then have "j div BLOCK_BITS < b" using False less_mult_imp_div_less [of j "Suc b" 4096] by (simp add: BLOCK_BITS_eq)
    then show ?thesis using before b(2) by (simp add: bitmap_bit_def BLOCK_BITS_eq)
  qed
  have "bitmap_bit bm D' = (bitmap_bit bm D)(n := True)"
  proof (rule bitmap_bit_update [OF max _ k(5), unfolded nd])
    show "D' = D(b + ?st := set_view BitmapBlock 0
        (snd (alloc_in_block b (view_at BitmapBlock 0 (D (b + ?st))))) (D (b + ?st)))" by (rule D')
  qed (use len k(6) in simp_all)
  moreover have "length (D' (b + ?st)) = BLOCK_SZ"
    using bitmap_block.length_set_view [OF k(5) len, of 0] D' by simp
  moreover have "b + ?st \<in> bitmap_blocks bm" using b(1) by (simp add: bitmap_blocks_def)
  moreover have "\<not> bitmap_bit bm D n" using k(3) by (simp add: bitmap_bit_def nd)
  moreover have "D' i = D i" if "i \<noteq> b + ?st" for i using that D' by simp
  ultimately show ?thesis using max least assms(2) by metis
qed

context block_store
begin

lemma alloc_in_blocks_spec:
  assumes "inv s" "\<forall>b \<in> set ids. free s (b + start)"
  shows "\<exists>s'. alloc_in_blocks st start ids s = Inr (fst (find_free start ids (disk s)), s') \<and>
    goes s (snd (find_free start ids (disk s))) s'"
  using assms
proof (induction ids arbitrary: s)
  case Nil
  then show ?case by (simp add: goes_refl)
next
  case (Cons b ids)
  let ?ws = "view_at BitmapBlock 0 (disk s (b + start))"
  have fr: "free s (b + start)" using Cons.prems(2) by simp
  then have len: "length (disk s (b + start)) = BLOCK_SZ" using block_len by (simp add: free_def)
  have ws: "length ?ws = 64" using length_view_BitmapBlock [OF len] .
  have ws': "length (snd (alloc_in_block b ?ws)) = 64"
    using ws by (auto simp: alloc_in_block_def Let_def split: option.split)
  obtain s1 where s1: "cache_modify st (b + start) BitmapBlock 0
      (\<lambda>ws s. Inr (fst (alloc_in_block b ws), snd (alloc_in_block b ws), s)) s = Inr (fst (alloc_in_block b ?ws), s1)"
    "goes s ((disk s)(b + start := set_view BitmapBlock 0 (snd (alloc_in_block b ?ws)) (disk s (b + start)))) s1"
    using cache_modify_pure [OF fr, of 0 BitmapBlock "alloc_in_block b"]
      bitmap_block.length_set_view [OF ws' len, of 0] by auto
  show ?case
  proof (cases "fst (alloc_in_block b ?ws)")
    case (Some n)
    then show ?thesis using s1 by (simp add: Let_def fun_upd_def)
  next
    case None
    then have s1': "goes s (disk s) s1"
      using s1(2) set_same_BitmapBlock [OF len] alloc_in_block_None [OF ws None] by simp
    then have "inv s1" "\<forall>c \<in> set ids. free s1 (c + start)" and d1: "disk s1 = disk s"
      using Cons.prems goes_free [OF Cons.prems(1) s1'] by (auto simp: goes_def)
    from Cons.IH [OF this(1,2), unfolded d1] show ?thesis
      using s1(1) None goes_trans [OF s1'] by (auto simp: Let_def)
  qed
qed

lemma Bitmap_alloc_spec:
  assumes "inv s" "\<forall>i \<in> bitmap_blocks bm. free s i"
  shows "\<exists>r s' D'. Bitmap_alloc st bm s = Inr (r, s') \<and> goes s D' s' \<and>
    (\<forall>i. i \<notin> bitmap_blocks bm \<longrightarrow> D' i = disk s i) \<and>
    (case r of
       None \<Rightarrow> D' = disk s \<and> (\<forall>n < Bitmap_maximum bm. bitmap_bit bm (disk s) n)
     | Some n \<Rightarrow> n < Bitmap_maximum bm \<and> \<not> bitmap_bit bm (disk s) n \<and> (\<forall>k < n. bitmap_bit bm (disk s) k) \<and>
         bitmap_bit bm D' = (bitmap_bit bm (disk s))(n := True))"
proof -
  let ?f = "find_free (bm_start_block_id bm) [0..<bm_blocks bm] (disk s)"
  have frees: "\<forall>b \<in> set [0..<bm_blocks bm]. free s (b + bm_start_block_id bm)"
    using assms(2) by (auto simp: bitmap_blocks_def)
  have lens: "\<forall>i \<in> bitmap_blocks bm. length (disk s i) = BLOCK_SZ"
    using assms(2) block_len by (auto simp: free_def)
  then have lens': "\<forall>b \<in> set [0..<bm_blocks bm]. length (disk s (b + bm_start_block_id bm)) = BLOCK_SZ"
    by (auto simp: bitmap_blocks_def)
  obtain s' where s': "Bitmap_alloc st bm s = Inr (fst ?f, s')" "goes s (snd ?f) s'"
    using alloc_in_blocks_spec [OF assms(1) frees] by (auto simp: Bitmap_alloc_def)
  show ?thesis
  proof (cases "fst ?f")
    case None
    then show ?thesis using s' find_free_None [OF None lens'] find_free_all_set [OF None lens] by auto
  next
    case (Some n)
    then have "?f = (Some n, snd ?f)" by (simp add: prod_eq_iff)
    from find_free_least [OF this lens] show ?thesis using s' Some by (intro exI [of _ "Some n"]) auto
  qed
qed

end

section \<open>Deallocation\<close>

lemma and_exp_pos: "w AND 2 ^ i > 0 \<longleftrightarrow> bit w i" for w :: u64
  by (simp add: word_gt_0 and_exp_eq_0_iff_not_bit)

lemma bit_minus_exp:
  assumes "bit (w :: u64) i"
  shows "bit (w - 2 ^ i) k \<longleftrightarrow> k \<noteq> i \<and> bit w k"
proof -
  have "w - 2 ^ i = w AND NOT (2 ^ i)"
    using assms by (intro disjunctive_diff) (auto simp: bit_exp_iff)
  then show ?thesis using bit_imp_le_length [of w k] by (auto simp: bit_simps)
qed

lemma decomposition_eq: "decomposition n = (n div BLOCK_BITS, n mod BLOCK_BITS div 64, n mod BLOCK_BITS mod 64)"
  by (simp add: decomposition_def Let_def)

lemma blk_bit_clear:
  assumes "length ws = 64" "k < 4096" "j < 4096" "blk_bit ws k"
  shows "blk_bit (ws[k div 64 := ws ! (k div 64) - push_bit (k mod 64) 1]) j \<longleftrightarrow> j \<noteq> k \<and> blk_bit ws j"
proof -
  have "j = k \<longleftrightarrow> j div 64 = k div 64 \<and> j mod 64 = k mod 64" by (metis div_mod_decomp)
  then show ?thesis
    using assms by (auto simp: blk_bit_def nth_list_update bit_minus_exp)
qed

context block_store
begin

lemma Bitmap_dealloc_spec:
  assumes "\<forall>i \<in> bitmap_blocks bm. free s i" "n < Bitmap_maximum bm" "bitmap_bit bm (disk s) n"
  shows "\<exists>s' D'. Bitmap_dealloc st bm n s = Inr s' \<and> goes s D' s' \<and>
    (\<forall>i. i \<notin> bitmap_blocks bm \<longrightarrow> D' i = disk s i) \<and> bitmap_bit bm D' = (bitmap_bit bm (disk s))(n := False)"
proof -
  define b k where "b = n div BLOCK_BITS" and "k = n mod BLOCK_BITS"
  define i where "i = b + bm_start_block_id bm"
  define ws where "ws = view_at BitmapBlock 0 (disk s i)"
  define ws' where "ws' = ws[k div 64 := ws ! (k div 64) - push_bit (k mod 64) 1]"
  define D' where "D' = (disk s)(i := set_view BitmapBlock 0 ws' (disk s i))"
  have "b < bm_blocks bm" using assms(2) by (simp add: b_def Bitmap_maximum_def less_mult_imp_div_less)
  then have ib: "i \<in> bitmap_blocks bm" by (simp add: i_def bitmap_blocks_def)
  then have fr: "free s i" using assms(1) by blast
  then have len: "length (disk s i) = BLOCK_SZ" using block_len by (simp add: free_def)
  have ws: "length ws = 64" "length ws' = 64" using length_view_BitmapBlock [OF len] by (simp_all add: ws_def ws'_def)
  have k: "k < 4096" by (simp add: k_def BLOCK_BITS_eq)
  have set: "blk_bit ws k" using assms(3) by (simp add: bitmap_bit_def ws_def i_def b_def k_def)
  have "\<exists>s'. cache_modify st i BitmapBlock 0 (\<lambda>bitmap_block s.
      and_then (assert_that (bitmap_block ! (k div 64) AND push_bit (k mod 64) 1 > 0)) (\<lambda>_.
      Inr ((), bitmap_block[k div 64 := bitmap_block ! (k div 64) - push_bit (k mod 64) 1], s))) s = Inr ((), s') \<and>
      goes s D' s'"
    unfolding D'_def
  proof (rule cache_modify_rule [OF fr])
    show "length (set_view BitmapBlock 0 ws' (disk s i)) = BLOCK_SZ"
      using bitmap_block.length_set_view [OF ws(2) len, of 0] by simp
  qed (use set in \<open>auto simp: ws_def [symmetric] ws'_def and_exp_pos blk_bit_def goes_def\<close>)
  then obtain s' where "Bitmap_dealloc st bm n s = Inr s'" "goes s D' s'"
    by (auto simp: Bitmap_dealloc_def decomposition_eq i_def b_def k_def)
  moreover have "bitmap_bit bm D' = (bitmap_bit bm (disk s))(n := False)"
    using bitmap_bit_update [OF assms(2) _ ws(2), folded b_def k_def i_def, OF len _ D'_def, of False]
      blk_bit_clear [OF ws(1) k _ set] by (simp add: ws_def ws'_def)
  ultimately show ?thesis using ib by (intro exI [of _ s'] exI [of _ D']) (auto simp: D'_def)
qed

lemma Bitmap_dealloc_twice:
  assumes "\<forall>i \<in> bitmap_blocks bm. free s i" "n < Bitmap_maximum bm" "\<not> bitmap_bit bm (disk s) n"
  shows "Bitmap_dealloc st bm n s = Inl AssertFailed"
proof -
  define i k where "i = n div BLOCK_BITS + bm_start_block_id bm" and "k = n mod BLOCK_BITS"
  have "n div BLOCK_BITS < bm_blocks bm" using assms(2) by (simp add: Bitmap_maximum_def less_mult_imp_div_less)
  then have "free s i" using assms(1) by (simp add: i_def bitmap_blocks_def)
  then obtain s1 where "st_get st i s = Inr (disk s i, s1)" using get_ok [of s i] by (auto simp: free_def)
  moreover have "\<not> bit (view_at BitmapBlock 0 (disk s i) ! (k div 64)) (k mod 64)"
    using assms(3) by (simp add: bitmap_bit_def blk_bit_def i_def k_def)
  ultimately show ?thesis
    by (simp add: Bitmap_dealloc_def decomposition_eq i_def [symmetric] k_def [symmetric] cache_modify_def and_exp_pos)
qed

end

text \<open>Bit \<open>n\<close> is bit \<open>n mod 8\<close> of byte \<open>n div 8\<close>: the words are stored with their low byte first.\<close>

lemma bitmap_bit_byte:
  assumes "length (D (n div BLOCK_BITS + bm_start_block_id bm)) = BLOCK_SZ"
  shows "bitmap_bit bm D n \<longleftrightarrow>
    bit (D (n div BLOCK_BITS + bm_start_block_id bm) ! (n mod BLOCK_BITS div 8)) (n mod 8)"
proof -
  define b k where "b = D (n div BLOCK_BITS + bm_start_block_id bm)" and "k = n mod BLOCK_BITS"
  have k: "k < 4096" "k mod 8 = n mod 8" by (simp_all add: k_def BLOCK_BITS_eq mod_mod_cancel)
  have b: "length b = 512" using assms by (simp add: b_def BLOCK_SZ_def)
  have "k div 8 = (8 * (k div 64) * 8 + k mod 64) div 8" by simp
  also have "\<dots> = 8 * (k div 64) + k mod 64 div 8" by (subst div_mult_self3) simp_all
  finally have idx: "8 * (k div 64) + k mod 64 div 8 = k div 8" "k mod 64 mod 8 = k mod 8"
    by (simp_all add: mod_mod_cancel)
  have kd: "k div 64 < 64" "k mod 64 div 8 < 8" using k(1) by simp_all
  have "length (take 8 (drop (8 * (k div 64)) b)) = 8" using kd b by simp
  moreover have "take 8 (drop (8 * (k div 64)) b) ! (k mod 64 div 8) = b ! (k div 8)" using kd b idx by simp
  ultimately have "blk_bit (view_at BitmapBlock 0 b) k \<longleftrightarrow> bit (b ! (k div 8)) (k mod 8)"
    using kd b idx(2) by (simp add: blk_bit_def view_at_def BitmapBlock_def le_words_def bit_le_word)
  then show ?thesis using k(2) by (simp add: bitmap_bit_def b_def k_def)
qed

section \<open>Over the cache\<close>

text \<open>What the laws of a store say when it is the cache over a device and nothing is held.\<close>

lemma cache_free:
  assumes "block_device dev dinv sector sectors"
  shows "block_store.free (cache_ok dinv sector sectors) (\<lambda>s. sectors (cm_device s)) cm_held s i \<longleftrightarrow>
    cache_ok dinv sector sectors s \<and> i < sectors (cm_device s) \<and> i \<notin> set (cm_held s) \<and> length (cm_held s) < 16"
  using block_store.free_def [OF block_device.cache_is_block_store [OF assms]] by simp

lemma cache_goes:
  assumes "block_device dev dinv sector sectors"
  shows "block_store.goes (cache_ok dinv sector sectors) (cache_disk sector) (\<lambda>s. sectors (cm_device s)) cm_held s D s' \<longleftrightarrow>
    cache_ok dinv sector sectors s' \<and> cache_disk sector s' = D \<and> sectors (cm_device s') = sectors (cm_device s) \<and>
    cm_held s' = cm_held s"
  using block_store.goes_def [OF block_device.cache_is_block_store [OF assms]] by simp

text \<open>
  C24. \<open>Bitmap::alloc\<close> through the block cache finds the least clear bit and sets it, and nothing else
  changes on the disk; it returns nothing exactly when every bit is set.
\<close>

theorem bitmap_alloc_least_free:
  assumes "block_device dev dinv sector sectors" "cache_ok dinv sector sectors s" "cm_held s = []"
    "bm_start_block_id bm + bm_blocks bm \<le> sectors (cm_device s)"
  shows "\<exists>r s'. Bitmap_alloc (cache_store dev) bm s = Inr (r, s') \<and> cache_ok dinv sector sectors s' \<and> cm_held s' = [] \<and>
    (\<forall>i. i \<notin> bitmap_blocks bm \<longrightarrow> cache_disk sector s' i = cache_disk sector s i) \<and>
    (case r of
       None \<Rightarrow> cache_disk sector s' = cache_disk sector s \<and>
         (\<forall>n < Bitmap_maximum bm. bitmap_bit bm (cache_disk sector s) n)
     | Some n \<Rightarrow> n < Bitmap_maximum bm \<and> \<not> bitmap_bit bm (cache_disk sector s) n \<and>
         (\<forall>k < n. bitmap_bit bm (cache_disk sector s) k) \<and>
         bitmap_bit bm (cache_disk sector s') = (bitmap_bit bm (cache_disk sector s))(n := True))"
proof -
  note bs = block_device.cache_is_block_store [OF assms(1)]
  have "\<forall>i \<in> bitmap_blocks bm. block_store.free (cache_ok dinv sector sectors) (\<lambda>s. sectors (cm_device s)) cm_held s i"
    using assms(2-4) by (auto simp: cache_free [OF assms(1)] bitmap_blocks_def)
  from block_store.Bitmap_alloc_spec [OF bs assms(2) this] show ?thesis
    unfolding cache_goes [OF assms(1)]
  proof (elim exE conjE)
    fix r s' D'
    assume "Bitmap_alloc (cache_store dev) bm s = Inr (r, s')" "cache_ok dinv sector sectors s'" "cache_disk sector s' = D'"
      "cm_held s' = cm_held s" and rest: "\<forall>i. i \<notin> bitmap_blocks bm \<longrightarrow> D' i = cache_disk sector s i"
      "case r of None \<Rightarrow> D' = cache_disk sector s \<and> (\<forall>n < Bitmap_maximum bm. bitmap_bit bm (cache_disk sector s) n)
       | Some n \<Rightarrow> n < Bitmap_maximum bm \<and> \<not> bitmap_bit bm (cache_disk sector s) n \<and>
           (\<forall>k < n. bitmap_bit bm (cache_disk sector s) k) \<and>
           bitmap_bit bm D' = (bitmap_bit bm (cache_disk sector s))(n := True)"
    then show ?thesis using assms(3) by (intro exI [of _ r] exI [of _ s'] conjI) (cases r; simp)+
  qed
qed

definition bitmap_example :: "u8 list cache_state" where
  "bitmap_example = BlockCacheManager_new (replicate 512 0 @ 7 # replicate 511 0)"

lemma bitmap_example_ok:
  "cache_ok file_ok file_sector file_sectors bitmap_example" "cm_held bitmap_example = []"
  "file_sectors (cm_device bitmap_example) = 2"
  "cache_disk file_sector bitmap_example 1 = 7 # replicate 511 0"
  using bf.fresh_cache_ok [of "replicate 512 0 @ 7 # replicate 511 0"]
  by (simp_all add: bitmap_example_def BlockCacheManager_new_def file_ok_def file_sectors_def file_sector_def BLOCK_SZ_def)

definition one_bitmap :: Bitmap where "one_bitmap = Bitmap_new 1 1"

lemma one_bitmap_simps:
  "bm_start_block_id one_bitmap = 1" "bm_blocks one_bitmap = 1" "Bitmap_maximum one_bitmap = 4096"
  by (simp_all add: one_bitmap_def Bitmap_new_def Bitmap_maximum_def BLOCK_BITS_eq)

lemma bitmap_example_bits:
  "n < 8 \<Longrightarrow> bitmap_bit one_bitmap (cache_disk file_sector bitmap_example) n \<longleftrightarrow> n < 3"
proof -
  assume n: "n < 8"
  then have "bitmap_bit one_bitmap (cache_disk file_sector bitmap_example) n \<longleftrightarrow> bit (7 :: u8) n"
    using bitmap_example_ok(4) bitmap_bit_byte [where bm = one_bitmap and n = n]
    by (simp add: one_bitmap_simps BLOCK_BITS_eq BLOCK_SZ_def)
  moreover have "(7 :: u8) = mask 3" by (simp add: mask_eq_exp_minus_1)
  ultimately show ?thesis using n by (simp add: bit_mask_iff)
qed

theorem bitmap_alloc_least_free_witness:
  "\<exists>s'. Bitmap_alloc (cache_store BlockFile) one_bitmap bitmap_example = Inr (Some 3, s')"
proof -
  have none: "\<not> (\<forall>n < Bitmap_maximum one_bitmap. bitmap_bit one_bitmap (cache_disk file_sector bitmap_example) n)"
    using bitmap_example_bits [of 3] one_bitmap_simps(3) by force
  have least: "n = 3" if "\<not> bitmap_bit one_bitmap (cache_disk file_sector bitmap_example) n"
    "\<forall>k < n. bitmap_bit one_bitmap (cache_disk file_sector bitmap_example) k" for n
    using that bitmap_example_bits [of n] bitmap_example_bits [of 3] by (cases n "3 :: nat" rule: linorder_cases) auto
  show ?thesis
    using bitmap_alloc_least_free [OF bf.block_device_axioms bitmap_example_ok(1,2), of one_bitmap] none least
    by (auto simp: bitmap_example_ok(3) one_bitmap_simps split: option.splits)
qed

text \<open>
  C25. \<open>Bitmap::dealloc\<close> through the block cache clears exactly the bit it is given when that bit is
  set, and panics when it is clear: nothing is freed twice.
\<close>

theorem bitmap_dealloc_frees_once:
  assumes "block_device dev dinv sector sectors" "cache_ok dinv sector sectors s" "cm_held s = []"
    "bm_start_block_id bm + bm_blocks bm \<le> sectors (cm_device s)" "n < Bitmap_maximum bm"
  shows "if bitmap_bit bm (cache_disk sector s) n
    then \<exists>s'. Bitmap_dealloc (cache_store dev) bm n s = Inr s' \<and> cache_ok dinv sector sectors s' \<and> cm_held s' = [] \<and>
      (\<forall>i. i \<notin> bitmap_blocks bm \<longrightarrow> cache_disk sector s' i = cache_disk sector s i) \<and>
      bitmap_bit bm (cache_disk sector s') = (bitmap_bit bm (cache_disk sector s))(n := False)
    else Bitmap_dealloc (cache_store dev) bm n s = Inl AssertFailed"
proof -
  note bs = block_device.cache_is_block_store [OF assms(1)]
  have frees: "\<forall>i \<in> bitmap_blocks bm. block_store.free (cache_ok dinv sector sectors) (\<lambda>s. sectors (cm_device s)) cm_held s i"
    using assms(2-4) by (auto simp: cache_free [OF assms(1)] bitmap_blocks_def)
  show ?thesis
  proof (cases "bitmap_bit bm (cache_disk sector s) n")
    case True
    from block_store.Bitmap_dealloc_spec [OF bs frees assms(5) True] show ?thesis
      using True assms(3) unfolding cache_goes [OF assms(1)] by metis
  next
    case False
    then show ?thesis using block_store.Bitmap_dealloc_twice [OF bs frees assms(5)] by simp
  qed
qed

theorem bitmap_dealloc_frees_once_witness:
  "Bitmap_dealloc (cache_store BlockFile) one_bitmap 3 bitmap_example = Inl AssertFailed \<and>
   (\<exists>s'. Bitmap_dealloc (cache_store BlockFile) one_bitmap 2 bitmap_example = Inr s')"
proof -
  show ?thesis
    using bitmap_dealloc_frees_once [OF bf.block_device_axioms bitmap_example_ok(1,2), of one_bitmap 2]
      bitmap_dealloc_frees_once [OF bf.block_device_axioms bitmap_example_ok(1,2), of one_bitmap 3]
    by (auto simp: bitmap_example_ok(3) one_bitmap_simps bitmap_example_bits)
qed

end
