(* ===== verification/Layout.thy ===== *)
theory Layout
  imports Bitmap
begin

text \<open>
  The structures easy-fs keeps on the disk (\<^verbatim>\<open>easy-fs/src/layout.rs\<close>): the super block, the disk inode, the
  indirect block and the directory entry, each with the bytes of its \<^verbatim>\<open>repr(C)\<close> layout, and the size
  arithmetic of the inode. Sizes and block counts of the inode are \<open>u32\<close> and wrap as the code does; values
  the code first widens to \<open>usize\<close> are natural numbers. The operations that go to the disk are in
  \<open>Disk_Inode\<close>.
\<close>

section \<open>Constants\<close>

definition EFS_MAGIC :: u32 where "EFS_MAGIC = 0x3b800001"
definition INODE_DIRECT_COUNT :: nat where "INODE_DIRECT_COUNT = 28"
definition NAME_LENGTH_LIMIT :: nat where "NAME_LENGTH_LIMIT = 27"
definition INODE_INDIRECT1_COUNT :: nat where "INODE_INDIRECT1_COUNT = BLOCK_SZ div 4"
definition INODE_INDIRECT2_COUNT :: nat where "INODE_INDIRECT2_COUNT = INODE_INDIRECT1_COUNT * INODE_INDIRECT1_COUNT"
definition DIRECT_BOUND :: nat where "DIRECT_BOUND = INODE_DIRECT_COUNT"
definition INDIRECT1_BOUND :: nat where "INDIRECT1_BOUND = DIRECT_BOUND + INODE_INDIRECT1_COUNT"
definition INDIRECT2_BOUND :: nat where "INDIRECT2_BOUND = INDIRECT1_BOUND + INODE_INDIRECT2_COUNT"
definition DIRENT_SZ :: nat where "DIRENT_SZ = 32"

lemmas layout_constants = INODE_DIRECT_COUNT_def NAME_LENGTH_LIMIT_def INODE_INDIRECT1_COUNT_def
  INODE_INDIRECT2_COUNT_def DIRECT_BOUND_def INDIRECT1_BOUND_def INDIRECT2_BOUND_def DIRENT_SZ_def BLOCK_SZ_def

section \<open>The super block\<close>

record SuperBlock =
  sb_magic :: u32
  sb_total_blocks :: u32
  sb_inode_bitmap_blocks :: u32
  sb_inode_area_blocks :: u32
  sb_data_bitmap_blocks :: u32
  sb_data_area_blocks :: u32

definition SuperBlock_initialize :: "u32 \<Rightarrow> u32 \<Rightarrow> u32 \<Rightarrow> u32 \<Rightarrow> u32 \<Rightarrow> SuperBlock" where
  "SuperBlock_initialize total_blocks inode_bitmap_blocks inode_area_blocks data_bitmap_blocks data_area_blocks =
     \<lparr>sb_magic = EFS_MAGIC, sb_total_blocks = total_blocks, sb_inode_bitmap_blocks = inode_bitmap_blocks,
      sb_inode_area_blocks = inode_area_blocks, sb_data_bitmap_blocks = data_bitmap_blocks,
      sb_data_area_blocks = data_area_blocks\<rparr>"

definition SuperBlock_is_valid :: "SuperBlock \<Rightarrow> bool" where
  "SuperBlock_is_valid sb \<longleftrightarrow> sb_magic sb = EFS_MAGIC"

definition SuperBlock_view :: "SuperBlock byte_view" where
  "SuperBlock_view =
     \<lparr>bv_size = 24,
      bv_decode = \<lambda>bs. let w = le_words 6 bs in
        \<lparr>sb_magic = w ! 0, sb_total_blocks = w ! 1, sb_inode_bitmap_blocks = w ! 2, sb_inode_area_blocks = w ! 3,
         sb_data_bitmap_blocks = w ! 4, sb_data_area_blocks = w ! 5\<rparr>,
      bv_encode = \<lambda>sb _. le_words_bytes [sb_magic sb, sb_total_blocks sb, sb_inode_bitmap_blocks sb,
        sb_inode_area_blocks sb, sb_data_bitmap_blocks sb, sb_data_area_blocks sb]\<rparr>"

interpretation super_block: sound_view SuperBlock_view "\<lambda>_. True"
  by unfold_locales (simp_all add: SuperBlock_view_def le_words_le_words_bytes Let_def)

section \<open>The disk inode\<close>

datatype DiskInodeType = File | Directory

record DiskInode =
  di_size :: u32
  di_direct :: "u32 list"
  di_indirect1 :: u32
  di_indirect2 :: u32
  di_type :: DiskInodeType

text \<open>
  128 bytes: 31 words, the byte of the type, and three bytes of padding that a write through the reference
  leaves alone. A byte that is no value of the enumeration is never written and is read as \<open>File\<close>.
\<close>

definition DiskInode_decode :: "u8 list \<Rightarrow> DiskInode" where
  "DiskInode_decode bs =
     (let w = le_words 31 bs in
      \<lparr>di_size = w ! 0, di_direct = take 28 (drop 1 w), di_indirect1 = w ! 29, di_indirect2 = w ! 30,
       di_type = (if bs ! 124 = 1 then Directory else File)\<rparr>)"

definition DiskInode_encode :: "DiskInode \<Rightarrow> u8 list \<Rightarrow> u8 list" where
  "DiskInode_encode di bs =
     le_words_bytes (di_size di # di_direct di @ [di_indirect1 di, di_indirect2 di]) @
     (case di_type di of File \<Rightarrow> 0 | Directory \<Rightarrow> 1) # drop 125 bs"

definition DiskInode_view :: "DiskInode byte_view" where
  "DiskInode_view = \<lparr>bv_size = 128, bv_decode = DiskInode_decode, bv_encode = DiskInode_encode\<rparr>"

definition IndirectBlock :: "u32 list byte_view" where
  "IndirectBlock = \<lparr>bv_size = 512, bv_decode = le_words 128, bv_encode = \<lambda>ws _. le_words_bytes ws\<rparr>"

lemma le_words_prefix:
  assumes "LENGTH('a::len) div 8 * n \<le> length xs"
  shows "le_words n (xs @ ys) = (le_words n xs :: 'a word list)"
proof -
  have "take (LENGTH('a) div 8) (drop (LENGTH('a) div 8 * k) (xs @ ys)) =
      take (LENGTH('a) div 8) (drop (LENGTH('a) div 8 * k) xs)" if "k < n" for k
  proof -
    have "LENGTH('a) div 8 * Suc k \<le> LENGTH('a) div 8 * n" using that by (intro mult_le_mono2) simp
    then show ?thesis using assms by simp
  qed
  then show ?thesis by (simp add: le_words_def del: drop_append take_append)
qed

lemma length_DiskInode_encode:
  "length (di_direct di) = 28 \<Longrightarrow> length bs = 128 \<Longrightarrow> length (DiskInode_encode di bs) = 128"
  by (simp add: DiskInode_encode_def)

lemma length_direct_decode: "length (di_direct (DiskInode_decode bs)) = 28"
  by (simp add: DiskInode_decode_def Let_def)

lemma DiskInode_decode_encode:
  assumes "length (di_direct di) = 28"
  shows "DiskInode_decode (DiskInode_encode di bs) = di"
proof -
  let ?ws = "di_size di # di_direct di @ [di_indirect1 di, di_indirect2 di]"
  have "le_words 31 (DiskInode_encode di bs) = ?ws"
    using assms le_words_le_words_bytes [of ?ws 31]
    by (simp add: DiskInode_encode_def le_words_prefix)
  moreover have "DiskInode_encode di bs ! 124 = (case di_type di of File \<Rightarrow> 0 | Directory \<Rightarrow> 1)"
    using assms by (simp add: DiskInode_encode_def nth_append)
  ultimately show ?thesis
    using assms by (simp add: DiskInode_decode_def Let_def nth_append nth_Cons' split: DiskInodeType.split)
qed

interpretation disk_inode: sound_view DiskInode_view "\<lambda>di. length (di_direct di) = 28"
  by unfold_locales
    (simp_all add: DiskInode_view_def DiskInode_decode_encode length_DiskInode_encode length_direct_decode)

interpretation indirect_block: sound_view IndirectBlock "\<lambda>ws. length ws = 128"
  by unfold_locales (simp_all add: IndirectBlock_def le_words_le_words_bytes)

definition DiskInode_initialize :: "DiskInodeType \<Rightarrow> DiskInode \<Rightarrow> DiskInode" where
  "DiskInode_initialize type di =
     di\<lparr>di_size := 0, di_direct := map (\<lambda>_. 0) (di_direct di), di_indirect1 := 0, di_indirect2 := 0, di_type := type\<rparr>"

definition DiskInode_is_dir :: "DiskInode \<Rightarrow> bool" where
  "DiskInode_is_dir di \<longleftrightarrow> di_type di = Directory"

definition DiskInode_is_file :: "DiskInode \<Rightarrow> bool" where
  "DiskInode_is_file di \<longleftrightarrow> di_type di = File"

definition data_blocks_of :: "u32 \<Rightarrow> u32" where
  "data_blocks_of sz = (sz + of_nat BLOCK_SZ - 1) div of_nat BLOCK_SZ"

definition DiskInode_data_blocks :: "DiskInode \<Rightarrow> u32" where
  "DiskInode_data_blocks di = data_blocks_of (di_size di)"

definition DiskInode_total_blocks :: "u32 \<Rightarrow> u32" where
  "DiskInode_total_blocks sz =
     (let data_blocks = unat (data_blocks_of sz);
          total = data_blocks;
          total = (if data_blocks > INODE_DIRECT_COUNT then total + 1 else total);
          total = (if data_blocks > INDIRECT1_BOUND
            then total + 1 + (data_blocks - INDIRECT1_BOUND + INODE_INDIRECT1_COUNT - 1) div INODE_INDIRECT1_COUNT
            else total)
      in of_nat total)"

definition DiskInode_blocks_num_needed :: "DiskInode \<Rightarrow> u32 \<Rightarrow> u32 outcome" where
  "DiskInode_blocks_num_needed di new_size =
     and_then (assert_that (new_size \<ge> di_size di)) (\<lambda>_.
     Inr (DiskInode_total_blocks new_size - DiskInode_total_blocks (di_size di)))"

section \<open>Directory entries\<close>

text \<open>
  A name is the bytes of a \<open>str\<close>. \<open>utf8_valid\<close> is what \<open>core::str::from_utf8\<close> accepts: well-formed UTF-8,
  without overlong forms, surrogates and values past the last code point.
\<close>

record DirEntry =
  de_name :: "u8 list"
  de_inode_id :: u32

definition utf8_cont :: "u8 \<Rightarrow> bool" where
  "utf8_cont b \<longleftrightarrow> 0x80 \<le> b \<and> b \<le> 0xBF"

fun utf8_valid :: "u8 list \<Rightarrow> bool" where
  "utf8_valid [] = True"
| "utf8_valid (b # bs) =
     (if b < 0x80 then utf8_valid bs
      else if 0xC2 \<le> b \<and> b \<le> 0xDF then
        (case bs of c # r \<Rightarrow> utf8_cont c \<and> utf8_valid r | _ \<Rightarrow> False)
      else if 0xE0 \<le> b \<and> b \<le> 0xEF then
        (case bs of
           c # d # r \<Rightarrow> utf8_cont c \<and> utf8_cont d \<and> (b = 0xE0 \<longrightarrow> 0xA0 \<le> c) \<and> (b = 0xED \<longrightarrow> c \<le> 0x9F) \<and> utf8_valid r
         | _ \<Rightarrow> False)
      else if 0xF0 \<le> b \<and> b \<le> 0xF4 then
        (case bs of
           c # d # e # r \<Rightarrow> utf8_cont c \<and> utf8_cont d \<and> utf8_cont e \<and> (b = 0xF0 \<longrightarrow> 0x90 \<le> c) \<and>
             (b = 0xF4 \<longrightarrow> c \<le> 0x8F) \<and> utf8_valid r
         | _ \<Rightarrow> False)
      else False)"

definition DirEntry_empty :: DirEntry where
  "DirEntry_empty = \<lparr>de_name = replicate (NAME_LENGTH_LIMIT + 1) 0, de_inode_id = 0\<rparr>"

definition DirEntry_new :: "u8 list \<Rightarrow> u32 \<Rightarrow> DirEntry outcome" where
  "DirEntry_new name inode_id =
     and_then (copy_from_slice (replicate (NAME_LENGTH_LIMIT + 1) 0) 0 name) (\<lambda>bytes.
     Inr \<lparr>de_name = bytes, de_inode_id = inode_id\<rparr>)"

definition DirEntry_as_bytes :: "DirEntry \<Rightarrow> u8 list" where
  "DirEntry_as_bytes de = de_name de @ le_bytes (de_inode_id de)"

text \<open>What the entry is after its bytes were written through \<open>as_bytes_mut\<close>.\<close>

definition DirEntry_of_bytes :: "u8 list \<Rightarrow> DirEntry" where
  "DirEntry_of_bytes bs = \<lparr>de_name = take 28 bs, de_inode_id = le_word (take 4 (drop 28 bs))\<rparr>"

definition DirEntry_name :: "DirEntry \<Rightarrow> u8 list outcome" where
  "DirEntry_name de =
     (case position (\<lambda>b. b = 0) (de_name de) of
        None \<Rightarrow> Inl IndexOutOfBounds
      | Some len \<Rightarrow> if utf8_valid (take len (de_name de)) then Inr (take len (de_name de)) else Inl UnwrapNone)"

text \<open>The names a directory can hold: at most 27 bytes, well formed and without a zero byte.\<close>

definition name_ok :: "u8 list \<Rightarrow> bool" where
  "name_ok name \<longleftrightarrow> length name \<le> NAME_LENGTH_LIMIT \<and> 0 \<notin> set name \<and> utf8_valid name"

lemma DirEntry_new_fits:
  "length name \<le> 28 \<Longrightarrow>
     DirEntry_new name i = Inr \<lparr>de_name = name @ replicate (28 - length name) 0, de_inode_id = i\<rparr>"
  by (simp add: DirEntry_new_def NAME_LENGTH_LIMIT_def)

lemma position_zero_padded:
  "0 \<notin> set name \<Longrightarrow> 0 < n \<Longrightarrow> position (\<lambda>b. b = 0) (name @ replicate n 0) = Some (length name)"
  by (auto simp: position_Some nth_append in_set_conv_nth)

lemma DirEntry_bytes_roundtrip:
  "length (de_name de) = 28 \<Longrightarrow> DirEntry_of_bytes (DirEntry_as_bytes de) = de"
  by (simp add: DirEntry_of_bytes_def DirEntry_as_bytes_def)

lemma DirEntry_name_new:
  assumes "name_ok name" "DirEntry_new name i = Inr de"
  shows "DirEntry_name de = Inr name \<and> de_inode_id de = i \<and> length (de_name de) = 28"
proof -
  have len: "length name \<le> 27" using assms(1) by (simp add: name_ok_def NAME_LENGTH_LIMIT_def)
  then have de: "de = \<lparr>de_name = name @ replicate (28 - length name) 0, de_inode_id = i\<rparr>"
    using assms(2) DirEntry_new_fits [of name i] by simp
  then show ?thesis
    using assms(1) len position_zero_padded [of name "28 - length name"] by (simp add: DirEntry_name_def name_ok_def)
qed

text \<open>
  A directory entry keeps what it was made of: for every name of at most 27 bytes, the entry made by
  \<open>DirEntry::new\<close>, turned into its 32 bytes and read back from them, has that name and that inode number.
\<close>

lemma dir_entry_roundtrip:
  assumes "name_ok name"
  shows "\<exists>de. DirEntry_new name inode_id = Inr de \<and> length (DirEntry_as_bytes de) = DIRENT_SZ \<and>
    DirEntry_name (DirEntry_of_bytes (DirEntry_as_bytes de)) = Inr name \<and>
    de_inode_id (DirEntry_of_bytes (DirEntry_as_bytes de)) = inode_id"
proof -
  have "length name \<le> 28" using assms by (simp add: name_ok_def NAME_LENGTH_LIMIT_def)
  then obtain de where de: "DirEntry_new name inode_id = Inr de" using DirEntry_new_fits by blast
  note spec = DirEntry_name_new [OF assms de]
  then show ?thesis
    using de DirEntry_bytes_roundtrip [of de] by (simp add: DirEntry_as_bytes_def DIRENT_SZ_def)
qed

lemma dir_entry_roundtrip_example:
  "\<exists>de. DirEntry_new [102, 105, 108, 101, 97] 5 = Inr de \<and> length (DirEntry_as_bytes de) = DIRENT_SZ \<and>
    DirEntry_name (DirEntry_of_bytes (DirEntry_as_bytes de)) = Inr [102, 105, 108, 101, 97] \<and>
    de_inode_id (DirEntry_of_bytes (DirEntry_as_bytes de)) = 5"
  by (rule dir_entry_roundtrip) (simp add: name_ok_def NAME_LENGTH_LIMIT_def)

text \<open>
  C39. \<open>NAME_LENGTH_LIMIT\<close> is not enforced: \<open>DirEntry::new\<close> accepts a name of 28 bytes, which leaves no room
  for the terminating zero, and every later \<open>name()\<close> of that entry panics on an index out of bounds. Longer
  names panic at once.
\<close>

theorem dir_entry_long_names:
  assumes "length name \<ge> 28" "0 \<notin> set name"
  shows "if length name = 28
    then \<exists>de. DirEntry_new name inode_id = Inr de \<and>
      DirEntry_name (DirEntry_of_bytes (DirEntry_as_bytes de)) = Inl IndexOutOfBounds
    else DirEntry_new name inode_id = Inl IndexOutOfBounds"
proof (cases "length name = 28")
  case True
  then show ?thesis
    using assms(2) DirEntry_bytes_roundtrip [of "\<lparr>de_name = name, de_inode_id = inode_id\<rparr>"] DirEntry_new_fits [of name inode_id]
    by (auto simp: DirEntry_name_def position_None split: option.split)
next
  case False
  then show ?thesis using assms(1) by (simp add: DirEntry_new_def copy_from_slice_def NAME_LENGTH_LIMIT_def)
qed

theorem dir_entry_long_names_witness:
  "(\<exists>de. DirEntry_new (replicate 28 97) 3 = Inr de \<and>
      DirEntry_name (DirEntry_of_bytes (DirEntry_as_bytes de)) = Inl IndexOutOfBounds) \<and>
   DirEntry_new (replicate 29 97) 3 = Inl IndexOutOfBounds"
  using dir_entry_long_names [of "replicate 28 97" 3] dir_entry_long_names [of "replicate 29 97" 3] by simp

section \<open>Size arithmetic\<close>

lemma data_blocks_of_eq:
  assumes "unat sz \<le> 2 ^ 32 - 512"
  shows "unat (data_blocks_of sz) = (unat sz + 511) div 512"
proof -
  have "unat (sz + 511) = unat sz + 511" using assms by (subst unat_plus_if') simp
  moreover have "data_blocks_of sz = (sz + 511) div 512" by (simp add: data_blocks_of_def BLOCK_SZ_def add.commute)
  ultimately show ?thesis by (simp add: unat_div_distrib)
qed

text \<open>Past that the sum wraps, and a file of almost 4 GiB would count as empty.\<close>

lemma data_blocks_of_wraps: "data_blocks_of (2 ^ 32 - 511) = 0"
  by (simp add: data_blocks_of_def BLOCK_SZ_def)

end
