(* ===== verification/Disk_Inode.thy ===== *)
theory Disk_Inode
  imports Layout "HOL-Library.Multiset"
begin

text \<open>
  The operations of \<open>DiskInode\<close> that go to the disk (\<^verbatim>\<open>easy-fs/src/layout.rs\<close>): finding the block that holds a
  part of the file, growing and clearing the block tree, reading and writing. They are written over a
  store; the block of the inode itself is held by the caller while they run. Block counts are natural
  numbers: every subtraction of the code is behind the comparison that keeps it from wrapping.
\<close>

section \<open>Finding a block\<close>

definition get_block_id :: "'s store \<Rightarrow> DiskInode \<Rightarrow> nat \<Rightarrow> 's \<Rightarrow> (u32 \<times> 's) outcome" where
  "get_block_id st di inner_id s =
     (if inner_id < INODE_DIRECT_COUNT then
        and_then (array_index (di_direct di) inner_id) (\<lambda>b. Inr (b, s))
      else if inner_id < INDIRECT1_BOUND then
        cache_read st (unat (di_indirect1 di)) IndirectBlock 0 (\<lambda>indirect_block s.
          and_then (array_index indirect_block (inner_id - INODE_DIRECT_COUNT)) (\<lambda>b. Inr (b, s))) s
      else let last = inner_id - INDIRECT1_BOUND in
        and_then (cache_read st (unat (di_indirect2 di)) IndirectBlock 0 (\<lambda>indirect2 s.
          and_then (array_index indirect2 (last div INODE_INDIRECT1_COUNT)) (\<lambda>b. Inr (b, s))) s) (\<lambda>(indirect1, s1).
        cache_read st (unat indirect1) IndirectBlock 0 (\<lambda>indirect1 s.
          and_then (array_index indirect1 (last mod INODE_INDIRECT1_COUNT)) (\<lambda>b. Inr (b, s))) s1))"

section \<open>Growing\<close>

text \<open>\<open>new_blocks.next().unwrap()\<close>.\<close>

definition next_block :: "u32 list \<Rightarrow> (u32 \<times> u32 list) outcome" where
  "next_block new_blocks = unwrap (pop_front new_blocks)"

text \<open>The loops that fill the direct entries and the first indirect block, up to a limit within the array.\<close>

function fill_entries :: "nat \<Rightarrow> nat \<Rightarrow> u32 list \<Rightarrow> u32 list \<Rightarrow> (nat \<times> u32 list \<times> u32 list) outcome" where
  "fill_entries current limit entries new_blocks =
     (if current < limit
      then and_then (next_block new_blocks) (\<lambda>(b, new_blocks).
           and_then (array_update entries current b) (\<lambda>entries.
           fill_entries (current + 1) limit entries new_blocks))
      else Inr (current, entries, new_blocks))"
  by pat_completeness auto
termination by (relation "measure (\<lambda>(c, l, _). l - c)") auto

declare fill_entries.simps [simp del]

lemma view_IndirectBlock_length [simp]: "length (view_at IndirectBlock 0 b) = 128"
  by (simp add: view_at_def IndirectBlock_def)

lemma cache_modify_closure:
  "cache_modify st i vw off f s = Inr (r, s') \<Longrightarrow> \<exists>b s1 x s2. f (view_at vw off b) s1 = Inr (r, x, s2)"
  by (auto simp: cache_modify_def panic_simps split: prod.splits)

lemma fill_step_in_block:
  assumes "cache_modify st i IndirectBlock 0 (\<lambda>indirect1 s.
      and_then (next_block nb) (\<lambda>(b, nb). and_then (array_update indirect1 b0 b) (\<lambda>indirect1. Inr (nb, indirect1, s)))) s = Inr (r, s')"
  shows "b0 < 128"
  using cache_modify_closure [OF assms] by (auto simp: panic_simps split: prod.splits)

text \<open>The loop over the second-level entries, from \<open>(a0, b0)\<close> to \<open>(a1, b1)\<close>.\<close>

function fill_indirect2 ::
  "'s store \<Rightarrow> nat \<Rightarrow> nat \<Rightarrow> nat \<Rightarrow> nat \<Rightarrow> u32 list \<Rightarrow> u32 list \<Rightarrow> 's \<Rightarrow> (u32 list \<times> u32 list \<times> 's) outcome" where
  "fill_indirect2 st a0 b0 a1 b1 indirect2 new_blocks s =
     (if a0 < a1 \<or> (a0 = a1 \<and> b0 < b1) then
        and_then (if b0 = 0
          then and_then (next_block new_blocks) (\<lambda>(b, new_blocks).
               and_then (array_update indirect2 a0 b) (\<lambda>indirect2. Inr (indirect2, new_blocks)))
          else Inr (indirect2, new_blocks)) (\<lambda>(indirect2, new_blocks).
        and_then (array_index indirect2 a0) (\<lambda>entry.
        and_then (cache_modify st (unat entry) IndirectBlock 0 (\<lambda>indirect1 s.
          and_then (next_block new_blocks) (\<lambda>(b, new_blocks).
          and_then (array_update indirect1 b0 b) (\<lambda>indirect1. Inr (new_blocks, indirect1, s)))) s) (\<lambda>(new_blocks, s).
        if b0 + 1 = INODE_INDIRECT1_COUNT
        then fill_indirect2 st (a0 + 1) 0 a1 b1 indirect2 new_blocks s
        else fill_indirect2 st a0 (b0 + 1) a1 b1 indirect2 new_blocks s)))
      else Inr (indirect2, new_blocks, s))"
  by pat_completeness auto
termination
proof (relation "measure (\<lambda>(st, a0, b0, a1, b1, _). a1 * 128 + b1 - (a0 * 128 + b0))", goal_cases)
  case 1
  then show ?case by simp
next
  case (2 st a0 b0 a1 b1 indirect2 new_blocks s x i2 nb y z nb' s')
  from 2(5) [folded 2(6)] have "b0 < 128" by (rule fill_step_in_block)
  then show ?case using 2 by (auto simp: INODE_INDIRECT1_COUNT_def BLOCK_SZ_def)
next
  case (3 st a0 b0 a1 b1 indirect2 new_blocks s x i2 nb y z nb' s')
  from 3(5) [folded 3(6)] have "b0 < 128" by (rule fill_step_in_block)
  then show ?case using 3 by auto
qed

declare fill_indirect2.simps [simp del]

definition DiskInode_increase_size ::
  "'s store \<Rightarrow> u32 \<Rightarrow> u32 list \<Rightarrow> DiskInode \<Rightarrow> 's \<Rightarrow> (DiskInode \<times> 's) outcome" where
  "DiskInode_increase_size st new_size new_blocks di s =
     (let current_blocks = unat (DiskInode_data_blocks di);
          di = di\<lparr>di_size := new_size\<rparr>;
          total_blocks = unat (DiskInode_data_blocks di)
      in and_then (fill_entries current_blocks (min total_blocks INODE_DIRECT_COUNT) (di_direct di) new_blocks)
         (\<lambda>(current_blocks, direct, new_blocks). let di = di\<lparr>di_direct := direct\<rparr> in
      if \<not> total_blocks > INODE_DIRECT_COUNT then Inr (di, s)
      else and_then (if current_blocks = INODE_DIRECT_COUNT
             then and_then (next_block new_blocks) (\<lambda>(b, new_blocks). Inr (di\<lparr>di_indirect1 := b\<rparr>, new_blocks))
             else Inr (di, new_blocks)) (\<lambda>(di, new_blocks).
      let current_blocks = current_blocks - INODE_DIRECT_COUNT; total_blocks = total_blocks - INODE_DIRECT_COUNT in
      and_then (cache_modify st (unat (di_indirect1 di)) IndirectBlock 0 (\<lambda>indirect1 s.
          and_then (fill_entries current_blocks (min total_blocks INODE_INDIRECT1_COUNT) indirect1 new_blocks)
            (\<lambda>(current_blocks, indirect1, new_blocks). Inr ((current_blocks, new_blocks), indirect1, s))) s)
        (\<lambda>((current_blocks, new_blocks), s).
      if \<not> total_blocks > INODE_INDIRECT1_COUNT then Inr (di, s)
      else and_then (if current_blocks = INODE_INDIRECT1_COUNT
             then and_then (next_block new_blocks) (\<lambda>(b, new_blocks). Inr (di\<lparr>di_indirect2 := b\<rparr>, new_blocks))
             else Inr (di, new_blocks)) (\<lambda>(di, new_blocks).
      let current_blocks = current_blocks - INODE_INDIRECT1_COUNT; total_blocks = total_blocks - INODE_INDIRECT1_COUNT;
          a0 = current_blocks div INODE_INDIRECT1_COUNT; b0 = current_blocks mod INODE_INDIRECT1_COUNT;
          a1 = total_blocks div INODE_INDIRECT1_COUNT; b1 = total_blocks mod INODE_INDIRECT1_COUNT in
      and_then (cache_modify st (unat (di_indirect2 di)) IndirectBlock 0 (\<lambda>indirect2 s.
          and_then (fill_indirect2 st a0 b0 a1 b1 indirect2 new_blocks s) (\<lambda>(indirect2, _, s). Inr ((), indirect2, s))) s)
        (\<lambda>(_, s). Inr (di, s)))))))"

section \<open>Clearing\<close>

text \<open>\<open>clear_size\<close>: the blocks are collected in \<open>v\<close> in the order the code pushes them.\<close>

function clear_direct :: "nat \<Rightarrow> nat \<Rightarrow> u32 list \<Rightarrow> u32 list \<Rightarrow> (u32 list \<times> u32 list) outcome" where
  "clear_direct current limit direct v =
     (if current < limit
      then and_then (array_index direct current) (\<lambda>b.
           and_then (array_update direct current 0) (\<lambda>direct.
           clear_direct (current + 1) limit direct (v @ [b])))
      else Inr (direct, v))"
  by pat_completeness auto
termination by (relation "measure (\<lambda>(c, l, _). l - c)") auto

declare clear_direct.simps [simp del]

fun collect_full :: "'s store \<Rightarrow> u32 list \<Rightarrow> u32 list \<Rightarrow> 's \<Rightarrow> (u32 list \<times> 's) outcome" where
  "collect_full st [] v s = Inr (v, s)"
| "collect_full st (entry # entries) v s =
     and_then (cache_modify st (unat entry) IndirectBlock 0 (\<lambda>indirect1 s. Inr (v @ [entry] @ indirect1, indirect1, s)) s)
       (\<lambda>(v, s). collect_full st entries v s)"

definition DiskInode_clear_size :: "'s store \<Rightarrow> DiskInode \<Rightarrow> 's \<Rightarrow> ((u32 list \<times> DiskInode) \<times> 's) outcome" where
  "DiskInode_clear_size st di s =
     (let data_blocks = unat (DiskInode_data_blocks di);
          di = di\<lparr>di_size := 0\<rparr>
      in and_then (clear_direct 0 (min data_blocks INODE_DIRECT_COUNT) (di_direct di) []) (\<lambda>(direct, v).
      let di = di\<lparr>di_direct := direct\<rparr> in
      if \<not> data_blocks > INODE_DIRECT_COUNT then Inr ((v, di), s)
      else let v = v @ [di_indirect1 di]; data_blocks = data_blocks - INODE_DIRECT_COUNT in
      and_then (cache_modify st (unat (di_indirect1 di)) IndirectBlock 0 (\<lambda>indirect1 s.
          and_then (subslice indirect1 0 (min data_blocks INODE_INDIRECT1_COUNT)) (\<lambda>bs. Inr (v @ bs, indirect1, s))) s)
        (\<lambda>(v, s).
      let di = di\<lparr>di_indirect1 := 0\<rparr> in
      if \<not> data_blocks > INODE_INDIRECT1_COUNT then Inr ((v, di), s)
      else let v = v @ [di_indirect2 di]; data_blocks = data_blocks - INODE_INDIRECT1_COUNT in
      and_then (assert_that (data_blocks \<le> INODE_INDIRECT2_COUNT)) (\<lambda>_.
      let a1 = data_blocks div INODE_INDIRECT1_COUNT; b1 = data_blocks mod INODE_INDIRECT1_COUNT in
      and_then (cache_modify st (unat (di_indirect2 di)) IndirectBlock 0 (\<lambda>indirect2 s.
          and_then (collect_full st (take a1 indirect2) v s) (\<lambda>(v, s).
          if b1 > 0 then
            and_then (array_index indirect2 a1) (\<lambda>entry.
            and_then (cache_modify st (unat entry) IndirectBlock 0 (\<lambda>indirect1 s.
              Inr (v @ [entry] @ take b1 indirect1, indirect1, s)) s) (\<lambda>(v, s). Inr (v, indirect2, s)))
          else Inr (v, indirect2, s))) s) (\<lambda>(v, s).
      Inr ((v, di\<lparr>di_indirect2 := 0\<rparr>), s))))))"

section \<open>Reading and writing\<close>

text \<open>The end of the block \<open>start\<close> lies in, cut at the end of the transfer.\<close>

definition end_of_block :: "nat \<Rightarrow> nat \<Rightarrow> nat" where
  "end_of_block start stop = min ((start div BLOCK_SZ + 1) * BLOCK_SZ) stop"

lemma end_of_block_progress: "end_of_block start stop \<noteq> stop \<Longrightarrow> stop - end_of_block start stop < stop - start"
  by (auto simp: end_of_block_def BLOCK_SZ_def)

function read_loop ::
  "'s store \<Rightarrow> DiskInode \<Rightarrow> nat \<Rightarrow> nat \<Rightarrow> nat \<Rightarrow> nat \<Rightarrow> u8 list \<Rightarrow> 's \<Rightarrow> ((nat \<times> u8 list) \<times> 's) outcome" where
  "read_loop st di start stop start_block read_size buf s =
     (let end_current_block = end_of_block start stop;
          block_read_size = end_current_block - start
      in and_then (get_block_id st di (start_block mod 2 ^ 32) s) (\<lambda>(id, s).
         and_then (cache_read st (unat id) DataBlock 0 (\<lambda>data_block s.
           and_then (subslice data_block (start mod BLOCK_SZ) block_read_size) (\<lambda>src.
           and_then (copy_from_slice buf read_size src) (\<lambda>buf. Inr (buf, s)))) s) (\<lambda>(buf, s).
         if end_current_block = stop then Inr ((read_size + block_read_size, buf), s)
         else read_loop st di end_current_block stop (start_block + 1) (read_size + block_read_size) buf s)))"
  by pat_completeness auto
termination
  by (relation "measure (\<lambda>(st, di, start, stop, _). stop - start)") (auto simp: end_of_block_progress)

declare read_loop.simps [simp del]

definition DiskInode_read_at ::
  "'s store \<Rightarrow> DiskInode \<Rightarrow> nat \<Rightarrow> u8 list \<Rightarrow> 's \<Rightarrow> ((nat \<times> u8 list) \<times> 's) outcome" where
  "DiskInode_read_at st di offset buf s =
     (let start = offset; stop = min ((offset + length buf) mod 2 ^ 64) (unat (di_size di))
      in if start \<ge> stop then Inr ((0, buf), s)
         else read_loop st di start stop (start div BLOCK_SZ) 0 buf s)"

function write_loop ::
  "'s store \<Rightarrow> DiskInode \<Rightarrow> nat \<Rightarrow> nat \<Rightarrow> nat \<Rightarrow> nat \<Rightarrow> u8 list \<Rightarrow> 's \<Rightarrow> (nat \<times> 's) outcome" where
  "write_loop st di start stop start_block write_size buf s =
     (let end_current_block = end_of_block start stop;
          block_write_size = end_current_block - start
      in and_then (get_block_id st di (start_block mod 2 ^ 32) s) (\<lambda>(id, s).
         and_then (cache_modify st (unat id) DataBlock 0 (\<lambda>data_block s.
           and_then (subslice buf write_size block_write_size) (\<lambda>src.
           and_then (copy_from_slice data_block (start mod BLOCK_SZ) src) (\<lambda>data_block. Inr ((), data_block, s)))) s) (\<lambda>(_, s).
         if end_current_block = stop then Inr (write_size + block_write_size, s)
         else write_loop st di end_current_block stop (start_block + 1) (write_size + block_write_size) buf s)))"
  by pat_completeness auto
termination
  by (relation "measure (\<lambda>(st, di, start, stop, _). stop - start)") (auto simp: end_of_block_progress)

declare write_loop.simps [simp del]

definition DiskInode_write_at ::
  "'s store \<Rightarrow> DiskInode \<Rightarrow> nat \<Rightarrow> u8 list \<Rightarrow> 's \<Rightarrow> (nat \<times> 's) outcome" where
  "DiskInode_write_at st di offset buf s =
     (let start = offset; stop = min ((offset + length buf) mod 2 ^ 64) (unat (di_size di))
      in and_then (assert_that (start \<le> stop)) (\<lambda>_.
         write_loop st di start stop (start div BLOCK_SZ) 0 buf s))"

section \<open>The block tree as a function\<close>

text \<open>
  \<open>block_of di D k\<close> is the block that holds part \<open>k\<close> of the file when the disk has the contents \<open>D\<close>,
  \<open>index_of\<close> the indirect blocks on the way to it, \<open>all_blocks\<close> every block of a file of \<open>n\<close> data blocks.
  \<open>inode_ok\<close> says that no block is used twice.
\<close>

definition iblock :: "(nat \<Rightarrow> block) \<Rightarrow> u32 \<Rightarrow> u32 list" where
  "iblock D i = view_at IndirectBlock 0 (D (unat i))"

definition block_of :: "DiskInode \<Rightarrow> (nat \<Rightarrow> block) \<Rightarrow> nat \<Rightarrow> u32" where
  "block_of di D k =
     (if k < 28 then di_direct di ! k
      else if k < 156 then iblock D (di_indirect1 di) ! (k - 28)
      else iblock D (iblock D (di_indirect2 di) ! ((k - 156) div 128)) ! ((k - 156) mod 128))"

definition index_of :: "DiskInode \<Rightarrow> (nat \<Rightarrow> block) \<Rightarrow> nat \<Rightarrow> u32 set" where
  "index_of di D k =
     (if k < 28 then {}
      else if k < 156 then {di_indirect1 di}
      else {di_indirect2 di, iblock D (di_indirect2 di) ! ((k - 156) div 128)})"

definition index_blocks :: "DiskInode \<Rightarrow> (nat \<Rightarrow> block) \<Rightarrow> nat \<Rightarrow> u32 list" where
  "index_blocks di D n =
     (if n > 28 then [di_indirect1 di] else []) @
     (if n > 156 then di_indirect2 di # take ((n - 156 + 127) div 128) (iblock D (di_indirect2 di)) else [])"

definition data_list :: "DiskInode \<Rightarrow> (nat \<Rightarrow> block) \<Rightarrow> nat \<Rightarrow> u32 list" where
  "data_list di D n = map (block_of di D) [0..<n]"

definition all_blocks :: "DiskInode \<Rightarrow> (nat \<Rightarrow> block) \<Rightarrow> nat \<Rightarrow> u32 list" where
  "all_blocks di D n = data_list di D n @ index_blocks di D n"

definition inode_ok :: "DiskInode \<Rightarrow> (nat \<Rightarrow> block) \<Rightarrow> nat \<Rightarrow> bool" where
  "inode_ok di D n \<longleftrightarrow> length (di_direct di) = 28 \<and> n \<le> INDIRECT2_BOUND \<and> distinct (all_blocks di D n)"

definition file_byte :: "DiskInode \<Rightarrow> (nat \<Rightarrow> block) \<Rightarrow> nat \<Rightarrow> u8" where
  "file_byte di D p = D (unat (block_of di D (p div BLOCK_SZ))) ! (p mod BLOCK_SZ)"

lemma length_iblock [simp]: "length (iblock D i) = 128"
  by (simp add: iblock_def)

lemma block_counts: "INODE_DIRECT_COUNT = 28" "INODE_INDIRECT1_COUNT = 128" "INDIRECT1_BOUND = 156"
  "INODE_INDIRECT2_COUNT = 16384" "INDIRECT2_BOUND = 16540"
  by (simp_all add: layout_constants)

lemma second_level_bound: "k < INDIRECT2_BOUND \<Longrightarrow> (k - 156) div 128 < 128"
  by (simp add: block_counts less_mult_imp_div_less)

lemma index_of_subset:
  assumes "k < n" "n \<le> INDIRECT2_BOUND"
  shows "index_of di D k \<subseteq> set (index_blocks di D n)"
proof (cases "k < 156")
  case True
  then show ?thesis using assms(1) by (auto simp: index_of_def index_blocks_def)
next
  case False
  define a where "a = (k - 156) div 128"
  have "a < (n - 156 + 127) div 128" using assms(1) False unfolding a_def by linarith
  moreover have "a < 128" using assms second_level_bound [of k] by (simp add: a_def)
  ultimately have "iblock D (di_indirect2 di) ! a \<in> set (take ((n - 156 + 127) div 128) (iblock D (di_indirect2 di)))"
    by (auto simp: in_set_conv_nth intro!: exI [of _ a])
  then show ?thesis using False assms(1) by (auto simp: index_of_def index_blocks_def a_def)
qed

lemma block_of_cong:
  assumes "\<And>i. i \<in> index_of di D k \<Longrightarrow> D' (unat i) = D (unat i)"
  shows "block_of di D' k = block_of di D k \<and> index_of di D' k = index_of di D k"
  using assms by (auto simp: block_of_def index_of_def iblock_def split: if_splits)

text \<open>Writing to the data blocks only changes the bytes of the file.\<close>

lemma all_blocks_cong:
  assumes "n \<le> INDIRECT2_BOUND" "\<And>i. i \<in> set (index_blocks di D n) \<Longrightarrow> D' (unat i) = D (unat i)"
  shows "data_list di D' n = data_list di D n" "index_blocks di D' n = index_blocks di D n"
proof -
  have "block_of di D' k = block_of di D k" if "k < n" for k
    using index_of_subset [OF that assms(1)] assms(2) block_of_cong by blast
  then show "data_list di D' n = data_list di D n" by (simp add: data_list_def)
  show "index_blocks di D' n = index_blocks di D n"
    using assms(2) by (auto simp: index_blocks_def iblock_def)
qed

lemma inode_ok_inj: "inode_ok di D n \<Longrightarrow> j < n \<Longrightarrow> k < n \<Longrightarrow> block_of di D j = block_of di D k \<Longrightarrow> j = k"
  by (auto simp: inode_ok_def all_blocks_def data_list_def distinct_map inj_on_def)

lemma inode_ok_apart: "inode_ok di D n \<Longrightarrow> k < n \<Longrightarrow> block_of di D k \<notin> set (index_blocks di D n)"
  by (auto simp: inode_ok_def all_blocks_def data_list_def disjoint_iff)

lemma block_in_all: "k < n \<Longrightarrow> block_of di D k \<in> set (all_blocks di D n)"
  by (simp add: all_blocks_def data_list_def)

section \<open>Lookups, reads and writes\<close>

lemma size_IndirectBlock [simp]: "bv_size IndirectBlock = BLOCK_SZ"
  by (simp add: IndirectBlock_def BLOCK_SZ_def)

lemma within_block:
  assumes "start \<le> p" "p < end_of_block start stop"
  shows "p div BLOCK_SZ = start div BLOCK_SZ" "p mod BLOCK_SZ = start mod BLOCK_SZ + (p - start)"
proof -
  have "p < (start div BLOCK_SZ + 1) * BLOCK_SZ" using assms(2) by (simp add: end_of_block_def)
  then have "p div BLOCK_SZ < start div BLOCK_SZ + 1" by (rule less_mult_imp_div_less)
  moreover have "start div BLOCK_SZ \<le> p div BLOCK_SZ" using assms(1) by (rule div_le_mono)
  ultimately show d: "p div BLOCK_SZ = start div BLOCK_SZ" by linarith
  show "p mod BLOCK_SZ = start mod BLOCK_SZ + (p - start)"
    using div_mult_mod_eq [of p BLOCK_SZ, unfolded d] div_mult_mod_eq [of start BLOCK_SZ] assms(1) by linarith
qed

lemma end_of_block_bounds:
  assumes "start \<le> stop"
  shows "start \<le> end_of_block start stop" "end_of_block start stop \<le> stop"
    "start mod BLOCK_SZ + (end_of_block start stop - start) \<le> BLOCK_SZ"
    "end_of_block start stop \<noteq> stop \<Longrightarrow> end_of_block start stop div BLOCK_SZ = start div BLOCK_SZ + 1 \<and>
      end_of_block start stop < stop"
proof -
  have "end_of_block start stop \<le> start div BLOCK_SZ * BLOCK_SZ + BLOCK_SZ" by (simp add: end_of_block_def)
  then show "start mod BLOCK_SZ + (end_of_block start stop - start) \<le> BLOCK_SZ"
    using div_mult_mod_eq [of start BLOCK_SZ] mod_less_divisor [of BLOCK_SZ start] BLOCK_SZ_pos by linarith
qed (use assms in \<open>auto simp: end_of_block_def BLOCK_SZ_def\<close>)

lemma block_chunk:
  assumes "start \<le> stop" "length (D (unat (block_of di D (start div BLOCK_SZ)))) = BLOCK_SZ"
  shows "take (end_of_block start stop - start) (drop (start mod BLOCK_SZ) (D (unat (block_of di D (start div BLOCK_SZ))))) =
    map (file_byte di D) [start..<end_of_block start stop]"
proof (rule nth_equalityI)
  fix j assume "j < length (take (end_of_block start stop - start)
    (drop (start mod BLOCK_SZ) (D (unat (block_of di D (start div BLOCK_SZ))))))"
  then have j: "start + j < end_of_block start stop" by (auto simp: less_diff_conv add.commute)
  then show "take (end_of_block start stop - start)
      (drop (start mod BLOCK_SZ) (D (unat (block_of di D (start div BLOCK_SZ))))) ! j =
    map (file_byte di D) [start..<end_of_block start stop] ! j"
    using within_block [of start "start + j" stop] end_of_block_bounds(3) [OF assms(1)] assms(2)
    by (simp add: file_byte_def)
qed (use end_of_block_bounds(3) [OF assms(1)] assms(2) in simp)

context block_store
begin

definition reach :: "'s \<Rightarrow> DiskInode \<Rightarrow> nat \<Rightarrow> bool" where
  "reach s di k \<longleftrightarrow> k < INDIRECT2_BOUND \<and> length (di_direct di) = 28 \<and>
     (\<forall>i \<in> insert (block_of di (disk s) k) (index_of di (disk s) k). free s (unat i))"

lemma reach_goes: "inv s \<Longrightarrow> goes s (disk s) s' \<Longrightarrow> reach s' di k \<longleftrightarrow> reach s di k"
  using goes_free [of s "disk s" s'] by (auto simp: reach_def goes_def)

lemma read_iblock:
  assumes "free s (unat i)" "k < 128"
  shows "\<exists>s'. cache_read st (unat i) IndirectBlock 0 (\<lambda>ib s. and_then (array_index ib k) (\<lambda>b. Inr (b, s))) s =
      Inr (iblock (disk s) i ! k, s') \<and> goes s (disk s) s'"
proof (rule cache_read_rule [OF assms(1)])
  fix s1 assume "inv s1" "disk s1 = disk s"
  then show "\<exists>s2. and_then (array_index (view_at IndirectBlock 0 (disk s (unat i))) k) (\<lambda>b. Inr (b, s1)) =
      Inr (iblock (disk s) i ! k, s2) \<and> goes s1 (disk s) s2"
    using assms(2) goes_refl [of s1] by (auto simp: iblock_def)
qed simp

lemma get_block_id_spec:
  assumes "inv s" "reach s di k"
  shows "\<exists>s'. get_block_id st di k s = Inr (block_of di (disk s) k, s') \<and> goes s (disk s) s'"
proof -
  consider "k < 28" | "28 \<le> k" "k < 156" | "156 \<le> k" by linarith
  then show ?thesis
  proof cases
    case 1
    then show ?thesis using assms goes_refl by (simp add: get_block_id_def block_counts reach_def block_of_def)
  next
    case 2
    then have "free s (unat (di_indirect1 di))" using assms(2) by (simp add: reach_def index_of_def)
    from read_iblock [OF this, of "k - 28"] show ?thesis
      using 2 by (simp add: get_block_id_def block_counts block_of_def)
  next
    case 3
    define i where "i = iblock (disk s) (di_indirect2 di) ! ((k - 156) div 128)"
    have fr: "free s (unat (di_indirect2 di))" "free s (unat i)" and k: "(k - 156) div 128 < 128"
      using assms(2) 3 second_level_bound [of k] by (auto simp: reach_def index_of_def i_def)
    obtain s1 where s1: "cache_read st (unat (di_indirect2 di)) IndirectBlock 0
        (\<lambda>ib s. and_then (array_index ib ((k - 156) div 128)) (\<lambda>b. Inr (b, s))) s = Inr (i, s1)" "goes s (disk s) s1"
      using read_iblock [OF fr(1) k] by (auto simp: i_def)
    have "free s1 (unat i)" "disk s1 = disk s" using goes_free [OF assms(1) s1(2)] fr(2) s1(2) by (simp_all add: goes_def)
    then obtain s2 where s2: "cache_read st (unat i) IndirectBlock 0
        (\<lambda>ib s. and_then (array_index ib ((k - 156) mod 128)) (\<lambda>b. Inr (b, s))) s1 =
        Inr (iblock (disk s) i ! ((k - 156) mod 128), s2)" "goes s1 (disk s) s2"
      using read_iblock [of s1 i "(k - 156) mod 128"] by auto
    show ?thesis
      using 3 s1(1) s2(1) goes_trans [OF s1(2) s2(2)]
      by (simp add: get_block_id_def block_counts block_of_def Let_def i_def)
  qed
qed

lemma read_loop_spec:
  assumes "inv s" "start < stop" "stop \<le> 2 ^ 32" "read_size + (stop - start) \<le> length buf"
    "\<And>p. start \<le> p \<Longrightarrow> p < stop \<Longrightarrow> reach s di (p div BLOCK_SZ)"
  shows "\<exists>s'. read_loop st di start stop (start div BLOCK_SZ) read_size buf s =
      Inr ((read_size + (stop - start),
        take read_size buf @ map (file_byte di (disk s)) [start..<stop] @ drop (read_size + (stop - start)) buf), s') \<and>
    goes s (disk s) s'"
  using assms
proof (induction "stop - start" arbitrary: start read_size buf s rule: less_induct)
  case less
  define e where "e = end_of_block start stop"
  define id where "id = block_of di (disk s) (start div BLOCK_SZ)"
  define chunk where "chunk = map (file_byte di (disk s)) [start..<e]"
  have le: "start \<le> stop" using less.prems(2) by simp
  note e = end_of_block_bounds [OF le, folded e_def]
  have r: "reach s di (start div BLOCK_SZ)" using less.prems(2,5) by simp
  have m: "start div BLOCK_SZ mod 2 ^ 32 = start div BLOCK_SZ"
    using less.prems(2,3) by (intro mod_less) (simp add: BLOCK_SZ_def less_mult_imp_div_less)
  obtain s1 where s1: "get_block_id st di (start div BLOCK_SZ) s = Inr (id, s1)" "goes s (disk s) s1"
    using get_block_id_spec [OF less.prems(1) r] by (auto simp: id_def)
  have fr: "free s1 (unat id)" using r goes_free [OF less.prems(1) s1(2)] by (simp add: reach_def id_def)
  have d1: "disk s1 = disk s" "inv s1" using s1(2) by (simp_all add: goes_def)
  have len: "length (disk s (unat id)) = BLOCK_SZ" using block_len [of s1 "unat id"] fr d1 by (simp add: free_def)
  have chunk: "take (e - start) (drop (start mod BLOCK_SZ) (disk s (unat id))) = chunk" "length chunk = e - start"
    using block_chunk [OF le, where D = "disk s" and di = di] len by (simp_all add: id_def e_def chunk_def)
  define buf1 where "buf1 = take read_size buf @ chunk @ drop (read_size + (e - start)) buf"
  have fits: "read_size + length chunk \<le> length buf" using less.prems(4) e(2) chunk(2) by simp
  obtain s2 where s2: "cache_read st (unat id) DataBlock 0 (\<lambda>data_block s.
      and_then (subslice data_block (start mod BLOCK_SZ) (e - start)) (\<lambda>src.
      and_then (copy_from_slice buf read_size src) (\<lambda>buf. Inr (buf, s)))) s1 = Inr (buf1, s2)" "goes s1 (disk s) s2"
  proof -
    have "\<exists>s'. cache_read st (unat id) DataBlock 0 (\<lambda>data_block s.
      and_then (subslice data_block (start mod BLOCK_SZ) (e - start)) (\<lambda>src.
      and_then (copy_from_slice buf read_size src) (\<lambda>buf. Inr (buf, s)))) s1 = Inr (buf1, s') \<and> goes s1 (disk s1) s'"
      by (rule cache_read_rule [OF fr])
        (use len e(3) d1 chunk fits in \<open>auto simp: buf1_def goes_def\<close>)
    then show thesis using that d1 by auto
  qed
  have g: "goes s (disk s) s2" using goes_trans [OF s1(2) s2(2)] .
  show ?case
  proof (cases "e = stop")
    case True
    then show ?thesis using s1(1) s2(1) g m
      by (subst read_loop.simps) (simp add: Let_def e_def [symmetric] buf1_def chunk_def)
  next
    case False
    have r2: "\<And>p. e \<le> p \<Longrightarrow> p < stop \<Longrightarrow> reach s2 di (p div BLOCK_SZ)"
      using less.prems(5) e(1) reach_goes [OF less.prems(1) g] by (meson le_trans)
    have len1: "read_size + (e - start) + (stop - e) \<le> length buf1"
      using less.prems(4) fits e by (simp add: buf1_def chunk(2))
    have "stop - e < stop - start" using end_of_block_progress False by (simp add: e_def)
    from less.hyps [OF this _ _ less.prems(3) len1 r2] obtain s3 where s3:
      "read_loop st di e stop (e div BLOCK_SZ) (read_size + (e - start)) buf1 s2 =
        Inr ((read_size + (e - start) + (stop - e), take (read_size + (e - start)) buf1 @
          map (file_byte di (disk s2)) [e..<stop] @ drop (read_size + (e - start) + (stop - e)) buf1), s3)"
      "goes s2 (disk s2) s3" using False e(4) g by (auto simp: goes_def)
    have d2: "disk s2 = disk s" using g by (simp add: goes_def)
    have sizes: "read_size + (e - start) + (stop - e) = read_size + (stop - start)" using e by simp
    have "take (read_size + (e - start)) buf1 = take read_size buf @ chunk"
      using fits chunk(2) by (simp add: buf1_def)
    moreover have "drop (read_size + (stop - start)) buf1 = drop (read_size + (stop - start)) buf"
      using fits chunk(2) e(1,2) by (simp add: buf1_def add.commute)
    moreover have "chunk @ map (file_byte di (disk s)) [e..<stop] = map (file_byte di (disk s)) [start..<stop]"
      using upt_add_eq_append [of start e "stop - e"] e(1,2) by (simp add: chunk_def)
    ultimately show ?thesis
      using s1(1) s2(1) s3 m False e(4) goes_trans [OF g s3(2)] d2 sizes
      by (subst read_loop.simps) (simp add: Let_def e_def [symmetric])
  qed
qed

end

lemma unat_eq_u32 [simp]: "unat (i :: u32) = unat j \<longleftrightarrow> i = j"
  by (simp add: word_unat_eq_iff)

text \<open>A store into one data block is a store into the bytes of the file.\<close>

lemma index_blocks_keep:
  assumes "inode_ok di D n" "k < n" "D' = D(unat (block_of di D k) := b)"
  shows "data_list di D' n = data_list di D n" "index_blocks di D' n = index_blocks di D n"
proof -
  have "D' (unat i) = D (unat i)" if "i \<in> set (index_blocks di D n)" for i
    using that assms(3) inode_ok_apart [OF assms(1,2)] by auto
  moreover have "n \<le> INDIRECT2_BOUND" using assms(1) by (simp add: inode_ok_def)
  ultimately show "data_list di D' n = data_list di D n" "index_blocks di D' n = index_blocks di D n"
    using all_blocks_cong [of n di D D'] by blast+
qed

lemma block_of_data_list: "data_list di D' n = data_list di D n \<Longrightarrow> k < n \<Longrightarrow> block_of di D' k = block_of di D k"
  by (simp add: data_list_def)

lemma inode_ok_same:
  "data_list di D' n = data_list di D n \<Longrightarrow> index_blocks di D' n = index_blocks di D n \<Longrightarrow> inode_ok di D' n \<longleftrightarrow> inode_ok di D n"
  by (simp add: inode_ok_def all_blocks_def)

lemma div_less_blocks: "p < n * BLOCK_SZ \<Longrightarrow> p div BLOCK_SZ < n"
  by (rule less_mult_imp_div_less)

lemma file_byte_store:
  assumes ok: "inode_ok di D n" and k: "start div BLOCK_SZ < n" and p: "p < n * BLOCK_SZ"
    and b: "b = D (unat (block_of di D (start div BLOCK_SZ)))" "length b = BLOCK_SZ"
    and src: "start mod BLOCK_SZ + length src \<le> BLOCK_SZ"
    and D': "D' = D(unat (block_of di D (start div BLOCK_SZ)) :=
      take (start mod BLOCK_SZ) b @ src @ drop (start mod BLOCK_SZ + length src) b)"
  shows "file_byte di D' p = (if start \<le> p \<and> p < start + length src then src ! (p - start) else file_byte di D p)"
proof -
  let ?o = "start mod BLOCK_SZ"
  have kp: "p div BLOCK_SZ < n" using p by (rule div_less_blocks)
  have same: "block_of di D' (p div BLOCK_SZ) = block_of di D (p div BLOCK_SZ)"
    using block_of_data_list [OF index_blocks_keep(1) [OF ok k D'] kp] .
  show ?thesis
  proof (cases "p div BLOCK_SZ = start div BLOCK_SZ")
    case True
    have "p mod BLOCK_SZ < BLOCK_SZ" by simp
    have eq: "start \<le> p \<longleftrightarrow> ?o \<le> p mod BLOCK_SZ" "p < start + length src \<longleftrightarrow> p mod BLOCK_SZ < ?o + length src"
      "p - start = p mod BLOCK_SZ - ?o"
      using div_mult_mod_eq [of p BLOCK_SZ, unfolded True] div_mult_mod_eq [of start BLOCK_SZ] by linarith+
    show ?thesis
      unfolding file_byte_def same unfolding True D' eq using b src \<open>p mod BLOCK_SZ < BLOCK_SZ\<close>
      by (auto simp: nth_append not_less)
  next
    case False
    then have "block_of di D (p div BLOCK_SZ) \<noteq> block_of di D (start div BLOCK_SZ)"
      using inode_ok_inj [OF ok kp k] by blast
    moreover have "\<not> (start \<le> p \<and> p < start + length src)"
    proof
      assume "start \<le> p \<and> p < start + length src"
      then have sp: "start \<le> p" "p < start + length src" by simp_all
      have "start + length src \<le> start div BLOCK_SZ * BLOCK_SZ + BLOCK_SZ"
        using src div_mult_mod_eq [of start BLOCK_SZ] by linarith
      then have "p < (start div BLOCK_SZ + 1) * BLOCK_SZ" using sp(2) by simp
      then show False
        using False div_le_mono [OF sp(1), of BLOCK_SZ] less_mult_imp_div_less [of p "start div BLOCK_SZ + 1" BLOCK_SZ]
        by linarith
    qed
    ultimately show ?thesis unfolding file_byte_def same unfolding D' by auto
  qed
qed

context block_store
begin

lemma inode_reach:
  assumes "inode_ok di (disk s) n" "\<And>i. i \<in> set (all_blocks di (disk s) n) \<Longrightarrow> free s (unat i)" "k < n"
  shows "reach s di k"
proof -
  have n: "n \<le> INDIRECT2_BOUND" "length (di_direct di) = 28" using assms(1) by (simp_all add: inode_ok_def)
  have "insert (block_of di (disk s) k) (index_of di (disk s) k) \<subseteq> set (all_blocks di (disk s) n)"
    using block_in_all [OF assms(3), of di "disk s"] index_of_subset [OF assms(3) n(1), of di "disk s"] by (auto simp: all_blocks_def)
  then show ?thesis using assms(2,3) n by (auto simp: reach_def)
qed

lemma write_step:
  assumes "inv s" "inode_ok di (disk s) n" "\<And>i. i \<in> set (all_blocks di (disk s) n) \<Longrightarrow> free s (unat i)"
    "start \<le> stop" "start div BLOCK_SZ < n" "start < 2 ^ 32" "write_size + (stop - start) \<le> length buf"
    "e = end_of_block start stop" "bid = block_of di (disk s) (start div BLOCK_SZ)"
  shows "\<exists>s1 s2 D'. get_block_id st di (start div BLOCK_SZ mod 2 ^ 32) s = Inr (bid, s1) \<and>
    cache_modify st (unat bid) DataBlock 0 (\<lambda>data_block s.
      and_then (subslice buf write_size (e - start)) (\<lambda>src.
      and_then (copy_from_slice data_block (start mod BLOCK_SZ) src) (\<lambda>data_block. Inr ((), data_block, s)))) s1 =
      Inr ((), s2) \<and> goes s D' s2 \<and>
    (\<forall>i. i \<noteq> unat bid \<longrightarrow> D' i = disk s i) \<and> data_list di D' n = data_list di (disk s) n \<and>
    index_blocks di D' n = index_blocks di (disk s) n \<and>
    (\<forall>p < n * BLOCK_SZ. file_byte di D' p =
      (if start \<le> p \<and> p < e then buf ! (write_size + (p - start)) else file_byte di (disk s) p))"
proof -
  note e = end_of_block_bounds [OF assms(4), folded assms(8)]
  define src where "src = take (e - start) (drop write_size buf)"
  have src: "length src = e - start" "write_size + (e - start) \<le> length buf" using assms(7) e(2) by (simp_all add: src_def)
  have m: "start div BLOCK_SZ mod 2 ^ 32 = start div BLOCK_SZ"
    using assms(6) by (intro mod_less) (simp add: BLOCK_SZ_def less_mult_imp_div_less)
  have r: "reach s di (start div BLOCK_SZ)" using inode_reach [OF assms(2,3,5)] .
  obtain s1 where s1: "get_block_id st di (start div BLOCK_SZ) s = Inr (bid, s1)" "goes s (disk s) s1"
    using get_block_id_spec [OF assms(1) r] assms(9) by auto
  have fr: "free s1 (unat bid)" using r goes_free [OF assms(1) s1(2)] assms(9) by (simp add: reach_def)
  have d1: "disk s1 = disk s" "inv s1" using s1(2) by (simp_all add: goes_def)
  define b where "b = disk s (unat bid)"
  have len: "length b = BLOCK_SZ" using block_len [of s1 "unat bid"] fr d1 by (simp add: free_def b_def)
  define b' where "b' = take (start mod BLOCK_SZ) b @ src @ drop (start mod BLOCK_SZ + length src) b"
  have len': "length b' = BLOCK_SZ" using len src(1) e(3) by (simp add: b'_def)
  define D' where "D' = (disk s)(unat bid := b')"
  have "\<exists>s'. cache_modify st (unat bid) DataBlock 0 (\<lambda>data_block s.
      and_then (subslice buf write_size (e - start)) (\<lambda>src.
      and_then (copy_from_slice data_block (start mod BLOCK_SZ) src) (\<lambda>data_block. Inr ((), data_block, s)))) s1 = Inr ((), s') \<and>
      goes s1 ((disk s1)(unat bid := set_view DataBlock 0 b' (disk s1 (unat bid)))) s'"
    by (rule cache_modify_rule [OF fr])
      (use len len' src e(3) d1 in \<open>auto simp: b_def [symmetric] b'_def src_def goes_def\<close>)
  then obtain s2 where s2: "cache_modify st (unat bid) DataBlock 0 (\<lambda>data_block s.
      and_then (subslice buf write_size (e - start)) (\<lambda>src.
      and_then (copy_from_slice data_block (start mod BLOCK_SZ) src) (\<lambda>data_block. Inr ((), data_block, s)))) s1 = Inr ((), s2)"
    "goes s1 D' s2"
    using len d1(1) by (auto simp: D'_def b_def)
  have upd: "D' = (disk s)(unat (block_of di (disk s) (start div BLOCK_SZ)) := b')" by (simp add: D'_def assms(9))
  have "file_byte di D' p = (if start \<le> p \<and> p < e then buf ! (write_size + (p - start)) else file_byte di (disk s) p)"
    if "p < n * BLOCK_SZ" for p
    using file_byte_store [OF assms(2,5) that, of b src D'] len src e(1,3) upd
    by (auto simp: b_def b'_def assms(9) src_def)
  then show ?thesis
    using s1(1) s2(1) goes_trans [OF s1(2) s2(2)] m index_blocks_keep [OF assms(2,5) upd]
    by (intro exI [of _ s1] exI [of _ s2] exI [of _ D']) (simp add: D'_def)
qed

lemma write_loop_spec:
  assumes "inv s" "inode_ok di (disk s) n" "\<And>i. i \<in> set (all_blocks di (disk s) n) \<Longrightarrow> free s (unat i)"
    "start \<le> stop" "start div BLOCK_SZ < n" "stop \<le> n * BLOCK_SZ" "start < 2 ^ 32" "stop \<le> 2 ^ 32"
    "write_size + (stop - start) \<le> length buf"
  shows "\<exists>s' D'. write_loop st di start stop (start div BLOCK_SZ) write_size buf s = Inr (write_size + (stop - start), s') \<and>
    goes s D' s' \<and> (\<forall>i. i \<notin> unat ` set (data_list di (disk s) n) \<longrightarrow> D' i = disk s i) \<and>
    data_list di D' n = data_list di (disk s) n \<and> index_blocks di D' n = index_blocks di (disk s) n \<and>
    (\<forall>p < n * BLOCK_SZ. file_byte di D' p =
      (if start \<le> p \<and> p < stop then buf ! (write_size + (p - start)) else file_byte di (disk s) p))"
  using assms
proof (induction "stop - start" arbitrary: start write_size s rule: less_induct)
  case less
  define e where "e = end_of_block start stop"
  define bid where "bid = block_of di (disk s) (start div BLOCK_SZ)"
  note e = end_of_block_bounds [OF less.prems(4), folded e_def]
  obtain s1 s2 D1 where step: "get_block_id st di (start div BLOCK_SZ mod 2 ^ 32) s = Inr (bid, s1)"
    "cache_modify st (unat bid) DataBlock 0 (\<lambda>data_block s.
      and_then (subslice buf write_size (e - start)) (\<lambda>src.
      and_then (copy_from_slice data_block (start mod BLOCK_SZ) src) (\<lambda>data_block. Inr ((), data_block, s)))) s1 = Inr ((), s2)"
    and g: "goes s D1 s2"
    and D1: "\<forall>i. i \<noteq> unat bid \<longrightarrow> D1 i = disk s i" "data_list di D1 n = data_list di (disk s) n"
      "index_blocks di D1 n = index_blocks di (disk s) n"
      "\<forall>p < n * BLOCK_SZ. file_byte di D1 p =
        (if start \<le> p \<and> p < e then buf ! (write_size + (p - start)) else file_byte di (disk s) p)"
    using write_step [OF less.prems(1-5,7,9) e_def bid_def] by blast
  have mem: "unat bid \<in> unat ` set (data_list di (disk s) n)"
    using less.prems(5) by (auto simp: bid_def data_list_def)
  show ?case
  proof (cases "e = stop")
    case True
    have "write_loop st di start stop (start div BLOCK_SZ) write_size buf s = Inr (write_size + (stop - start), s2)"
      using step True by (subst write_loop.simps) (simp add: Let_def e_def [symmetric])
    then show ?thesis using g D1 mem True by (intro exI [of _ s2] exI [of _ D1]) auto
  next
    case False
    have d2: "disk s2 = D1" "inv s2" using g by (simp_all add: goes_def)
    have frees: "\<And>i. i \<in> set (all_blocks di (disk s2) n) \<Longrightarrow> free s2 (unat i)"
      using less.prems(3) goes_free [OF less.prems(1) g] D1(2,3) d2(1) by (simp add: all_blocks_def)
    have ok2: "inode_ok di (disk s2) n" using inode_ok_same [OF D1(2,3)] less.prems(2) d2(1) by simp
    have "e < n * BLOCK_SZ" using e(4) False less.prems(6) by linarith
    then have en: "e div BLOCK_SZ < n" by (rule div_less_blocks)
    have side: "e \<le> stop" "e < 2 ^ 32" "write_size + (e - start) + (stop - e) \<le> length buf"
      using e(1,2,4) less.prems(8,9) False by auto
    have lt: "stop - e < stop - start" using end_of_block_progress False by (simp add: e_def)
    obtain s3 D' where s3:
      "write_loop st di e stop (e div BLOCK_SZ) (write_size + (e - start)) buf s2 = Inr (write_size + (e - start) + (stop - e), s3)"
      "goes s2 D' s3" "\<forall>i. i \<notin> unat ` set (data_list di (disk s2) n) \<longrightarrow> D' i = disk s2 i"
      "data_list di D' n = data_list di (disk s2) n" "index_blocks di D' n = index_blocks di (disk s2) n"
      "\<forall>p < n * BLOCK_SZ. file_byte di D' p =
        (if e \<le> p \<and> p < stop then buf ! (write_size + (e - start) + (p - e)) else file_byte di (disk s2) p)"
      using less.hyps [OF lt d2(2) ok2 frees side(1) en less.prems(6) side(2) less.prems(8) side(3)] by blast
    have run: "write_loop st di start stop (start div BLOCK_SZ) write_size buf s = Inr (write_size + (stop - start), s3)"
      using step s3(1) False e by (subst write_loop.simps) (simp add: Let_def e_def [symmetric])
    have bytes: "file_byte di D' p =
        (if start \<le> p \<and> p < stop then buf ! (write_size + (p - start)) else file_byte di (disk s) p)" if "p < n * BLOCK_SZ" for p
    proof (cases "e \<le> p \<and> p < stop")
      case True
      then have "write_size + (e - start) + (p - e) = write_size + (p - start)" using e(1) by simp
      then show ?thesis using s3(6) that True e(1) by auto
    next
      case out: False
      then show ?thesis using s3(6) D1(4) that d2(1) e(1,2) by auto
    qed
    show ?thesis
      using run goes_trans [OF g s3(2)] s3(3-5) D1(1-3) d2(1) mem bytes
      by (intro exI [of _ s3] exI [of _ D']) auto
  qed
qed

text \<open>The whole operations: as much as the file holds is read, and what fits is written.\<close>

lemma read_at_spec:
  assumes "inv s" "\<And>p. offset \<le> p \<Longrightarrow> p < unat (di_size di) \<Longrightarrow> reach s di (p div BLOCK_SZ)"
    "offset + length buf < 2 ^ 64" "cnt = min (length buf) (unat (di_size di) - offset)"
  shows "\<exists>s'. DiskInode_read_at st di offset buf s =
      Inr ((cnt, map (file_byte di (disk s)) [offset..<offset + cnt] @ drop cnt buf), s') \<and> goes s (disk s) s'"
proof (cases "cnt = 0")
  case True
  then have "min ((offset + length buf) mod 2 ^ 64) (unat (di_size di)) \<le> offset"
    using assms(3,4) by auto
  then show ?thesis using True goes_refl [OF assms(1)] by (simp add: DiskInode_read_at_def Let_def)
next
  case False
  have stop: "min ((offset + length buf) mod 2 ^ 64) (unat (di_size di)) = offset + cnt"
    using assms(3,4) False by auto
  have small: "unat (di_size di) < 2 ^ 32" using unsigned_less [of "di_size di", where ?'a = nat] by simp
  have "\<exists>s'. read_loop st di offset (offset + cnt) (offset div BLOCK_SZ) 0 buf s =
      Inr ((0 + (offset + cnt - offset), take 0 buf @ map (file_byte di (disk s)) [offset..<offset + cnt] @
        drop (0 + (offset + cnt - offset)) buf), s') \<and> goes s (disk s) s'"
  proof (rule read_loop_spec [OF assms(1)])
    show "offset + cnt \<le> 2 ^ 32" "0 + (offset + cnt - offset) \<le> length buf" using assms(4) small False by auto
    show "reach s di (p div BLOCK_SZ)" if "offset \<le> p" "p < offset + cnt" for p
      using that assms(2) [of p] assms(4) by simp
  qed (use False in simp)
  then show ?thesis using False stop unfolding DiskInode_read_at_def Let_def by simp
qed

lemma write_at_spec:
  assumes "inv s" "inode_ok di (disk s) n" "\<And>i. i \<in> set (all_blocks di (disk s) n) \<Longrightarrow> free s (unat i)"
    "offset + length buf \<le> unat (di_size di)" "unat (di_size di) \<le> n * BLOCK_SZ" "offset < n * BLOCK_SZ"
  shows "\<exists>s' D'. DiskInode_write_at st di offset buf s = Inr (length buf, s') \<and>
    goes s D' s' \<and> (\<forall>i. i \<notin> unat ` set (data_list di (disk s) n) \<longrightarrow> D' i = disk s i) \<and>
    data_list di D' n = data_list di (disk s) n \<and> index_blocks di D' n = index_blocks di (disk s) n \<and>
    (\<forall>p < n * BLOCK_SZ. file_byte di D' p =
      (if offset \<le> p \<and> p < offset + length buf then buf ! (p - offset) else file_byte di (disk s) p))"
proof -
  have small: "unat (di_size di) < 2 ^ 32" using unsigned_less [of "di_size di", where ?'a = nat] by simp
  then have stop: "min ((offset + length buf) mod 2 ^ 64) (unat (di_size di)) = offset + length buf"
    using assms(4) by simp
  have side: "offset \<le> offset + length buf" "offset div BLOCK_SZ < n" "offset + length buf \<le> n * BLOCK_SZ"
    "offset < 2 ^ 32" "offset + length buf \<le> 2 ^ 32" "0 + (offset + length buf - offset) \<le> length buf"
    using assms(4,5) div_less_blocks [OF assms(6)] small by auto
  show ?thesis
    using write_loop_spec [OF assms(1-3) side]
    unfolding DiskInode_write_at_def Let_def stop add_0 diff_add_inverse by (simp only: le_add1 assert_that_True and_then_Inr)
qed

end

section \<open>Clearing gives back every block\<close>

lemma clear_direct_from:
  assumes "c \<le> m" "m \<le> length direct"
  shows "clear_direct c m (replicate c 0 @ drop c direct) (take c direct) = Inr (replicate m 0 @ drop m direct, take m direct)"
  using assms
proof (induction "m - c" arbitrary: c)
  case 0
  then show ?case by (simp add: clear_direct.simps)
next
  case (Suc k)
  then have c: "c < m" "c < length direct" by simp_all
  have "(replicate c 0 @ drop c direct)[c := 0] = replicate (Suc c) 0 @ drop (Suc c) direct"
    using c by (simp add: list_update_append Cons_nth_drop_Suc [symmetric] replicate_append_same)
  moreover have "take c direct @ [direct ! c] = take (Suc c) direct" using c by (simp add: take_Suc_conv_app_nth)
  moreover have "clear_direct (Suc c) m (replicate (Suc c) 0 @ drop (Suc c) direct) (take (Suc c) direct) =
      Inr (replicate m 0 @ drop m direct, take m direct)"
    using Suc c by (intro Suc.hyps) simp_all
  ultimately show ?case using c by (subst clear_direct.simps) (simp add: nth_append)
qed

lemma clear_direct_all: "m \<le> length direct \<Longrightarrow> clear_direct 0 m direct [] = Inr (replicate m 0 @ drop m direct, take m direct)"
  using clear_direct_from [of 0 m direct] by simp

definition cleared :: "DiskInode \<Rightarrow> DiskInode \<Rightarrow> bool" where
  "cleared di di' \<longleftrightarrow> di_size di' = 0 \<and> di_type di' = di_type di \<and> length (di_direct di') = length (di_direct di)"

lemma map_upt_row:
  assumes "b \<le> 128"
  shows "map (\<lambda>m. f (m div 128) (m mod 128)) [a * 128..<a * 128 + b] = map (f a) [0..<b]" (is "?l = ?r")
proof (rule nth_equalityI)
  fix j assume "j < length ?l"
  then have "j < 128" "j < b" using assms by simp_all
  then show "?l ! j = ?r ! j" by simp
qed simp

lemma map_upt_rows:
  assumes "b \<le> 128"
  shows "map (\<lambda>m. f (m div 128) (m mod 128)) [0..<a * 128 + b] =
     concat (map (\<lambda>i. map (f i) [0..<128]) [0..<a]) @ map (f a) [0..<b]"
proof -
  have full: "map (\<lambda>m. f (m div 128) (m mod 128)) [0..<a * 128] = concat (map (\<lambda>i. map (f i) [0..<128]) [0..<a])"
  proof (induction a)
    case (Suc a)
    have "[0..<Suc a * 128] = [0..<a * 128] @ [a * 128..<a * 128 + 128]"
      using upt_add_eq_append [of 0 "a * 128" 128] by (simp add: add.commute)
    then show ?case using Suc map_upt_row [of 128 f a] by simp
  qed simp
  have "[0..<a * 128 + b] = [0..<a * 128] @ [a * 128..<a * 128 + b]" by (rule upt_add_eq_append) simp
  then show ?thesis using full map_upt_row [OF assms, of f a] by simp
qed

lemma iblock_row: "map ((!) (iblock D i)) [0..<128] = iblock D i"
  using map_nth [of "iblock D i"] by simp

lemma take_iblock: "b \<le> 128 \<Longrightarrow> map ((!) (iblock D i)) [0..<b] = take b (iblock D i)"
  by (simp add: list_eq_iff_nth_eq)

text \<open>The data blocks, level by level.\<close>

lemma data_list_direct: "n \<le> 28 \<Longrightarrow> length (di_direct di) = 28 \<Longrightarrow> data_list di D n = take n (di_direct di)"
  by (simp add: data_list_def block_of_def list_eq_iff_nth_eq)

lemma data_list_indirect1:
  assumes "28 \<le> n" "n \<le> 156" "length (di_direct di) = 28"
  shows "data_list di D n = di_direct di @ take (n - 28) (iblock D (di_indirect1 di))"
proof (rule nth_equalityI)
  fix k assume "k < length (data_list di D n)"
  then show "data_list di D n ! k = (di_direct di @ take (n - 28) (iblock D (di_indirect1 di))) ! k"
    using assms by (auto simp: data_list_def block_of_def nth_append)
qed (use assms in \<open>simp add: data_list_def\<close>)

lemma data_list_indirect2:
  assumes "a \<le> 128" "b < 128" "a * 128 + b \<le> 16384" "length (di_direct di) = 28"
  shows "data_list di D (156 + (a * 128 + b)) = di_direct di @ iblock D (di_indirect1 di) @
    concat (map (iblock D) (take a (iblock D (di_indirect2 di)))) @
    take b (iblock D (iblock D (di_indirect2 di) ! a))"
proof -
  let ?f = "\<lambda>i j. iblock D (iblock D (di_indirect2 di) ! i) ! j"
  have "[0..<156 + (a * 128 + b)] = [0..<156] @ map (\<lambda>m. m + 156) [0..<a * 128 + b]"
    using upt_add_eq_append [of 0 156 "a * 128 + b"] map_add_upt [of 156 "a * 128 + b"] by (simp add: add.commute)
  then have "data_list di D (156 + (a * 128 + b)) =
      data_list di D 156 @ map (block_of di D \<circ> (\<lambda>m. m + 156)) [0..<a * 128 + b]"
    by (simp add: data_list_def)
  also have "map (block_of di D \<circ> (\<lambda>m. m + 156)) [0..<a * 128 + b] = map (\<lambda>m. ?f (m div 128) (m mod 128)) [0..<a * 128 + b]"
    by (simp add: block_of_def)
  also have "\<dots> = concat (map (\<lambda>i. map (?f i) [0..<128]) [0..<a]) @ map (?f a) [0..<b]"
    using assms(2) by (intro map_upt_rows) simp
  also have "map (\<lambda>i. map (?f i) [0..<128]) [0..<a] = map (iblock D) (take a (iblock D (di_indirect2 di)))"
    using assms(1) by (simp add: iblock_row list_eq_iff_nth_eq)
  finally show ?thesis
    using assms(2,4) by (simp add: take_iblock data_list_indirect1)
qed

lemma index_blocks_indirect2:
  assumes "0 < a * 128 + b" "b < 128" "a * 128 + b \<le> 16384"
  shows "index_blocks di D (156 + (a * 128 + b)) =
    di_indirect1 di # di_indirect2 di # take a (iblock D (di_indirect2 di)) @
    (if b > 0 then [iblock D (di_indirect2 di) ! a] else [])"
proof (cases "b > 0")
  case True
  then have "(a * 128 + b + 127) div 128 = Suc a" using assms(2) by (intro div_nat_eqI) simp_all
  moreover have "a < 128" using True assms(3) by simp
  ultimately show ?thesis using True assms(1) by (simp add: index_blocks_def take_Suc_conv_app_nth)
next
  case False
  then show ?thesis using assms(1) by (simp add: index_blocks_def)
qed

lemma set_same_IndirectBlock: "length b = BLOCK_SZ \<Longrightarrow> set_view IndirectBlock 0 (view_at IndirectBlock 0 b) b = b"
  by (simp add: set_view_def view_at_def IndirectBlock_def BLOCK_SZ_def le_words_bytes_le_words)

context block_store
begin

text \<open>Looking at an indirect block through \<open>modify\<close> without changing it.\<close>

lemma peek_iblock:
  assumes "free s (unat i)"
    and f: "\<And>s1. inv s1 \<Longrightarrow> disk s1 = disk s \<Longrightarrow> size s1 = size s \<Longrightarrow> held s1 = unat i # held s \<Longrightarrow>
      \<exists>s2. f (iblock (disk s) i) s1 = Inr (r, iblock (disk s) i, s2) \<and> goes s1 (disk s1) s2"
  shows "\<exists>s'. cache_modify st (unat i) IndirectBlock 0 f s = Inr (r, s') \<and> goes s (disk s) s'"
proof -
  have len: "length (disk s (unat i)) = BLOCK_SZ" using assms(1) block_len by (simp add: free_def)
  have "\<exists>s'. cache_modify st (unat i) IndirectBlock 0 f s = Inr (r, s') \<and>
      goes s ((disk s)(unat i := set_view IndirectBlock 0 (iblock (disk s) i) (disk s (unat i)))) s'"
    by (rule cache_modify_rule [OF assms(1)])
      (use f len set_same_IndirectBlock [OF len] in \<open>auto simp: iblock_def\<close>)
  then show ?thesis using set_same_IndirectBlock [OF len] by (simp add: iblock_def)
qed

lemma peek_pure:
  assumes "free s (unat i)"
  shows "\<exists>s'. cache_modify st (unat i) IndirectBlock 0 (\<lambda>ib s. Inr (g ib, ib, s)) s = Inr (g (iblock (disk s) i), s') \<and>
    goes s (disk s) s'"
  by (rule peek_iblock [OF assms]) (auto simp: goes_def)

lemma collect_full_spec:
  assumes "inv s" "\<forall>e \<in> set entries. free s (unat e)"
  shows "\<exists>s'. collect_full st entries v s = Inr (v @ concat (map (\<lambda>e. e # iblock (disk s) e) entries), s') \<and>
    goes s (disk s) s'"
  using assms
proof (induction entries arbitrary: v s)
  case Nil
  then show ?case by (simp add: goes_refl)
next
  case (Cons e entries)
  obtain s1 where s1: "cache_modify st (unat e) IndirectBlock 0 (\<lambda>ib s. Inr (v @ [e] @ ib, ib, s)) s =
      Inr (v @ [e] @ iblock (disk s) e, s1)" "goes s (disk s) s1"
    using peek_pure [of s e "\<lambda>ib. v @ [e] @ ib"] Cons.prems(2) by auto
  have "inv s1" "\<forall>e \<in> set entries. free s1 (unat e)" "disk s1 = disk s"
    using s1(2) Cons.prems(2) goes_free [OF Cons.prems(1) s1(2)] by (simp_all add: goes_def)
  then show ?case using Cons.IH [of s1 "v @ [e] @ iblock (disk s) e"] s1 goes_trans [OF s1(2)] by auto
qed

lemma goes_held_free:
  assumes "inv s1" "size s1 = size s" "held s1 = i # held s" "free s j" "j \<noteq> i" "length (held s) < 15"
  shows "free s1 j"
  using assms by (simp add: free_def)

text \<open>The part of \<open>clear_size\<close> below the second-level block.\<close>

lemma clear_second_level:
  assumes "inv s" "free s (unat i2)" "length (held s) < 15" "a < 128 \<or> b = 0"
    "\<forall>e \<in> set (take a (iblock (disk s) i2)) \<union> (if b > 0 then {iblock (disk s) i2 ! a} else {}). free s (unat e) \<and> e \<noteq> i2"
  shows "\<exists>s'. cache_modify st (unat i2) IndirectBlock 0 (\<lambda>indirect2 s.
      and_then (collect_full st (take a indirect2) v s) (\<lambda>(v, s).
      if b > 0 then
        and_then (array_index indirect2 a) (\<lambda>entry.
        and_then (cache_modify st (unat entry) IndirectBlock 0 (\<lambda>indirect1 s.
          Inr (v @ [entry] @ take b indirect1, indirect1, s)) s) (\<lambda>(v, s). Inr (v, indirect2, s)))
      else Inr (v, indirect2, s))) s =
    Inr (v @ concat (map (\<lambda>e. e # iblock (disk s) e) (take a (iblock (disk s) i2))) @
      (if b > 0 then iblock (disk s) i2 ! a # take b (iblock (disk s) (iblock (disk s) i2 ! a)) else []), s') \<and>
    goes s (disk s) s'"
proof (rule peek_iblock [OF assms(2)])
  fix s1 assume s1: "inv s1" "disk s1 = disk s" "size s1 = size s" "held s1 = unat i2 # held s"
  let ?ib = "iblock (disk s) i2" and ?w = "v @ concat (map (\<lambda>e. e # iblock (disk s) e) (take a (iblock (disk s) i2)))"
  have fr: "free s1 (unat e)" if "free s (unat e)" "e \<noteq> i2" for e
    using goes_held_free [OF s1(1,3,4)] that assms(3) by simp
  obtain s2 where s2: "collect_full st (take a ?ib) v s1 = Inr (?w, s2)" "goes s1 (disk s1) s2"
    using collect_full_spec [OF s1(1), of "take a ?ib" v] assms(5) fr s1(2) by auto
  show "\<exists>s2. and_then (collect_full st (take a ?ib) v s1) (\<lambda>(v, s).
      if b > 0 then
        and_then (array_index ?ib a) (\<lambda>entry.
        and_then (cache_modify st (unat entry) IndirectBlock 0 (\<lambda>indirect1 s.
          Inr (v @ [entry] @ take b indirect1, indirect1, s)) s) (\<lambda>(v, s). Inr (v, ?ib, s)))
      else Inr (v, ?ib, s)) =
    Inr (v @ concat (map (\<lambda>e. e # iblock (disk s) e) (take a ?ib)) @
      (if b > 0 then ?ib ! a # take b (iblock (disk s) (?ib ! a)) else []), ?ib, s2) \<and> goes s1 (disk s1) s2"
  proof (cases "b > 0")
    case False
    then show ?thesis using s2 by simp
  next
    case True
    define e where "e = ?ib ! a"
    have "free s1 (unat e)" using assms(5) True fr by (auto simp: e_def)
    then have "free s2 (unat e)" using goes_free [OF s1(1) s2(2)] by simp
    moreover have d2: "disk s2 = disk s" using s2(2) s1(2) by (simp add: goes_def)
    ultimately obtain s3 where s3: "cache_modify st (unat e) IndirectBlock 0 (\<lambda>indirect1 s.
        Inr (?w @ [e] @ take b indirect1, indirect1, s)) s2 = Inr (?w @ [e] @ take b (iblock (disk s) e), s3)"
      "goes s2 (disk s) s3"
      using peek_pure [of s2 e "\<lambda>indirect1. ?w @ [e] @ take b indirect1"] by auto
    have a: "a < 128" using True assms(4) by simp
    show ?thesis
      using s2 s3 goes_trans [OF s2(2) s3(2)] True a s1(2) by (simp add: e_def [symmetric])
  qed
qed

lemma clear_first_level:
  assumes "free s (unat i)" "m \<le> 128"
  shows "\<exists>s'. cache_modify st (unat i) IndirectBlock 0 (\<lambda>ib s. and_then (subslice ib 0 m) (\<lambda>bs. Inr (v @ bs, ib, s))) s =
    Inr (v @ take m (iblock (disk s) i), s') \<and> goes s (disk s) s'"
  by (rule peek_iblock [OF assms(1)]) (use assms(2) in \<open>auto simp: goes_def\<close>)

lemma clear_size_direct:
  assumes "inv s" "length (di_direct di) = 28" "n = unat (DiskInode_data_blocks di)" "n \<le> 28"
  shows "\<exists>di'. DiskInode_clear_size st di s = Inr ((data_list di (disk s) n, di'), s) \<and> cleared di di'"
  using assms by (simp add: DiskInode_clear_size_def Let_def block_counts clear_direct_all cleared_def data_list_direct)

lemma clear_size_indirect1:
  assumes "inv s" "length (di_direct di) = 28" "n = unat (DiskInode_data_blocks di)" "28 < n" "n \<le> 156"
    "free s (unat (di_indirect1 di))"
  shows "\<exists>v di' s'. DiskInode_clear_size st di s = Inr ((v, di'), s') \<and> goes s (disk s) s' \<and> cleared di di' \<and>
    mset v = mset (all_blocks di (disk s) n)"
proof -
  have m: "min (n - 28) 128 = n - 28" "n - 28 \<le> 128" using assms(4,5) by simp_all
  obtain s1 where "cache_modify st (unat (di_indirect1 di)) IndirectBlock 0 (\<lambda>ib s.
      and_then (subslice ib 0 (n - 28)) (\<lambda>bs. Inr ((di_direct di @ [di_indirect1 di]) @ bs, ib, s))) s =
      Inr ((di_direct di @ [di_indirect1 di]) @ take (n - 28) (iblock (disk s) (di_indirect1 di)), s1)"
    "goes s (disk s) s1"
    using clear_first_level [OF assms(6) m(2), of "di_direct di @ [di_indirect1 di]"] by blast
  then show ?thesis
    using assms(2-5) m
    by (auto simp: DiskInode_clear_size_def Let_def block_counts clear_direct_all cleared_def
        all_blocks_def data_list_indirect1 index_blocks_def)
qed

lemma clear_size_indirect2:
  assumes "inv s" "length (di_direct di) = 28" "unat (DiskInode_data_blocks di) = 156 + (a * 128 + b)"
    "0 < a * 128 + b" "b < 128" "a * 128 + b \<le> 16384" "length (held s) < 15"
    "distinct (index_blocks di (disk s) (156 + (a * 128 + b)))"
    "\<And>i. i \<in> set (index_blocks di (disk s) (156 + (a * 128 + b))) \<Longrightarrow> free s (unat i)"
  shows "\<exists>v di' s'. DiskInode_clear_size st di s = Inr ((v, di'), s') \<and> goes s (disk s) s' \<and> cleared di di' \<and>
    mset v = mset (all_blocks di (disk s) (156 + (a * 128 + b)))"
proof -
  let ?D = "disk s" and ?i1 = "di_indirect1 di" and ?i2 = "di_indirect2 di"
  note ib = index_blocks_indirect2 [OF assms(4-6), of di ?D]
  have a: "a < 128 \<or> b = 0" "a \<le> 128" "(128 + (a * 128 + b)) - 128 = a * 128 + b" "(a * 128 + b) div 128 = a" "(a * 128 + b) mod 128 = b"
    using assms(5,6) by auto
  have fr: "free s (unat ?i1)" "free s (unat ?i2)" using assms(9) ib by simp_all
  define v1 where "v1 = di_direct di @ [?i1] @ iblock ?D ?i1 @ [?i2]"
  obtain s1 where s1: "cache_modify st (unat ?i1) IndirectBlock 0 (\<lambda>ib s.
      and_then (subslice ib 0 128) (\<lambda>bs. Inr ((di_direct di @ [?i1]) @ bs, ib, s))) s =
      Inr ((di_direct di @ [?i1]) @ iblock ?D ?i1, s1)" "goes s ?D s1"
    using clear_first_level [OF fr(1), of 128 "di_direct di @ [?i1]"] by auto
  have d1: "inv s1" "disk s1 = ?D" "length (held s1) < 15" using s1(2) assms(7) by (simp_all add: goes_def)
  have "\<forall>e \<in> set (take a (iblock ?D ?i2)) \<union> (if b > 0 then {iblock ?D ?i2 ! a} else {}). free s1 (unat e) \<and> e \<noteq> ?i2"
    using assms(8,9) ib goes_free [OF assms(1) s1(2)] by auto
  then obtain s2 where s2: "cache_modify st (unat ?i2) IndirectBlock 0 (\<lambda>indirect2 s.
      and_then (collect_full st (take a indirect2) v1 s) (\<lambda>(v, s).
      if b > 0 then
        and_then (array_index indirect2 a) (\<lambda>entry.
        and_then (cache_modify st (unat entry) IndirectBlock 0 (\<lambda>indirect1 s.
          Inr (v @ [entry] @ take b indirect1, indirect1, s)) s) (\<lambda>(v, s). Inr (v, indirect2, s)))
      else Inr (v, indirect2, s))) s1 =
    Inr (v1 @ concat (map (\<lambda>e. e # iblock ?D e) (take a (iblock ?D ?i2))) @
      (if b > 0 then iblock ?D ?i2 ! a # take b (iblock ?D (iblock ?D ?i2 ! a)) else []), s2)" "goes s1 ?D s2"
    using clear_second_level [OF d1(1) _ d1(3) a(1), of ?i2 v1, unfolded d1(2)] fr(2) goes_free [OF assms(1) s1(2)] by blast
  have "\<exists>di'. DiskInode_clear_size st di s = Inr ((v1 @ concat (map (\<lambda>e. e # iblock ?D e) (take a (iblock ?D ?i2))) @
      (if b > 0 then iblock ?D ?i2 ! a # take b (iblock ?D (iblock ?D ?i2 ! a)) else []), di'), s2) \<and> cleared di di'"
    using s1(1) s2(1) assms(2-6) a
    by (simp add: DiskInode_clear_size_def Let_def block_counts clear_direct_all cleared_def v1_def cong: if_cong)
  moreover have "mset (concat (map (\<lambda>e. e # iblock ?D e) es)) = mset es + mset (concat (map (iblock ?D) es))" for es
    by (induction es) auto
  ultimately show ?thesis
    using goes_trans [OF s1(2) s2(2)] assms(2,5,6) a(2) ib
    by (auto simp: all_blocks_def v1_def data_list_indirect2)
qed

lemma clear_size_spec:
  assumes "inv s" "inode_ok di (disk s) n" "n = unat (DiskInode_data_blocks di)" "length (held s) < 15"
    "\<forall>i \<in> set (index_blocks di (disk s) n). free s (unat i)"
  shows "\<exists>v di' s'. DiskInode_clear_size st di s = Inr ((v, di'), s') \<and> goes s (disk s) s' \<and> cleared di di' \<and>
    mset v = mset (all_blocks di (disk s) n)"
proof -
  have len: "length (di_direct di) = 28" and bound: "n \<le> 16540" and dist: "distinct (index_blocks di (disk s) n)"
    using assms(2) by (simp_all add: inode_ok_def all_blocks_def block_counts)
  consider "n \<le> 28" | "28 < n" "n \<le> 156" | "156 < n" by linarith
  then show ?thesis
  proof cases
    case 1
    then show ?thesis
      using clear_size_direct [OF assms(1) len assms(3)] goes_refl [OF assms(1)]
      by (auto simp: all_blocks_def index_blocks_def)
  next
    case 2
    then show ?thesis using clear_size_indirect1 [OF assms(1) len assms(3) 2] assms(5) by (simp add: index_blocks_def)
  next
    case 3
    define a b where "a = (n - 156) div 128" and "b = (n - 156) mod 128"
    have n: "n = 156 + (a * 128 + b)" using 3 by (simp add: a_def b_def)
    have "b < 128" by (simp add: b_def)
    moreover have "0 < a * 128 + b" "a * 128 + b \<le> 16384" using n 3 bound by linarith+
    ultimately have ab: "0 < a * 128 + b" "b < 128" "a * 128 + b \<le> 16384" by simp_all
    show ?thesis
      using clear_size_indirect2 [OF assms(1) len assms(3) [symmetric, unfolded n] ab assms(4) dist [unfolded n]
          bspec [OF assms(5), unfolded n]] n by simp
  qed
qed

end

section \<open>Sizes\<close>

lemma data_blocks_cover:
  assumes "unat (di_size di) \<le> INDIRECT2_BOUND * BLOCK_SZ"
  shows "unat (di_size di) \<le> unat (DiskInode_data_blocks di) * BLOCK_SZ"
    "unat (DiskInode_data_blocks di) \<le> INDIRECT2_BOUND"
proof -
  have n: "unat (DiskInode_data_blocks di) = (unat (di_size di) + 511) div 512"
    using assms data_blocks_of_eq [of "di_size di"] by (simp add: DiskInode_data_blocks_def layout_constants)
  then show "unat (di_size di) \<le> unat (DiskInode_data_blocks di) * BLOCK_SZ"
    by (simp add: BLOCK_SZ_def)
  show "unat (DiskInode_data_blocks di) \<le> INDIRECT2_BOUND"
    using n assms by (simp add: layout_constants)
qed

lemma length_index_blocks:
  assumes "n \<le> INDIRECT2_BOUND"
  shows "length (index_blocks di D n) =
    (if n > 28 then 1 else 0) + (if n > 156 then 1 + (n - 156 + 127) div 128 else 0)"
proof -
  have "n - 29 \<le> 16511" using assms by (simp add: block_counts)
  from div_le_mono [OF this, of 128] show ?thesis by (simp add: index_blocks_def block_counts min_def)
qed

lemma length_all_blocks:
  assumes "unat (di_size di) \<le> INDIRECT2_BOUND * BLOCK_SZ"
  shows "length (all_blocks di D (unat (DiskInode_data_blocks di))) = unat (DiskInode_total_blocks (di_size di))"
proof -
  define n where "n = unat (data_blocks_of (di_size di))"
  have n: "n \<le> INDIRECT2_BOUND" using data_blocks_cover(2) [OF assms] by (simp add: n_def DiskInode_data_blocks_def)
  define total where "total = n + ((if n > 28 then 1 else 0) + (if n > 156 then 1 + (n - 156 + 127) div 128 else 0))"
  have "total < 2 ^ 32" using n by (auto simp: total_def block_counts)
  moreover have "DiskInode_total_blocks (di_size di) = of_nat total"
    by (simp add: DiskInode_total_blocks_def Let_def n_def [symmetric] total_def block_counts)
  ultimately have "unat (DiskInode_total_blocks (di_size di)) = total"
    by (simp add: unat_of_nat take_bit_nat_eq_self)
  then show ?thesis
    using length_index_blocks [OF n] by (simp add: all_blocks_def data_list_def DiskInode_data_blocks_def n_def total_def)
qed

section \<open>Over the cache\<close>

lemma cache_free_blocks:
  assumes "block_device dev dinv sector sectors" "cache_ok dinv sector sectors s" "length (cm_held s) < 15"
    "unat i < sectors (cm_device s) \<and> unat i \<notin> set (cm_held s)"
  shows "block_store.free (cache_ok dinv sector sectors) (\<lambda>s. sectors (cm_device s)) cm_held s (unat i)"
  using assms(2-4) by (simp add: cache_free [OF assms(1)])

text \<open>
  C6. What is written to a file is read back. For an inode no block of which is used twice, with its block
  tree on the disk and up to 14 other blocks locked, \<open>DiskInode::write_at\<close> within the file writes all of the buffer, to
  the data blocks only; afterwards every byte of the file is the new one inside the written range and the
  old one outside it, and \<open>DiskInode::read_at\<close> at the same place returns the buffer.
\<close>

theorem inode_write_then_read:
  fixes di :: DiskInode and s :: "'d cache_state"
  defines "n \<equiv> unat (DiskInode_data_blocks di)"
  assumes dev: "block_device dev dinv sector sectors" "cache_ok dinv sector sectors s" "length (cm_held s) < 15"
    and ok: "inode_ok di (cache_disk sector s) n" "unat (di_size di) \<le> INDIRECT2_BOUND * BLOCK_SZ"
    and tree: "\<forall>i \<in> set (all_blocks di (cache_disk sector s) n). unat i < sectors (cm_device s) \<and> unat i \<notin> set (cm_held s)"
    and range: "offset + length buf \<le> unat (di_size di)" "buf \<noteq> []"
  shows "\<exists>s' s''. DiskInode_write_at (cache_store dev) di offset buf s = Inr (length buf, s') \<and>
    cache_ok dinv sector sectors s' \<and>
    (\<forall>i. i \<notin> unat ` set (data_list di (cache_disk sector s) n) \<longrightarrow> cache_disk sector s' i = cache_disk sector s i) \<and>
    (\<forall>p < unat (di_size di). file_byte di (cache_disk sector s') p =
      (if offset \<le> p \<and> p < offset + length buf then buf ! (p - offset) else file_byte di (cache_disk sector s) p)) \<and>
    DiskInode_read_at (cache_store dev) di offset (replicate (length buf) 0) s' = Inr ((length buf, buf), s'')"
proof -
  note bs = block_device.cache_is_block_store [OF dev(1)]
  note cover = data_blocks_cover(1) [OF ok(2), folded n_def]
  let ?free = "block_store.free (cache_ok dinv sector sectors) (\<lambda>s. sectors (cm_device s)) cm_held"
  have fr: "\<And>i. i \<in> set (all_blocks di (cache_disk sector s) n) \<Longrightarrow> ?free s (unat i)"
    using cache_free_blocks [OF dev] tree by blast
  have off: "offset < n * BLOCK_SZ" using range cover by (cases buf) auto
  obtain s' where s': "DiskInode_write_at (cache_store dev) di offset buf s = Inr (length buf, s')"
    "block_store.goes (cache_ok dinv sector sectors) (cache_disk sector) (\<lambda>s. sectors (cm_device s)) cm_held s (cache_disk sector s') s'"
    "\<forall>i. i \<notin> unat ` set (data_list di (cache_disk sector s) n) \<longrightarrow> cache_disk sector s' i = cache_disk sector s i"
    "data_list di (cache_disk sector s') n = data_list di (cache_disk sector s) n"
    "index_blocks di (cache_disk sector s') n = index_blocks di (cache_disk sector s) n"
    "\<forall>p < n * BLOCK_SZ. file_byte di (cache_disk sector s') p =
      (if offset \<le> p \<and> p < offset + length buf then buf ! (p - offset) else file_byte di (cache_disk sector s) p)"
    using block_store.write_at_spec [OF bs dev(2) ok(1) fr range(1) cover off] unfolding cache_goes [OF dev(1)] by metis
  have ok': "cache_ok dinv sector sectors s'" "inode_ok di (cache_disk sector s') n"
    using s'(2) ok(1) inode_ok_same [OF s'(4,5)] by (simp_all add: cache_goes [OF dev(1)])
  have fr': "\<And>i. i \<in> set (all_blocks di (cache_disk sector s') n) \<Longrightarrow> ?free s' (unat i)"
    using fr block_store.goes_free [OF bs dev(2) s'(2)] s'(4,5) by (simp add: all_blocks_def)
  have reach: "\<And>p. offset \<le> p \<Longrightarrow> p < unat (di_size di) \<Longrightarrow>
      block_store.reach (cache_ok dinv sector sectors) (cache_disk sector) (\<lambda>s. sectors (cm_device s)) cm_held s' di (p div BLOCK_SZ)"
    using block_store.inode_reach [OF bs ok'(2) fr'] div_less_blocks cover by (meson less_le_trans)
  have small: "unat (di_size di) < 2 ^ 32" using unsigned_less [of "di_size di", where ?'a = nat] by simp
  have cnt: "length buf = min (length (replicate (length buf) (0 :: u8))) (unat (di_size di) - offset)" using range(1) by simp
  have "map (file_byte di (cache_disk sector s')) [offset..<offset + length buf] = buf"
    using s'(6) range(1) cover by (intro nth_equalityI) auto
  then obtain s'' where "DiskInode_read_at (cache_store dev) di offset (replicate (length buf) 0) s' = Inr ((length buf, buf), s'')"
    using block_store.read_at_spec [OF bs ok'(1) reach _ cnt] range(1) small by auto
  then show ?thesis using s'(1,3,6) ok'(1) cover by auto
qed

definition small_inode :: DiskInode where
  "small_inode = \<lparr>di_size = 100, di_direct = 1 # replicate 27 0, di_indirect1 = 0, di_indirect2 = 0, di_type = File\<rparr>"

definition two_blocks :: "u8 list cache_state" where
  "two_blocks = BlockCacheManager_new (replicate 1024 0)"

lemma two_blocks_ok: "cache_ok file_ok file_sector file_sectors two_blocks" "cm_held two_blocks = []"
  "file_sectors (cm_device two_blocks) = 2"
  using bf.fresh_cache_ok [of "replicate 1024 0"]
  by (simp_all add: two_blocks_def BlockCacheManager_new_def file_ok_def file_sectors_def BLOCK_SZ_def)

lemma small_inode_ok: "unat (DiskInode_data_blocks small_inode) = 1" "all_blocks small_inode D 1 = [1]"
  "inode_ok small_inode D 1" "unat (di_size small_inode) = 100"
  by (simp_all add: small_inode_def DiskInode_data_blocks_def data_blocks_of_def BLOCK_SZ_def all_blocks_def data_list_def
      block_of_def index_blocks_def inode_ok_def block_counts)

theorem inode_write_then_read_witness:
  "\<exists>s' s''. DiskInode_write_at (cache_store BlockFile) small_inode 3 [104, 105] two_blocks = Inr (2, s') \<and>
    DiskInode_read_at (cache_store BlockFile) small_inode 3 [0, 0] s' = Inr ((2, [104, 105]), s'')"
proof -
  have "replicate (length [104, 105]) (0 :: u8) = [0, 0]" by (simp add: numeral_2_eq_2)
  then show ?thesis
    using inode_write_then_read [OF bf.block_device_axioms two_blocks_ok(1), of small_inode 3 "[104, 105]"]
    by (auto simp: small_inode_ok [unfolded One_nat_def] two_blocks_ok layout_constants numeral_2_eq_2)
qed

text \<open>
  C23. \<open>DiskInode::clear_size\<close> returns every block of the file exactly once, the data blocks and the indirect
  blocks, whatever the depth of the tree, as many as \<open>total_blocks\<close> counts (which is what
  \<open>Inode::clear\<close> asserts); it leaves the disk as it is and the inode with size 0.
\<close>

theorem inode_clear_returns_all_blocks:
  fixes di :: DiskInode and s :: "'d cache_state"
  defines "n \<equiv> unat (DiskInode_data_blocks di)"
  assumes dev: "block_device dev dinv sector sectors" "cache_ok dinv sector sectors s" "length (cm_held s) < 15"
    and ok: "inode_ok di (cache_disk sector s) n" "unat (di_size di) \<le> INDIRECT2_BOUND * BLOCK_SZ"
    and tree: "\<forall>i \<in> set (all_blocks di (cache_disk sector s) n). unat i < sectors (cm_device s) \<and> unat i \<notin> set (cm_held s)"
  shows "\<exists>v di' s'. DiskInode_clear_size (cache_store dev) di s = Inr ((v, di'), s') \<and>
    mset v = mset (all_blocks di (cache_disk sector s) n) \<and> distinct v \<and>
    length v = unat (DiskInode_total_blocks (di_size di)) \<and>
    di_size di' = 0 \<and> di_type di' = di_type di \<and> cache_ok dinv sector sectors s' \<and>
    cache_disk sector s' = cache_disk sector s \<and> cm_held s' = cm_held s"
proof -
  note bs = block_device.cache_is_block_store [OF dev(1)]
  have fr: "\<forall>i \<in> set (index_blocks di (cache_disk sector s) n).
      block_store.free (cache_ok dinv sector sectors) (\<lambda>s. sectors (cm_device s)) cm_held s (unat i)"
    using cache_free_blocks [OF dev] tree by (auto simp: all_blocks_def)
  obtain v di' s' where v: "DiskInode_clear_size (cache_store dev) di s = Inr ((v, di'), s')"
    "cache_ok dinv sector sectors s' \<and> cache_disk sector s' = cache_disk sector s \<and>
      sectors (cm_device s') = sectors (cm_device s) \<and> cm_held s' = cm_held s"
    "cleared di di'" "mset v = mset (all_blocks di (cache_disk sector s) n)"
    using block_store.clear_size_spec [OF bs dev(2) ok(1) n_def [THEN meta_eq_to_obj_eq] dev(3) fr]
    unfolding cache_goes [OF dev(1)] by blast
  have "distinct v" using v(4) ok(1) mset_eq_imp_distinct_iff by (auto simp: inode_ok_def)
  moreover have "length v = unat (DiskInode_total_blocks (di_size di))"
    using mset_eq_length [OF v(4)] length_all_blocks [OF ok(2)] by (simp add: n_def)
  ultimately show ?thesis using v by (auto simp: cleared_def)
qed

theorem inode_clear_returns_all_blocks_witness:
  "\<exists>di' s'. DiskInode_clear_size (cache_store BlockFile) small_inode two_blocks = Inr (([1], di'), s') \<and> di_size di' = 0"
  using inode_clear_returns_all_blocks [OF bf.block_device_axioms two_blocks_ok(1), of small_inode]
  by (auto simp: small_inode_ok [unfolded One_nat_def] two_blocks_ok layout_constants)

end
