(* ===== verification/Efs.thy ===== *)
theory Efs
  imports Disk_Inode
begin

text \<open>
  The disk block manager (\<^verbatim>\<open>easy-fs/src/efs.rs\<close>): it knows where the five regions of the disk are, formats a disk, opens a
  formatted one, and allocates and frees inodes and data blocks through the two bitmaps. The struct itself never changes
  after it is built; the device it carries is the store of the model.
\<close>

section \<open>The file system\<close>

record EasyFileSystem =
  efs_inode_bitmap :: Bitmap
  efs_data_bitmap :: Bitmap
  efs_inode_area_start_block :: u32
  efs_data_area_start_block :: u32

definition EasyFileSystem_get_disk_inode_pos :: "EasyFileSystem \<Rightarrow> u32 \<Rightarrow> u32 \<times> nat" where
  "EasyFileSystem_get_disk_inode_pos efs inode_id =
     (let inode_size = bv_size DiskInode_view;
          inodes_per_block = of_nat (BLOCK_SZ div inode_size) :: u32;
          block_id = efs_inode_area_start_block efs + inode_id div inodes_per_block
      in (block_id, unat (inode_id mod inodes_per_block) * inode_size))"

definition EasyFileSystem_get_data_block_id :: "EasyFileSystem \<Rightarrow> u32 \<Rightarrow> u32" where
  "EasyFileSystem_get_data_block_id efs data_block_id = efs_data_area_start_block efs + data_block_id"

definition EasyFileSystem_alloc_inode :: "'s store \<Rightarrow> EasyFileSystem \<Rightarrow> 's \<Rightarrow> (u32 \<times> 's) outcome" where
  "EasyFileSystem_alloc_inode st efs s =
     and_then (Bitmap_alloc st (efs_inode_bitmap efs) s) (\<lambda>(r, s).
     and_then (unwrap r) (\<lambda>n. Inr (of_nat n, s)))"

definition EasyFileSystem_alloc_data :: "'s store \<Rightarrow> EasyFileSystem \<Rightarrow> 's \<Rightarrow> (u32 \<times> 's) outcome" where
  "EasyFileSystem_alloc_data st efs s =
     and_then (Bitmap_alloc st (efs_data_bitmap efs) s) (\<lambda>(r, s).
     and_then (unwrap r) (\<lambda>n. Inr (of_nat n + efs_data_area_start_block efs, s)))"

definition zero_block :: "block \<Rightarrow> block" where
  "zero_block = map (\<lambda>_. 0)"

definition EasyFileSystem_dealloc_data :: "'s store \<Rightarrow> EasyFileSystem \<Rightarrow> u32 \<Rightarrow> 's \<Rightarrow> 's outcome" where
  "EasyFileSystem_dealloc_data st efs block_id s =
     and_then (cache_modify st (unat block_id) DataBlock 0 (\<lambda>data_block s. Inr ((), zero_block data_block, s)) s) (\<lambda>(_, s).
     Bitmap_dealloc st (efs_data_bitmap efs) (unat (block_id - efs_data_area_start_block efs)) s)"

definition clear_all :: "'s store \<Rightarrow> u32 \<Rightarrow> 's \<Rightarrow> 's outcome" where
  "clear_all st total_blocks =
     for_each (\<lambda>i s. and_then (cache_modify st i DataBlock 0 (\<lambda>data_block s. Inr ((), zero_block data_block, s)) s)
       (\<lambda>(_, s). Inr s)) [0..<unat total_blocks]"

text \<open>The sizes of the regions, as \<open>create\<close> computes them.\<close>

definition inode_area_blocks_of :: "u32 \<Rightarrow> u32" where
  "inode_area_blocks_of inode_bitmap_blocks =
     of_nat ((Bitmap_maximum (Bitmap_new 1 (unat inode_bitmap_blocks)) * bv_size DiskInode_view + BLOCK_SZ - 1) div BLOCK_SZ)"

definition data_bitmap_blocks_of :: "u32 \<Rightarrow> u32 \<Rightarrow> u32" where
  "data_bitmap_blocks_of total_blocks inode_bitmap_blocks =
     (total_blocks - 1 - (inode_bitmap_blocks + inode_area_blocks_of inode_bitmap_blocks) + 4096) div 4097"

definition EasyFileSystem_of :: "u32 \<Rightarrow> u32 \<Rightarrow> u32 \<Rightarrow> EasyFileSystem" where
  "EasyFileSystem_of inode_bitmap_blocks inode_area_blocks data_bitmap_blocks =
     (let inode_total_blocks = inode_bitmap_blocks + inode_area_blocks in
      \<lparr>efs_inode_bitmap = Bitmap_new 1 (unat inode_bitmap_blocks),
       efs_data_bitmap = Bitmap_new (unat (1 + inode_total_blocks)) (unat data_bitmap_blocks),
       efs_inode_area_start_block = 1 + inode_bitmap_blocks,
       efs_data_area_start_block = 1 + inode_total_blocks + data_bitmap_blocks\<rparr>)"

definition EasyFileSystem_create :: "'s store \<Rightarrow> u32 \<Rightarrow> u32 \<Rightarrow> 's \<Rightarrow> (EasyFileSystem \<times> 's) outcome" where
  "EasyFileSystem_create st total_blocks inode_bitmap_blocks s =
     (let inode_area_blocks = inode_area_blocks_of inode_bitmap_blocks;
          inode_total_blocks = inode_bitmap_blocks + inode_area_blocks;
          data_total_blocks = total_blocks - 1 - inode_total_blocks;
          data_bitmap_blocks = data_bitmap_blocks_of total_blocks inode_bitmap_blocks;
          data_area_blocks = data_total_blocks - data_bitmap_blocks;
          efs = EasyFileSystem_of inode_bitmap_blocks inode_area_blocks data_bitmap_blocks
      in and_then (clear_all st total_blocks s) (\<lambda>s.
         and_then (cache_modify st 0 SuperBlock_view 0 (\<lambda>_ s.
           Inr ((), SuperBlock_initialize total_blocks inode_bitmap_blocks inode_area_blocks data_bitmap_blocks data_area_blocks, s)) s) (\<lambda>(_, s).
         and_then (EasyFileSystem_alloc_inode st efs s) (\<lambda>(id, s).
         and_then (assert_that (id = 0)) (\<lambda>_.
         let (root_inode_block_id, root_inode_offset) = EasyFileSystem_get_disk_inode_pos efs 0 in
         and_then (cache_modify st (unat root_inode_block_id) DiskInode_view root_inode_offset (\<lambda>disk_inode s.
           Inr ((), DiskInode_initialize Directory disk_inode, s)) s) (\<lambda>(_, s).
         and_then (st_sync_all st s) (\<lambda>s. Inr (efs, s))))))))"

definition EasyFileSystem_open :: "'s store \<Rightarrow> 's \<Rightarrow> (EasyFileSystem \<times> 's) outcome" where
  "EasyFileSystem_open st s =
     cache_read st 0 SuperBlock_view 0 (\<lambda>super_block s.
       and_then (assert_that (SuperBlock_is_valid super_block)) (\<lambda>_.
       Inr (EasyFileSystem_of (sb_inode_bitmap_blocks super_block) (sb_inode_area_blocks super_block)
         (sb_data_bitmap_blocks super_block), s))) s"

section \<open>The regions of the disk\<close>

text \<open>
  \<open>fits\<close>: there is at least one inode bitmap block, and the disk is larger than the super block and the
  inode regions. The bounds keep block and inode numbers from wrapping.
\<close>

definition fits :: "u32 \<Rightarrow> u32 \<Rightarrow> bool" where
  "fits total_blocks inode_bitmap_blocks \<longleftrightarrow>
     1 \<le> unat inode_bitmap_blocks \<and> 1 + unat inode_bitmap_blocks * 1025 < unat total_blocks \<and>
     unat total_blocks \<le> 2 ^ 32 - 4096 \<and> unat inode_bitmap_blocks * 4096 < 2 ^ 32"

lemma bv_sizes [simp]: "bv_size DiskInode_view = 128" "bv_size SuperBlock_view = 24"
  by (simp_all add: DiskInode_view_def SuperBlock_view_def)

lemma unat_of_nat_u32: "n < 2 ^ 32 \<Longrightarrow> unat (of_nat n :: u32) = n"
  by (simp add: unat_of_nat take_bit_nat_eq_self)

lemma unat_add_u32: "unat x + unat y < 2 ^ 32 \<Longrightarrow> unat (x + y :: u32) = unat x + unat y"
  by (subst unat_plus_if') simp

lemma unat_sub_u32: "unat y \<le> unat x \<Longrightarrow> unat (x - y :: u32) = unat x - unat y"
  by (metis unat_sub word_le_nat_alt)

lemma inode_area_blocks_eq:
  assumes "fits tb ib"
  shows "unat (inode_area_blocks_of ib) = unat ib * 1024"
proof -
  have small: "unat ib * 1024 < 2 ^ 32" using assms unfolding fits_def by linarith
  have "(unat ib * 4096 * 128 + 512 - 1) div 512 = (511 + unat ib * 1024 * 512) div 512" by (simp add: mult.assoc)
  also have "\<dots> = unat ib * 1024" by (subst div_mult_self1) simp_all
  finally have "inode_area_blocks_of ib = of_nat (unat ib * 1024)"
    unfolding inode_area_blocks_of_def Bitmap_maximum_def Bitmap_new_def BLOCK_BITS_eq BLOCK_SZ_def bv_sizes
    by (simp only: Bitmap.select_convs)
  then show ?thesis by (simp only: unat_of_nat_u32 [OF small])
qed

lemma region_sizes:
  assumes "fits tb ib"
  shows "unat (ib + inode_area_blocks_of ib) = unat ib * 1025"
    "unat (1 + ib) = 1 + unat ib"
    "unat (1 + (ib + inode_area_blocks_of ib)) = 1 + unat ib * 1025"
    "unat (data_bitmap_blocks_of tb ib) = (unat tb - 1 - unat ib * 1025 + 4096) div 4097"
    "unat (1 + (ib + inode_area_blocks_of ib) + data_bitmap_blocks_of tb ib) =
       1 + unat ib * 1025 + unat (data_bitmap_blocks_of tb ib)"
    "1 + unat ib * 1025 + unat (data_bitmap_blocks_of tb ib) \<le> unat tb"
proof -
  note area = inode_area_blocks_eq [OF assms]
  have f: "1 + unat ib * 1025 < unat tb" "unat tb \<le> 2 ^ 32 - 4096" using assms by (simp_all add: fits_def)
  show a: "unat (ib + inode_area_blocks_of ib) = unat ib * 1025"
    using f area by (subst unat_add_u32) simp_all
  show "unat (1 + ib) = 1 + unat ib" using f by (subst unat_add_u32) simp_all
  show b: "unat (1 + (ib + inode_area_blocks_of ib)) = 1 + unat ib * 1025"
    using f a by (subst unat_add_u32) simp_all
  have "unat (tb - 1) = unat tb - 1" using f by (subst unat_sub_u32) simp_all
  then have "unat (tb - 1 - (ib + inode_area_blocks_of ib)) = unat tb - 1 - unat ib * 1025"
    using f a by (subst unat_sub_u32) simp_all
  then have "unat (tb - 1 - (ib + inode_area_blocks_of ib) + 4096) = unat tb - 1 - unat ib * 1025 + 4096"
    using f by (subst unat_add_u32) simp_all
  then show c: "unat (data_bitmap_blocks_of tb ib) = (unat tb - 1 - unat ib * 1025 + 4096) div 4097"
    by (simp add: data_bitmap_blocks_of_def unat_div_distrib)
  define m where "m = unat tb - 1 - unat ib * 1025"
  have "(m + 4096) div 4097 \<le> m" if "0 < m"
  proof -
    have "m + 4096 < (m + 1) * 4097" using that by simp
    then have "(m + 4096) div 4097 < m + 1" by (rule less_mult_imp_div_less)
    then show ?thesis by simp
  qed
  then show d: "1 + unat ib * 1025 + unat (data_bitmap_blocks_of tb ib) \<le> unat tb"
    using c f(1) by (simp add: m_def)
  show "unat (1 + (ib + inode_area_blocks_of ib) + data_bitmap_blocks_of tb ib) =
      1 + unat ib * 1025 + unat (data_bitmap_blocks_of tb ib)"
    using b d f(2) by (subst unat_add_u32) simp_all
qed

lemma disk_inode_pos:
  assumes "fits tb ib" "i < unat ib * 4096" "efs_inode_area_start_block efs = 1 + ib"
  shows "\<exists>b. EasyFileSystem_get_disk_inode_pos efs (of_nat i) = (b, i mod 4 * 128) \<and> unat b = 1 + unat ib + i div 4 \<and>
    unat b < 1 + unat ib * 1025"
proof -
  have b: "1 + unat ib + i div 4 < 1 + unat ib * 1025"
    using assms(2) less_mult_imp_div_less [of i "unat ib * 1024" 4] by simp
  then have small: "1 + unat ib + i div 4 < 2 ^ 32" using assms(1) unfolding fits_def by linarith
  have "i < 2 ^ 32" using assms(1,2) unfolding fits_def by linarith
  then have i: "unat (of_nat i :: u32) = i" by (rule unat_of_nat_u32)
  then have "unat (of_nat i div 4 :: u32) = i div 4" "unat (of_nat i mod 4 :: u32) = i mod 4"
    by (simp_all add: unat_div_distrib unat_mod_distrib)
  moreover from this(1) have "unat (1 + ib + of_nat i div 4 :: u32) = 1 + unat ib + i div 4"
    using small region_sizes(2) [OF assms(1)] by (subst unat_add_u32) simp_all
  ultimately show ?thesis
    using assms(3) b by (simp add: EasyFileSystem_get_disk_inode_pos_def Let_def BLOCK_SZ_def)
qed

text \<open>
  C26. The inodes of a formatted disk do not overlap and stay inside the inode area: for every two inode
  numbers the inode bitmap can hand out, \<open>get_disk_inode_pos\<close> gives places of 128 bytes inside one
  block of the area, and places that do not overlap for different numbers.
\<close>

theorem disk_inode_positions:
  assumes "fits tb ib" "i < unat ib * 4096" "j < unat ib * 4096"
    "efs = EasyFileSystem_of ib (inode_area_blocks_of ib) (data_bitmap_blocks_of tb ib)"
    "EasyFileSystem_get_disk_inode_pos efs (of_nat i) = (block_i, off_i)"
    "EasyFileSystem_get_disk_inode_pos efs (of_nat j) = (block_j, off_j)"
  shows "unat (efs_inode_area_start_block efs) \<le> unat block_i \<and> unat block_i < bm_start_block_id (efs_data_bitmap efs) \<and>
    off_i + 128 \<le> BLOCK_SZ \<and> (i \<noteq> j \<longrightarrow> block_i \<noteq> block_j \<or> off_i + 128 \<le> off_j \<or> off_j + 128 \<le> off_i)"
proof -
  have start: "efs_inode_area_start_block efs = 1 + ib" "bm_start_block_id (efs_data_bitmap efs) = 1 + unat ib * 1025"
    using assms(4) region_sizes [OF assms(1)] by (simp_all add: EasyFileSystem_of_def Let_def Bitmap_new_def)
  note pi = disk_inode_pos [OF assms(1,2) start(1)] and pj = disk_inode_pos [OF assms(1,3) start(1)]
  have blocks: "unat block_i = 1 + unat ib + i div 4" "unat block_j = 1 + unat ib + j div 4"
    and offs: "off_i = i mod 4 * 128" "off_j = j mod 4 * 128"
    using assms(5,6) pi pj by auto
  have "block_i \<noteq> block_j \<or> off_i + 128 \<le> off_j \<or> off_j + 128 \<le> off_i" if "i \<noteq> j"
  proof (cases "i div 4 = j div 4")
    case True
    then have "i mod 4 \<noteq> j mod 4" using that by (metis div_mod_decomp)
    then show ?thesis using offs by auto
  next
    case False
    then show ?thesis using blocks by auto
  qed
  moreover have "off_i + 128 \<le> BLOCK_SZ" using offs(1) mod_less_divisor [of 4 i] by (simp add: BLOCK_SZ_def)
  ultimately show ?thesis using blocks(1) pi assms(5) start region_sizes(2) [OF assms(1)] by auto
qed

theorem disk_inode_positions_witness:
  "let efs = EasyFileSystem_of 1 (inode_area_blocks_of 1) (data_bitmap_blocks_of 32768 1);
       (block_i, off_i) = EasyFileSystem_get_disk_inode_pos efs 6; (block_j, off_j) = EasyFileSystem_get_disk_inode_pos efs 7
   in unat (efs_inode_area_start_block efs) \<le> unat block_i \<and> (block_i \<noteq> block_j \<or> off_i + 128 \<le> off_j \<or> off_j + 128 \<le> off_i)"
proof -
  have "fits 32768 1" by (simp add: fits_def)
  from disk_inode_positions [OF this, of 6 7, OF _ _ refl] show ?thesis
    by (auto simp: Let_def split: prod.split)
qed

section \<open>Formatting and opening\<close>

text \<open>What a freshly formatted disk looks like.\<close>

definition formatted :: "u32 \<Rightarrow> u32 \<Rightarrow> (nat \<Rightarrow> block) \<Rightarrow> bool" where
  "formatted tb ib D \<longleftrightarrow>
     (let efs = EasyFileSystem_of ib (inode_area_blocks_of ib) (data_bitmap_blocks_of tb ib) in
      view_at SuperBlock_view 0 (D 0) = SuperBlock_initialize tb ib (inode_area_blocks_of ib) (data_bitmap_blocks_of tb ib)
        (tb - 1 - (ib + inode_area_blocks_of ib) - data_bitmap_blocks_of tb ib) \<and>
      view_at DiskInode_view 0 (D (1 + unat ib)) =
        \<lparr>di_size = 0, di_direct = replicate 28 0, di_indirect1 = 0, di_indirect2 = 0, di_type = Directory\<rparr> \<and>
      (\<forall>n < Bitmap_maximum (efs_inode_bitmap efs). bitmap_bit (efs_inode_bitmap efs) D n \<longleftrightarrow> n = 0) \<and>
      (\<forall>n < Bitmap_maximum (efs_data_bitmap efs). \<not> bitmap_bit (efs_data_bitmap efs) D n))"

lemma zero_block_eq: "zero_block b = replicate (length b) 0"
  by (simp add: zero_block_def map_replicate_const)

lemma bitmap_block_of: "n < Bitmap_maximum bm \<Longrightarrow> n div BLOCK_BITS + bm_start_block_id bm \<in> bitmap_blocks bm"
  using less_mult_imp_div_less [of n "bm_blocks bm" BLOCK_BITS]
  by (simp add: Bitmap_maximum_def bitmap_blocks_def)

lemma bitmap_bit_zero:
  assumes "n < Bitmap_maximum bm" "\<forall>i \<in> bitmap_blocks bm. D i = replicate BLOCK_SZ 0"
  shows "\<not> bitmap_bit bm D n"
proof -
  have "D (n div BLOCK_BITS + bm_start_block_id bm) = replicate BLOCK_SZ 0"
    using bitmap_block_of [OF assms(1)] assms(2) by blast
  moreover have "n mod BLOCK_BITS div 8 < BLOCK_SZ" by (simp add: BLOCK_BITS_eq BLOCK_SZ_def less_mult_imp_div_less)
  ultimately show ?thesis by (subst bitmap_bit_byte) simp_all
qed

lemma bitmap_bit_same:
  "n < Bitmap_maximum bm \<Longrightarrow> \<forall>i \<in> bitmap_blocks bm. D' i = D i \<Longrightarrow> bitmap_bit bm D' n = bitmap_bit bm D n"
  using bitmap_block_of by (simp add: bitmap_bit_def)

definition zeroed :: "nat \<Rightarrow> (nat \<Rightarrow> block) \<Rightarrow> nat \<Rightarrow> block" where
  "zeroed n D i = (if i < n then replicate BLOCK_SZ 0 else D i)"

definition root_dir :: DiskInode where
  "root_dir = \<lparr>di_size = 0, di_direct = replicate 28 0, di_indirect1 = 0, di_indirect2 = 0, di_type = Directory\<rparr>"

context block_store
begin

lemma clear_loop_spec:
  assumes "inv s" "held s = []" "n \<le> size s"
  shows "\<exists>s'. for_each (\<lambda>i s. and_then (cache_modify st i DataBlock 0 (\<lambda>data_block s. Inr ((), zero_block data_block, s)) s)
       (\<lambda>(_, s). Inr s)) [0..<n] s = Inr s' \<and> goes s (zeroed n (disk s)) s'"
  using assms(3)
proof (induction n)
  case 0
  have "zeroed 0 (disk s) = disk s" by (auto simp: zeroed_def)
  then show ?case using goes_refl [OF assms(1)] by simp
next
  case (Suc n)
  then obtain s1 where s1: "for_each (\<lambda>i s. and_then (cache_modify st i DataBlock 0 (\<lambda>data_block s. Inr ((), zero_block data_block, s)) s)
       (\<lambda>(_, s). Inr s)) [0..<n] s = Inr s1" "goes s (zeroed n (disk s)) s1" by auto
  have fr: "free s1 n" using s1(2) Suc.prems assms(2) by (simp add: free_def goes_def)
  have len: "length (disk s1 n) = BLOCK_SZ" using block_len fr by (simp add: free_def)
  obtain s2 where s2: "cache_modify st n DataBlock 0 (\<lambda>data_block s. Inr ((), zero_block data_block, s)) s1 = Inr ((), s2)"
    "goes s1 ((disk s1)(n := replicate BLOCK_SZ 0)) s2"
    using cache_modify_pure [OF fr, of 0 DataBlock "\<lambda>b. ((), zero_block b)"] len by (auto simp: zero_block_eq)
  have "(disk s1)(n := replicate BLOCK_SZ 0) = zeroed (Suc n) (disk s)"
    using s1(2) by (auto simp: goes_def zeroed_def fun_eq_iff less_Suc_eq)
  then show ?case using s1(1) s2 goes_trans [OF s1(2)] by (auto simp: for_each_append)
qed

lemma alloc_first_inode:
  assumes "inv s" "\<forall>i \<in> bitmap_blocks (efs_inode_bitmap efs). free s i" "0 < bm_blocks (efs_inode_bitmap efs)"
    "\<not> bitmap_bit (efs_inode_bitmap efs) (disk s) 0"
  shows "\<exists>s' D. EasyFileSystem_alloc_inode st efs s = Inr (0, s') \<and> goes s D s' \<and>
    (\<forall>i. i \<notin> bitmap_blocks (efs_inode_bitmap efs) \<longrightarrow> D i = disk s i) \<and>
    bitmap_bit (efs_inode_bitmap efs) D = (bitmap_bit (efs_inode_bitmap efs) (disk s))(0 := True)"
proof -
  have max: "0 < Bitmap_maximum (efs_inode_bitmap efs)" using assms(3) by (simp add: Bitmap_maximum_def BLOCK_BITS_eq)
  obtain r s' D where r: "Bitmap_alloc st (efs_inode_bitmap efs) s = Inr (r, s')" "goes s D s'"
    "\<forall>i. i \<notin> bitmap_blocks (efs_inode_bitmap efs) \<longrightarrow> D i = disk s i"
    "case r of
       None \<Rightarrow> D = disk s \<and> (\<forall>n < Bitmap_maximum (efs_inode_bitmap efs). bitmap_bit (efs_inode_bitmap efs) (disk s) n)
     | Some n \<Rightarrow> n < Bitmap_maximum (efs_inode_bitmap efs) \<and> \<not> bitmap_bit (efs_inode_bitmap efs) (disk s) n \<and>
         (\<forall>k < n. bitmap_bit (efs_inode_bitmap efs) (disk s) k) \<and>
         bitmap_bit (efs_inode_bitmap efs) D = (bitmap_bit (efs_inode_bitmap efs) (disk s))(n := True)"
    using Bitmap_alloc_spec [OF assms(1,2)] by blast
  show ?thesis
  proof (cases r)
    case None
    then show ?thesis using r(4) max assms(4) by auto
  next
    case (Some n)
    then have "n = 0" using r(4) assms(4) by (cases n) auto
    then show ?thesis using r Some by (intro exI [of _ s'] exI [of _ D]) (simp add: EasyFileSystem_alloc_inode_def)
  qed
qed

lemma initialize_zero_inode:
  "length b = BLOCK_SZ \<Longrightarrow> DiskInode_initialize Directory (view_at DiskInode_view 0 b) =
     \<lparr>di_size = 0, di_direct = replicate 28 0, di_indirect1 = 0, di_indirect2 = 0, di_type = Directory\<rparr>"
  using disk_inode.view_at_ok [of b 0] by (simp add: DiskInode_initialize_def map_replicate_const BLOCK_SZ_def)

lemma set_whole:
  assumes "free s i" "length (set_view vw 0 x (disk s i)) = BLOCK_SZ" "bv_size vw \<le> BLOCK_SZ"
  shows "\<exists>s'. cache_modify st i vw 0 (\<lambda>_ s. Inr ((), x, s)) s = Inr ((), s') \<and>
    goes s ((disk s)(i := set_view vw 0 x (disk s i))) s'"
  using cache_modify_pure [OF assms(1), of 0 vw "\<lambda>_. ((), x)"] assms(2,3) by simp

text \<open>Clearing the disk and writing the super block.\<close>

lemma format_super:
  assumes "inv s" "held s = []" "n \<le> size s" "0 < n"
  shows "\<exists>s1 s2 D. for_each (\<lambda>i s. and_then (cache_modify st i DataBlock 0 (\<lambda>data_block s. Inr ((), zero_block data_block, s)) s)
       (\<lambda>(_, s). Inr s)) [0..<n] s = Inr s1 \<and>
    cache_modify st 0 SuperBlock_view 0 (\<lambda>_ s. Inr ((), sb, s)) s1 = Inr ((), s2) \<and> goes s D s2 \<and>
    view_at SuperBlock_view 0 (D 0) = sb \<and> (\<forall>i. 0 < i \<and> i < n \<longrightarrow> D i = replicate BLOCK_SZ 0)"
proof -
  let ?Z = "zeroed n (disk s)"
  obtain s1 where s1: "for_each (\<lambda>i s. and_then (cache_modify st i DataBlock 0 (\<lambda>data_block s. Inr ((), zero_block data_block, s)) s)
       (\<lambda>(_, s). Inr s)) [0..<n] s = Inr s1" "goes s ?Z s1"
    using clear_loop_spec [OF assms(1-3)] by blast
  have z: "?Z 0 = replicate BLOCK_SZ 0" "length (?Z 0) = BLOCK_SZ" using assms(4) by (simp_all add: zeroed_def)
  have d1: "disk s1 = ?Z" "free s1 0" using s1(2) assms by (simp_all add: goes_def free_def)
  have len: "length (set_view SuperBlock_view 0 sb (?Z 0)) = BLOCK_SZ"
    using super_block.length_set_view [where x = sb and b = "?Z 0" and off = 0] z by (simp add: BLOCK_SZ_def)
  obtain s2 where s2: "cache_modify st 0 SuperBlock_view 0 (\<lambda>_ s. Inr ((), sb, s)) s1 = Inr ((), s2)"
    "goes s1 (?Z(0 := set_view SuperBlock_view 0 sb (?Z 0))) s2"
    using set_whole [OF d1(2), of SuperBlock_view sb] len d1(1) by (auto simp: BLOCK_SZ_def)
  have "view_at SuperBlock_view 0 (set_view SuperBlock_view 0 sb (?Z 0)) = sb"
    using super_block.view_set_view [where x = sb and b = "?Z 0" and off = 0] z by (simp add: BLOCK_SZ_def)
  then show ?thesis
    using s1(1) s2(1) goes_trans [OF s1(2) s2(2)]
    by (intro exI [of _ s1] exI [of _ s2] exI [of _ "?Z(0 := set_view SuperBlock_view 0 sb (?Z 0))"])
      (auto simp: zeroed_def)
qed

text \<open>Making the root directory.\<close>

lemma format_root:
  assumes "free s i"
  shows "\<exists>s' b. cache_modify st i DiskInode_view 0 (\<lambda>disk_inode s. Inr ((), DiskInode_initialize Directory disk_inode, s)) s = Inr ((), s') \<and>
    goes s ((disk s)(i := b)) s' \<and> view_at DiskInode_view 0 b = root_dir"
proof -
  have len: "length (disk s i) = BLOCK_SZ" using assms block_len by (simp add: free_def)
  have root: "DiskInode_initialize Directory (view_at DiskInode_view 0 (disk s i)) = root_dir"
    using initialize_zero_inode [OF len] by (simp add: root_dir_def)
  have ok: "length (di_direct root_dir) = 28" by (simp add: root_dir_def)
  have "length (set_view DiskInode_view 0 root_dir (disk s i)) = BLOCK_SZ"
    using disk_inode.length_set_view [OF ok len, of 0] by (simp add: BLOCK_SZ_def)
  moreover have "view_at DiskInode_view 0 (set_view DiskInode_view 0 root_dir (disk s i)) = root_dir"
    using disk_inode.view_set_view [OF ok len, of 0] by (simp add: BLOCK_SZ_def)
  ultimately show ?thesis
    using cache_modify_pure [OF assms, of 0 DiskInode_view "\<lambda>di. ((), DiskInode_initialize Directory di)"] root
    by (auto simp: BLOCK_SZ_def)
qed

lemma create_spec:
  assumes fits: "fits tb ib" and s: "inv s" "held s = []" "unat tb \<le> size s"
  defines "efs \<equiv> EasyFileSystem_of ib (inode_area_blocks_of ib) (data_bitmap_blocks_of tb ib)"
  shows "\<exists>s' D. EasyFileSystem_create st tb ib s = Inr (efs, s') \<and> goes s D s' \<and> stable s' = D \<and> formatted tb ib D"
proof -
  note rs = region_sizes [OF fits]
  define sb where "sb = SuperBlock_initialize tb ib (inode_area_blocks_of ib) (data_bitmap_blocks_of tb ib)
        (tb - 1 - (ib + inode_area_blocks_of ib) - data_bitmap_blocks_of tb ib)"
  have ib: "0 < unat ib" "1 + unat ib * 1025 < unat tb" using fits by (simp_all add: fits_def)
  have ibm: "bitmap_blocks (efs_inode_bitmap efs) = {1..<1 + unat ib}" "bm_blocks (efs_inode_bitmap efs) = unat ib"
    "Bitmap_maximum (efs_inode_bitmap efs) = unat ib * 4096"
    by (simp_all add: efs_def EasyFileSystem_of_def Let_def bitmap_blocks_def Bitmap_new_def Bitmap_maximum_def BLOCK_BITS_eq)
  have dbm: "bitmap_blocks (efs_data_bitmap efs) =
      {1 + unat ib * 1025..<1 + unat ib * 1025 + unat (data_bitmap_blocks_of tb ib)}"
    using rs(3) by (simp add: efs_def EasyFileSystem_of_def Let_def bitmap_blocks_def Bitmap_new_def)
  have pos: "EasyFileSystem_get_disk_inode_pos efs 0 = (1 + ib, 0)"
    by (simp add: EasyFileSystem_get_disk_inode_pos_def efs_def EasyFileSystem_of_def Let_def BLOCK_SZ_def)
  obtain s1 s2 D2 where s2: "clear_all st tb s = Inr s1" "cache_modify st 0 SuperBlock_view 0 (\<lambda>_ s. Inr ((), sb, s)) s1 = Inr ((), s2)"
    "goes s D2 s2" "view_at SuperBlock_view 0 (D2 0) = sb" "\<forall>i. 0 < i \<and> i < unat tb \<longrightarrow> D2 i = replicate BLOCK_SZ 0"
    using format_super [OF s, of sb] ib by (auto simp: clear_all_def)
  have d2: "disk s2 = D2" "inv s2" "\<forall>i < unat tb. free s2 i" using s2(3) s by (simp_all add: goes_def free_def)
  have clear: "\<not> bitmap_bit bm D2 n" if "n < Bitmap_maximum bm" "bitmap_blocks bm \<subseteq> {1..<unat tb}" for n bm
    using that s2(5) by (intro bitmap_bit_zero) auto
  obtain s3 D3 where s3: "EasyFileSystem_alloc_inode st efs s2 = Inr (0, s3)" "goes s2 D3 s3"
    "\<forall>i. i \<notin> bitmap_blocks (efs_inode_bitmap efs) \<longrightarrow> D3 i = D2 i"
    "bitmap_bit (efs_inode_bitmap efs) D3 = (bitmap_bit (efs_inode_bitmap efs) D2)(0 := True)"
    using alloc_first_inode [OF d2(2), of efs] d2(1,3) ib ibm clear [of 0 "efs_inode_bitmap efs"] by auto
  have "free s3 (1 + unat ib)" using d2(3) goes_free [OF d2(2) s3(2)] ib by simp
  then obtain s4 b where s4: "cache_modify st (1 + unat ib) DiskInode_view 0 (\<lambda>disk_inode s.
      Inr ((), DiskInode_initialize Directory disk_inode, s)) s3 = Inr ((), s4)"
    "goes s3 (D3(1 + unat ib := b)) s4" "view_at DiskInode_view 0 b = root_dir"
    using format_root s3(2) by (fastforce simp: goes_def)
  define D where "D = D3(1 + unat ib := b)"
  have g: "goes s D s4" using goes_trans [OF goes_trans [OF s2(3) s3(2)] s4(2)] by (simp add: D_def)
  obtain s5 where s5: "st_sync_all st s4 = Inr s5" "goes s D s5" "stable s5 = D"
    using sync_ok [of s4] g s(2) by (auto simp: goes_def)
  have "EasyFileSystem_create st tb ib s = Inr (efs, s5)"
    using s2(1,2) s3(1) s4(1) s5(1) pos rs(2)
    by (simp add: EasyFileSystem_create_def Let_def efs_def [symmetric] sb_def [symmetric])
  moreover have "formatted tb ib D"
  proof -
    have "D 0 = D2 0" using s3(3) ibm(1) by (simp add: D_def)
    moreover have "bitmap_bit (efs_inode_bitmap efs) D n \<longleftrightarrow> n = 0" if n: "n < Bitmap_maximum (efs_inode_bitmap efs)" for n
      using bitmap_bit_same [OF n, of D D3] clear [OF n] s3(4) ibm ib by (auto simp: D_def)
    moreover have "\<forall>i \<in> bitmap_blocks (efs_data_bitmap efs). D i = D2 i"
      using s3(3) ibm(1) dbm ib(1) by (auto simp: D_def)
    then have "\<not> bitmap_bit (efs_data_bitmap efs) D n" if n: "n < Bitmap_maximum (efs_data_bitmap efs)" for n
      using bitmap_bit_same [OF n, of D D2] clear [OF n] dbm rs(6) by auto
    ultimately show ?thesis
      using s2(4) s4(3) by (simp add: formatted_def Let_def efs_def [symmetric] sb_def root_dir_def D_def)
  qed
  ultimately show ?thesis using s5 by blast
qed

lemma open_spec:
  assumes "free s 0" "formatted tb ib (disk s)"
  shows "\<exists>s'. EasyFileSystem_open st s =
    Inr (EasyFileSystem_of ib (inode_area_blocks_of ib) (data_bitmap_blocks_of tb ib), s') \<and> goes s (disk s) s'"
  unfolding EasyFileSystem_open_def
proof (rule cache_read_rule [OF assms(1)])
  fix s1 assume "inv s1" "disk s1 = disk s"
  then show "\<exists>s2. and_then (assert_that (SuperBlock_is_valid (view_at SuperBlock_view 0 (disk s 0)))) (\<lambda>_.
      Inr (EasyFileSystem_of (sb_inode_bitmap_blocks (view_at SuperBlock_view 0 (disk s 0)))
        (sb_inode_area_blocks (view_at SuperBlock_view 0 (disk s 0)))
        (sb_data_bitmap_blocks (view_at SuperBlock_view 0 (disk s 0))), s1)) =
      Inr (EasyFileSystem_of ib (inode_area_blocks_of ib) (data_bitmap_blocks_of tb ib), s2) \<and> goes s1 (disk s) s2"
    using assms(2) goes_refl [of s1] by (simp add: formatted_def Let_def SuperBlock_initialize_def SuperBlock_is_valid_def)
qed (simp add: BLOCK_SZ_def)

end

text \<open>
  C7. A disk that was formatted can be opened again. On every device that is large enough,
  \<open>EasyFileSystem::create\<close> succeeds; the disk then has the super block, an empty root directory, the
  inode bitmap with the root inode taken and an empty data bitmap, all of it on the device and not only in
  the cache; and \<open>EasyFileSystem::open\<close> from a cold cache over that device returns the same file system.
\<close>

theorem efs_create_then_open:
  assumes "block_device dev dinv sector sectors" "cache_ok dinv sector sectors s" "cm_held s = []"
    "fits total_blocks inode_bitmap_blocks" "unat total_blocks \<le> sectors (cm_device s)"
  shows "\<exists>efs s' s''. EasyFileSystem_create (cache_store dev) total_blocks inode_bitmap_blocks s = Inr (efs, s') \<and>
    cache_ok dinv sector sectors s' \<and> formatted total_blocks inode_bitmap_blocks (sector (cm_device s')) \<and>
    EasyFileSystem_open (cache_store dev) (BlockCacheManager_new (cm_device s')) = Inr (efs, s'')"
proof -
  note bs = block_device.cache_is_block_store [OF assms(1)]
  obtain efs s' where s': "EasyFileSystem_create (cache_store dev) total_blocks inode_bitmap_blocks s = Inr (efs, s')"
    "efs = EasyFileSystem_of inode_bitmap_blocks (inode_area_blocks_of inode_bitmap_blocks)
      (data_bitmap_blocks_of total_blocks inode_bitmap_blocks)"
    "cache_ok dinv sector sectors s'" "sectors (cm_device s') = sectors (cm_device s)"
    "formatted total_blocks inode_bitmap_blocks (sector (cm_device s'))"
    using block_store.create_spec [OF bs assms(4,2,3,5)] unfolding cache_goes [OF assms(1)] by metis
  define c where "c = BlockCacheManager_new (cm_device s')"
  have c: "cache_ok dinv sector sectors c" "cache_disk sector c = sector (cm_device s')" "cm_held c = []" "cm_device c = cm_device s'"
    using block_device.fresh_cache_ok [OF assms(1), of "cm_device s'"] s'(3)
    by (simp_all add: c_def cache_ok_def BlockCacheManager_new_def)
  have "0 < sectors (cm_device c)" using assms(4,5) s'(4) c(4) by (simp add: fits_def)
  then have "block_store.free (cache_ok dinv sector sectors) (\<lambda>s. sectors (cm_device s)) cm_held c 0"
    using c by (simp add: cache_free [OF assms(1)])
  then show ?thesis
    using block_store.open_spec [OF bs _ s'(5) [folded c(2)]] s' unfolding c_def by blast
qed

theorem efs_create_then_open_witness:
  "\<exists>efs s' s''. EasyFileSystem_create (cache_store BlockFile) 2048 1 (BlockCacheManager_new (replicate (2048 * 512) 0)) = Inr (efs, s') \<and>
    EasyFileSystem_open (cache_store BlockFile) (BlockCacheManager_new (cm_device s')) = Inr (efs, s'')"
proof -
  define img :: "u8 list" where "img = replicate (2048 * 512) 0"
  have "file_ok img" "file_sectors (cm_device (BlockCacheManager_new img)) = 2048" "cm_held (BlockCacheManager_new img) = []"
    by (simp_all add: img_def file_ok_def file_sectors_def BlockCacheManager_new_def BLOCK_SZ_def)
  moreover have "fits 2048 1" by (simp add: fits_def)
  ultimately show ?thesis
    using efs_create_then_open [OF bf.block_device_axioms conjunct1 [OF bf.fresh_cache_ok [of img]], of 2048 1]
    unfolding img_def by auto
qed

section \<open>Allocating data blocks\<close>

context block_store
begin

lemma alloc_data_spec:
  assumes "inv s" "\<forall>i \<in> bitmap_blocks (efs_data_bitmap efs). free s i" "n < Bitmap_maximum (efs_data_bitmap efs)"
    "\<not> bitmap_bit (efs_data_bitmap efs) (disk s) n" "\<forall>k < n. bitmap_bit (efs_data_bitmap efs) (disk s) k"
  shows "\<exists>s' D. EasyFileSystem_alloc_data st efs s = Inr (of_nat n + efs_data_area_start_block efs, s') \<and> goes s D s' \<and>
    (\<forall>i. i \<notin> bitmap_blocks (efs_data_bitmap efs) \<longrightarrow> D i = disk s i) \<and>
    bitmap_bit (efs_data_bitmap efs) D = (bitmap_bit (efs_data_bitmap efs) (disk s))(n := True)"
proof -
  obtain r s' D where r: "Bitmap_alloc st (efs_data_bitmap efs) s = Inr (r, s')" "goes s D s'"
    "\<forall>i. i \<notin> bitmap_blocks (efs_data_bitmap efs) \<longrightarrow> D i = disk s i"
    "case r of
       None \<Rightarrow> D = disk s \<and> (\<forall>n < Bitmap_maximum (efs_data_bitmap efs). bitmap_bit (efs_data_bitmap efs) (disk s) n)
     | Some n \<Rightarrow> n < Bitmap_maximum (efs_data_bitmap efs) \<and> \<not> bitmap_bit (efs_data_bitmap efs) (disk s) n \<and>
         (\<forall>k < n. bitmap_bit (efs_data_bitmap efs) (disk s) k) \<and>
         bitmap_bit (efs_data_bitmap efs) D = (bitmap_bit (efs_data_bitmap efs) (disk s))(n := True)"
    using Bitmap_alloc_spec [OF assms(1,2)] by blast
  obtain m where m: "r = Some m" using r(4) assms(3,4) by (cases r) auto
  then have "m = n" using r(4) assms(4,5) by (cases m n rule: linorder_cases) auto
  then show ?thesis using r m by (intro exI [of _ s'] exI [of _ D]) (simp add: EasyFileSystem_alloc_data_def)
qed

end

text \<open>The file system of the image packer: 32768 blocks, one inode bitmap block.\<close>

definition packer_efs :: EasyFileSystem where
  "packer_efs = EasyFileSystem_of 1 (inode_area_blocks_of 1) (data_bitmap_blocks_of 32768 1)"

lemma packer_regions:
  "bm_start_block_id (efs_data_bitmap packer_efs) = 1026" "bm_blocks (efs_data_bitmap packer_efs) = 8"
  "efs_data_area_start_block packer_efs = 1034" "Bitmap_maximum (efs_data_bitmap packer_efs) = 32768"
proof -
  have f: "fits 32768 1" by (simp add: fits_def)
  note rs = region_sizes [OF f, simplified]
  have "unat (efs_data_area_start_block packer_efs) = 1034"
    using rs by (simp add: packer_efs_def EasyFileSystem_of_def Let_def)
  then show "efs_data_area_start_block packer_efs = 1034" by (simp add: word_unat_eq_iff)
  show "bm_start_block_id (efs_data_bitmap packer_efs) = 1026" "bm_blocks (efs_data_bitmap packer_efs) = 8"
    "Bitmap_maximum (efs_data_bitmap packer_efs) = 32768"
    using rs by (simp_all add: packer_efs_def EasyFileSystem_of_def Let_def Bitmap_new_def Bitmap_maximum_def BLOCK_BITS_eq)
qed

text \<open>
  C38. The data bitmap has more bits than the data area has blocks, and nothing else bounds the allocation:
  on the disk the image packer makes (32768 blocks, of which 31734 are data blocks), when every data block
  is taken, \<open>alloc_data\<close> does not fail but returns block 32768, the first block past the end of the disk.
\<close>

theorem alloc_data_past_the_end:
  assumes "block_device dev dinv sector sectors" "cache_ok dinv sector sectors s" "cm_held s = []"
    "1034 \<le> sectors (cm_device s)"
    "\<forall>n < 31734. bitmap_bit (efs_data_bitmap packer_efs) (cache_disk sector s) n"
    "\<not> bitmap_bit (efs_data_bitmap packer_efs) (cache_disk sector s) 31734"
  shows "\<exists>s'. EasyFileSystem_alloc_data (cache_store dev) packer_efs s = Inr (32768, s')"
proof -
  note bs = block_device.cache_is_block_store [OF assms(1)]
  have "\<forall>i \<in> bitmap_blocks (efs_data_bitmap packer_efs).
      block_store.free (cache_ok dinv sector sectors) (\<lambda>s. sectors (cm_device s)) cm_held s i"
    using assms(2-4) by (auto simp: cache_free [OF assms(1)] bitmap_blocks_def packer_regions)
  from block_store.alloc_data_spec [OF bs assms(2) this, of 31734] show ?thesis
    using assms(5,6) by (auto simp: packer_regions)
qed

definition full_image :: "u8 list" where
  "full_image = replicate (1026 * 512) 0 @ replicate 3966 255 @ [63] @ replicate 129 0"

lemma full_image_bits:
  assumes "n < 32768"
  shows "bitmap_bit (efs_data_bitmap packer_efs) (cache_disk file_sector (BlockCacheManager_new full_image)) n \<longleftrightarrow> n < 31734"
proof -
  have view: "cache_disk file_sector (BlockCacheManager_new full_image) = file_sector full_image"
    by (auto simp: cache_disk_def BlockCacheManager_new_def)
  have len: "length full_image = 1034 * 512" by (simp add: full_image_def)
  define i k where "i = n div 4096 + 1026" and "k = n mod 4096 div 8"
  have i: "i < 1034" "k < 512" using assms by (simp_all add: i_def k_def less_mult_imp_div_less)
  have n8: "n div 8 = n div 4096 * 512 + k"
  proof -
    have "n div 8 = (n div 4096 * 512 * 8 + n mod 4096) div 8" by simp
    then show ?thesis unfolding k_def by (subst (asm) div_mult_self3) simp_all
  qed
  have sec: "length (file_sector full_image i) = BLOCK_SZ"
    using len i(1) by (simp add: file_sector_def BLOCK_SZ_def)
  have "file_sector full_image i ! k = full_image ! (i * 512 + k)"
    using i len by (simp add: file_sector_def BLOCK_SZ_def)
  also have "i * 512 + k = 1026 * 512 + n div 8" using n8 by (simp add: i_def)
  also have "full_image ! (1026 * 512 + n div 8) = (replicate 3966 255 @ [63] @ replicate 129 0) ! (n div 8)"
    by (simp add: full_image_def nth_append)
  finally have byte: "file_sector full_image i ! k = (replicate 3966 255 @ [63] @ replicate 129 0) ! (n div 8)" .
  have "bitmap_bit (efs_data_bitmap packer_efs) (file_sector full_image) n \<longleftrightarrow> bit (file_sector full_image i ! k) (n mod 8)"
    using sec by (subst bitmap_bit_byte) (simp_all add: packer_regions BLOCK_BITS_eq i_def k_def)
  also have "\<dots> \<longleftrightarrow> n < 31734"
  proof -
    consider "n div 8 < 3966" | "n div 8 = 3966" | "3966 < n div 8" by linarith
    then show ?thesis
    proof cases
      case 1
      then have "n < 31728" by linarith
      moreover have "(255 :: u8) = mask 8" by (simp add: mask_eq_exp_minus_1)
      then have "bit (255 :: u8) (n mod 8)" by (simp only: bit_mask_iff) simp
      ultimately show ?thesis using 1 byte by (simp add: nth_append)
    next
      case 2
      then have "n < 31734 \<longleftrightarrow> n mod 8 < 6" using div_mult_mod_eq [of n 8] by auto
      moreover have "(63 :: u8) = mask 6" by (simp add: mask_eq_exp_minus_1)
      then have "bit (63 :: u8) (n mod 8) \<longleftrightarrow> n mod 8 < 6" by (simp only: bit_mask_iff) auto
      ultimately show ?thesis using 2 byte by (simp add: nth_append)
    next
      case 3
      moreover have "n div 8 < 4096" using assms by (simp add: less_mult_imp_div_less)
      ultimately show ?thesis using byte by (simp add: nth_append nth_Cons')
    qed
  qed
  finally show ?thesis unfolding view .
qed

theorem alloc_data_past_the_end_witness:
  "\<exists>s'. EasyFileSystem_alloc_data (cache_store BlockFile) packer_efs (BlockCacheManager_new full_image) = Inr (32768, s')"
proof -
  have f: "file_ok full_image" "cm_held (BlockCacheManager_new full_image) = []"
    "file_sectors (cm_device (BlockCacheManager_new full_image)) = 1034"
    by (simp_all add: file_ok_def full_image_def BlockCacheManager_new_def file_sectors_def BLOCK_SZ_def)
  show ?thesis
    using alloc_data_past_the_end [OF bf.block_device_axioms conjunct1 [OF bf.fresh_cache_ok [OF f(1)]] f(2)] f(3) full_image_bits
    by simp
qed

end
