(* ===== verification/Vfs.thy ===== *)
theory Vfs
  imports Efs
begin

text \<open>
  The index nodes the kernel works with (\<^verbatim>\<open>easy-fs/src/vfs.rs\<close>). Every public method takes the lock of the file
  system for its whole duration, so a method is one step of the model. An \<open>Inode\<close> is a position on the
  disk; the file system and the device it shares are the arguments \<open>efs\<close> and \<open>st\<close>. Names are the bytes of
  a \<open>str\<close>.
\<close>

section \<open>Inodes\<close>

record Inode =
  in_block_id :: nat
  in_block_offset :: nat

definition Inode_new :: "u32 \<Rightarrow> nat \<Rightarrow> Inode" where
  "Inode_new block_id block_offset = \<lparr>in_block_id = unat block_id, in_block_offset = block_offset\<rparr>"

definition EasyFileSystem_root_inode :: "EasyFileSystem \<Rightarrow> Inode" where
  "EasyFileSystem_root_inode efs =
     (let (block_id, block_offset) = EasyFileSystem_get_disk_inode_pos efs 0 in Inode_new block_id block_offset)"

definition read_disk_inode ::
  "'s store \<Rightarrow> Inode \<Rightarrow> (DiskInode \<Rightarrow> 's \<Rightarrow> ('r \<times> 's) outcome) \<Rightarrow> 's \<Rightarrow> ('r \<times> 's) outcome" where
  "read_disk_inode st ino f = cache_read st (in_block_id ino) DiskInode_view (in_block_offset ino) f"

definition modify_disk_inode ::
  "'s store \<Rightarrow> Inode \<Rightarrow> (DiskInode \<Rightarrow> 's \<Rightarrow> ('r \<times> DiskInode \<times> 's) outcome) \<Rightarrow> 's \<Rightarrow> ('r \<times> 's) outcome" where
  "modify_disk_inode st ino f = cache_modify st (in_block_id ino) DiskInode_view (in_block_offset ino) f"

text \<open>One directory entry, read into a zeroed or reused 32-byte buffer that the read must fill.\<close>

definition read_dirent :: "'s store \<Rightarrow> DiskInode \<Rightarrow> nat \<Rightarrow> DirEntry \<Rightarrow> 's \<Rightarrow> (DirEntry \<times> 's) outcome" where
  "read_dirent st di i dirent s =
     and_then (DiskInode_read_at st di (DIRENT_SZ * i) (DirEntry_as_bytes dirent) s) (\<lambda>((count, bytes), s).
     and_then (assert_that (count = DIRENT_SZ)) (\<lambda>_. Inr (DirEntry_of_bytes bytes, s)))"

fun find_loop :: "'s store \<Rightarrow> DiskInode \<Rightarrow> u8 list \<Rightarrow> nat list \<Rightarrow> DirEntry \<Rightarrow> 's \<Rightarrow> (u32 option \<times> 's) outcome" where
  "find_loop st di name [] dirent s = Inr (None, s)"
| "find_loop st di name (i # is) dirent s =
     and_then (read_dirent st di i dirent s) (\<lambda>(dirent, s).
     and_then (DirEntry_name dirent) (\<lambda>entry_name.
     if entry_name = name then Inr (Some (de_inode_id dirent), s) else find_loop st di name is dirent s))"

definition find_inode_id :: "'s store \<Rightarrow> u8 list \<Rightarrow> DiskInode \<Rightarrow> 's \<Rightarrow> (u32 option \<times> 's) outcome" where
  "find_inode_id st name disk_inode s =
     and_then (assert_that (DiskInode_is_dir disk_inode)) (\<lambda>_.
     let file_count = unat (di_size disk_inode) div DIRENT_SZ in
     find_loop st disk_inode name [0..<file_count] DirEntry_empty s)"

definition Inode_find :: "'s store \<Rightarrow> EasyFileSystem \<Rightarrow> Inode \<Rightarrow> u8 list \<Rightarrow> 's \<Rightarrow> (Inode option \<times> 's) outcome" where
  "Inode_find st efs ino name s =
     read_disk_inode st ino (\<lambda>disk_inode s.
       and_then (find_inode_id st name disk_inode s) (\<lambda>(r, s).
       Inr (map_option (\<lambda>inode_id.
         let (block_id, block_offset) = EasyFileSystem_get_disk_inode_pos efs inode_id in Inode_new block_id block_offset) r, s))) s"

fun alloc_blocks :: "'s store \<Rightarrow> EasyFileSystem \<Rightarrow> nat \<Rightarrow> u32 list \<Rightarrow> 's \<Rightarrow> (u32 list \<times> 's) outcome" where
  "alloc_blocks st efs 0 v s = Inr (v, s)"
| "alloc_blocks st efs (Suc k) v s =
     and_then (EasyFileSystem_alloc_data st efs s) (\<lambda>(b, s). alloc_blocks st efs k (v @ [b]) s)"

definition Inode_increase_size :: "'s store \<Rightarrow> EasyFileSystem \<Rightarrow> u32 \<Rightarrow> DiskInode \<Rightarrow> 's \<Rightarrow> (DiskInode \<times> 's) outcome" where
  "Inode_increase_size st efs new_size disk_inode s =
     (if new_size < di_size disk_inode then Inr (disk_inode, s)
      else and_then (DiskInode_blocks_num_needed disk_inode new_size) (\<lambda>blocks_needed.
           and_then (alloc_blocks st efs (unat blocks_needed) [] s) (\<lambda>(v, s).
           DiskInode_increase_size st new_size v disk_inode s)))"

text \<open>The closure of \<open>create\<close> that appends the new entry to the directory.\<close>

definition append_dirent ::
  "'s store \<Rightarrow> EasyFileSystem \<Rightarrow> u8 list \<Rightarrow> u32 \<Rightarrow> DiskInode \<Rightarrow> 's \<Rightarrow> (unit \<times> DiskInode \<times> 's) outcome" where
  "append_dirent st efs name new_inode_id root_inode s =
     (let file_count = unat (di_size root_inode) div DIRENT_SZ;
          new_size = (file_count + 1) * DIRENT_SZ
      in and_then (Inode_increase_size st efs (of_nat new_size) root_inode s) (\<lambda>(root_inode, s).
         and_then (DirEntry_new name new_inode_id) (\<lambda>dirent.
         and_then (DiskInode_write_at st root_inode (file_count * DIRENT_SZ) (DirEntry_as_bytes dirent) s) (\<lambda>(_, s).
         Inr ((), root_inode, s)))))"

definition Inode_create :: "'s store \<Rightarrow> EasyFileSystem \<Rightarrow> Inode \<Rightarrow> u8 list \<Rightarrow> 's \<Rightarrow> (Inode option \<times> 's) outcome" where
  "Inode_create st efs ino name s =
     and_then (modify_disk_inode st ino (\<lambda>root_inode s.
       and_then (assert_that (DiskInode_is_dir root_inode)) (\<lambda>_.
       and_then (find_inode_id st name root_inode s) (\<lambda>(r, s). Inr (r, root_inode, s)))) s) (\<lambda>(found, s).
     if found \<noteq> None then Inr (None, s)
     else and_then (EasyFileSystem_alloc_inode st efs s) (\<lambda>(new_inode_id, s).
     let (new_inode_block_id, new_inode_block_offset) = EasyFileSystem_get_disk_inode_pos efs new_inode_id in
     and_then (cache_modify st (unat new_inode_block_id) DiskInode_view new_inode_block_offset (\<lambda>new_inode s.
       Inr ((), DiskInode_initialize File new_inode, s)) s) (\<lambda>(_, s).
     and_then (modify_disk_inode st ino (append_dirent st efs name new_inode_id) s) (\<lambda>(_, s).
     and_then (st_sync_all st s) (\<lambda>s.
     let (block_id, block_offset) = EasyFileSystem_get_disk_inode_pos efs new_inode_id in
     Inr (Some (Inode_new block_id block_offset), s))))))"

fun ls_loop :: "'s store \<Rightarrow> DiskInode \<Rightarrow> nat list \<Rightarrow> u8 list list \<Rightarrow> 's \<Rightarrow> (u8 list list \<times> 's) outcome" where
  "ls_loop st di [] v s = Inr (v, s)"
| "ls_loop st di (i # is) v s =
     and_then (read_dirent st di i DirEntry_empty s) (\<lambda>(dirent, s).
     and_then (DirEntry_name dirent) (\<lambda>name. ls_loop st di is (v @ [name]) s))"

definition Inode_ls :: "'s store \<Rightarrow> Inode \<Rightarrow> 's \<Rightarrow> (u8 list list \<times> 's) outcome" where
  "Inode_ls st ino s =
     read_disk_inode st ino (\<lambda>disk_inode s.
       let file_count = unat (di_size disk_inode) div DIRENT_SZ in ls_loop st disk_inode [0..<file_count] [] s) s"

definition Inode_read_at :: "'s store \<Rightarrow> Inode \<Rightarrow> nat \<Rightarrow> u8 list \<Rightarrow> 's \<Rightarrow> ((nat \<times> u8 list) \<times> 's) outcome" where
  "Inode_read_at st ino offset buf s =
     read_disk_inode st ino (\<lambda>disk_inode s. DiskInode_read_at st disk_inode offset buf s) s"

definition Inode_write_at :: "'s store \<Rightarrow> EasyFileSystem \<Rightarrow> Inode \<Rightarrow> nat \<Rightarrow> u8 list \<Rightarrow> 's \<Rightarrow> (nat \<times> 's) outcome" where
  "Inode_write_at st efs ino offset buf s =
     and_then (modify_disk_inode st ino (\<lambda>disk_inode s.
       and_then (Inode_increase_size st efs (of_nat (offset + length buf)) disk_inode s) (\<lambda>(disk_inode, s).
       and_then (DiskInode_write_at st disk_inode offset buf s) (\<lambda>(n, s). Inr (n, disk_inode, s)))) s) (\<lambda>(n, s).
     and_then (st_sync_all st s) (\<lambda>s. Inr (n, s)))"

definition Inode_clear :: "'s store \<Rightarrow> EasyFileSystem \<Rightarrow> Inode \<Rightarrow> 's \<Rightarrow> 's outcome" where
  "Inode_clear st efs ino s =
     and_then (modify_disk_inode st ino (\<lambda>disk_inode s.
       let old_size = di_size disk_inode in
       and_then (DiskInode_clear_size st disk_inode s) (\<lambda>((data_blocks_dealloc, disk_inode), s).
       and_then (assert_that (length data_blocks_dealloc = unat (DiskInode_total_blocks old_size))) (\<lambda>_.
       and_then (for_each (EasyFileSystem_dealloc_data st efs) data_blocks_dealloc s) (\<lambda>s.
       Inr ((), disk_inode, s))))) s) (\<lambda>(_, s).
     st_sync_all st s)"

end
