(* ===== verification/Kernel_Files.thy ===== *)
theory Kernel_Files
  imports Vfs Pipe
begin

unbundle bit_operations_syntax

text \<open>
  The files a process can open (\<^verbatim>\<open>os/src/fs/mod.rs\<close>, \<^verbatim>\<open>inode.rs\<close>, \<^verbatim>\<open>stdio.rs\<close>): open inodes with their offset over the virtual
  file system, and the console. The state \<open>s\<close> of the block store and the file system \<open>efs\<close> are those of easy-fs; the
  slices of a user buffer lie in physical memory \<open>m\<close>. The console's characters come from and go to the firmware.
\<close>

section \<open>Open inodes\<close>

record OSInode =
  os_readable :: bool
  os_writable :: bool
  os_offset :: nat
  os_inode :: Inode

definition OSInode_new :: "bool \<Rightarrow> bool \<Rightarrow> Inode \<Rightarrow> OSInode" where
  "OSInode_new readable writable inode = \<lparr>os_readable = readable, os_writable = writable, os_offset = 0, os_inode = inode\<rparr>"

partial_function (option) read_all_loop ::
  "'s store \<Rightarrow> u8 list \<Rightarrow> u8 list \<Rightarrow> OSInode \<Rightarrow> 's \<Rightarrow> (u8 list \<times> OSInode \<times> 's) outcome option" where
  "read_all_loop st buffer v f s =
     (case Inode_read_at st (os_inode f) (os_offset f) buffer s of
        Inl e \<Rightarrow> Some (Inl e)
      | Inr ((len, buffer), s) \<Rightarrow>
          if len = 0 then Some (Inr (v, f, s))
          else read_all_loop st buffer (v @ take len buffer) (f\<lparr>os_offset := os_offset f + len\<rparr>) s)"

definition OSInode_read_all :: "'s store \<Rightarrow> OSInode \<Rightarrow> 's \<Rightarrow> (u8 list \<times> OSInode \<times> 's) outcome option" where
  "OSInode_read_all st f s = read_all_loop st (replicate 512 0) [] f s"

text \<open>One slice after the other; the loop of \<open>read\<close> ends at the first that gets nothing.\<close>

fun os_read_loop :: "'s store \<Rightarrow> byte_slice list \<Rightarrow> nat \<Rightarrow> OSInode \<Rightarrow> mem \<Rightarrow> 's \<Rightarrow> (nat \<times> OSInode \<times> mem \<times> 's) outcome" where
  "os_read_loop st [] total_size f m s = Inr (total_size, f, m, s)"
| "os_read_loop st (b # bs) total_size f m s =
     and_then (Inode_read_at st (os_inode f) (os_offset f) (map m (slice_addrs b)) s) (\<lambda>((read_size, bytes), s).
     let m = store m (slice_addrs b) bytes in
     if read_size = 0 then Inr (total_size, f, m, s)
     else os_read_loop st bs (total_size + read_size) (f\<lparr>os_offset := os_offset f + read_size\<rparr>) m s)"

definition OSInode_read :: "'s store \<Rightarrow> UserBuffer \<Rightarrow> OSInode \<Rightarrow> mem \<Rightarrow> 's \<Rightarrow> (nat \<times> OSInode \<times> mem \<times> 's) outcome" where
  "OSInode_read st buf f m s = os_read_loop st (ub_buffers buf) 0 f m s"

fun os_write_loop :: "'s store \<Rightarrow> EasyFileSystem \<Rightarrow> byte_slice list \<Rightarrow> nat \<Rightarrow> OSInode \<Rightarrow> mem \<Rightarrow> 's \<Rightarrow> (nat \<times> OSInode \<times> 's) outcome" where
  "os_write_loop st efs [] total_size f m s = Inr (total_size, f, s)"
| "os_write_loop st efs (b # bs) total_size f m s =
     and_then (Inode_write_at st efs (os_inode f) (os_offset f) (map m (slice_addrs b)) s) (\<lambda>(write_size, s).
     and_then (assert_that (write_size = bs_len b)) (\<lambda>_.
     os_write_loop st efs bs (total_size + write_size) (f\<lparr>os_offset := os_offset f + write_size\<rparr>) m s))"

definition OSInode_write :: "'s store \<Rightarrow> EasyFileSystem \<Rightarrow> UserBuffer \<Rightarrow> OSInode \<Rightarrow> mem \<Rightarrow> 's \<Rightarrow> (nat \<times> OSInode \<times> 's) outcome" where
  "OSInode_write st efs buf f m s = os_write_loop st efs (ub_buffers buf) 0 f m s"

section \<open>Opening\<close>

definition RDONLY :: u32 where "RDONLY = 0"
definition WRONLY :: u32 where "WRONLY = push_bit 0 1"
definition RDWR :: u32 where "RDWR = push_bit 1 1"
definition CREATE :: u32 where "CREATE = push_bit 9 1"
definition TRUNC :: u32 where "TRUNC = push_bit 10 1"

definition OpenFlags_from_bits :: "u32 \<Rightarrow> u32 option" where
  "OpenFlags_from_bits bits = (if bits AND NOT (RDONLY OR WRONLY OR RDWR OR CREATE OR TRUNC) = 0 then Some bits else None)"

definition OpenFlags_contains :: "u32 \<Rightarrow> u32 \<Rightarrow> bool" where
  "OpenFlags_contains flags other \<longleftrightarrow> flags AND other = other"

definition OpenFlags_read_write :: "u32 \<Rightarrow> bool \<times> bool" where
  "OpenFlags_read_write flags =
     (if flags = 0 then (True, False)
      else if OpenFlags_contains flags WRONLY then (False, True)
      else (True, True))"

definition ROOT_INODE :: "EasyFileSystem \<Rightarrow> Inode" where
  "ROOT_INODE efs = EasyFileSystem_root_inode efs"

definition open_file :: "'s store \<Rightarrow> EasyFileSystem \<Rightarrow> u8 list \<Rightarrow> u32 \<Rightarrow> 's \<Rightarrow> (OSInode option \<times> 's) outcome" where
  "open_file st efs name flags s =
     (let (readable, writable) = OpenFlags_read_write flags in
      and_then (Inode_find st efs (ROOT_INODE efs) name s) (\<lambda>(found, s).
      if OpenFlags_contains flags CREATE
      then (case found of
          Some inode \<Rightarrow>
            and_then (Inode_clear st efs inode s) (\<lambda>s. Inr (Some (OSInode_new readable writable inode), s))
        | None \<Rightarrow>
            and_then (Inode_create st efs (ROOT_INODE efs) name s) (\<lambda>(inode, s).
            Inr (map_option (OSInode_new readable writable) inode, s)))
      else (case found of
          Some inode \<Rightarrow>
            and_then (if OpenFlags_contains flags TRUNC then Inode_clear st efs inode s else Inr s) (\<lambda>s.
            Inr (Some (OSInode_new readable writable inode), s))
        | None \<Rightarrow> Inr (None, s))))"

section \<open>The console\<close>

text \<open>
  One turn of the loop of \<open>Stdin::read\<close> with the character \<open>c\<close> the firmware returned; \<open>None\<close> says that the task yields and
  tries again.
\<close>

definition Stdin_read :: "UserBuffer \<Rightarrow> usize \<Rightarrow> mem \<Rightarrow> (nat \<times> mem) option outcome" where
  "Stdin_read buf c m =
     and_then (assert_that (UserBuffer_len buf = 1)) (\<lambda>_.
     if c = 0 then Inr None
     else and_then (array_index (ub_buffers buf) 0) (\<lambda>b. Inr (Some (1, m(bs_addr b := ucast c)))))"

text \<open>What \<open>Stdout::write\<close> prints; a slice that is not UTF-8 panics.\<close>

definition Stdout_write :: "UserBuffer \<Rightarrow> mem \<Rightarrow> (u8 list \<times> nat) outcome" where
  "Stdout_write buf m =
     and_then (for_each (\<lambda>b out.
         if utf8_valid (map m (slice_addrs b)) then Inr (out @ map m (slice_addrs b)) else Inl UnwrapNone)
       (ub_buffers buf) []) (\<lambda>out. Inr (out, unat (UserBuffer_len buf)))"

section \<open>Files\<close>

text \<open>The trait object \<^verbatim>\<open>dyn File\<close>.\<close>

datatype File = StdinFile | StdoutFile | InodeFile OSInode | PipeFile Pipe

fun File_readable :: "File \<Rightarrow> bool" where
  "File_readable StdinFile = True"
| "File_readable StdoutFile = False"
| "File_readable (InodeFile f) = os_readable f"
| "File_readable (PipeFile p) = pipe_readable p"

fun File_writable :: "File \<Rightarrow> bool" where
  "File_writable StdinFile = False"
| "File_writable StdoutFile = True"
| "File_writable (InodeFile f) = os_writable f"
| "File_writable (PipeFile p) = pipe_writable p"

section \<open>Reading a whole file\<close>

context block_store
begin

text \<open>The inode \<open>ino\<close> holds \<open>di\<close>, a file with a sound block tree that can be read.\<close>

definition file_ready :: "'s \<Rightarrow> Inode \<Rightarrow> DiskInode \<Rightarrow> bool" where
  "file_ready s ino di \<longleftrightarrow> inv s \<and> length (held s) < 15 \<and> free s (in_block_id ino) \<and>
     in_block_offset ino + 128 \<le> BLOCK_SZ \<and> view_at DiskInode_view (in_block_offset ino) (disk s (in_block_id ino)) = di \<and>
     unat (di_size di) \<le> INDIRECT2_BOUND * BLOCK_SZ \<and>
     inode_ok di (disk s) (unat (DiskInode_data_blocks di)) \<and>
     (\<forall>i \<in> set (all_blocks di (disk s) (unat (DiskInode_data_blocks di))). free s (unat i) \<and> unat i \<noteq> in_block_id ino)"

lemma file_ready_goes: "file_ready s ino di \<Longrightarrow> goes s (disk s) s' \<Longrightarrow> file_ready s' ino di"
  by (auto simp: file_ready_def goes_free [of s "disk s" s']) (simp_all add: goes_def)

lemma Inode_read_at_spec:
  assumes "file_ready s ino di" "offset + length buf < 2 ^ 64" "cnt = min (length buf) (unat (di_size di) - offset)"
  shows "\<exists>s'. Inode_read_at st ino offset buf s =
      Inr ((cnt, map (file_byte di (disk s)) [offset..<offset + cnt] @ drop cnt buf), s') \<and> goes s (disk s) s'"
  unfolding Inode_read_at_def read_disk_inode_def
proof (rule cache_read_rule)
  fix s1 assume s1: "inv s1" "disk s1 = disk s" "size s1 = size s" "held s1 = in_block_id ino # held s"
  let ?n = "unat (DiskInode_data_blocks di)"
  note r = assms(1) [unfolded file_ready_def]
  have free: "free s1 (unat i)" if "i \<in> set (all_blocks di (disk s1) ?n)" for i
    using r that s1 by (auto simp: free_def)
  have n: "unat (di_size di) \<le> ?n * BLOCK_SZ" using data_blocks_cover(1) r by blast
  have reach: "reach s1 di (p div BLOCK_SZ)" if "p < unat (di_size di)" for p
    using inode_reach [of di s1 ?n] r s1(2) free div_less_blocks [of p ?n] that n by simp
  show "\<exists>s2. DiskInode_read_at st (view_at DiskInode_view (in_block_offset ino) (disk s (in_block_id ino))) offset buf s1 =
      Inr ((cnt, map (file_byte di (disk s)) [offset..<offset + cnt] @ drop cnt buf), s2) \<and> goes s1 (disk s) s2"
    using read_at_spec [OF s1(1) reach assms(2,3)] r s1(2) by simp
qed (use assms(1) in \<open>simp_all add: file_ready_def\<close>)

lemma read_all_loop_spec:
  assumes "file_ready s (os_inode f) di" "length buffer = 512" "size_left = unat (di_size di) - os_offset f"
    "os_offset f < 2 ^ 63"
  shows "\<exists>f' s'. read_all_loop st buffer v f s =
      Some (Inr (v @ map (file_byte di (disk s)) [os_offset f..<unat (di_size di)], f', s')) \<and>
      f' = f\<lparr>os_offset := max (os_offset f) (unat (di_size di))\<rparr> \<and> goes s (disk s) s'"
  using assms
proof (induction size_left arbitrary: s f buffer v rule: less_induct)
  case (less k)
  define cnt where "cnt = min (length buffer) (unat (di_size di) - os_offset f)"
  have "os_offset f + length buffer < 2 ^ 64" using less.prems(2,4) by simp
  then obtain s1 where s1: "Inode_read_at st (os_inode f) (os_offset f) buffer s =
      Inr ((cnt, map (file_byte di (disk s)) [os_offset f..<os_offset f + cnt] @ drop cnt buffer), s1)" "goes s (disk s) s1"
    using Inode_read_at_spec [OF less.prems(1) _ cnt_def] by blast
  show ?case
  proof (cases "cnt = 0")
    case True
    then have "unat (di_size di) \<le> os_offset f" using less.prems(2) by (auto simp: cnt_def)
    then show ?thesis using s1 True by (subst read_all_loop.simps) (simp add: max_def)
  next
    case False
    let ?f = "f\<lparr>os_offset := os_offset f + cnt\<rparr>"
    let ?b = "map (file_byte di (disk s)) [os_offset f..<os_offset f + cnt] @ drop cnt buffer"
    have small: "unat (di_size di) < 2 ^ 32" using unsigned_less [of "di_size di", where ?'a = nat] by simp
    have le: "os_offset f + cnt \<le> unat (di_size di)" "cnt \<le> length buffer" using False by (auto simp: cnt_def)
    have ready: "file_ready s1 (os_inode ?f) di" "disk s1 = disk s"
      using file_ready_goes [OF less.prems(1) s1(2)] s1(2) by (simp_all add: goes_def)
    have "\<exists>f' s'. read_all_loop st ?b (v @ take cnt ?b) ?f s1 =
        Some (Inr ((v @ take cnt ?b) @ map (file_byte di (disk s1)) [os_offset ?f..<unat (di_size di)], f', s')) \<and>
        f' = ?f\<lparr>os_offset := max (os_offset ?f) (unat (di_size di))\<rparr> \<and> goes s1 (disk s1) s'"
      by (rule less.IH [OF _ ready(1) _ refl]) (use less.prems(2,3) le small False in auto)
    then obtain s' where s': "read_all_loop st ?b (v @ take cnt ?b) ?f s1 =
        Some (Inr ((v @ take cnt ?b) @ map (file_byte di (disk s1)) [os_offset ?f..<unat (di_size di)],
          ?f\<lparr>os_offset := max (os_offset ?f) (unat (di_size di))\<rparr>, s'))" "goes s1 (disk s1) s'" by blast
    have bytes: "[os_offset f..<unat (di_size di)] = [os_offset f..<os_offset f + cnt] @ [os_offset f + cnt..<unat (di_size di)]"
      using le(1) upt_add_eq_append [of "os_offset f" "os_offset f + cnt" "unat (di_size di) - (os_offset f + cnt)"] by simp
    have "read_all_loop st buffer v f s = read_all_loop st ?b (v @ take cnt ?b) ?f s1"
      by (subst read_all_loop.simps) (simp only: s1(1) sum.case prod.case False if_False)
    then show ?thesis
      using s' ready(2) goes_trans [OF s1(2)] le(1) by (auto simp: bytes max_def)
  qed
qed

end

text \<open>
  C32. \<open>OSInode::read_all\<close> ends and returns the rest of the file, whatever its length: with a sound block tree on the disk and
  up to 14 other blocks locked, all bytes from the offset to the size of the file in order, the offset moved to the end,
  and nothing on the disk changed.
\<close>

theorem read_all_whole_file:
  fixes di :: DiskInode and s :: "'d cache_state"
  defines "n \<equiv> unat (DiskInode_data_blocks di)"
  assumes dev: "block_device dev dinv sector sectors" "cache_ok dinv sector sectors s" "length (cm_held s) < 15"
    and inode: "in_block_id (os_inode f) < sectors (cm_device s)" "in_block_id (os_inode f) \<notin> set (cm_held s)"
      "in_block_offset (os_inode f) + 128 \<le> BLOCK_SZ"
      "view_at DiskInode_view (in_block_offset (os_inode f)) (cache_disk sector s (in_block_id (os_inode f))) = di"
    and ok: "inode_ok di (cache_disk sector s) n" "unat (di_size di) \<le> INDIRECT2_BOUND * BLOCK_SZ"
    and tree: "\<forall>i \<in> set (all_blocks di (cache_disk sector s) n). unat i < sectors (cm_device s) \<and> unat i \<notin> set (cm_held s) \<and>
      unat i \<noteq> in_block_id (os_inode f)"
    and offset: "os_offset f < 2 ^ 63"
  shows "\<exists>s'. OSInode_read_all (cache_store dev) f s =
      Some (Inr (map (file_byte di (cache_disk sector s)) [os_offset f..<unat (di_size di)],
        f\<lparr>os_offset := max (os_offset f) (unat (di_size di))\<rparr>, s')) \<and>
    cache_ok dinv sector sectors s' \<and> cache_disk sector s' = cache_disk sector s \<and> cm_held s' = cm_held s"
proof -
  note bs = block_device.cache_is_block_store [OF dev(1)]
  have "block_store.file_ready (cache_ok dinv sector sectors) (cache_disk sector) (\<lambda>s. sectors (cm_device s)) cm_held s (os_inode f) di"
    unfolding block_store.file_ready_def [OF bs] cache_free [OF dev(1)]
    using dev inode ok tree by (auto simp: n_def)
  from block_store.read_all_loop_spec [OF bs this _ refl offset, of "replicate 512 0" "[]"]
  show ?thesis by (auto simp: OSInode_read_all_def cache_goes [OF dev(1)])
qed

definition disk_with_file :: "u8 list" where
  "disk_with_file = replicate 512 0 @ replicate 512 7 @ set_view DiskInode_view 0 small_inode (replicate 512 0)"

lemma small_inode_block:
  "length (set_view DiskInode_view 0 small_inode (replicate 512 0)) = 512"
  "view_at DiskInode_view 0 (set_view DiskInode_view 0 small_inode (replicate 512 0)) = small_inode"
  using disk_inode.length_set_view [of small_inode "replicate 512 0" 0] disk_inode.view_set_view [of small_inode "replicate 512 0" 0]
  by (simp_all add: small_inode_def BLOCK_SZ_def)

lemma disk_with_file_ok:
  defines "s \<equiv> BlockCacheManager_new disk_with_file"
  shows "cache_ok file_ok file_sector file_sectors s" "cm_held s = []" "file_sectors (cm_device s) = 3"
    "cache_disk file_sector s 1 = replicate 512 7"
    "cache_disk file_sector s 2 = set_view DiskInode_view 0 small_inode (replicate 512 0)"
proof -
  have len: "length disk_with_file = 1536" by (simp add: disk_with_file_def small_inode_block(1))
  then show "cache_ok file_ok file_sector file_sectors s" "cm_held s = []" "file_sectors (cm_device s) = 3"
    using bf.fresh_cache_ok [of disk_with_file]
    by (simp_all add: s_def BlockCacheManager_new_def file_ok_def file_sectors_def BLOCK_SZ_def)
  show "cache_disk file_sector s 1 = replicate 512 7"
    "cache_disk file_sector s 2 = set_view DiskInode_view 0 small_inode (replicate 512 0)"
    by (simp_all add: s_def BlockCacheManager_new_def cache_disk_def file_sector_def BLOCK_SZ_def disk_with_file_def small_inode_block(1))
qed

theorem read_all_whole_file_witness:
  "\<exists>f' s'. OSInode_read_all (cache_store BlockFile) (OSInode_new True False \<lparr>in_block_id = 2, in_block_offset = 0\<rparr>)
      (BlockCacheManager_new disk_with_file) = Some (Inr (replicate 100 7, f', s')) \<and> os_offset f' = 100"
proof -
  have bytes: "map (file_byte small_inode (cache_disk file_sector (BlockCacheManager_new disk_with_file))) [0..<100] = replicate 100 7"
    by (rule nth_equalityI)
      (simp_all add: file_byte_def block_of_def block_counts small_inode_def BLOCK_SZ_def disk_with_file_ok [simplified])
  show ?thesis
    using read_all_whole_file [OF bf.block_device_axioms disk_with_file_ok(1),
        of "OSInode_new True False \<lparr>in_block_id = 2, in_block_offset = 0\<rparr>" small_inode]
    by (auto simp: OSInode_new_def disk_with_file_ok [simplified] small_inode_block small_inode_ok [unfolded One_nat_def]
        layout_constants bytes)
qed

end
