(* ===== verification/Directory.thy ===== *)
theory Directory
  imports Kernel_Files
begin

text \<open>
  A directory as the list of its entries (\<^verbatim>\<open>Inode::find\<close> and \<^verbatim>\<open>Inode::ls\<close> of \<^verbatim>\<open>easy-fs/src/vfs.rs\<close>): entry \<open>i\<close> is made of
  the 32 bytes of the file from \<open>32 * i\<close> on.
\<close>

section \<open>Entries\<close>

definition dirent_at :: "DiskInode \<Rightarrow> (nat \<Rightarrow> block) \<Rightarrow> nat \<Rightarrow> DirEntry" where
  "dirent_at di D i = DirEntry_of_bytes (map (file_byte di D) [DIRENT_SZ * i..<DIRENT_SZ * i + DIRENT_SZ])"

definition dir_entries :: "DiskInode \<Rightarrow> (nat \<Rightarrow> block) \<Rightarrow> DirEntry list" where
  "dir_entries di D = map (dirent_at di D) [0..<unat (di_size di) div DIRENT_SZ]"

definition inode_at :: "EasyFileSystem \<Rightarrow> u32 \<Rightarrow> Inode" where
  "inode_at efs inode_id = (let (block_id, block_offset) = EasyFileSystem_get_disk_inode_pos efs inode_id in Inode_new block_id block_offset)"

lemma dirent_at_name [simp]: "length (de_name (dirent_at di D i)) = 28"
  by (simp add: dirent_at_def DirEntry_of_bytes_def DIRENT_SZ_def)

context block_store
begin

definition readable :: "'s \<Rightarrow> DiskInode \<Rightarrow> bool" where
  "readable s di \<longleftrightarrow> inv s \<and> (\<forall>p < unat (di_size di). reach s di (p div BLOCK_SZ))"

lemma readable_goes: "readable s di \<Longrightarrow> goes s (disk s) s' \<Longrightarrow> readable s' di"
  using reach_goes [of s s' di] by (auto simp: readable_def) (simp add: goes_def)

lemma read_dirent_spec:
  assumes "readable s di" "DIRENT_SZ * i + DIRENT_SZ \<le> unat (di_size di)" "length (de_name d) = 28"
  shows "\<exists>s'. read_dirent st di i d s = Inr (dirent_at di (disk s) i, s') \<and> goes s (disk s) s'"
proof -
  have len: "length (DirEntry_as_bytes d) = DIRENT_SZ" using assms(3) by (simp add: DirEntry_as_bytes_def DIRENT_SZ_def)
  have small: "unat (di_size di) < 2 ^ 32" using unsigned_less [of "di_size di", where ?'a = nat] by simp
  have "\<exists>s'. DiskInode_read_at st di (DIRENT_SZ * i) (DirEntry_as_bytes d) s =
      Inr ((DIRENT_SZ, map (file_byte di (disk s)) [DIRENT_SZ * i..<DIRENT_SZ * i + DIRENT_SZ] @ drop DIRENT_SZ (DirEntry_as_bytes d)), s') \<and>
      goes s (disk s) s'"
    by (rule read_at_spec) (use assms(1,2) len small in \<open>auto simp: readable_def\<close>)
  then show ?thesis using len by (auto simp: read_dirent_def dirent_at_def)
qed

lemma find_loop_spec:
  assumes "readable s di" "length (de_name d) = 28"
    "\<forall>i \<in> set is. DIRENT_SZ * i + DIRENT_SZ \<le> unat (di_size di) \<and> DirEntry_name (dirent_at di (disk s) i) = Inr (nm i)"
  shows "\<exists>s'. find_loop st di name is d s =
      Inr (map_option (\<lambda>i. de_inode_id (dirent_at di (disk s) i)) (find (\<lambda>i. nm i = name) is), s') \<and> goes s (disk s) s'"
  using assms
proof (induction "is" arbitrary: s d)
  case Nil
  then show ?case using goes_refl by (auto simp: readable_def)
next
  case (Cons i "is")
  obtain s1 where s1: "read_dirent st di i d s = Inr (dirent_at di (disk s) i, s1)" "goes s (disk s) s1"
    using read_dirent_spec [OF Cons.prems(1) _ Cons.prems(2)] Cons.prems(3) by auto
  have r: "readable s1 di" "disk s1 = disk s" using readable_goes [OF Cons.prems(1) s1(2)] s1(2) by (simp_all add: goes_def)
  show ?case
  proof (cases "nm i = name")
    case True
    then show ?thesis using s1 Cons.prems(3) by simp
  next
    case False
    obtain s' where "find_loop st di name is (dirent_at di (disk s) i) s1 =
        Inr (map_option (\<lambda>i. de_inode_id (dirent_at di (disk s) i)) (find (\<lambda>i. nm i = name) is), s')" "goes s1 (disk s) s'"
      using Cons.IH [OF r(1), of "dirent_at di (disk s) i"] Cons.prems(3) r(2) by auto
    then show ?thesis using False s1 Cons.prems(3) goes_trans [OF s1(2)] by auto
  qed
qed

lemma ls_loop_spec:
  assumes "readable s di"
    "\<forall>i \<in> set is. DIRENT_SZ * i + DIRENT_SZ \<le> unat (di_size di) \<and> DirEntry_name (dirent_at di (disk s) i) = Inr (nm i)"
  shows "\<exists>s'. ls_loop st di is v s = Inr (v @ map nm is, s') \<and> goes s (disk s) s'"
  using assms
proof (induction "is" arbitrary: s v)
  case Nil
  then show ?case using goes_refl by (auto simp: readable_def)
next
  case (Cons i "is")
  obtain s1 where s1: "read_dirent st di i DirEntry_empty s = Inr (dirent_at di (disk s) i, s1)" "goes s (disk s) s1"
    using read_dirent_spec [OF Cons.prems(1), of i DirEntry_empty] Cons.prems(2) by (auto simp: DirEntry_empty_def NAME_LENGTH_LIMIT_def)
  have r: "readable s1 di" "disk s1 = disk s" using readable_goes [OF Cons.prems(1) s1(2)] s1(2) by (simp_all add: goes_def)
  obtain s' where "ls_loop st di is (v @ [nm i]) s1 = Inr ((v @ [nm i]) @ map nm is, s')" "goes s1 (disk s) s'"
    using Cons.IH [OF r(1)] Cons.prems(2) r(2) by fastforce
  then show ?case using s1 Cons.prems(2) goes_trans [OF s1(2)] by auto
qed

text \<open>The closure under the lock of the block that holds the inode.\<close>

lemma file_ready_readable:
  assumes "file_ready s ino di" "inv s1" "disk s1 = disk s" "size s1 = size s" "held s1 = in_block_id ino # held s"
  shows "readable s1 di"
proof -
  let ?n = "unat (DiskInode_data_blocks di)"
  note r = assms(1) [unfolded file_ready_def]
  have free: "free s1 (unat i)" if "i \<in> set (all_blocks di (disk s1) ?n)" for i
    using r that assms by (auto simp: free_def)
  have n: "unat (di_size di) \<le> ?n * BLOCK_SZ" using data_blocks_cover(1) r by blast
  show ?thesis
    unfolding readable_def using inode_reach [of di s1 ?n] r assms(2,3) free div_less_blocks n by (metis (no_types, lifting) le_trans not_le)
qed

lemma dir_names:
  assumes "map DirEntry_name (dir_entries di D) = map Inr ns"
  shows "length ns = unat (di_size di) div DIRENT_SZ"
    "\<forall>i \<in> set [0..<length ns]. DIRENT_SZ * i + DIRENT_SZ \<le> unat (di_size di) \<and> DirEntry_name (dirent_at di D i) = Inr (ns ! i)"
proof -
  show n: "length ns = unat (di_size di) div DIRENT_SZ" using map_eq_imp_length_eq [OF assms] by (simp add: dir_entries_def)
  show "\<forall>i \<in> set [0..<length ns]. DIRENT_SZ * i + DIRENT_SZ \<le> unat (di_size di) \<and> DirEntry_name (dirent_at di D i) = Inr (ns ! i)"
  proof
    fix i assume "i \<in> set [0..<length ns]"
    then have i: "i < length ns" by simp
    have "DirEntry_name (dir_entries di D ! i) = Inr (ns ! i)"
      using arg_cong [OF assms, of "\<lambda>xs. xs ! i"] i n by (simp add: dir_entries_def)
    moreover have "DIRENT_SZ * Suc i \<le> unat (di_size di)"
      using i n by (simp only: less_eq_div_iff_mult_less_eq Suc_le_eq [symmetric] DIRENT_SZ_def)
    ultimately show "DIRENT_SZ * i + DIRENT_SZ \<le> unat (di_size di) \<and> DirEntry_name (dirent_at di D i) = Inr (ns ! i)"
      using i n by (simp add: dir_entries_def)
  qed
qed

lemma Inode_ls_spec:
  assumes "file_ready s ino di" "map DirEntry_name (dir_entries di (disk s)) = map Inr ns"
  shows "\<exists>s'. Inode_ls st ino s = Inr (ns, s') \<and> goes s (disk s) s'"
  unfolding Inode_ls_def read_disk_inode_def
proof (rule cache_read_rule)
  fix s1 assume s1: "inv s1" "disk s1 = disk s" "size s1 = size s" "held s1 = in_block_id ino # held s"
  note n = dir_names [OF assms(2) [folded s1(2)]]
  have "map ((!) ns) [0..<length ns] = ns" by (rule map_nth)
  then show "\<exists>s2. (let file_count = unat (di_size (view_at DiskInode_view (in_block_offset ino) (disk s (in_block_id ino)))) div DIRENT_SZ
      in ls_loop st (view_at DiskInode_view (in_block_offset ino) (disk s (in_block_id ino))) [0..<file_count] [] s1) = Inr (ns, s2) \<and> goes s1 (disk s) s2"
    using ls_loop_spec [OF file_ready_readable [OF assms(1) s1] n(2), of "[]"] assms(1) n(1) s1(2)
    by (simp add: file_ready_def Let_def)
qed (use assms(1) in \<open>simp_all add: file_ready_def\<close>)

lemma Inode_find_spec:
  assumes "file_ready s ino di" "DiskInode_is_dir di" "map DirEntry_name (dir_entries di (disk s)) = map Inr ns"
  shows "\<exists>s'. Inode_find st efs ino name s =
      Inr (map_option (\<lambda>j. inode_at efs (de_inode_id (dir_entries di (disk s) ! j))) (position (\<lambda>n. n = name) ns), s') \<and> goes s (disk s) s'"
  unfolding Inode_find_def read_disk_inode_def
proof (rule cache_read_rule)
  fix s1 assume s1: "inv s1" "disk s1 = disk s" "size s1 = size s" "held s1 = in_block_id ino # held s"
  note n = dir_names [OF assms(3) [folded s1(2)]]
  let ?di = "view_at DiskInode_view (in_block_offset ino) (disk s (in_block_id ino))"
  have di: "?di = di" using assms(1) by (simp add: file_ready_def)
  obtain s2 where s2: "find_loop st di name [0..<length ns] DirEntry_empty s1 =
      Inr (map_option (\<lambda>i. de_inode_id (dirent_at di (disk s) i)) (position (\<lambda>n. n = name) ns), s2)" "goes s1 (disk s) s2"
    using find_loop_spec [OF file_ready_readable [OF assms(1) s1] _ n(2), of DirEntry_empty name] s1(2)
    by (auto simp: position_def DirEntry_empty_def NAME_LENGTH_LIMIT_def)
  have e: "map_option (\<lambda>i. de_inode_id (dirent_at di (disk s) i)) (position (\<lambda>n. n = name) ns) =
      map_option (\<lambda>j. de_inode_id (dir_entries di (disk s) ! j)) (position (\<lambda>n. n = name) ns)"
    using n(1) by (intro option.map_cong0) (auto simp: position_Some dir_entries_def split: option.splits dest!: elem_set [THEN iffD1])
  show "\<exists>s2. and_then (find_inode_id st name ?di s1) (\<lambda>(r, s). Inr (map_option (\<lambda>inode_id.
         let (block_id, block_offset) = EasyFileSystem_get_disk_inode_pos efs inode_id in Inode_new block_id block_offset) r, s)) =
      Inr (map_option (\<lambda>j. inode_at efs (de_inode_id (dir_entries di (disk s) ! j))) (position (\<lambda>n. n = name) ns), s2) \<and> goes s1 (disk s) s2"
    using s2 assms(2) n(1) unfolding di by (simp add: find_inode_id_def Let_def e option.map_comp comp_def inode_at_def)
qed (use assms(1) in \<open>simp_all add: file_ready_def\<close>)

end

text \<open>
  C13. A directory is the list of its entries: with a sound block tree on the disk and readable names, \<open>ls\<close> returns the names in
  the order of the entries and \<open>find\<close> the inode of the first entry with the name, or nothing if there is none, each
  without a change on the disk.
\<close>

theorem directory_lookup:
  fixes di :: DiskInode and s :: "'d cache_state"
  defines "n \<equiv> unat (DiskInode_data_blocks di)"
  assumes dev: "block_device dev dinv sector sectors" "cache_ok dinv sector sectors s" "length (cm_held s) < 15"
    and inode: "in_block_id ino < sectors (cm_device s)" "in_block_id ino \<notin> set (cm_held s)" "in_block_offset ino + 128 \<le> BLOCK_SZ"
      "view_at DiskInode_view (in_block_offset ino) (cache_disk sector s (in_block_id ino)) = di"
    and ok: "inode_ok di (cache_disk sector s) n" "unat (di_size di) \<le> INDIRECT2_BOUND * BLOCK_SZ" "DiskInode_is_dir di"
    and tree: "\<forall>i \<in> set (all_blocks di (cache_disk sector s) n). unat i < sectors (cm_device s) \<and> unat i \<notin> set (cm_held s) \<and>
      unat i \<noteq> in_block_id ino"
    and names: "map DirEntry_name (dir_entries di (cache_disk sector s)) = map Inr ns"
  shows "(\<exists>s'. Inode_ls (cache_store dev) ino s = Inr (ns, s') \<and> cache_ok dinv sector sectors s' \<and> cache_disk sector s' = cache_disk sector s) \<and>
    (\<exists>s'. Inode_find (cache_store dev) efs ino name s =
        Inr (map_option (\<lambda>j. inode_at efs (de_inode_id (dir_entries di (cache_disk sector s) ! j))) (position (\<lambda>x. x = name) ns), s') \<and>
      cache_ok dinv sector sectors s' \<and> cache_disk sector s' = cache_disk sector s)"
proof -
  note bs = block_device.cache_is_block_store [OF dev(1)]
  have r: "block_store.file_ready (cache_ok dinv sector sectors) (cache_disk sector) (\<lambda>s. sectors (cm_device s)) cm_held s ino di"
    unfolding block_store.file_ready_def [OF bs] cache_free [OF dev(1)]
    using dev inode ok tree by (auto simp: n_def)
  show ?thesis
    using block_store.Inode_ls_spec [OF bs r names] block_store.Inode_find_spec [OF bs r ok(3) names, of efs name]
    by (auto simp: cache_goes [OF dev(1)])
qed

text \<open>A disk of three blocks with a directory whose only entry is \<open>ab\<close>, inode 3.\<close>

definition one_entry_dir :: DiskInode where
  "one_entry_dir = \<lparr>di_size = 32, di_direct = 1 # replicate 27 0, di_indirect1 = 0, di_indirect2 = 0, di_type = Directory\<rparr>"

definition entry_ab :: DirEntry where
  "entry_ab = \<lparr>de_name = [97, 98] @ replicate 26 0, de_inode_id = 3\<rparr>"

definition disk_with_dir :: "u8 list" where
  "disk_with_dir = replicate 512 0 @ (DirEntry_as_bytes entry_ab @ replicate 480 0) @ set_view DiskInode_view 0 one_entry_dir (replicate 512 0)"

lemma one_entry_block:
  "length (set_view DiskInode_view 0 one_entry_dir (replicate 512 0)) = 512"
  "view_at DiskInode_view 0 (set_view DiskInode_view 0 one_entry_dir (replicate 512 0)) = one_entry_dir"
  using disk_inode.length_set_view [of one_entry_dir "replicate 512 0" 0] disk_inode.view_set_view [of one_entry_dir "replicate 512 0" 0]
  by (simp_all add: one_entry_dir_def BLOCK_SZ_def)

lemma length_entry_ab: "length (DirEntry_as_bytes entry_ab) = 32"
  by (simp add: DirEntry_as_bytes_def entry_ab_def)

lemma disk_with_dir_ok:
  defines "s \<equiv> BlockCacheManager_new disk_with_dir"
  shows "cache_ok file_ok file_sector file_sectors s" "cm_held s = []" "file_sectors (cm_device s) = 3"
    "cache_disk file_sector s 1 = DirEntry_as_bytes entry_ab @ replicate 480 0"
    "cache_disk file_sector s 2 = set_view DiskInode_view 0 one_entry_dir (replicate 512 0)"
proof -
  have len: "length disk_with_dir = 1536" by (simp add: disk_with_dir_def one_entry_block(1) length_entry_ab)
  then show "cache_ok file_ok file_sector file_sectors s" "cm_held s = []" "file_sectors (cm_device s) = 3"
    using bf.fresh_cache_ok [of disk_with_dir]
    by (simp_all add: s_def BlockCacheManager_new_def file_ok_def file_sectors_def BLOCK_SZ_def)
  show "cache_disk file_sector s 1 = DirEntry_as_bytes entry_ab @ replicate 480 0"
    "cache_disk file_sector s 2 = set_view DiskInode_view 0 one_entry_dir (replicate 512 0)"
    by (simp_all add: s_def BlockCacheManager_new_def cache_disk_def file_sector_def BLOCK_SZ_def disk_with_dir_def one_entry_block(1) length_entry_ab)
qed

lemma one_entry_dir_ok: "unat (DiskInode_data_blocks one_entry_dir) = 1" "all_blocks one_entry_dir D 1 = [1]" "inode_ok one_entry_dir D 1"
  "unat (di_size one_entry_dir) = 32" "DiskInode_is_dir one_entry_dir"
  by (simp_all add: one_entry_dir_def DiskInode_data_blocks_def data_blocks_of_def BLOCK_SZ_def all_blocks_def data_list_def
      block_of_def index_blocks_def inode_ok_def block_counts DiskInode_is_dir_def)

lemma one_entry: "dir_entries one_entry_dir (cache_disk file_sector (BlockCacheManager_new disk_with_dir)) = [entry_ab]"
proof -
  have "map (file_byte one_entry_dir (cache_disk file_sector (BlockCacheManager_new disk_with_dir))) [0..<32] = DirEntry_as_bytes entry_ab"
    by (rule nth_equalityI) (simp_all add: length_entry_ab file_byte_def block_of_def one_entry_dir_def BLOCK_SZ_def
        disk_with_dir_ok [simplified] nth_append)
  then show ?thesis
    using DirEntry_bytes_roundtrip [of entry_ab]
    by (simp add: dir_entries_def dirent_at_def DIRENT_SZ_def one_entry_dir_ok, simp add: entry_ab_def)
qed

theorem directory_lookup_witness:
  "(\<exists>s'. Inode_ls (cache_store BlockFile) \<lparr>in_block_id = 2, in_block_offset = 0\<rparr> (BlockCacheManager_new disk_with_dir) = Inr ([[97, 98]], s')) \<and>
   (\<exists>s'. Inode_find (cache_store BlockFile) packer_efs \<lparr>in_block_id = 2, in_block_offset = 0\<rparr> [97, 98] (BlockCacheManager_new disk_with_dir) =
     Inr (Some (inode_at packer_efs 3), s')) \<and>
   (\<exists>s'. Inode_find (cache_store BlockFile) packer_efs \<lparr>in_block_id = 2, in_block_offset = 0\<rparr> [99] (BlockCacheManager_new disk_with_dir) = Inr (None, s'))"
proof -
  have n: "map DirEntry_name (dir_entries one_entry_dir (cache_disk file_sector (BlockCacheManager_new disk_with_dir))) = map Inr [[97, 98]]"
    unfolding one_entry using position_zero_padded [of "[97, 98 :: u8]" 26] by (simp add: entry_ab_def DirEntry_name_def)
  have "(\<exists>s'. Inode_ls (cache_store BlockFile) \<lparr>in_block_id = 2, in_block_offset = 0\<rparr> (BlockCacheManager_new disk_with_dir) = Inr ([[97, 98]], s')) \<and>
    (\<exists>s'. Inode_find (cache_store BlockFile) packer_efs \<lparr>in_block_id = 2, in_block_offset = 0\<rparr> name (BlockCacheManager_new disk_with_dir) =
      Inr (map_option (\<lambda>j. inode_at packer_efs (de_inode_id ([entry_ab] ! j))) (position (\<lambda>x. x = name) [[97, 98]]), s'))" for name
    using directory_lookup [OF bf.block_device_axioms disk_with_dir_ok(1) _ _ _ _ _ _ _ one_entry_dir_ok(5) _ n,
      of "\<lparr>in_block_id = 2, in_block_offset = 0\<rparr>" packer_efs name]
    by (auto simp: disk_with_dir_ok [simplified] one_entry_block one_entry_dir_ok [unfolded One_nat_def] layout_constants one_entry)
  from this [of "[97, 98]"] this [of "[99]"] show ?thesis
    by (simp add: position_def entry_ab_def)
qed

end
