(* ===== verification/Binary_Heap.thy ===== *)
theory Binary_Heap
  imports Prelude "HOL-Library.Multiset"
begin

text \<open>
  \<^verbatim>\<open>BinaryHeap\<close> of the standard library, as the timers use it: an array with its largest element first, and
  the two sifting loops. The elements are compared by a key. The locale \<open>priority_queue\<close> is what a client relies on.
\<close>

section \<open>The array\<close>

definition swap_at :: "nat \<Rightarrow> nat \<Rightarrow> 'a list \<Rightarrow> 'a list" where
  "swap_at i j xs = xs[i := xs ! j, j := xs ! i]"

fun sift_up :: "('a \<Rightarrow> int) \<Rightarrow> 'a list \<Rightarrow> nat \<Rightarrow> 'a list" where
  "sift_up key xs pos =
     (if pos = 0 then xs
      else let parent = (pos - 1) div 2 in
        if key (xs ! pos) \<le> key (xs ! parent) then xs else sift_up key (swap_at pos parent xs) parent)"

declare sift_up.simps [simp del]

function sink :: "('a \<Rightarrow> int) \<Rightarrow> 'a list \<Rightarrow> nat \<Rightarrow> 'a list \<times> nat" where
  "sink key xs pos =
     (let child = 2 * pos + 1 in
      if child \<le> length xs - 2
      then let child = (if key (xs ! child) \<le> key (xs ! (child + 1)) then child + 1 else child) in
           sink key (swap_at pos child xs) child
      else if child + 1 = length xs then (swap_at pos child xs, child)
      else (xs, pos))"
  by pat_completeness auto
termination
  by (relation "measure (\<lambda>(key, xs, pos). length xs - pos)") (auto simp: swap_at_def)

declare sink.simps [simp del]

definition BinaryHeap_push :: "('a \<Rightarrow> int) \<Rightarrow> 'a \<Rightarrow> 'a list \<Rightarrow> 'a list" where
  "BinaryHeap_push key x xs = sift_up key (xs @ [x]) (length xs)"

definition BinaryHeap_peek :: "'a list \<Rightarrow> 'a option" where
  "BinaryHeap_peek xs = (case xs of [] \<Rightarrow> None | x # _ \<Rightarrow> Some x)"

definition BinaryHeap_pop :: "('a \<Rightarrow> int) \<Rightarrow> 'a list \<Rightarrow> 'a option \<times> 'a list" where
  "BinaryHeap_pop key xs =
     (case vec_pop xs of
        None \<Rightarrow> (None, [])
      | Some (item, xs) \<Rightarrow>
          if xs = [] then (Some item, xs)
          else (let (ys, pos) = sink key (xs[0 := item]) 0 in (Some (xs ! 0), sift_up key ys pos)))"

section \<open>The heap order\<close>

definition heap_at :: "('a \<Rightarrow> int) \<Rightarrow> 'a list \<Rightarrow> nat \<Rightarrow> bool" where
  "heap_at key xs i \<longleftrightarrow> key (xs ! i) \<le> key (xs ! ((i - 1) div 2))"

definition heap :: "('a \<Rightarrow> int) \<Rightarrow> 'a list \<Rightarrow> bool" where
  "heap key xs \<longleftrightarrow> (\<forall>i. 0 < i \<and> i < length xs \<longrightarrow> heap_at key xs i)"

text \<open>Below and above \<open>pos\<close> the order holds also when the element at \<open>pos\<close> is left out.\<close>

definition bridged :: "('a \<Rightarrow> int) \<Rightarrow> 'a list \<Rightarrow> nat \<Rightarrow> bool" where
  "bridged key xs pos \<longleftrightarrow> (0 < pos \<longrightarrow> (\<forall>i. 0 < i \<and> i < length xs \<and> (i - 1) div 2 = pos \<longrightarrow>
     key (xs ! i) \<le> key (xs ! ((pos - 1) div 2))))"

definition heap_but_up :: "('a \<Rightarrow> int) \<Rightarrow> 'a list \<Rightarrow> nat \<Rightarrow> bool" where
  "heap_but_up key xs pos \<longleftrightarrow> bridged key xs pos \<and> (\<forall>i. 0 < i \<and> i < length xs \<and> i \<noteq> pos \<longrightarrow> heap_at key xs i)"

definition heap_but :: "('a \<Rightarrow> int) \<Rightarrow> 'a list \<Rightarrow> nat \<Rightarrow> bool" where
  "heap_but key xs pos \<longleftrightarrow> bridged key xs pos \<and>
     (\<forall>i. 0 < i \<and> i < length xs \<and> i \<noteq> pos \<and> (i - 1) div 2 \<noteq> pos \<longrightarrow> heap_at key xs i)"

lemma length_swap_at [simp]: "length (swap_at i j xs) = length xs"
  by (simp add: swap_at_def)

lemma nth_swap_at:
  assumes "i < length xs" "j < length xs" "k < length xs"
  shows "swap_at i j xs ! k = (if k = j then xs ! i else if k = i then xs ! j else xs ! k)"
  using assms by (simp add: swap_at_def nth_list_update)

lemma mset_swap_at [simp]:
  assumes "i < length xs" "j < length xs"
  shows "mset (swap_at i j xs) = mset xs"
  using assms by (simp add: swap_at_def mset_swap)

lemma heap_but_up_step:
  assumes "heap_but_up key xs pos" "0 < pos" "pos < length xs" "\<not> heap_at key xs pos"
  shows "heap_but_up key (swap_at pos ((pos - 1) div 2) xs) ((pos - 1) div 2)"
proof -
  define p where "p = (pos - 1) div 2"
  have p: "p < pos" "p < length xs" using assms(2,3) by (auto simp: p_def)
  have gt: "key (xs ! p) < key (xs ! pos)" using assms(4) by (simp add: heap_at_def p_def)
  note nth = nth_swap_at [OF assms(3) p(2)]
  have old: "heap_at key xs i" if "0 < i" "i < length xs" "i \<noteq> pos" for i using assms(1) that by (simp add: heap_but_up_def)
  have "heap_at key (swap_at pos p xs) i" if i: "0 < i" "i < length xs" "i \<noteq> p" for i
  proof (cases "i = pos")
    case True
    then show ?thesis using gt i assms(3) p by (simp add: heap_at_def nth p_def [symmetric, unfolded One_nat_def])
  next
    case False
    define q where "q = (i - 1) div 2"
    have q: "q < length xs" using i by (simp add: q_def)
    have le: "key (xs ! i) \<le> key (xs ! q)" using old [OF i(1,2) False] by (simp add: heap_at_def q_def)
    have br: "key (xs ! i) \<le> key (xs ! p)" if "q = pos"
      using assms(1,2) i(1,2) that by (auto simp: heap_but_up_def bridged_def p_def q_def)
    show ?thesis unfolding heap_at_def q_def [symmetric] using le br gt i False q by (auto simp: nth)
  qed
  moreover have "bridged key (swap_at pos p xs) p" unfolding bridged_def
  proof (intro impI allI)
    fix i assume p0: "0 < p" and i: "0 < i \<and> i < length (swap_at pos p xs) \<and> (i - 1) div 2 = p"
    define g where "g = (p - 1) div 2"
    have g: "g < length xs" "g \<noteq> p" "g \<noteq> pos" using p p0 by (auto simp: g_def)
    have pg: "key (xs ! p) \<le> key (xs ! g)" using old [of p] p p0 by (simp add: heap_at_def g_def)
    have "key (xs ! i) \<le> key (xs ! p)" if "i \<noteq> pos" using old [of i] i that by (simp add: heap_at_def)
    then show "key (swap_at pos p xs ! i) \<le> key (swap_at pos p xs ! ((p - 1) div 2))"
      unfolding g_def [symmetric] using pg g i p p0 by (auto simp: nth)
  qed
  ultimately show ?thesis by (simp add: heap_but_up_def p_def)
qed

lemma sift_up_heap:
  assumes "heap_but_up key xs pos" "pos < length xs"
  shows "heap key (sift_up key xs pos)" "mset (sift_up key xs pos) = mset xs"
  using assms
proof (induction key xs pos rule: sift_up.induct)
  case (1 key xs pos)
  {
    case 1
    then show ?case using "1.IH"(1) heap_but_up_step [of key xs pos]
      by (subst sift_up.simps) (auto simp: heap_def heap_but_up_def heap_at_def Let_def)
  next
    case 2
    then show ?case using "1.IH"(2) heap_but_up_step [of key xs pos]
      by (subst sift_up.simps) (auto simp: heap_at_def Let_def)
  }
qed

lemma heap_but_step:
  assumes "heap_but key xs pos" "pos < length xs" "c < length xs" "(c - 1) div 2 = pos" "0 < c"
    "\<forall>i. 0 < i \<and> i < length xs \<and> (i - 1) div 2 = pos \<longrightarrow> key (xs ! i) \<le> key (xs ! c)"
  shows "heap_but key (swap_at pos c xs) c"
proof -
  have c: "pos < c" using assms(4,5) by auto
  note nth = nth_swap_at [OF assms(2,3)]
  have old: "key (xs ! i) \<le> key (xs ! ((i - 1) div 2))"
    if "0 < i" "i < length xs" "i \<noteq> pos" "(i - 1) div 2 \<noteq> pos" for i
    using assms(1) that by (simp add: heap_but_def heap_at_def)
  have br: "key (xs ! i) \<le> key (xs ! ((pos - 1) div 2))" if "0 < pos" "0 < i" "i < length xs" "(i - 1) div 2 = pos" for i
    using assms(1) that by (simp add: heap_but_def bridged_def)
  have "heap_at key (swap_at pos c xs) i" if i: "0 < i" "i < length xs" "i \<noteq> c" "(i - 1) div 2 \<noteq> c" for i
  proof -
    define q where "q = (i - 1) div 2"
    have q: "q < length xs" "q \<noteq> c" "q < i" using i by (auto simp: q_def)
    show ?thesis unfolding heap_at_def q_def [symmetric]
    proof (cases "i = pos")
      case True
      then show "key (swap_at pos c xs ! i) \<le> key (swap_at pos c xs ! q)"
        using br [of c] assms(3-5) i q c by (simp add: nth q_def)
    next
      case False
      then show "key (swap_at pos c xs ! i) \<le> key (swap_at pos c xs ! q)"
        using old [of i] assms(6) i q by (cases "q = pos") (auto simp: nth q_def)
    qed
  qed
  moreover have "bridged key (swap_at pos c xs) c" unfolding bridged_def
  proof (intro impI allI)
    fix i assume i: "0 < i \<and> i < length (swap_at pos c xs) \<and> (i - 1) div 2 = c"
    then have "i \<noteq> pos" "i \<noteq> c" "(i - 1) div 2 \<noteq> pos" using c by auto
    then show "key (swap_at pos c xs ! i) \<le> key (swap_at pos c xs ! ((c - 1) div 2))"
      unfolding assms(4) using old [of i] i assms(2) c by (simp add: nth)
  qed
  ultimately show ?thesis by (simp add: heap_but_def)
qed

lemma children:
  fixes i pos :: nat
  assumes "0 < i" "(i - 1) div 2 = pos"
  shows "i = 2 * pos + 1 \<or> i = 2 * pos + 2"
  using assms by linarith

lemma sink_heap:
  assumes "heap_but key xs pos" "pos < length xs" "sink key xs pos = (ys, pos')"
  shows "heap_but_up key ys pos' \<and> pos' < length ys \<and> mset ys = mset xs"
  using assms
proof (induction key xs pos rule: sink.induct)
  case (1 key xs pos)
  define l where "l = 2 * pos + 1"
  define c where "c = (if key (xs ! l) \<le> key (xs ! (l + 1)) then l + 1 else l)"
  have kids: "i = l \<or> i = l + 1" if "0 < i" "(i - 1) div 2 = pos" for i using children [OF that] by (auto simp: l_def)
  have eq: "sink key xs pos = (if l \<le> length xs - 2 then sink key (swap_at pos c xs) c
      else if l + 1 = length xs then (swap_at pos l xs, l) else (xs, pos))"
    by (subst sink.simps) (simp only: Let_def l_def c_def)
  consider "l \<le> length xs - 2" | "\<not> l \<le> length xs - 2" "l + 1 = length xs"
    | "\<not> l \<le> length xs - 2" "l + 1 \<noteq> length xs" by blast
  then show ?case
  proof cases
    case a: 1
    have c: "c < length xs" "(c - 1) div 2 = pos" "0 < c" using a by (auto simp: c_def l_def)
    have "key (xs ! l) \<le> key (xs ! c)" "key (xs ! (l + 1)) \<le> key (xs ! c)" by (auto simp: c_def)
    then have "\<forall>i. 0 < i \<and> i < length xs \<and> (i - 1) div 2 = pos \<longrightarrow> key (xs ! i) \<le> key (xs ! c)"
      using kids by metis
    then have "heap_but key (swap_at pos c xs) c" by (rule heap_but_step [OF 1(2,3) c])
    moreover have "sink key (swap_at pos c xs) c = (ys, pos')" using 1(4) a unfolding eq by simp
    moreover have "mset (swap_at pos c xs) = mset xs" using c(1) 1(3) by simp
    ultimately show ?thesis using 1(1) [OF l_def a c_def] c(1) by (metis length_swap_at)
  next
    case 2
    have l: "l < length xs" "(l - 1) div 2 = pos" "0 < l" using 2 by (auto simp: l_def)
    have "\<forall>i. 0 < i \<and> i < length xs \<and> (i - 1) div 2 = pos \<longrightarrow> key (xs ! i) \<le> key (xs ! l)"
      using kids 2(2) by (metis less_irrefl order_refl)
    then have "heap_but key (swap_at pos l xs) l" by (rule heap_but_step [OF 1(2,3) l])
    moreover have "(i - 1) div 2 \<noteq> l" if "i < length xs" for i using 2 that by linarith
    moreover have "ys = swap_at pos l xs" "pos' = l" using 1(4) 2 unfolding eq by auto
    ultimately show ?thesis using l(1) 1(3) by (auto simp: heap_but_def heap_but_up_def)
  next
    case 3
    then have "(i - 1) div 2 \<noteq> pos" if "0 < i" "i < length xs" for i using kids [of i] that by linarith
    moreover have "ys = xs" "pos' = pos" using 1(4) 3 unfolding eq by simp_all
    ultimately show ?thesis using 1(2,3) by (auto simp: heap_but_def heap_but_up_def)
  qed
qed

lemma heap_greatest:
  assumes "heap key xs" "i < length xs"
  shows "key (xs ! i) \<le> key (xs ! 0)"
  using assms(2)
proof (induction i rule: less_induct)
  case (less i)
  show ?case
  proof (cases "i = 0")
    case False
    then have "key (xs ! i) \<le> key (xs ! ((i - 1) div 2))" using assms(1) less.prems by (simp add: heap_def heap_at_def)
    also have "\<dots> \<le> key (xs ! 0)" using False less by simp
    finally show ?thesis .
  qed simp
qed

lemma push_heap:
  assumes "heap key xs"
  shows "heap key (BinaryHeap_push key x xs)" "mset (BinaryHeap_push key x xs) = add_mset x (mset xs)"
proof -
  have "(i - 1) div 2 < length xs" if "0 < i" "i \<le> length xs" for i using that by linarith
  then have "heap_but_up key (xs @ [x]) (length xs)"
    using assms by (fastforce simp: heap_but_up_def bridged_def heap_def heap_at_def nth_append)
  from sift_up_heap [OF this] show "heap key (BinaryHeap_push key x xs)"
    "mset (BinaryHeap_push key x xs) = add_mset x (mset xs)" by (simp_all add: BinaryHeap_push_def)
qed

lemma pop_heap:
  assumes "heap key (x # xs)"
  shows "fst (BinaryHeap_pop key (x # xs)) = Some x" "heap key (snd (BinaryHeap_pop key (x # xs)))"
    "mset (snd (BinaryHeap_pop key (x # xs))) = mset xs"
proof -
  have "fst (BinaryHeap_pop key (x # xs)) = Some x \<and> heap key (snd (BinaryHeap_pop key (x # xs))) \<and>
    mset (snd (BinaryHeap_pop key (x # xs))) = mset xs"
  proof (cases xs rule: rev_cases)
    case Nil
    then show ?thesis by (simp add: BinaryHeap_pop_def heap_def vec_pop_def)
  next
    case (snoc bs b)
    then have x: "x # xs = (x # bs) @ [b]" by simp
    have same: "(b # bs) ! i = (x # xs) ! i" if "0 < i" "i \<le> length bs" for i
      using that by (cases i) (simp_all add: snoc nth_append)
    have "key ((b # bs) ! i) \<le> key ((b # bs) ! ((i - 1) div 2))" if i: "0 < i" "i \<le> length bs" "(i - 1) div 2 \<noteq> 0" for i
      using assms [unfolded heap_def heap_at_def, rule_format, of i] same [OF i(1,2)] same [of "(i - 1) div 2"] i
      by (simp add: snoc del: nth_Cons_Suc)
    then have "heap_but key (b # bs) 0" by (auto simp: heap_but_def bridged_def heap_at_def)
    moreover obtain ys pos where ys: "sink key (b # bs) 0 = (ys, pos)" by fastforce
    ultimately have "heap_but_up key ys pos \<and> pos < length ys \<and> mset ys = mset (b # bs)" by (intro sink_heap) simp_all
    moreover from this have "heap key (sift_up key ys pos) \<and> mset (sift_up key ys pos) = mset ys" using sift_up_heap by blast
    moreover have "BinaryHeap_pop key (x # xs) = (Some x, sift_up key ys pos)"
      unfolding x BinaryHeap_pop_def using ys by (simp add: vec_pop_def)
    ultimately show ?thesis using snoc by simp
  qed
  then show "fst (BinaryHeap_pop key (x # xs)) = Some x" "heap key (snd (BinaryHeap_pop key (x # xs)))"
    "mset (snd (BinaryHeap_pop key (x # xs))) = mset xs" by simp_all
qed

lemma length_sift_up [simp]: "length (sift_up key xs pos) = length xs"
  by (induction key xs pos rule: sift_up.induct) (subst sift_up.simps, simp add: Let_def)

lemma length_sink [simp]: "length (fst (sink key xs pos)) = length xs"
  by (induction key xs pos rule: sink.induct) (subst sink.simps, simp add: Let_def)

lemma length_pop: "length (snd (BinaryHeap_pop key xs)) = length xs - 1"
proof (cases xs rule: rev_cases)
  case (snoc ys y)
  then show ?thesis using length_sink [of key "ys[0 := y]" 0]
    by (auto simp: BinaryHeap_pop_def split: prod.split) (metis fst_conv length_list_update length_sink)
qed (simp add: BinaryHeap_pop_def)

section \<open>The interface\<close>

locale priority_queue =
  fixes key :: "'a \<Rightarrow> int" and ok :: "'q \<Rightarrow> bool" and contents :: "'q \<Rightarrow> 'a multiset"
    and push :: "'a \<Rightarrow> 'q \<Rightarrow> 'q" and peek :: "'q \<Rightarrow> 'a option" and pop :: "'q \<Rightarrow> 'a option \<times> 'q"
  assumes push_ok: "ok q \<Longrightarrow> ok (push x q) \<and> contents (push x q) = add_mset x (contents q)"
    and peek_none: "ok q \<Longrightarrow> peek q = None \<longleftrightarrow> contents q = {#}"
    and peek_some: "ok q \<Longrightarrow> peek q = Some x \<Longrightarrow> x \<in># contents q \<and> (\<forall>y \<in># contents q. key y \<le> key x)"
    and pop_ok: "ok q \<Longrightarrow> peek q = Some x \<Longrightarrow> fst (pop q) = Some x \<and> ok (snd (pop q)) \<and>
      contents q = add_mset x (contents (snd (pop q)))"
begin

text \<open>Once the first element is below a bound, so are all.\<close>

lemma peek_below:
  assumes "ok q" "peek q = Some x" "key x < b"
  shows "{#y \<in># contents q. b \<le> key y#} = {#}"
  using peek_some [OF assms(1,2)] assms(3) by fastforce

lemma pop_smaller:
  assumes "ok q" "peek q = Some x"
  shows "size (contents (snd (pop q))) < size (contents q)"
  using pop_ok [OF assms] by (metis size_add_mset lessI)

lemma push_all:
  assumes "ok q"
  shows "ok (fold push xs q) \<and> contents (fold push xs q) = contents q + mset xs"
  using assms by (induction xs arbitrary: q) (auto simp: push_ok)

end

interpretation bh: priority_queue key "heap key" mset "BinaryHeap_push key" BinaryHeap_peek "BinaryHeap_pop key"
  for key :: "'a \<Rightarrow> int"
proof
  fix q :: "'a list" and x
  show "heap key q \<Longrightarrow> heap key (BinaryHeap_push key x q) \<and> mset (BinaryHeap_push key x q) = add_mset x (mset q)"
    by (simp add: push_heap)
  show "(BinaryHeap_peek q = None) = (mset q = {#})" by (simp add: BinaryHeap_peek_def split: list.split)
  assume *: "heap key q" "BinaryHeap_peek q = Some x"
  then obtain xs where q: "q = x # xs" by (auto simp: BinaryHeap_peek_def split: list.splits)
  have "\<forall>y \<in> set q. key y \<le> key x"
    using heap_greatest [OF *(1)] unfolding all_set_conv_all_nth by (simp add: q)
  then show "x \<in># mset q \<and> (\<forall>y \<in># mset q. key y \<le> key x)" by (simp add: q)
  show "fst (BinaryHeap_pop key q) = Some x \<and> heap key (snd (BinaryHeap_pop key q)) \<and>
      mset q = add_mset x (mset (snd (BinaryHeap_pop key q)))"
    using pop_heap [OF *(1) [unfolded q]] by (simp add: q)
qed

end
