(* ===== verification/Task_Manager.thy ===== *)
theory Task_Manager
  imports Ordered_Map
begin

text \<open>
  The ready queue, the processor and the scheduling decisions (\<^verbatim>\<open>os/src/task/manager.rs\<close>,
  \<^verbatim>\<open>os/src/task/processor.rs\<close>, the switching functions of \<^verbatim>\<open>os/src/task/mod.rs\<close>). A task is known by the
  identity of its control block. The kernel runs on one core and is not preempted, so every function is one step; a
  function that calls \<open>schedule\<close> ends, for the model, at the switch to the idle loop, and what it does after the task is
  resumed is a step of its own. \<open>sched_ok\<close> says that the statuses, the ready queue and the processor agree.
\<close>

section \<open>The scheduler\<close>

type_synonym task = nat

datatype TaskStatus = Ready | Running | Blocked

record sched =
  sc_ready_queue :: "task list"
  sc_stop_task :: "task option"
  sc_current :: "task option"
  sc_status :: "task \<Rightarrow> TaskStatus"

definition TaskManager_add :: "task \<Rightarrow> sched \<Rightarrow> sched" where
  "TaskManager_add t s = s\<lparr>sc_ready_queue := sc_ready_queue s @ [t]\<rparr>"

definition TaskManager_fetch :: "sched \<Rightarrow> (task \<times> sched) option" where
  "TaskManager_fetch s =
     (case pop_front (sc_ready_queue s) of
        None \<Rightarrow> None
      | Some (t, q) \<Rightarrow> Some (t, s\<lparr>sc_ready_queue := q\<rparr>))"

definition TaskManager_remove :: "task \<Rightarrow> sched \<Rightarrow> sched" where
  "TaskManager_remove t s =
     (case position (\<lambda>u. u = t) (sc_ready_queue s) of
        Some i \<Rightarrow> s\<lparr>sc_ready_queue := remove_at i (sc_ready_queue s)\<rparr>
      | None \<Rightarrow> s)"

definition TaskManager_add_stop :: "task \<Rightarrow> sched \<Rightarrow> sched" where
  "TaskManager_add_stop t s = s\<lparr>sc_stop_task := Some t\<rparr>"

definition set_status :: "task \<Rightarrow> TaskStatus \<Rightarrow> sched \<Rightarrow> sched" where
  "set_status t st s = s\<lparr>sc_status := (sc_status s)(t := st)\<rparr>"

definition wakeup_task :: "task \<Rightarrow> sched \<Rightarrow> sched" where
  "wakeup_task t s = TaskManager_add t (set_status t Ready s)"

definition take_current_task :: "sched \<Rightarrow> task option \<times> sched" where
  "take_current_task s = (sc_current s, s\<lparr>sc_current := None\<rparr>)"

definition current_task :: "sched \<Rightarrow> task outcome" where
  "current_task s = unwrap (sc_current s)"

definition suspend_current_and_run_next :: "sched \<Rightarrow> sched outcome" where
  "suspend_current_and_run_next s =
     (let (cur, s) = take_current_task s in
      and_then (unwrap cur) (\<lambda>t. Inr (TaskManager_add t (set_status t Ready s))))"

definition block_current_and_run_next :: "sched \<Rightarrow> sched outcome" where
  "block_current_and_run_next s =
     (let (cur, s) = take_current_task s in
      and_then (unwrap cur) (\<lambda>t. Inr (set_status t Blocked s)))"

text \<open>One round of the loop of \<open>run_tasks\<close>, up to the switch to the chosen task.\<close>

definition run_tasks_round :: "sched \<Rightarrow> sched" where
  "run_tasks_round s =
     (case TaskManager_fetch s of
        Some (t, s) \<Rightarrow> (set_status t Running s)\<lparr>sc_current := Some t\<rparr>
      | None \<Rightarrow> s)"

lemmas sched_defs = TaskManager_add_def TaskManager_fetch_def set_status_def wakeup_task_def take_current_task_def
  current_task_def suspend_current_and_run_next_def block_current_and_run_next_def run_tasks_round_def

section \<open>The invariant\<close>

text \<open>\<open>T\<close> are the tasks that exist and have not exited.\<close>

definition sched_ok :: "task set \<Rightarrow> sched \<Rightarrow> bool" where
  "sched_ok T s \<longleftrightarrow>
     distinct (sc_ready_queue s) \<and> set (sc_ready_queue s) = {t \<in> T. sc_status s t = Ready} \<and>
     (\<forall>t. sc_current s = Some t \<longleftrightarrow> t \<in> T \<and> sc_status s t = Running)"

lemma sched_okD:
  assumes "sched_ok T s"
  shows "distinct (sc_ready_queue s)" "t \<in> set (sc_ready_queue s) \<longleftrightarrow> t \<in> T \<and> sc_status s t = Ready"
    "sc_current s = Some t \<longleftrightarrow> t \<in> T \<and> sc_status s t = Running"
  using assms by (auto simp: sched_ok_def)

lemma wakeup_task_ok:
  assumes "sched_ok T s" "t \<in> T" "sc_status s t = Blocked"
  shows "sched_ok T (wakeup_task t s)"
  using assms by (auto simp: sched_ok_def sched_defs)

lemma suspend_ok:
  assumes "sched_ok T s" "sc_current s = Some t"
  shows "\<exists>s'. suspend_current_and_run_next s = Inr s' \<and> sched_ok T s' \<and> sc_current s' = None \<and>
    sc_ready_queue s' = sc_ready_queue s @ [t] \<and> sc_status s' = (sc_status s)(t := Ready)"
  using assms sched_okD(2,3) [OF assms(1), of t] by (auto simp: sched_ok_def sched_defs)

lemma block_ok:
  assumes "sched_ok T s" "sc_current s = Some t"
  shows "\<exists>s'. block_current_and_run_next s = Inr s' \<and> sched_ok T s' \<and> sc_current s' = None \<and>
    sc_ready_queue s' = sc_ready_queue s \<and> sc_status s' = (sc_status s)(t := Blocked)"
  using assms sched_okD(2,3) [OF assms(1), of t] by (auto simp: sched_ok_def sched_defs)

lemma run_tasks_round_ok:
  assumes "sched_ok T s" "sc_current s = None"
  shows "sched_ok T (run_tasks_round s)"
  using assms by (auto simp: sched_ok_def sched_defs pop_front_def split: list.split)

section \<open>Runs of the scheduler\<close>

text \<open>
  What happens to the scheduler while no task is created, exits or is removed, that is, for a fixed set \<open>T\<close> of tasks, one
  event at a time: the idle loop picks a task, the running task yields or blocks, a blocked task is woken.
  \<open>sched_run T s ds s'\<close> also collects the tasks that were picked.
\<close>

inductive sched_step :: "task set \<Rightarrow> sched \<Rightarrow> task list \<Rightarrow> sched \<Rightarrow> bool" for T where
  pick: "sc_current s = None \<Longrightarrow> TaskManager_fetch s = Some (t, s1) \<Longrightarrow> sched_step T s [t] (run_tasks_round s)"
| suspend: "suspend_current_and_run_next s = Inr s' \<Longrightarrow> sched_step T s [] s'"
| block: "block_current_and_run_next s = Inr s' \<Longrightarrow> sched_step T s [] s'"
| wake: "t \<in> T \<Longrightarrow> sc_status s t = Blocked \<Longrightarrow> sched_step T s [] (wakeup_task t s)"

inductive sched_run :: "task set \<Rightarrow> sched \<Rightarrow> task list \<Rightarrow> sched \<Rightarrow> bool" for T where
  stop: "sched_run T s [] s"
| step: "sched_step T s d s1 \<Longrightarrow> sched_run T s1 ds s' \<Longrightarrow> sched_run T s (d @ ds) s'"

lemma sched_step_ok:
  assumes "sched_step T s d s'" "sched_ok T s"
  shows "sched_ok T s'"
  using assms
proof cases
  case (suspend)
  then obtain t where "sc_current s = Some t" by (auto simp: sched_defs panic_simps)
  then show ?thesis using suspend_ok [OF assms(2)] suspend by auto
next
  case (block)
  then obtain t where "sc_current s = Some t" by (auto simp: sched_defs panic_simps)
  then show ?thesis using block_ok [OF assms(2)] block by auto
qed (use assms(2) run_tasks_round_ok wakeup_task_ok in auto)

text \<open>The queue only loses its head, to the processor, and only grows at its end.\<close>

lemma sched_step_queue:
  assumes "sched_step T s d s'"
  obtains new where "sc_ready_queue s @ new = d @ sc_ready_queue s'"
proof -
  have "\<exists>new. sc_ready_queue s @ new = d @ sc_ready_queue s'"
    using assms by cases (auto simp: sched_defs panic_simps pop_front_def split: list.splits)
  then show thesis using that by blast
qed

lemma sched_run_queue: "sched_run T s ds s' \<Longrightarrow> \<exists>new. sc_ready_queue s @ new = ds @ sc_ready_queue s'"
proof (induction rule: sched_run.induct)
  case (step s d s1 ds s')
  obtain new where "sc_ready_queue s @ new = d @ sc_ready_queue s1" using sched_step_queue [OF step.hyps(1)] .
  moreover obtain new' where "sc_ready_queue s1 @ new' = ds @ sc_ready_queue s'" using step.IH by blast
  ultimately show ?case by (intro exI [of _ "new @ new'"]) (metis append.assoc)
qed simp

lemma sched_run_ok: "sched_run T s ds s' \<Longrightarrow> sched_ok T s \<Longrightarrow> sched_ok T s'"
  by (induction rule: sched_run.induct) (auto dest: sched_step_ok)

text \<open>
  C29. The scheduler is first come, first served, and starves no ready task: in every run over a fixed set of tasks (none is created,
  exits or is removed), whatever yields, blocks and wake-ups happen, the first tasks picked are those of the ready queue, in its order, so the task at position \<open>k\<close> is
  the \<open>k\<close>-th to be picked; and as long as the ready queue is not empty and nothing runs, the next
  task can be picked.
\<close>

theorem scheduler_fifo:
  assumes "sched_ok T s" "sched_run T s picked s'"
  shows "sched_ok T s' \<and>
    (\<forall>k < length (sc_ready_queue s). k < length picked \<longrightarrow> picked ! k = sc_ready_queue s ! k) \<and>
    (sc_ready_queue s' \<noteq> [] \<and> sc_current s' = None \<longrightarrow>
      sched_step T s' [hd (sc_ready_queue s')] (run_tasks_round s') \<and>
      sc_current (run_tasks_round s') = Some (hd (sc_ready_queue s')))"
proof -
  obtain new where new: "sc_ready_queue s @ new = picked @ sc_ready_queue s'" using sched_run_queue [OF assms(2)] by blast
  have "picked ! k = sc_ready_queue s ! k" if "k < length (sc_ready_queue s)" "k < length picked" for k
    using arg_cong [OF new, of "\<lambda>xs. xs ! k"] that by (simp add: nth_append)
  moreover have "sched_step T s' [hd (sc_ready_queue s')] (run_tasks_round s') \<and>
      sc_current (run_tasks_round s') = Some (hd (sc_ready_queue s'))" if ne: "sc_ready_queue s' \<noteq> []" and cur: "sc_current s' = None"
  proof
    obtain t q where q: "sc_ready_queue s' = t # q" using ne by (cases "sc_ready_queue s'") auto
    then show "sched_step T s' [hd (sc_ready_queue s')] (run_tasks_round s')"
      using sched_step.pick [OF cur, of t] by (simp add: TaskManager_fetch_def)
    show "sc_current (run_tasks_round s') = Some (hd (sc_ready_queue s'))" using q by (simp add: sched_defs)
  qed
  ultimately show ?thesis using sched_run_ok [OF assms(2,1)] by blast
qed

definition two_tasks :: sched where
  "two_tasks = \<lparr>sc_ready_queue = [3, 5], sc_stop_task = None, sc_current = None, sc_status = (\<lambda>_. Ready)\<rparr>"

theorem scheduler_fifo_witness: "\<exists>s'. sched_run {3, 5} two_tasks [3, 5] s' \<and> [3, 5] ! 1 = sc_ready_queue two_tasks ! 1"
proof -
  have ok: "sched_ok {3, 5} two_tasks" by (auto simp: sched_ok_def two_tasks_def)
  define s1 where "s1 = run_tasks_round two_tasks"
  define s2 where "s2 = s1\<lparr>sc_current := None, sc_status := (sc_status s1)(3 := Blocked)\<rparr>"
  have 1: "sched_step {3, 5} two_tasks [3] s1"
    unfolding s1_def by (rule sched_step.pick) (simp_all add: two_tasks_def sched_defs)
  have 2: "sched_step {3, 5} s1 [] s2"
    by (rule sched_step.block) (simp add: s2_def s1_def two_tasks_def sched_defs)
  have 3: "sched_step {3, 5} s2 [5] (run_tasks_round s2)"
    by (rule sched_step.pick) (simp_all add: s2_def s1_def two_tasks_def sched_defs)
  have run: "sched_run {3, 5} two_tasks ([3] @ [] @ [5] @ []) (run_tasks_round s2)"
    using 1 2 3 by (blast intro: sched_run.intros)
  from scheduler_fifo [OF ok run] show ?thesis using run by (auto simp: two_tasks_def)
qed

end
