(* ===== verification/Sync.thy ===== *)
theory Sync
  imports Task_Manager
begin

text \<open>
  The blocking primitives of the kernel (\<^verbatim>\<open>os/src/sync/mutex.rs\<close>, \<^verbatim>\<open>semaphore.rs\<close>, \<^verbatim>\<open>condvar.rs\<close>) over the
  scheduler. A call that gives up the processor ends its step there; the flag of the result says whether
  the call has returned. A spin mutex tries again when its task is resumed, a blocking mutex and a
  semaphore return, a condition variable then takes its mutex again.
\<close>

section \<open>Mutexes\<close>

record MutexBlockingInner =
  mb_locked :: bool
  mb_wait_queue :: "task list"

definition MutexSpin_new :: bool where
  "MutexSpin_new = False"

text \<open>One turn of the loop: the result says whether the lock was taken.\<close>

definition MutexSpin_lock :: "bool \<Rightarrow> sched \<Rightarrow> (bool \<times> bool \<times> sched) outcome" where
  "MutexSpin_lock locked s =
     (if locked then and_then (suspend_current_and_run_next s) (\<lambda>s. Inr (False, locked, s))
      else Inr (True, True, s))"

definition MutexSpin_unlock :: "bool \<Rightarrow> bool" where
  "MutexSpin_unlock locked = False"

definition MutexBlocking_new :: MutexBlockingInner where
  "MutexBlocking_new = \<lparr>mb_locked = False, mb_wait_queue = []\<rparr>"

definition MutexBlocking_lock :: "MutexBlockingInner \<Rightarrow> sched \<Rightarrow> (bool \<times> MutexBlockingInner \<times> sched) outcome" where
  "MutexBlocking_lock m s =
     (if mb_locked m
      then and_then (current_task s) (\<lambda>t.
           let m = m\<lparr>mb_wait_queue := mb_wait_queue m @ [t]\<rparr> in
           and_then (block_current_and_run_next s) (\<lambda>s. Inr (False, m, s)))
      else Inr (True, m\<lparr>mb_locked := True\<rparr>, s))"

definition MutexBlocking_unlock :: "MutexBlockingInner \<Rightarrow> sched \<Rightarrow> (MutexBlockingInner \<times> sched) outcome" where
  "MutexBlocking_unlock m s =
     and_then (assert_that (mb_locked m)) (\<lambda>_.
     Inr (case pop_front (mb_wait_queue m) of
        Some (waking_task, q) \<Rightarrow> (m\<lparr>mb_wait_queue := q\<rparr>, wakeup_task waking_task s)
      | None \<Rightarrow> (m\<lparr>mb_locked := False\<rparr>, s)))"

text \<open>The trait object \<^verbatim>\<open>dyn Mutex\<close>.\<close>

datatype Mutex = Spin bool | Blocking MutexBlockingInner

fun Mutex_lock :: "Mutex \<Rightarrow> sched \<Rightarrow> (bool \<times> Mutex \<times> sched) outcome" where
  "Mutex_lock (Spin locked) s =
     and_then (MutexSpin_lock locked s) (\<lambda>(done, locked, s). Inr (done, Spin locked, s))"
| "Mutex_lock (Blocking m) s =
     and_then (MutexBlocking_lock m s) (\<lambda>(done, m, s). Inr (done, Blocking m, s))"

fun Mutex_unlock :: "Mutex \<Rightarrow> sched \<Rightarrow> (Mutex \<times> sched) outcome" where
  "Mutex_unlock (Spin locked) s = Inr (Spin (MutexSpin_unlock locked), s)"
| "Mutex_unlock (Blocking m) s =
     and_then (MutexBlocking_unlock m s) (\<lambda>(m, s). Inr (Blocking m, s))"

section \<open>Semaphores\<close>

record Semaphore =
  sem_count :: isize
  sem_wait_queue :: "task list"

definition Semaphore_new :: "usize \<Rightarrow> Semaphore" where
  "Semaphore_new res_count = \<lparr>sem_count = res_count, sem_wait_queue = []\<rparr>"

definition Semaphore_up :: "Semaphore \<Rightarrow> sched \<Rightarrow> Semaphore \<times> sched" where
  "Semaphore_up sem s =
     (let sem = sem\<lparr>sem_count := sem_count sem + 1\<rparr> in
      if sint (sem_count sem) \<le> 0
      then case pop_front (sem_wait_queue sem) of
             Some (t, q) \<Rightarrow> (sem\<lparr>sem_wait_queue := q\<rparr>, wakeup_task t s)
           | None \<Rightarrow> (sem, s)
      else (sem, s))"

definition Semaphore_down :: "Semaphore \<Rightarrow> sched \<Rightarrow> (bool \<times> Semaphore \<times> sched) outcome" where
  "Semaphore_down sem s =
     (let sem = sem\<lparr>sem_count := sem_count sem - 1\<rparr> in
      if sint (sem_count sem) < 0
      then and_then (current_task s) (\<lambda>t.
           let sem = sem\<lparr>sem_wait_queue := sem_wait_queue sem @ [t]\<rparr> in
           and_then (block_current_and_run_next s) (\<lambda>s. Inr (False, sem, s)))
      else Inr (True, sem, s))"

section \<open>Condition variables\<close>

record Condvar =
  cv_wait_queue :: "task list"

definition Condvar_new :: Condvar where
  "Condvar_new = \<lparr>cv_wait_queue = []\<rparr>"

definition Condvar_signal :: "Condvar \<Rightarrow> sched \<Rightarrow> Condvar \<times> sched" where
  "Condvar_signal cv s =
     (case pop_front (cv_wait_queue cv) of
        Some (t, q) \<Rightarrow> (cv\<lparr>cv_wait_queue := q\<rparr>, wakeup_task t s)
      | None \<Rightarrow> (cv, s))"

text \<open>\<open>wait\<close> up to the switch; once the task is resumed it calls \<open>Mutex_lock\<close>.\<close>

definition Condvar_wait :: "Condvar \<Rightarrow> Mutex \<Rightarrow> sched \<Rightarrow> (Condvar \<times> Mutex \<times> sched) outcome" where
  "Condvar_wait cv m s =
     and_then (Mutex_unlock m s) (\<lambda>(m, s).
     and_then (current_task s) (\<lambda>t.
     let cv = cv\<lparr>cv_wait_queue := cv_wait_queue cv @ [t]\<rparr> in
     and_then (block_current_and_run_next s) (\<lambda>s. Inr (cv, m, s))))"

section \<open>Wait queues\<close>

text \<open>The tasks in a wait queue are different tasks, and they are blocked; the queue grows and shrinks with the scheduler.\<close>

definition waiters_ok :: "task set \<Rightarrow> sched \<Rightarrow> task list \<Rightarrow> bool" where
  "waiters_ok T s q \<longleftrightarrow> sched_ok T s \<and> distinct q \<and> (\<forall>t \<in> set q. t \<in> T \<and> sc_status s t = Blocked)"

lemma waiters_empty [simp]: "waiters_ok T s [] \<longleftrightarrow> sched_ok T s"
  by (simp add: waiters_ok_def)

lemma waiters_current:
  assumes "waiters_ok T s q" "sc_current s = Some t"
  shows "t \<in> T" "sc_status s t = Running" "t \<notin> set q"
  using assms sched_okD(3) [of T s t] by (auto simp: waiters_ok_def)

lemma waiters_block:
  assumes "waiters_ok T s q" "sc_current s = Some t"
  shows "\<exists>s'. block_current_and_run_next s = Inr s' \<and> sc_status s' = (sc_status s)(t := Blocked) \<and>
    waiters_ok T s' q \<and> waiters_ok T s' (q @ [t])"
  using assms(1) waiters_current [OF assms] block_ok [OF _ assms(2), of T] by (auto simp: waiters_ok_def)

lemma waiters_suspend:
  assumes "waiters_ok T s q" "sc_current s = Some t"
  shows "\<exists>s'. suspend_current_and_run_next s = Inr s' \<and> sc_status s' = (sc_status s)(t := Ready) \<and> waiters_ok T s' q"
  using assms(1) waiters_current [OF assms] suspend_ok [OF _ assms(2), of T] by (auto simp: waiters_ok_def)

lemma wakeup_status [simp]: "sc_status (wakeup_task t s) = (sc_status s)(t := Ready)"
  by (simp add: sched_defs)

lemma waiters_wake_first:
  assumes "waiters_ok T s (t # q)"
  shows "waiters_ok T (wakeup_task t s) q"
  using assms by (auto simp: waiters_ok_def wakeup_task_ok)

lemma waiters_wake_other:
  assumes "waiters_ok T s q" "t \<in> T" "sc_status s t = Blocked" "t \<notin> set q"
  shows "waiters_ok T (wakeup_task t s) q"
  using assms by (auto simp: waiters_ok_def wakeup_task_ok)

lemma fetch_ready:
  assumes "sched_ok T s" "TaskManager_fetch s = Some (t, s1)"
  shows "t \<in> T" "sc_status s t = Ready" "sc_status (run_tasks_round s) = (sc_status s)(t := Running)"
  using assms sched_okD(2) [OF assms(1), of t] by (auto simp: sched_defs pop_front_def split: list.splits)

lemma waiters_resume:
  assumes "waiters_ok T s q" "sc_current s = None" "TaskManager_fetch s = Some (t, s1)"
  shows "waiters_ok T (run_tasks_round s) q"
  using assms fetch_ready [OF _ assms(3), of T] run_tasks_round_ok [OF _ assms(2), of T] by (auto simp: waiters_ok_def)

lemma no_current:
  assumes "sc_current s = None"
  shows "suspend_current_and_run_next s = Inl UnwrapNone" "block_current_and_run_next s = Inl UnwrapNone"
  using assms by (simp_all add: sched_defs)

section \<open>Mutual exclusion\<close>

text \<open>
  The blocking mutex and its users: \<open>inside\<close> are the tasks whose \<open>lock\<close> has returned and that have not
  called \<open>unlock\<close>, \<open>granted\<close> the tasks that \<open>unlock\<close> has woken and that have not run since. Users unlock what they
  have locked and do not lock twice (the code leaves this to them: \<open>sys_mutex_unlock\<close> does not ask who has the mutex); everything
  else may happen in any order, other blocking and waking included.
\<close>

record mutex_sys =
  y_sched :: sched
  y_mutex :: MutexBlockingInner
  y_inside :: "task set"
  y_granted :: "task set"

inductive mutex_step :: "task set \<Rightarrow> mutex_sys \<Rightarrow> mutex_sys \<Rightarrow> bool" for T where
  lock: "sc_current (y_sched y) = Some t \<Longrightarrow> t \<notin> y_inside y \<Longrightarrow>
    MutexBlocking_lock (y_mutex y) (y_sched y) = Inr (done, m', s') \<Longrightarrow>
    mutex_step T y (y\<lparr>y_mutex := m', y_sched := s', y_inside := (if done then insert t (y_inside y) else y_inside y)\<rparr>)"
| unlock: "sc_current (y_sched y) = Some t \<Longrightarrow> t \<in> y_inside y \<Longrightarrow>
    MutexBlocking_unlock (y_mutex y) (y_sched y) = Inr (m', s') \<Longrightarrow>
    mutex_step T y (y\<lparr>y_mutex := m', y_sched := s', y_inside := y_inside y - {t},
      y_granted := y_granted y \<union> (set (mb_wait_queue (y_mutex y)) - set (mb_wait_queue m'))\<rparr>)"
| resume: "sc_current (y_sched y) = None \<Longrightarrow> TaskManager_fetch (y_sched y) = Some (t, s1) \<Longrightarrow>
    mutex_step T y (y\<lparr>y_sched := run_tasks_round (y_sched y),
      y_inside := (if t \<in> y_granted y then insert t (y_inside y) else y_inside y), y_granted := y_granted y - {t}\<rparr>)"
| suspend: "suspend_current_and_run_next (y_sched y) = Inr s' \<Longrightarrow> mutex_step T y (y\<lparr>y_sched := s'\<rparr>)"
| block: "block_current_and_run_next (y_sched y) = Inr s' \<Longrightarrow> mutex_step T y (y\<lparr>y_sched := s'\<rparr>)"
| wake: "t \<in> T \<Longrightarrow> sc_status (y_sched y) t = Blocked \<Longrightarrow> t \<notin> set (mb_wait_queue (y_mutex y)) \<Longrightarrow>
    mutex_step T y (y\<lparr>y_sched := wakeup_task t (y_sched y)\<rparr>)"

definition mutex_ok :: "task set \<Rightarrow> mutex_sys \<Rightarrow> bool" where
  "mutex_ok T y \<longleftrightarrow>
     waiters_ok T (y_sched y) (mb_wait_queue (y_mutex y)) \<and>
     set (mb_wait_queue (y_mutex y)) \<inter> y_inside y = {} \<and> y_inside y \<inter> y_granted y = {} \<and>
     (\<forall>t \<in> y_granted y. t \<in> T \<and> sc_status (y_sched y) t = Ready) \<and>
     (if mb_locked (y_mutex y) then \<exists>t. y_inside y \<union> y_granted y = {t}
      else mb_wait_queue (y_mutex y) = [] \<and> y_inside y = {} \<and> y_granted y = {})"

lemma mutex_okD:
  assumes "mutex_ok T y"
  shows "waiters_ok T (y_sched y) (mb_wait_queue (y_mutex y))" "sched_ok T (y_sched y)"
    "\<forall>t \<in> y_granted y. t \<in> T \<and> sc_status (y_sched y) t = Ready"
  using assms by (simp_all add: mutex_ok_def waiters_ok_def)

lemma one_of_two:
  assumes "A \<union> B = {u}" "A \<inter> B = {}" "x \<in> A"
  shows "A = {x}" "B = {}"
proof -
  have "A \<subseteq> {u}" "B \<subseteq> {u}" using assms(1) by auto
  then have "x = u" using assms(3) by blast
  then show "A = {x}" using \<open>A \<subseteq> {u}\<close> assms(3) by blast
  then show "B = {}" using \<open>B \<subseteq> {u}\<close> \<open>x = u\<close> assms(2) by blast
qed

lemma mutex_ok_owner:
  assumes "mutex_ok T y" "t \<in> y_inside y"
  shows "mb_locked (y_mutex y)" "y_inside y = {t}" "y_granted y = {}"
  using assms one_of_two [OF _ _ assms(2), of "y_granted y"] by (auto simp: mutex_ok_def split: if_splits)

lemma mutex_ok_next_owner:
  assumes "mutex_ok T y" "t \<in> y_granted y"
  shows "mb_locked (y_mutex y)" "y_granted y = {t}" "y_inside y = {}"
  using assms one_of_two [OF _ _ assms(2), of "y_inside y"] by (auto simp: mutex_ok_def Un_commute Int_commute split: if_splits)

text \<open>The scheduler may do anything that leaves the waiting and the woken tasks alone.\<close>

lemma mutex_ok_sched:
  assumes "mutex_ok T y" "waiters_ok T s' (mb_wait_queue (y_mutex y))"
    "\<forall>t \<in> y_granted y. sc_status s' t = sc_status (y_sched y) t"
  shows "mutex_ok T (y\<lparr>y_sched := s'\<rparr>)"
  using assms unfolding mutex_ok_def by simp

lemma mutex_ok_lock:
  assumes "mutex_ok T y" "sc_current (y_sched y) = Some t" "t \<notin> y_inside y"
    "MutexBlocking_lock (y_mutex y) (y_sched y) = Inr (done, m', s')"
  shows "mutex_ok T (y\<lparr>y_mutex := m', y_sched := s', y_inside := (if done then insert t (y_inside y) else y_inside y)\<rparr>)"
proof (cases "mb_locked (y_mutex y)")
  case False
  then have "done" "m' = (y_mutex y)\<lparr>mb_locked := True\<rparr>" "s' = y_sched y"
    using assms(4) by (auto simp: MutexBlocking_lock_def)
  then show ?thesis using assms(1) mutex_okD(2) [OF assms(1)] False by (simp add: mutex_ok_def)
next
  case True
  note w = mutex_okD(1) [OF assms(1)]
  obtain s1 where s1: "block_current_and_run_next (y_sched y) = Inr s1" "sc_status s1 = (sc_status (y_sched y))(t := Blocked)"
    "waiters_ok T s1 (mb_wait_queue (y_mutex y) @ [t])" using waiters_block [OF w assms(2)] by blast
  have "\<not> done" "m' = (y_mutex y)\<lparr>mb_wait_queue := mb_wait_queue (y_mutex y) @ [t]\<rparr>" "s' = s1"
    using assms(2,4) True s1(1) by (auto simp: MutexBlocking_lock_def current_task_def)
  moreover have "t \<notin> y_granted y" using mutex_okD(3) [OF assms(1)] waiters_current(2) [OF w assms(2)] by auto
  ultimately show ?thesis using assms(1,3) True s1 by (auto simp: mutex_ok_def)
qed

lemma mutex_ok_unlock:
  assumes "mutex_ok T y" "t \<in> y_inside y"
    "MutexBlocking_unlock (y_mutex y) (y_sched y) = Inr (m', s')"
  shows "mutex_ok T (y\<lparr>y_mutex := m', y_sched := s', y_inside := y_inside y - {t},
      y_granted := y_granted y \<union> (set (mb_wait_queue (y_mutex y)) - set (mb_wait_queue m'))\<rparr>)"
proof (cases "mb_wait_queue (y_mutex y)")
  case Nil
  note own = mutex_ok_owner [OF assms(1,2)]
  have "m' = (y_mutex y)\<lparr>mb_locked := False\<rparr>" "s' = y_sched y"
    using assms(3) own Nil by (auto simp: MutexBlocking_unlock_def)
  then show ?thesis using assms(1) Nil own by (simp add: mutex_ok_def)
next
  case (Cons u q)
  note own = mutex_ok_owner [OF assms(1,2)]
  have m': "m' = (y_mutex y)\<lparr>mb_wait_queue := q\<rparr>" "s' = wakeup_task u (y_sched y)"
    using assms(3) own Cons by (auto simp: MutexBlocking_unlock_def)
  have u: "waiters_ok T (y_sched y) (u # q)" using mutex_okD(1) [OF assms(1)] Cons by simp
  then have "u \<in> T" "u \<notin> set q" "set (u # q) - set q = {u}" by (auto simp: waiters_ok_def)
  then show ?thesis unfolding mutex_ok_def using waiters_wake_first [OF u] own
    by (simp add: m' Cons own del: list.set)
qed

lemma mutex_ok_resume:
  assumes "mutex_ok T y" "sc_current (y_sched y) = None" "TaskManager_fetch (y_sched y) = Some (t, s1)"
  shows "mutex_ok T (y\<lparr>y_sched := run_tasks_round (y_sched y),
      y_inside := (if t \<in> y_granted y then insert t (y_inside y) else y_inside y), y_granted := y_granted y - {t}\<rparr>)"
proof -
  note w = mutex_okD(1) [OF assms(1)]
  have ft: "sc_status (y_sched y) t = Ready" "sc_status (run_tasks_round (y_sched y)) = (sc_status (y_sched y))(t := Running)"
    using fetch_ready [OF mutex_okD(2) [OF assms(1)] assms(3)] by simp_all
  have "t \<notin> set (mb_wait_queue (y_mutex y))" using w ft(1) by (auto simp: waiters_ok_def)
  moreover have "y_inside y = {}" "y_granted y = {t}" "mb_locked (y_mutex y)" if "t \<in> y_granted y"
    using mutex_ok_next_owner [OF assms(1) that] by simp_all
  ultimately show ?thesis using assms(1) waiters_resume [OF w assms(2,3)] ft(2)
    by (cases "t \<in> y_granted y") (auto simp: mutex_ok_def)
qed

lemma mutex_step_ok:
  assumes "mutex_step T y y'" "mutex_ok T y"
  shows "mutex_ok T y'"
  using assms
proof cases
  case (lock t "done" m' s')
  then show ?thesis using mutex_ok_lock [OF assms(2)] by blast
next
  case (unlock t m' s')
  then show ?thesis using mutex_ok_unlock [OF assms(2)] by blast
next
  case (resume t s1)
  then show ?thesis using mutex_ok_resume [OF assms(2)] by blast
next
  case (suspend s')
  then obtain t where t: "sc_current (y_sched y) = Some t" using no_current by (cases "sc_current (y_sched y)") auto
  note w = mutex_okD(1) [OF assms(2)]
  have "t \<notin> y_granted y" using mutex_okD(3) [OF assms(2)] waiters_current(2) [OF w t] by auto
  then show ?thesis unfolding suspend(1) using waiters_suspend [OF w t] suspend(2) by (intro mutex_ok_sched [OF assms(2)]) auto
next
  case (block s')
  then obtain t where t: "sc_current (y_sched y) = Some t" using no_current by (cases "sc_current (y_sched y)") auto
  note w = mutex_okD(1) [OF assms(2)]
  have "t \<notin> y_granted y" using mutex_okD(3) [OF assms(2)] waiters_current(2) [OF w t] by auto
  then show ?thesis unfolding block(1) using waiters_block [OF w t] block(2) by (intro mutex_ok_sched [OF assms(2)]) auto
next
  case (wake t)
  then show ?thesis unfolding wake(1) using mutex_okD(3) [OF assms(2)]
    by (intro mutex_ok_sched [OF assms(2)] waiters_wake_other [OF mutex_okD(1) [OF assms(2)]]) auto
qed

definition mutex_start :: "sched \<Rightarrow> mutex_sys" where
  "mutex_start s = \<lparr>y_sched = s, y_mutex = MutexBlocking_new, y_inside = {}, y_granted = {}\<rparr>"

lemma mutex_reachable_ok:
  assumes "(mutex_step T)\<^sup>*\<^sup>* (mutex_start s) y" "sched_ok T s"
  shows "mutex_ok T y"
  using assms(1)
proof (induction rule: rtranclp_induct)
  case base
  show ?case using assms(2) by (simp add: mutex_ok_def mutex_start_def MutexBlocking_new_def)
qed (use mutex_step_ok in blast)

text \<open>
  C9. A blocking mutex whose users unlock it only when they have locked it, from its creation on and whatever else they and the
  scheduler do: never are two tasks between
  \<open>lock\<close> and \<open>unlock\<close>; while one is, the mutex is locked; nobody waits for a mutex that is free; a
  locked mutex has an owner, or its next owner is in the ready queue; and an unlock by the owner does not panic, hands the mutex over to the
  task that has waited longest, without unlocking it in between, and frees it when nobody waits.
\<close>

theorem mutex_mutual_exclusion:
  assumes "sched_ok T s" "(mutex_step T)\<^sup>*\<^sup>* (mutex_start s) y"
  shows "(\<forall>t u. t \<in> y_inside y \<and> u \<in> y_inside y \<longrightarrow> t = u) \<and>
    (y_inside y \<noteq> {} \<longrightarrow> mb_locked (y_mutex y)) \<and>
    (\<not> mb_locked (y_mutex y) \<longrightarrow> mb_wait_queue (y_mutex y) = []) \<and>
    (mb_locked (y_mutex y) \<longrightarrow> y_inside y \<noteq> {} \<or> (\<exists>t. y_granted y = {t} \<and> t \<in> set (sc_ready_queue (y_sched y)))) \<and>
    (\<forall>t \<in> y_inside y. MutexBlocking_unlock (y_mutex y) (y_sched y) =
       Inr (case mb_wait_queue (y_mutex y) of
          [] \<Rightarrow> ((y_mutex y)\<lparr>mb_locked := False\<rparr>, y_sched y)
        | u # q \<Rightarrow> ((y_mutex y)\<lparr>mb_wait_queue := q\<rparr>, wakeup_task u (y_sched y))))"
proof -
  have ok: "mutex_ok T y" using mutex_reachable_ok [OF assms(2,1)] .
  have one: "t = u" if "t \<in> y_inside y" "u \<in> y_inside y" for t u
    using mutex_ok_owner(2) [OF ok that(1)] that(2) by simp
  have handover: "\<exists>t. y_granted y = {t} \<and> t \<in> set (sc_ready_queue (y_sched y))"
    if "mb_locked (y_mutex y)" "y_inside y = {}"
    using ok that mutex_okD(3) [OF ok] sched_okD(2) [OF mutex_okD(2) [OF ok]] by (auto simp: mutex_ok_def)
  have idle: "mb_wait_queue (y_mutex y) = []" if "\<not> mb_locked (y_mutex y)" using ok that by (simp add: mutex_ok_def)
  have "mb_locked (y_mutex y)" if "t \<in> y_inside y" for t using mutex_ok_owner(1) [OF ok that] .
  then show ?thesis using one handover idle
    by (auto simp: MutexBlocking_unlock_def pop_front_def split: list.split)
qed

definition one_running :: sched where
  "one_running = \<lparr>sc_ready_queue = [5], sc_stop_task = None, sc_current = Some 3, sc_status = (\<lambda>_. Ready)(3 := Running)\<rparr>"

lemma one_running_ok: "sched_ok {3, 5} one_running"
  by (auto simp: sched_ok_def one_running_def)

theorem mutex_mutual_exclusion_witness:
  "MutexBlocking_unlock \<lparr>mb_locked = True, mb_wait_queue = []\<rparr> one_running =
    Inr (\<lparr>mb_locked = False, mb_wait_queue = []\<rparr>, one_running)"
proof -
  have "mutex_step {3, 5} (mutex_start one_running)
      ((mutex_start one_running)\<lparr>y_mutex := \<lparr>mb_locked = True, mb_wait_queue = []\<rparr>, y_sched := one_running,
        y_inside := if True then insert 3 (y_inside (mutex_start one_running)) else y_inside (mutex_start one_running)\<rparr>)"
    by (rule mutex_step.lock)
      (simp_all add: mutex_start_def one_running_def MutexBlocking_lock_def MutexBlocking_new_def)
  from mutex_mutual_exclusion [OF one_running_ok r_into_rtranclp [where r = "mutex_step {3, 5}", OF this]] show ?thesis
    by (simp add: mutex_start_def)
qed

section \<open>Counting\<close>

text \<open>
  A semaphore and its users: \<open>downs\<close> counts the calls of \<open>down\<close>, \<open>ups\<close> those of \<open>up\<close>, and
  \<open>passed\<close> the calls of \<open>down\<close> that returned at once or whose task has been woken.
\<close>

record sem_sys =
  z_sched :: sched
  z_sem :: Semaphore
  z_downs :: nat
  z_ups :: nat
  z_passed :: nat

inductive sem_step :: "task set \<Rightarrow> sem_sys \<Rightarrow> sem_sys \<Rightarrow> bool" for T where
  down: "sc_current (z_sched z) = Some t \<Longrightarrow> Semaphore_down (z_sem z) (z_sched z) = Inr (done, sem', s') \<Longrightarrow>
    sem_step T z (z\<lparr>z_sem := sem', z_sched := s', z_downs := z_downs z + 1, z_passed := z_passed z + of_bool done\<rparr>)"
| up: "Semaphore_up (z_sem z) (z_sched z) = (sem', s') \<Longrightarrow>
    sem_step T z (z\<lparr>z_sem := sem', z_sched := s', z_ups := z_ups z + 1,
      z_passed := z_passed z + (length (sem_wait_queue (z_sem z)) - length (sem_wait_queue sem'))\<rparr>)"
| resume: "sc_current (z_sched z) = None \<Longrightarrow> TaskManager_fetch (z_sched z) = Some (t, s1) \<Longrightarrow>
    sem_step T z (z\<lparr>z_sched := run_tasks_round (z_sched z)\<rparr>)"
| suspend: "suspend_current_and_run_next (z_sched z) = Inr s' \<Longrightarrow> sem_step T z (z\<lparr>z_sched := s'\<rparr>)"
| block: "block_current_and_run_next (z_sched z) = Inr s' \<Longrightarrow> sem_step T z (z\<lparr>z_sched := s'\<rparr>)"
| wake: "t \<in> T \<Longrightarrow> sc_status (z_sched z) t = Blocked \<Longrightarrow> t \<notin> set (sem_wait_queue (z_sem z)) \<Longrightarrow>
    sem_step T z (z\<lparr>z_sched := wakeup_task t (z_sched z)\<rparr>)"

definition sem_ok :: "task set \<Rightarrow> nat \<Rightarrow> sem_sys \<Rightarrow> bool" where
  "sem_ok T n z \<longleftrightarrow>
     waiters_ok T (z_sched z) (sem_wait_queue (z_sem z)) \<and>
     sint (sem_count (z_sem z)) = int n + int (z_ups z) - int (z_downs z) \<and>
     length (sem_wait_queue (z_sem z)) = z_downs z - (n + z_ups z) \<and>
     z_passed z + length (sem_wait_queue (z_sem z)) = z_downs z"

lemma waiters_few:
  assumes "waiters_ok T s q" "finite T"
  shows "length q \<le> card T"
proof -
  have "set q \<subseteq> T" using assms(1) by (auto simp: waiters_ok_def)
  then show ?thesis using assms card_mono [of T "set q"] distinct_card [of q] by (simp add: waiters_ok_def)
qed

lemma sint_pred_isize:
  fixes c :: isize
  assumes "- (2 ^ 63) < sint c"
  shows "sint (c - 1) = sint c - 1"
  unfolding sint_word_ariths using assms sint_lt [of c] by (simp add: signed_take_bit_int_eq_self)

lemma sint_succ_isize:
  fixes c :: isize
  assumes "sint c < 2 ^ 63 - 1"
  shows "sint (c + 1) = sint c + 1"
  unfolding sint_word_ariths using assms sint_ge [of c] by (simp add: signed_take_bit_int_eq_self)

lemma sem_ok_down:
  assumes "sem_ok T n z" "sc_current (z_sched z) = Some t" "finite T" "card T < 2 ^ 62"
    "Semaphore_down (z_sem z) (z_sched z) = Inr (done, sem', s')"
  shows "sem_ok T n (z\<lparr>z_sem := sem', z_sched := s', z_downs := z_downs z + 1, z_passed := z_passed z + of_bool done\<rparr>)"
proof -
  define c where "c = sem_count (z_sem z)"
  note z = assms(1) [unfolded sem_ok_def]
  have w: "waiters_ok T (z_sched z) (sem_wait_queue (z_sem z))" using z by blast
  have "sint (c - 1) = sint c - 1"
    using waiters_few [OF w assms(3)] assms(4) z by (intro sint_pred_isize) (simp add: c_def)
  then have c: "sint (c - 1) = int n + int (z_ups z) - int (z_downs z) - 1" using z by (simp add: c_def)
  show ?thesis
  proof (cases "sint (c - 1) < 0")
    case True
    obtain s1 where s1: "block_current_and_run_next (z_sched z) = Inr s1" "waiters_ok T s1 (sem_wait_queue (z_sem z) @ [t])"
      using waiters_block [OF w assms(2)] by blast
    have "\<not> done" "sem' = \<lparr>sem_count = c - 1, sem_wait_queue = sem_wait_queue (z_sem z) @ [t]\<rparr>" "s' = s1"
      using assms(2,5) True s1(1) by (auto simp: Semaphore_down_def current_task_def c_def Let_def)
    moreover have "n + z_ups z \<le> z_downs z" using True c by linarith
    ultimately show ?thesis using z s1(2) c by (auto simp: sem_ok_def)
  next
    case False
    then have "done" "sem' = (z_sem z)\<lparr>sem_count := c - 1\<rparr>" "s' = z_sched z"
      using assms(5) by (auto simp: Semaphore_down_def c_def Let_def)
    then show ?thesis using z c False by (auto simp: sem_ok_def)
  qed
qed

lemma sem_ok_up:
  assumes "sem_ok T n z" "n + z_ups z < 2 ^ 63 - 1" "Semaphore_up (z_sem z) (z_sched z) = (sem', s')"
  shows "sem_ok T n (z\<lparr>z_sem := sem', z_sched := s', z_ups := z_ups z + 1,
      z_passed := z_passed z + (length (sem_wait_queue (z_sem z)) - length (sem_wait_queue sem'))\<rparr>)"
proof -
  define c where "c = sem_count (z_sem z)"
  note z = assms(1) [unfolded sem_ok_def]
  have "sint (c + 1) = sint c + 1" using assms(2) z by (intro sint_succ_isize) (simp add: c_def)
  then have c: "sint (c + 1) = int n + int (z_ups z) - int (z_downs z) + 1" using z by (simp add: c_def)
  show ?thesis
  proof (cases "sint (c + 1) \<le> 0")
    case True
    then obtain t q where q: "sem_wait_queue (z_sem z) = t # q" using z c by (cases "sem_wait_queue (z_sem z)") auto
    then have "sem' = \<lparr>sem_count = c + 1, sem_wait_queue = q\<rparr>" "s' = wakeup_task t (z_sched z)"
      using assms(3) True by (auto simp: Semaphore_up_def c_def Let_def)
    moreover have "waiters_ok T (wakeup_task t (z_sched z)) q" using z q by (simp add: waiters_wake_first)
    moreover have "n + z_ups z < z_downs z" using True c by linarith
    ultimately show ?thesis using z c q by (auto simp: sem_ok_def)
  next
    case False
    then have "sem' = (z_sem z)\<lparr>sem_count := c + 1\<rparr>" "s' = z_sched z"
      using assms(3) by (auto simp: Semaphore_up_def c_def Let_def)
    then show ?thesis using z c False by (auto simp: sem_ok_def)
  qed
qed

lemma sem_ok_sched:
  assumes "sem_ok T n z" "waiters_ok T s' (sem_wait_queue (z_sem z))"
  shows "sem_ok T n (z\<lparr>z_sched := s'\<rparr>)"
  using assms by (simp add: sem_ok_def)

lemma sem_step_ok:
  assumes "sem_step T z z'" "finite T" "card T < 2 ^ 62" "n + z_ups z' < 2 ^ 63" "sem_ok T n z"
  shows "sem_ok T n z'"
  using assms(1)
proof cases
  case (down t "done" sem' s')
  then show ?thesis using sem_ok_down [OF assms(5) _ assms(2,3)] by blast
next
  case (up sem' s')
  then show ?thesis using sem_ok_up [OF assms(5)] assms(4) by (simp del: One_nat_def)
next
  case (resume t s1)
  then show ?thesis using sem_ok_sched [OF assms(5)] waiters_resume assms(5) by (metis sem_ok_def)
next
  case (suspend s')
  then obtain t where t: "sc_current (z_sched z) = Some t" using no_current by (cases "sc_current (z_sched z)") auto
  have "waiters_ok T (z_sched z) (sem_wait_queue (z_sem z))" using assms(5) by (simp add: sem_ok_def)
  from waiters_suspend [OF this t] suspend show ?thesis by (auto intro: sem_ok_sched [OF assms(5)])
next
  case (block s')
  then obtain t where t: "sc_current (z_sched z) = Some t" using no_current by (cases "sc_current (z_sched z)") auto
  have "waiters_ok T (z_sched z) (sem_wait_queue (z_sem z))" using assms(5) by (simp add: sem_ok_def)
  from waiters_block [OF this t] block show ?thesis by (auto intro: sem_ok_sched [OF assms(5)])
next
  case (wake t)
  have "waiters_ok T (z_sched z) (sem_wait_queue (z_sem z))" using assms(5) by (simp add: sem_ok_def)
  from waiters_wake_other [OF this wake(2-4)] show ?thesis unfolding wake(1) by (rule sem_ok_sched [OF assms(5)])
qed

lemma sem_step_ups: "sem_step T z z' \<Longrightarrow> z_ups z \<le> z_ups z'"
  by (erule sem_step.cases) auto

definition sem_start :: "nat \<Rightarrow> sched \<Rightarrow> sem_sys" where
  "sem_start n s = \<lparr>z_sched = s, z_sem = Semaphore_new (of_nat n), z_downs = 0, z_ups = 0, z_passed = 0\<rparr>"

lemma sem_start_ok:
  assumes "sched_ok T s" "n < 2 ^ 63"
  shows "sem_ok T n (sem_start n s)"
  using assms by (simp add: sem_ok_def sem_start_def Semaphore_new_def signed_of_nat signed_take_bit_int_eq_self)

lemma sem_reachable_ok:
  assumes "(sem_step T)\<^sup>*\<^sup>* z0 z" "finite T" "card T < 2 ^ 62" "n + z_ups z < 2 ^ 63" "sem_ok T n z0"
  shows "sem_ok T n z"
  using assms(1,4)
proof (induction rule: rtranclp_induct)
  case base
  show ?case using assms(5) .
next
  case (step y z)
  then show ?case using sem_step_ok [OF step(2) assms(2,3)] sem_step_ups [OF step(2)] by simp
qed

text \<open>
  C27. A semaphore created with \<open>n\<close> units lets exactly \<open>min downs (n + ups)\<close> calls of \<open>down\<close> through, whatever the
  order of the calls and of the scheduling: never more than there are units, and none is left
  waiting while a unit is free. The others are blocked, each once, in the wait queue, and the 64-bit
  counter is the number of units left, or minus the number of waiting tasks.
\<close>

theorem semaphore_counts:
  assumes "sched_ok T s" "finite T" "card T < 2 ^ 62" "(sem_step T)\<^sup>*\<^sup>* (sem_start n s) z" "n + z_ups z < 2 ^ 63"
  shows "z_passed z = min (z_downs z) (n + z_ups z) \<and>
    length (sem_wait_queue (z_sem z)) = z_downs z - (n + z_ups z) \<and> distinct (sem_wait_queue (z_sem z)) \<and>
    (\<forall>t \<in> set (sem_wait_queue (z_sem z)). sc_status (z_sched z) t = Blocked) \<and>
    sint (sem_count (z_sem z)) = int (n + z_ups z) - int (z_downs z)"
proof -
  have "sem_ok T n z" using sem_reachable_ok [OF assms(4,2,3,5)] sem_start_ok [OF assms(1), of n] assms(5) by simp
  then show ?thesis by (auto simp: sem_ok_def waiters_ok_def)
qed

theorem semaphore_counts_witness:
  "\<exists>z. z_downs z = 1 \<and> z_passed z = 0 \<and> sem_wait_queue (z_sem z) = [3] \<and> sint (sem_count (z_sem z)) = - 1 \<and>
     (sem_step {3, 5})\<^sup>*\<^sup>* (sem_start 0 one_running) z"
proof -
  define z1 where "z1 = (sem_start 0 one_running)\<lparr>z_sem := \<lparr>sem_count = -1, sem_wait_queue = [3]\<rparr>,
    z_sched := one_running\<lparr>sc_current := None, sc_status := (\<lambda>_. Ready)(3 := Running, 3 := Blocked)\<rparr>,
    z_downs := z_downs (sem_start 0 one_running) + 1,
    z_passed := z_passed (sem_start 0 one_running) + of_bool False\<rparr>"
  have "sem_step {3, 5} (sem_start 0 one_running) z1" unfolding z1_def
    by (rule sem_step.down)
      (simp_all add: sem_start_def one_running_def Semaphore_down_def Semaphore_new_def sched_defs Let_def)
  then have r: "(sem_step {3, 5})\<^sup>*\<^sup>* (sem_start 0 one_running) z1" by (rule r_into_rtranclp)
  have z1: "z_ups z1 = 0" "z_downs z1 = 1" "sem_wait_queue (z_sem z1) = [3]" by (simp_all add: z1_def sem_start_def)
  from semaphore_counts [OF one_running_ok _ _ r] show ?thesis using r z1 by (intro exI [of _ z1]) simp
qed

section \<open>Waiting and signalling\<close>

lemma signals_wake_in_order:
  assumes "waiters_ok T s (cv_wait_queue cv)" "k \<le> length (cv_wait_queue cv)"
  shows "\<exists>s'. ((\<lambda>(cv, s). Condvar_signal cv s) ^^ k) (cv, s) = (cv\<lparr>cv_wait_queue := drop k (cv_wait_queue cv)\<rparr>, s') \<and>
    waiters_ok T s' (drop k (cv_wait_queue cv)) \<and> sc_ready_queue s' = sc_ready_queue s @ take k (cv_wait_queue cv)"
  using assms(2)
proof (induction k)
  case 0
  then show ?case using assms(1) by simp
next
  case (Suc k)
  then obtain s1 where s1: "((\<lambda>(cv, s). Condvar_signal cv s) ^^ k) (cv, s) = (cv\<lparr>cv_wait_queue := drop k (cv_wait_queue cv)\<rparr>, s1)"
    "waiters_ok T s1 (drop k (cv_wait_queue cv))" "sc_ready_queue s1 = sc_ready_queue s @ take k (cv_wait_queue cv)" by auto
  have q: "drop k (cv_wait_queue cv) = cv_wait_queue cv ! k # drop (Suc k) (cv_wait_queue cv)"
    using Suc.prems by (simp add: Cons_nth_drop_Suc)
  have "sc_ready_queue (wakeup_task (cv_wait_queue cv ! k) s1) = sc_ready_queue s @ take (Suc k) (cv_wait_queue cv)"
    using Suc.prems s1(3) by (simp add: sched_defs take_Suc_conv_app_nth)
  then show ?case using s1(1) waiters_wake_first [OF s1(2) [unfolded q]]
    by (simp add: Condvar_signal_def q)
qed

lemma waiters_append:
  assumes "waiters_ok T s (p @ q)"
  shows "waiters_ok T s p" "waiters_ok T s q"
  using assms by (auto simp: waiters_ok_def)

lemma waiters_wake_middle:
  assumes "waiters_ok T s (p @ t # q)"
  shows "waiters_ok T (wakeup_task t s) (p @ q)"
  using assms by (auto simp: waiters_ok_def wakeup_task_ok)

lemma MutexBlocking_unlock_waiters:
  assumes "waiters_ok T s (p @ mb_wait_queue m)" "mb_locked m"
  shows "\<exists>m' s'. MutexBlocking_unlock m s = Inr (m', s') \<and> waiters_ok T s' (p @ mb_wait_queue m') \<and> sc_current s' = sc_current s \<and>
    mb_wait_queue m' = tl (mb_wait_queue m) \<and> (mb_locked m' \<longleftrightarrow> mb_wait_queue m \<noteq> [])"
  using assms by (cases "mb_wait_queue m") (auto simp: MutexBlocking_unlock_def waiters_wake_middle, simp add: sched_defs)

text \<open>
  C28. No wake-up is lost on a condition variable. \<open>wait\<close> releases the mutex (to the first task that waits for it, if any) and
  enqueues its caller before any other task runs, so from then on every \<open>signal\<close> counts: \<open>k\<close> of them make the first \<open>k\<close>
  waiting tasks ready, in the order in which they began to wait, and wake no others.
\<close>

theorem condvar_no_lost_wakeup:
  assumes "waiters_ok T s (cv_wait_queue cv @ mb_wait_queue m)" "mb_locked m" "sc_current s = Some t"
    "k \<le> Suc (length (cv_wait_queue cv))"
  shows "\<exists>m' s' s''. Condvar_wait cv (Blocking m) s = Inr (cv\<lparr>cv_wait_queue := cv_wait_queue cv @ [t]\<rparr>, Blocking m', s') \<and>
    mb_wait_queue m' = tl (mb_wait_queue m) \<and> (mb_locked m' \<longleftrightarrow> mb_wait_queue m \<noteq> []) \<and>
    sc_current s' = None \<and> sc_status s' t = Blocked \<and>
    ((\<lambda>(cv, s). Condvar_signal cv s) ^^ k) (cv\<lparr>cv_wait_queue := cv_wait_queue cv @ [t]\<rparr>, s') =
      (cv\<lparr>cv_wait_queue := drop k (cv_wait_queue cv @ [t])\<rparr>, s'') \<and>
    sc_ready_queue s'' = sc_ready_queue s' @ take k (cv_wait_queue cv @ [t]) \<and>
    waiters_ok T s'' (drop k (cv_wait_queue cv @ [t]))"
proof -
  obtain m' s1 where m': "MutexBlocking_unlock m s = Inr (m', s1)" "waiters_ok T s1 (cv_wait_queue cv @ mb_wait_queue m')"
    "sc_current s1 = Some t" "mb_wait_queue m' = tl (mb_wait_queue m)" "mb_locked m' \<longleftrightarrow> mb_wait_queue m \<noteq> []"
    using MutexBlocking_unlock_waiters [OF assms(1,2)] assms(3) by auto
  obtain s' where s': "block_current_and_run_next s1 = Inr s'" "sc_status s' = (sc_status s1)(t := Blocked)"
    "waiters_ok T s' (cv_wait_queue cv @ [t])" using waiters_block [OF waiters_append(1) [OF m'(2)] m'(3)] by blast
  have cur: "sc_current s' = None" using s'(1) m'(3) by (auto simp: sched_defs)
  have "Condvar_wait cv (Blocking m) s = Inr (cv\<lparr>cv_wait_queue := cv_wait_queue cv @ [t]\<rparr>, Blocking m', s')"
    using m'(1,3) s'(1) by (simp add: Condvar_wait_def current_task_def Let_def)
  then show ?thesis
    using signals_wake_in_order [of T s' "cv\<lparr>cv_wait_queue := cv_wait_queue cv @ [t]\<rparr>" k] s'(2,3) assms(4) m'(4,5) cur by auto
qed

theorem condvar_no_lost_wakeup_witness:
  "\<exists>s'' cv m' s'. Condvar_wait Condvar_new (Blocking \<lparr>mb_locked = True, mb_wait_queue = []\<rparr>) one_running = Inr (cv, m', s') \<and>
    Condvar_signal cv s' = (Condvar_new, s'') \<and> sc_ready_queue s'' = [5, 3]"
proof -
  have "waiters_ok {3, 5} one_running (cv_wait_queue Condvar_new @ mb_wait_queue \<lparr>mb_locked = True, mb_wait_queue = []\<rparr>)"
    using one_running_ok by (simp add: Condvar_new_def)
  from condvar_no_lost_wakeup [OF this, of 3 1] show ?thesis
    by (auto simp: Condvar_new_def one_running_def Condvar_wait_def MutexBlocking_unlock_def sched_defs)
qed

end
