(* ===== verification/Timer.thy ===== *)
theory Timer
  imports Binary_Heap Sync
begin

text \<open>
  Clock and timers (\<^verbatim>\<open>os/src/timer.rs\<close>). The value of the time register is a parameter. The timers are a heap that
  is ordered by the negated expiry time, so that the earliest comes first; the negation is that of \<^verbatim>\<open>isize\<close>.
\<close>

section \<open>The clock\<close>

definition CLOCK_FREQ :: usize where
  "CLOCK_FREQ = 12500000"

definition TICKS_PER_SEC :: usize where
  "TICKS_PER_SEC = 100"

definition MSEC_PER_SEC :: usize where
  "MSEC_PER_SEC = 1000"

definition MICRO_PER_SEC :: usize where
  "MICRO_PER_SEC = 1000000"

definition get_time_ms :: "usize \<Rightarrow> usize" where
  "get_time_ms now = now * MSEC_PER_SEC div CLOCK_FREQ"

definition get_time_us :: "usize \<Rightarrow> usize" where
  "get_time_us now = now * MICRO_PER_SEC div CLOCK_FREQ"

text \<open>The time for which \<open>set_next_trigger\<close> asks the firmware.\<close>

definition set_next_trigger :: "usize \<Rightarrow> usize" where
  "set_next_trigger now = now + CLOCK_FREQ div TICKS_PER_SEC"

section \<open>The timers\<close>

record TimerCondVar =
  expire_ms :: usize
  tc_task :: task

definition timer_key :: "TimerCondVar \<Rightarrow> int" where
  "timer_key c = sint (- expire_ms c)"

definition add_timer :: "usize \<Rightarrow> task \<Rightarrow> TimerCondVar list \<Rightarrow> TimerCondVar list" where
  "add_timer ms t timers = BinaryHeap_push timer_key \<lparr>expire_ms = ms, tc_task = t\<rparr> timers"

text \<open>The other timers go to a new heap, which replaces the old one.\<close>

definition remove_timer :: "task \<Rightarrow> TimerCondVar list \<Rightarrow> TimerCondVar list" where
  "remove_timer t timers = fold (BinaryHeap_push timer_key) (filter (\<lambda>c. tc_task c \<noteq> t) timers) []"

function check_timer_loop :: "usize \<Rightarrow> TimerCondVar list \<Rightarrow> sched \<Rightarrow> TimerCondVar list \<times> sched" where
  "check_timer_loop current_ms timers s =
     (case BinaryHeap_peek timers of
        Some timer \<Rightarrow>
          if expire_ms timer \<le> current_ms
          then check_timer_loop current_ms (snd (BinaryHeap_pop timer_key timers)) (wakeup_task (tc_task timer) s)
          else (timers, s)
      | None \<Rightarrow> (timers, s))"
  by pat_completeness auto
termination
  by (relation "measure (\<lambda>(ms, timers, s). length timers)") (auto simp: length_pop BinaryHeap_peek_def split: list.splits)

declare check_timer_loop.simps [simp del]

definition check_timer :: "usize \<Rightarrow> TimerCondVar list \<Rightarrow> sched \<Rightarrow> TimerCondVar list \<times> sched" where
  "check_timer now timers s = check_timer_loop (get_time_ms now) timers s"

section \<open>Expiry\<close>

lemma uint_int_unat: "uint w = int (unat w)"
  by simp

lemma sint_small:
  fixes w :: usize
  assumes "unat w < 2 ^ 63"
  shows "sint w = int (unat w)"
proof -
  have "uint w < 2 ^ 63" using assms by (metis uint_int_unat of_nat_less_numeral_power_cancel_iff)
  then have "signed_take_bit 63 (uint w) = uint w"
    by (intro signed_take_bit_int_eq_self) (auto intro: order_trans [of _ 0])
  then show ?thesis by (simp add: sint_uint)
qed

lemma timer_key_near:
  assumes "unat (expire_ms c) < 2 ^ 63"
  shows "timer_key c = - int (unat (expire_ms c))"
proof -
  have "int (unat (expire_ms c)) < 2 ^ 63" using assms by (metis of_nat_less_numeral_power_cancel_iff)
  then have "signed_take_bit 63 (- int (unat (expire_ms c))) = - int (unat (expire_ms c))"
    by (intro signed_take_bit_int_eq_self) linarith+
  then show ?thesis unfolding timer_key_def sint_word_ariths sint_small [OF assms] by simp
qed

lemma timer_key_far:
  assumes "2 ^ 63 < unat (expire_ms c)"
  shows "timer_key c = 2 ^ 64 - int (unat (expire_ms c))"
proof -
  define n where "n = unat (expire_ms c)"
  have n: "2 ^ 63 < n" "n < 2 ^ 64" using assms unsigned_less [of "expire_ms c", where ?'a = nat] by (simp_all add: n_def)
  have e: "of_nat n = expire_ms c" by (simp add: n_def)
  have "2 ^ 64 - n < 2 ^ 63" "2 ^ 64 - n < 18446744073709551616" using n by simp_all
  then have m: "2 ^ 64 - n < 2 ^ 63" "unat (of_nat (2 ^ 64 - n) :: usize) = 2 ^ 64 - n" by (simp_all only: unat_of_nat_usize)
  have "of_nat (2 ^ 64 - n) = (of_nat (2 ^ 64) - of_nat n :: usize)" using n(2) by (intro of_nat_diff) linarith
  also have "\<dots> = - expire_ms c" unfolding e by simp
  finally have "sint (- expire_ms c) = int (2 ^ 64 - n)" using sint_small [of "of_nat (2 ^ 64 - n)"] m by (simp only:)
  also have "\<dots> = 2 ^ 64 - int n" using n(2) by (simp add: of_nat_diff)
  finally show ?thesis by (simp only: timer_key_def n_def)
qed

lemma timer_key_boundary:
  assumes "unat (expire_ms c) = 2 ^ 63"
  shows "timer_key c = - (2 ^ 63)"
proof -
  have "expire_ms c = 2 ^ 63" using assms by (simp add: word_unat_eq_iff)
  then show ?thesis by (simp add: timer_key_def)
qed

lemma timer_key_pos_iff: "0 < timer_key c \<longleftrightarrow> 2 ^ 63 < unat (expire_ms c)"
proof (cases "unat (expire_ms c)" "2 ^ 63 :: nat" rule: linorder_cases)
  case less
  then show ?thesis using timer_key_near [OF less] by simp
next
  case equal
  then show ?thesis using timer_key_boundary [OF equal] by simp
next
  case greater
  then show ?thesis using timer_key_far [OF greater] uint_lt2p [of "expire_ms c"] by simp
qed

definition near :: "TimerCondVar list \<Rightarrow> bool" where
  "near timers \<longleftrightarrow> (\<forall>c \<in> set timers. unat (expire_ms c) < 2 ^ 63)"

lemma first_timer_earliest:
  assumes "heap timer_key timers" "near timers" "BinaryHeap_peek timers = Some c" "d \<in> set timers"
  shows "unat (expire_ms c) \<le> unat (expire_ms d)"
proof -
  have "c \<in> set timers" "timer_key d \<le> timer_key c" using bh.peek_some [OF assms(1,3)] assms(4) by simp_all
  moreover from this have "timer_key c = - int (unat (expire_ms c))" "timer_key d = - int (unat (expire_ms d))"
    using assms(2,4) by (simp_all only: near_def timer_key_near)
  ultimately show ?thesis by linarith
qed

lemma check_timer_loop_stop:
  assumes "\<And>c. BinaryHeap_peek timers = Some c \<Longrightarrow> \<not> expire_ms c \<le> ms"
  shows "check_timer_loop ms timers s = (timers, s)"
  using assms by (subst check_timer_loop.simps) (simp split: option.split)

lemma check_timer_loop_step:
  assumes "BinaryHeap_peek timers = Some c" "expire_ms c \<le> ms"
  shows "check_timer_loop ms timers s =
    check_timer_loop ms (snd (BinaryHeap_pop timer_key timers)) (wakeup_task (tc_task c) s)"
  using assms by (subst check_timer_loop.simps) simp

text \<open>What the loop has done when it stops: \<open>ws\<close> are the timers it took out, in this order.\<close>

definition expired :: "usize \<Rightarrow> TimerCondVar list \<Rightarrow> TimerCondVar list \<Rightarrow> TimerCondVar list \<Rightarrow> bool" where
  "expired ms timers ws timers' \<longleftrightarrow>
     heap timer_key timers' \<and> mset ws = filter_mset (\<lambda>c. expire_ms c \<le> ms) (mset timers) \<and>
     mset timers' = filter_mset (\<lambda>c. \<not> expire_ms c \<le> ms) (mset timers) \<and>
     sorted (map (\<lambda>c. unat (expire_ms c)) ws)"

lemma expired_none:
  assumes "heap timer_key timers" "\<forall>c \<in> set timers. \<not> expire_ms c \<le> ms"
  shows "expired ms timers [] timers"
proof -
  have "filter_mset (\<lambda>c. \<not> expire_ms c \<le> ms) (mset timers) = mset timers"
    using assms(2) by (metis (no_types, lifting) filter_mset_True filter_mset_cong set_mset_mset)
  then show ?thesis using assms by (simp add: expired_def)
qed

lemma expired_step:
  assumes "expired ms rest ws timers'" "mset timers = add_mset c (mset rest)" "expire_ms c \<le> ms"
    "\<forall>d \<in> set timers. unat (expire_ms c) \<le> unat (expire_ms d)"
  shows "expired ms timers (c # ws) timers'"
proof -
  have "set_mset (mset ws) \<subseteq> set_mset (mset timers)"
    using assms(1,2) by (auto simp: expired_def simp del: set_mset_mset)
  then have "\<forall>d \<in> set ws. unat (expire_ms c) \<le> unat (expire_ms d)" using assms(4) by auto
  then show ?thesis using assms(1-3) by (simp add: expired_def)
qed

lemma check_timer_loop_spec:
  assumes "heap timer_key timers" "near timers"
  shows "\<exists>ws timers'. check_timer_loop ms timers s = (timers', fold (\<lambda>c. wakeup_task (tc_task c)) ws s) \<and>
    expired ms timers ws timers'"
  using assms
proof (induction "length timers" arbitrary: timers s rule: less_induct)
  case less
  consider c where "BinaryHeap_peek timers = Some c" "expire_ms c \<le> ms"
    | "\<forall>c. BinaryHeap_peek timers = Some c \<longrightarrow> \<not> expire_ms c \<le> ms" by blast
  then show ?case
  proof cases
    case 1
    define rest where "rest = snd (BinaryHeap_pop timer_key timers)"
    have rest: "heap timer_key rest" "mset timers = add_mset c (mset rest)"
      using bh.pop_ok [OF less.prems(1) 1(1)] by (simp_all add: rest_def)
    have "length rest < length timers" using rest(2) by (metis size_mset size_add_mset lessI)
    moreover have "set timers = insert c (set rest)" using rest(2) by (metis set_mset_mset set_mset_add_mset_insert)
    then have "near rest" using less.prems(2) by (simp add: near_def)
    ultimately obtain ws timers' where "check_timer_loop ms rest (wakeup_task (tc_task c) s) =
        (timers', fold (\<lambda>c. wakeup_task (tc_task c)) ws (wakeup_task (tc_task c) s))" "expired ms rest ws timers'"
      using less.hyps rest(1) by blast
    then have "check_timer_loop ms timers s = (timers', fold (\<lambda>c. wakeup_task (tc_task c)) (c # ws) s) \<and>
        expired ms timers (c # ws) timers'"
      using check_timer_loop_step [OF 1, folded rest_def] expired_step [OF _ rest(2) 1(2)]
        first_timer_earliest [OF less.prems 1(1)] by simp
    then show ?thesis by blast
  next
    case 2
    have "\<not> expire_ms d \<le> ms" if "d \<in> set timers" for d
    proof (cases "BinaryHeap_peek timers")
      case None
      then show ?thesis using that bh.peek_none [OF less.prems(1)] by auto
    next
      case (Some c)
      then show ?thesis using 2 first_timer_earliest [OF less.prems Some that] by (simp add: word_le_nat_alt)
    qed
    then show ?thesis using check_timer_loop_stop [of timers ms s] 2 expired_none [OF less.prems(1)] by (intro exI [of _ "[]"] exI [of _ timers]) simp
  qed
qed

lemma add_timer_heap:
  assumes "heap timer_key timers"
  shows "heap timer_key (add_timer ms t timers)"
    "mset (add_timer ms t timers) = add_mset \<lparr>expire_ms = ms, tc_task = t\<rparr> (mset timers)"
  using bh.push_ok [OF assms] by (simp_all add: add_timer_def)

lemma remove_timer_heap:
  "heap timer_key (remove_timer t timers)" "mset (remove_timer t timers) = filter_mset (\<lambda>c. tc_task c \<noteq> t) (mset timers)"
proof -
  have "heap timer_key []" by (simp add: heap_def)
  from bh.push_all [OF this] show "heap timer_key (remove_timer t timers)"
    "mset (remove_timer t timers) = filter_mset (\<lambda>c. tc_task c \<noteq> t) (mset timers)" by (simp_all add: remove_timer_def)
qed

lemma wake_all_ready:
  "sc_ready_queue (fold (\<lambda>c. wakeup_task (tc_task c)) ws s) = sc_ready_queue s @ map tc_task ws"
  by (induction ws arbitrary: s) (simp_all add: sched_defs)

text \<open>
  C30. A check of the timers wakes exactly the sleepers whose time has come and appends them to the ready queue in the order of their expiry times; the
  timers of the others stay, as a heap. This holds as long as no expiry time has its top bit set.
\<close>

theorem timers_wake_in_order:
  assumes "heap timer_key timers" "near timers"
  shows "\<exists>ws timers' s'. check_timer now timers s = (timers', s') \<and>
    sc_ready_queue s' = sc_ready_queue s @ map tc_task ws \<and> sorted (map (\<lambda>c. unat (expire_ms c)) ws) \<and>
    mset ws = filter_mset (\<lambda>c. expire_ms c \<le> get_time_ms now) (mset timers) \<and>
    mset timers' = filter_mset (\<lambda>c. \<not> expire_ms c \<le> get_time_ms now) (mset timers) \<and> heap timer_key timers'"
proof -
  obtain ws timers' where "check_timer now timers s = (timers', fold (\<lambda>c. wakeup_task (tc_task c)) ws s)"
    "expired (get_time_ms now) timers ws timers'"
    using check_timer_loop_spec [OF assms, of "get_time_ms now" s] by (auto simp: check_timer_def)
  then show ?thesis by (intro exI [of _ ws] exI [of _ timers']) (simp add: expired_def wake_all_ready)
qed

definition three_timers :: "TimerCondVar list" where
  "three_timers = add_timer 20 3 (add_timer 70 4 (add_timer 10 5 []))"

lemma three_timers_ok: "heap timer_key three_timers" "near three_timers"
proof -
  have e: "heap timer_key []" by (simp add: heap_def)
  note add = add_timer_heap(1) [OF add_timer_heap(1) [OF add_timer_heap(1) [OF e]]]
  show "heap timer_key three_timers" by (simp add: three_timers_def add)
  have "set_mset (mset three_timers) = {\<lparr>expire_ms = 20, tc_task = 3\<rparr>, \<lparr>expire_ms = 70, tc_task = 4\<rparr>, \<lparr>expire_ms = 10, tc_task = 5\<rparr>}"
    using e by (simp only: three_timers_def add_timer_heap) simp
  then show "near three_timers" by (simp add: near_def)
qed

theorem timers_wake_in_order_witness:
  "\<exists>(ws :: TimerCondVar list) timers' s'. check_timer 625000 three_timers one_running = (timers', s') \<and>
    sc_ready_queue s' = sc_ready_queue one_running @ map tc_task ws \<and> size (mset ws) = 2 \<and> heap timer_key timers'"
proof -
  have e: "heap timer_key []" by (simp add: heap_def)
  have "mset three_timers = {#\<lparr>expire_ms = 20, tc_task = 3\<rparr>, \<lparr>expire_ms = 70, tc_task = 4\<rparr>, \<lparr>expire_ms = 10, tc_task = 5\<rparr>#}"
    using e by (simp only: three_timers_def add_timer_heap) simp
  moreover have "get_time_ms 625000 = 50" by (simp add: get_time_ms_def CLOCK_FREQ_def MSEC_PER_SEC_def)
  ultimately have "filter_mset (\<lambda>c. expire_ms c \<le> get_time_ms 625000) (mset three_timers) =
      {#\<lparr>expire_ms = 20, tc_task = 3\<rparr>, \<lparr>expire_ms = 10, tc_task = 5\<rparr>#}" by simp
  then have two: "size (filter_mset (\<lambda>c. expire_ms c \<le> get_time_ms 625000) (mset three_timers)) = 2" by simp
  from timers_wake_in_order [OF three_timers_ok, of 625000 one_running] obtain ws timers' s' where
    "check_timer 625000 three_timers one_running = (timers', s')" "sc_ready_queue s' = sc_ready_queue one_running @ map tc_task ws"
    "mset ws = filter_mset (\<lambda>c. expire_ms c \<le> get_time_ms 625000) (mset three_timers)" "heap timer_key timers'" by blast
  then show ?thesis using two by metis
qed

lemma get_time_ms_less: "unat (get_time_ms now) < 2 ^ 63"
proof -
  have "unat (get_time_ms now) \<le> unat (now * MSEC_PER_SEC) div 12500000"
    by (simp add: get_time_ms_def CLOCK_FREQ_def unat_div)
  also have "\<dots> < 2 ^ 63"
    by (rule less_mult_imp_div_less, rule less_le_trans [OF unsigned_less]) simp
  finally show ?thesis .
qed

lemma far_timer_stops:
  assumes "heap timer_key timers" "c \<in> set timers" "2 ^ 63 < unat (expire_ms c)"
  shows "check_timer now timers s = (timers, s)"
  unfolding check_timer_def
proof (rule check_timer_loop_stop)
  fix d assume d: "BinaryHeap_peek timers = Some d"
  have "timer_key c \<le> timer_key d" using bh.peek_some [OF assms(1) d] assms(2) by simp
  moreover have "0 < timer_key c" using assms(3) by (simp only: timer_key_pos_iff)
  ultimately have "0 < timer_key d" by linarith
  then have "2 ^ 63 < unat (expire_ms d)" by (simp only: timer_key_pos_iff)
  then show "\<not> expire_ms d \<le> get_time_ms now"
    using get_time_ms_less [of now] unfolding word_le_nat_alt by linarith
qed

text \<open>
  C40. A timer whose expiry time is above \<open>2 ^ 63\<close> disables all others. Its negated time is positive, so it stands first in the
  heap although it is the last to expire, and as the clock never gets that far, no check of the timers
  wakes anybody, whatever the time and however many timers have expired.
\<close>

theorem far_timer_stops_all:
  assumes "heap timer_key timers" "c \<in> set timers" "2 ^ 63 < unat (expire_ms c)"
  shows "check_timer now timers s = (timers, s)"
  by (rule far_timer_stops [OF assms])

theorem far_timer_stops_all_witness:
  "\<exists>timers. check_timer 625000 timers one_running = (timers, one_running) \<and> \<lparr>expire_ms = 20, tc_task = 3\<rparr> \<in> set timers"
proof -
  define timers where "timers = add_timer (2 ^ 63 + 5) 7 three_timers"
  have e: "heap timer_key []" by (simp add: heap_def)
  have h: "heap timer_key timers" by (simp add: timers_def add_timer_heap three_timers_ok)
  have "set_mset (mset timers) = {\<lparr>expire_ms = 2 ^ 63 + 5, tc_task = 7\<rparr>, \<lparr>expire_ms = 20, tc_task = 3\<rparr>,
      \<lparr>expire_ms = 70, tc_task = 4\<rparr>, \<lparr>expire_ms = 10, tc_task = 5\<rparr>}"
    using e by (simp only: timers_def three_timers_def add_timer_heap) simp
  then have "\<lparr>expire_ms = 2 ^ 63 + 5, tc_task = 7\<rparr> \<in> set timers" "\<lparr>expire_ms = 20, tc_task = 3\<rparr> \<in> set timers" by simp_all
  with far_timer_stops_all [OF h this(1), of 625000 one_running] show ?thesis by (intro exI [of _ timers]) simp
qed

lemma get_time_us_exact:
  assumes "unat now * 1000000 < 2 ^ 64"
  shows "unat (get_time_us now) = unat now * 1000000 div 12500000"
  using assms by (simp add: get_time_us_def CLOCK_FREQ_def MICRO_PER_SEC_def unat_div unat_word_ariths)

end
