(* ===== verification/Process_Block.thy ===== *)
theory Process_Block
  imports Timer Memory_Set
begin

unbundle bit_operations_syntax

text \<open>
  The mutable part of a process control block (\<^verbatim>\<open>os/src/task/process.rs\<close>) with its small methods, and the
  signal flags (\<^verbatim>\<open>os/src/task/signal.rs\<close>). References to processes, tasks and open files are numbers; mutexes,
  semaphores and condition variables belong to one process and are part of its block.
\<close>

section \<open>Signals\<close>

definition SIGINT :: u32 where "SIGINT = push_bit 2 1"
definition SIGILL :: u32 where "SIGILL = push_bit 4 1"
definition SIGABRT :: u32 where "SIGABRT = push_bit 6 1"
definition SIGFPE :: u32 where "SIGFPE = push_bit 8 1"
definition SIGSEGV :: u32 where "SIGSEGV = push_bit 11 1"

definition SignalFlags_all :: u32 where
  "SignalFlags_all = SIGINT OR SIGILL OR SIGABRT OR SIGFPE OR SIGSEGV"

text \<open>\<open>contains\<close> and \<open>from_bits\<close> as the \<^verbatim>\<open>bitflags\<close> macro documents them.\<close>

definition flags_contains :: "u32 \<Rightarrow> u32 \<Rightarrow> bool" where
  "flags_contains flags other \<longleftrightarrow> flags AND other = other"

definition SignalFlags_from_bits :: "u32 \<Rightarrow> u32 option" where
  "SignalFlags_from_bits bits = (if bits AND NOT SignalFlags_all = 0 then Some bits else None)"

type_synonym i32 = "32 word"

definition check_error :: "u32 \<Rightarrow> (i32 \<times> string) option" where
  "check_error flags =
     (if flags_contains flags SIGINT then Some (- 2, ''Killed, SIGINT=2'')
      else if flags_contains flags SIGILL then Some (- 4, ''Illegal Instruction, SIGILL=4'')
      else if flags_contains flags SIGABRT then Some (- 6, ''Aborted, SIGABRT=6'')
      else if flags_contains flags SIGFPE then Some (- 8, ''Erroneous Arithmetic Operation, SIGFPE=8'')
      else if flags_contains flags SIGSEGV then Some (- 11, ''Segmentation Fault, SIGSEGV=11'')
      else None)"

section \<open>The process control block\<close>

type_synonym process = nat
type_synonym open_file = nat

record ProcessControlBlockInner =
  pi_is_zombie :: bool
  pi_memory_set :: MemorySet
  pi_parent :: "process option"
  pi_children :: "process list"
  pi_exit_code :: i32
  pi_fd_table :: "open_file option list"
  pi_signals :: u32
  pi_tasks :: "task option list"
  pi_task_res_allocator :: RecycleAllocator
  pi_mutex_list :: "Mutex option list"
  pi_semaphore_list :: "Semaphore option list"
  pi_condvar_list :: "Condvar option list"
  pi_deadlock_detect :: bool
  pi_mutex_available :: "usize list"
  pi_semaphore_available :: "usize list"
  pi_mutex_allocation :: "usize list list"
  pi_semaphore_allocation :: "usize list list"
  pi_mutex_need :: "usize list list"
  pi_semaphore_need :: "usize list list"

text \<open>The block of a new process, with its address space and its three open files.\<close>

definition ProcessControlBlockInner_new :: "MemorySet \<Rightarrow> open_file \<Rightarrow> open_file \<Rightarrow> open_file \<Rightarrow> ProcessControlBlockInner" where
  "ProcessControlBlockInner_new ms stdin stdout stderr =
     \<lparr>pi_is_zombie = False, pi_memory_set = ms, pi_parent = None, pi_children = [], pi_exit_code = 0,
      pi_fd_table = [Some stdin, Some stdout, Some stderr], pi_signals = 0, pi_tasks = [],
      pi_task_res_allocator = RecycleAllocator_new, pi_mutex_list = [], pi_semaphore_list = [], pi_condvar_list = [],
      pi_deadlock_detect = False, pi_mutex_available = [], pi_semaphore_available = [],
      pi_mutex_allocation = [], pi_semaphore_allocation = [], pi_mutex_need = [], pi_semaphore_need = []\<rparr>"

definition get_user_token :: "ProcessControlBlockInner \<Rightarrow> usize" where
  "get_user_token p = MemorySet_token (pi_memory_set p)"

definition alloc_fd :: "ProcessControlBlockInner \<Rightarrow> nat \<times> ProcessControlBlockInner" where
  "alloc_fd p =
     (case position (\<lambda>fd. fd = None) (pi_fd_table p) of
        Some fd \<Rightarrow> (fd, p)
      | None \<Rightarrow> (let p = p\<lparr>pi_fd_table := pi_fd_table p @ [None]\<rparr> in (length (pi_fd_table p) - 1, p)))"

definition alloc_tid :: "ProcessControlBlockInner \<Rightarrow> usize \<times> ProcessControlBlockInner" where
  "alloc_tid p =
     (let (tid, a) = RecycleAllocator_alloc (pi_task_res_allocator p) in (tid, p\<lparr>pi_task_res_allocator := a\<rparr>))"

definition dealloc_tid :: "usize \<Rightarrow> ProcessControlBlockInner \<Rightarrow> ProcessControlBlockInner outcome" where
  "dealloc_tid tid p =
     and_then (RecycleAllocator_dealloc (pi_task_res_allocator p) tid) (\<lambda>a. Inr (p\<lparr>pi_task_res_allocator := a\<rparr>))"

definition thread_count :: "ProcessControlBlockInner \<Rightarrow> nat" where
  "thread_count p = length (pi_tasks p)"

definition get_task :: "usize \<Rightarrow> ProcessControlBlockInner \<Rightarrow> task outcome" where
  "get_task tid p = and_then (vec_index (pi_tasks p) tid) unwrap"

section \<open>Properties\<close>

text \<open>
  A file descriptor that is handed out is the smallest that is not in use; no other entry of the table
  changes, and the table grows only when it is full, by one free entry at its end.
\<close>

lemma alloc_fd_smallest_free:
  assumes "alloc_fd p = (fd, p')"
  shows "fd < length (pi_fd_table p') \<and> pi_fd_table p' ! fd = None \<and> (\<forall>i < fd. pi_fd_table p ! i \<noteq> None) \<and>
    p' = p\<lparr>pi_fd_table := pi_fd_table p'\<rparr> \<and>
    pi_fd_table p' = (if None \<in> set (pi_fd_table p) then pi_fd_table p else pi_fd_table p @ [None])"
proof (cases "position (\<lambda>fd. fd = None) (pi_fd_table p)")
  case None
  then have "None \<notin> set (pi_fd_table p)" by (auto simp: position_None)
  moreover have "fd = length (pi_fd_table p)" "p' = p\<lparr>pi_fd_table := pi_fd_table p @ [None]\<rparr>"
    using assms None by (auto simp: alloc_fd_def Let_def)
  ultimately show ?thesis by (auto simp: in_set_conv_nth)
next
  case (Some i)
  then have "i < length (pi_fd_table p)" "pi_fd_table p ! i = None" "\<forall>j < i. pi_fd_table p ! j \<noteq> None"
    by (auto simp: position_Some)
  moreover have "fd = i" "p' = p" using assms Some by (auto simp: alloc_fd_def)
  moreover have "None \<in> set (pi_fd_table p)" using calculation(1,2) by (metis nth_mem)
  ultimately show ?thesis by simp
qed

definition empty_space :: MemorySet where
  "empty_space = \<lparr>ms_page_table = \<lparr>pt_root_ppn = PhysPageNum 0x80400, pt_frames = []\<rparr>, ms_areas = []\<rparr>"

lemma alloc_fd_smallest_free_example:
  "fst (alloc_fd (ProcessControlBlockInner_new empty_space 4 5 6)) = 3"
proof -
  obtain fd p' where a: "alloc_fd (ProcessControlBlockInner_new empty_space 4 5 6) = (fd, p')" by fastforce
  have t: "pi_fd_table (ProcessControlBlockInner_new empty_space 4 5 6) = [Some 4, Some 5, Some 6]"
    by (simp add: ProcessControlBlockInner_new_def)
  note * = alloc_fd_smallest_free [OF a, unfolded t]
  have p': "pi_fd_table p' = [Some 4, Some 5, Some 6, None]" using conjunct2 [OF conjunct2 [OF conjunct2 [OF conjunct2 [OF *]]]] by simp
  have "fd < 4" "pi_fd_table p' ! fd = None" using conjunct1 [OF *] conjunct1 [OF conjunct2 [OF *]] by (simp_all add: p')
  then have "fd = 3" by (auto simp: p' less_Suc_eq numeral_eq_Suc)
  then show ?thesis using a by simp
qed

lemma flags_contains_bit: "n < 32 \<Longrightarrow> flags_contains flags (push_bit n 1) \<longleftrightarrow> bit flags n"
  by (auto simp: flags_contains_def bit_eq_iff [where ?'a = u32] bit_and_iff bit_exp_iff)

lemmas signal_bits = SIGINT_def SIGILL_def SIGABRT_def SIGFPE_def SIGSEGV_def

lemma check_error_bits:
  "check_error flags =
     (if bit flags 2 then Some (- 2, ''Killed, SIGINT=2'')
      else if bit flags 4 then Some (- 4, ''Illegal Instruction, SIGILL=4'')
      else if bit flags 6 then Some (- 6, ''Aborted, SIGABRT=6'')
      else if bit flags 8 then Some (- 8, ''Erroneous Arithmetic Operation, SIGFPE=8'')
      else if bit flags 11 then Some (- 11, ''Segmentation Fault, SIGSEGV=11'')
      else None)"
  unfolding check_error_def signal_bits by (simp only: flags_contains_bit)

lemma signal_bit_cases:
  assumes "flags AND NOT SignalFlags_all = 0" "bit flags n"
  shows "n \<in> {2, 4, 6, 8, 11}"
proof -
  have "\<not> bit (flags AND NOT SignalFlags_all) n" using assms(1) by simp
  moreover have "n < 32" using assms(2) bit_imp_le_length [of flags n] by simp
  ultimately have "bit SignalFlags_all n" using assms(2) by (simp add: bit_and_iff bit_not_iff)
  then have "\<exists>k \<in> {2, 4, 6, 8, 11}. bit (push_bit k (1 :: u32)) n"
    unfolding SignalFlags_all_def signal_bits bit_or_iff by blast
  then show ?thesis by (auto simp: bit_exp_iff)
qed

text \<open>
  The error of a set of signals is that of the signal with the smallest number, and its code is minus that
  number; there is no error exactly when no signal is set.
\<close>

lemma check_error_smallest_signal:
  assumes "SignalFlags_from_bits bits = Some flags"
  shows "(check_error flags = None \<longleftrightarrow> flags = 0) \<and>
    (\<forall>code msg. check_error flags = Some (code, msg) \<longrightarrow>
      (\<exists>n. bit flags n \<and> (\<forall>m < n. \<not> bit flags m) \<and> code = - of_nat n))"
proof -
  have ok: "flags AND NOT SignalFlags_all = 0" using assms by (auto simp: SignalFlags_from_bits_def split: if_splits)
  consider "flags = 0" | n where "n \<in> {2, 4, 6, 8, 11}" "bit flags n" "\<forall>m < n. \<not> bit flags m"
  proof -
    assume z: "flags = 0 \<Longrightarrow> thesis" and b: "\<And>n. n \<in> {2, 4, 6, 8, 11} \<Longrightarrow> bit flags n \<Longrightarrow> \<forall>m < n. \<not> bit flags m \<Longrightarrow> thesis"
    show thesis
    proof (cases "\<exists>n. bit flags n")
      case True
      define n where "n = (LEAST n. bit flags n)"
      have "bit flags n" "\<forall>m < n. \<not> bit flags m" using LeastI_ex [OF True] not_less_Least by (auto simp: n_def)
      then show thesis using b signal_bit_cases [OF ok] by blast
    next
      case False
      then have "flags = 0" by (intro bit_eqI) simp
      then show thesis by (rule z)
    qed
  qed
  then show ?thesis
  proof cases
    case 1
    then show ?thesis by (simp add: check_error_bits)
  next
    case 2
    then have "flags \<noteq> 0" "\<exists>msg. check_error flags = Some (- of_nat n, msg)" by (auto simp: check_error_bits)
    then show ?thesis using 2 by auto
  qed
qed

lemma check_error_smallest_signal_example:
  "SignalFlags_from_bits (SIGSEGV OR SIGILL) = Some (SIGSEGV OR SIGILL) \<and> check_error (SIGSEGV OR SIGILL) \<noteq> None"
proof -
  have *: "SignalFlags_from_bits (SIGSEGV OR SIGILL) = Some (SIGSEGV OR SIGILL)"
    by (simp add: SignalFlags_from_bits_def SignalFlags_all_def signal_bits)
  have "SIGSEGV OR SIGILL \<noteq> 0" by (simp add: signal_bits)
  with check_error_smallest_signal [OF *] * show ?thesis by simp
qed

end
