(* ===== verification/Task_Ids.thy ===== *)
theory Task_Ids
  imports Process_Block
begin

text \<open>
  Process ids, kernel stacks and the user resources of a thread (\<^verbatim>\<open>os/src/task/id.rs\<close>): where the stacks and trap
  contexts lie, and how they are mapped and unmapped. A handle is the id it carries; the global allocators and
  the address spaces are passed and returned.
\<close>

section \<open>Process ids\<close>

definition IDLE_PID :: usize where
  "IDLE_PID = 0"

definition pid_alloc :: "RecycleAllocator \<Rightarrow> usize \<times> RecycleAllocator" where
  "pid_alloc pids = RecycleAllocator_alloc pids"

definition PidHandle_drop :: "usize \<Rightarrow> RecycleAllocator \<Rightarrow> RecycleAllocator outcome" where
  "PidHandle_drop pid pids = RecycleAllocator_dealloc pids pid"

section \<open>Kernel stacks\<close>

definition KERNEL_STACK_SIZE :: usize where
  "KERNEL_STACK_SIZE = 4096 * 2"

definition kernel_stack_position :: "usize \<Rightarrow> usize \<times> usize" where
  "kernel_stack_position kstack_id =
     (let kstack_top = TRAMPOLINE - kstack_id * (KERNEL_STACK_SIZE + PAGE_SIZE); kstack_bottom = kstack_top - KERNEL_STACK_SIZE in (kstack_bottom, kstack_top))"

definition KernelStack_get_top :: "usize \<Rightarrow> usize" where
  "KernelStack_get_top kstack = snd (kernel_stack_position kstack)"

definition kstack_alloc :: "RecycleAllocator \<times> MemorySet \<times> mm \<Rightarrow> (usize \<times> RecycleAllocator \<times> MemorySet \<times> mm) outcome" where
  "kstack_alloc = (\<lambda>(stacks, space, s).
     let (kstack_id, stacks) = RecycleAllocator_alloc stacks; (kstack_bottom, kstack_top) = kernel_stack_position kstack_id in
     and_then (MemorySet_insert_framed_area (VirtAddr_from kstack_bottom) (VirtAddr_from kstack_top) (perm_or PERM_R PERM_W) (space, s))
       (\<lambda>(space, s). Inr (kstack_id, stacks, space, s)))"

definition KernelStack_drop :: "usize \<Rightarrow> RecycleAllocator \<times> MemorySet \<times> mm \<Rightarrow> (RecycleAllocator \<times> MemorySet \<times> mm) outcome" where
  "KernelStack_drop kstack = (\<lambda>(stacks, space, s).
     and_then (VirtPageNum_from_VirtAddr (VirtAddr_from (fst (kernel_stack_position kstack)))) (\<lambda>vpn.
     and_then (MemorySet_remove_area_with_start_vpn vpn (space, s)) (\<lambda>(space, s).
     and_then (RecycleAllocator_dealloc stacks kstack) (\<lambda>stacks.
     Inr (stacks, space, s)))))"

section \<open>User stacks and trap contexts\<close>

definition USER_STACK_SIZE :: usize where
  "USER_STACK_SIZE = 4096 * 2"

definition TRAP_CONTEXT_BASE :: usize where
  "TRAP_CONTEXT_BASE = TRAMPOLINE - PAGE_SIZE"

definition trap_cx_bottom_from_tid :: "usize \<Rightarrow> usize" where
  "trap_cx_bottom_from_tid tid = TRAP_CONTEXT_BASE - tid * PAGE_SIZE"

definition ustack_bottom_from_tid :: "usize \<Rightarrow> usize \<Rightarrow> usize" where
  "ustack_bottom_from_tid ustack_base tid = ustack_base + tid * (PAGE_SIZE + USER_STACK_SIZE)"

record TaskUserRes =
  ur_tid :: usize
  ur_ustack_base :: usize
  ur_process :: process

definition TaskUserRes_ustack_base :: "TaskUserRes \<Rightarrow> usize" where
  "TaskUserRes_ustack_base r = ur_ustack_base r"

definition TaskUserRes_ustack_top :: "TaskUserRes \<Rightarrow> usize" where
  "TaskUserRes_ustack_top r = ustack_bottom_from_tid (ur_ustack_base r) (ur_tid r) + USER_STACK_SIZE"

definition TaskUserRes_trap_cx_user_va :: "TaskUserRes \<Rightarrow> usize" where
  "TaskUserRes_trap_cx_user_va r = trap_cx_bottom_from_tid (ur_tid r)"

text \<open>The pages of a thread in the address space of its process.\<close>

definition TaskUserRes_alloc_user_res :: "TaskUserRes \<Rightarrow> MemorySet \<times> mm \<Rightarrow> (MemorySet \<times> mm) outcome" where
  "TaskUserRes_alloc_user_res r mem =
     (let ustack_bottom = ustack_bottom_from_tid (ur_ustack_base r) (ur_tid r);
          ustack_top = ustack_bottom + USER_STACK_SIZE in
      and_then (MemorySet_insert_framed_area (VirtAddr_from ustack_bottom) (VirtAddr_from ustack_top)
        (perm_or (perm_or PERM_R PERM_W) PERM_U) mem) (\<lambda>mem.
      let trap_cx_bottom = trap_cx_bottom_from_tid (ur_tid r); trap_cx_top = trap_cx_bottom + PAGE_SIZE in
      MemorySet_insert_framed_area (VirtAddr_from trap_cx_bottom) (VirtAddr_from trap_cx_top) (perm_or PERM_R PERM_W) mem))"

definition TaskUserRes_dealloc_user_res :: "TaskUserRes \<Rightarrow> MemorySet \<times> mm \<Rightarrow> (MemorySet \<times> mm) outcome" where
  "TaskUserRes_dealloc_user_res r mem =
     and_then (VirtPageNum_from_VirtAddr (VirtAddr_from (ustack_bottom_from_tid (ur_ustack_base r) (ur_tid r)))) (\<lambda>vpn.
     and_then (MemorySet_remove_area_with_start_vpn vpn mem) (\<lambda>mem.
     and_then (VirtPageNum_from_VirtAddr (VirtAddr_from (trap_cx_bottom_from_tid (ur_tid r)))) (\<lambda>vpn.
     MemorySet_remove_area_with_start_vpn vpn mem)))"

definition TaskUserRes_trap_cx_ppn :: "TaskUserRes \<Rightarrow> MemorySet \<Rightarrow> mm \<Rightarrow> PhysPageNum outcome" where
  "TaskUserRes_trap_cx_ppn r ms s =
     and_then (VirtPageNum_from_VirtAddr (VirtAddr_from (trap_cx_bottom_from_tid (ur_tid r)))) (\<lambda>vpn.
     and_then (MemorySet_translate ms (phys s) vpn) (\<lambda>e.
     and_then (unwrap e) (\<lambda>e. Inr (PageTableEntry_ppn e))))"

text \<open>On the block of the process: \<open>new\<close>, and what dropping the value does.\<close>

definition TaskUserRes_new ::
  "process \<Rightarrow> usize \<Rightarrow> bool \<Rightarrow> ProcessControlBlockInner \<times> mm \<Rightarrow> (TaskUserRes \<times> ProcessControlBlockInner \<times> mm) outcome" where
  "TaskUserRes_new proc ustack_base alloc_user_res = (\<lambda>(p, s).
     let (tid, p) = alloc_tid p; r = \<lparr>ur_tid = tid, ur_ustack_base = ustack_base, ur_process = proc\<rparr> in
     if alloc_user_res
     then and_then (TaskUserRes_alloc_user_res r (pi_memory_set p, s)) (\<lambda>(ms, s). Inr (r, p\<lparr>pi_memory_set := ms\<rparr>, s))
     else Inr (r, p, s))"

definition TaskUserRes_alloc_tid :: "TaskUserRes \<Rightarrow> ProcessControlBlockInner \<Rightarrow> TaskUserRes \<times> ProcessControlBlockInner" where
  "TaskUserRes_alloc_tid r p = (let (tid, p) = alloc_tid p in (r\<lparr>ur_tid := tid\<rparr>, p))"

definition TaskUserRes_dealloc_tid :: "TaskUserRes \<Rightarrow> ProcessControlBlockInner \<Rightarrow> ProcessControlBlockInner outcome" where
  "TaskUserRes_dealloc_tid r p = dealloc_tid (ur_tid r) p"

definition TaskUserRes_drop :: "TaskUserRes \<Rightarrow> ProcessControlBlockInner \<times> mm \<Rightarrow> (ProcessControlBlockInner \<times> mm) outcome" where
  "TaskUserRes_drop r = (\<lambda>(p, s).
     and_then (TaskUserRes_dealloc_tid r p) (\<lambda>p.
     and_then (TaskUserRes_dealloc_user_res r (pi_memory_set p, s)) (\<lambda>(ms, s).
     Inr (p\<lparr>pi_memory_set := ms\<rparr>, s))))"

section \<open>Where the stacks are\<close>

lemma TRAMPOLINE_value: "TRAMPOLINE = 0xFFFFFFFFFFFFF000"
  by (simp add: TRAMPOLINE_def PAGE_SIZE_def)

lemma below_trampoline:
  fixes a :: usize
  assumes "unat a * 0x3000 + b < 0xFFFFFFFFFFFFF000"
  shows "unat (TRAMPOLINE - a * 0x3000 - of_nat b) = 0xFFFFFFFFFFFFF000 - unat a * 0x3000 - b"
proof -
  have "a * 0x3000 = of_nat (unat a * 0x3000)" by simp
  then have "TRAMPOLINE - a * 0x3000 - of_nat b = of_nat 0xFFFFFFFFFFFFF000 - of_nat (unat a * 0x3000 + b)"
    by (simp add: TRAMPOLINE_value)
  also have "\<dots> = of_nat (0xFFFFFFFFFFFFF000 - (unat a * 0x3000 + b))" using assms by (subst of_nat_diff) simp_all
  finally show ?thesis using unat_of_nat_usize [of "0xFFFFFFFFFFFFF000 - (unat a * 0x3000 + b)"] by simp
qed

lemma kernel_stack_unat:
  assumes "unat kstack_id < 2 ^ 24"
  shows "unat (snd (kernel_stack_position kstack_id)) = 0xFFFFFFFFFFFFF000 - unat kstack_id * 0x3000"
    "unat (fst (kernel_stack_position kstack_id)) = 0xFFFFFFFFFFFFF000 - unat kstack_id * 0x3000 - 0x2000"
  using assms below_trampoline [of kstack_id 0] below_trampoline [of kstack_id "0x2000"]
  by (simp_all add: kernel_stack_position_def Let_def KERNEL_STACK_SIZE_def PAGE_SIZE_def)

text \<open>
  C33. Kernel stacks do not touch: the stacks of different ids, each with the page below it, which is left unmapped so that an
  overflow faults, have no address in common, and all lie in the upper half of the SV39 address space below the trampoline.
\<close>

theorem kernel_stacks_apart:
  assumes "unat i < 2 ^ 24" "unat j < 2 ^ 24" "i \<noteq> j"
  shows "(case (kernel_stack_position i, kernel_stack_position j) of ((kstack_bottom, kstack_top), (kstack_bottom', kstack_top')) \<Rightarrow>
    unat kstack_top = unat kstack_bottom + 0x2000 \<and> unat kstack_top \<le> unat TRAMPOLINE \<and> 2 ^ 64 - 2 ^ 38 \<le> unat kstack_bottom - 0x1000 \<and>
    {unat kstack_bottom - 0x1000..<unat kstack_top} \<inter> {unat kstack_bottom' - 0x1000..<unat kstack_top'} = {})"
proof -
  have ne: "unat i \<noteq> unat j" using assms(3) by (simp add: word_unat_eq_iff)
  obtain kstack_bottom kstack_top kstack_bottom' kstack_top' where p: "kernel_stack_position i = (kstack_bottom, kstack_top)" "kernel_stack_position j = (kstack_bottom', kstack_top')"
    by fastforce
  have "unat kstack_top = 0xFFFFFFFFFFFFF000 - unat i * 0x3000" "unat kstack_bottom = 0xFFFFFFFFFFFFF000 - unat i * 0x3000 - 0x2000"
    "unat kstack_top' = 0xFFFFFFFFFFFFF000 - unat j * 0x3000" "unat kstack_bottom' = 0xFFFFFFFFFFFFF000 - unat j * 0x3000 - 0x2000"
    using kernel_stack_unat [OF assms(1)] kernel_stack_unat [OF assms(2)] by (simp_all add: p)
  moreover have "unat i * 0x3000 < 2 ^ 24 * 0x3000" "unat j * 0x3000 < 2 ^ 24 * 0x3000" using assms(1,2) by simp_all
  ultimately show ?thesis using ne unfolding p by (auto simp: TRAMPOLINE_value)
qed

theorem kernel_stacks_apart_witness:
  "snd (kernel_stack_position 0) = TRAMPOLINE \<and>
    (case (kernel_stack_position 0, kernel_stack_position 1) of ((kstack_bottom, kstack_top), (kstack_bottom', kstack_top')) \<Rightarrow>
      {unat kstack_bottom - 0x1000..<unat kstack_top} \<inter> {unat kstack_bottom' - 0x1000..<unat kstack_top'} = {})"
  using kernel_stacks_apart [of 0 1] by (auto simp: kernel_stack_position_def Let_def split: prod.splits)

section \<open>The pages of a thread\<close>

definition aligned :: "usize \<Rightarrow> bool" where
  "aligned a \<longleftrightarrow> unat a mod 4096 = 0"

text \<open>The number of the page at a page-aligned address.\<close>

definition page_no :: "usize \<Rightarrow> nat" where
  "page_no a = unat a mod 2 ^ 39 div 4096"

lemma mod_mod_4096: "(n :: nat) mod 2 ^ 39 mod 4096 = n mod 4096"
  by (simp add: mod_mod_cancel)

lemma page_floor: "unat (vpn_0 (VirtAddr_floor (VirtAddr_from a))) = page_no a"
  by (simp add: VirtAddr_from_bits VirtAddr_floor_bits unat_drop_bit_usize unat_take_bit_usize page_no_def)

lemma page_ceil:
  assumes "aligned a"
  shows "unat (vpn_0 (VirtAddr_ceil (VirtAddr_from a))) = page_no a"
proof -
  define n where "n = unat a mod 2 ^ 39"
  have n: "n < 2 ^ 39" "n mod 4096 = 0" using assms mod_mod_4096 [of "unat a"] by (simp_all add: n_def aligned_def)
  have "unat (take_bit 39 a) = unat (of_nat n :: usize)" using n(1) by (simp add: unat_take_bit_usize n_def unat_of_nat_usize)
  then have w: "take_bit 39 a = of_nat n" by (simp only: word_unat_eq_iff)
  have sum: "take_bit 39 a - 1 + PAGE_SIZE = of_nat (n + 4095)" by (simp add: w PAGE_SIZE_def)
  have u: "unat (of_nat (n + 4095) :: usize) = n + 4095" using n(1) by (intro unat_of_nat_usize) simp
  obtain k where k: "n = 4096 * k" using n(2) by auto
  have "unat (vpn_0 (VirtAddr_ceil (VirtAddr_from a))) = unat (take_bit 39 a - 1 + PAGE_SIZE) div 2 ^ 12"
    by (simp only: VirtAddr_ceil_def VirtAddr_from_bits div_PAGE_SIZE unat_drop_bit_usize VirtPageNum.sel VirtAddr.sel)
  also have "\<dots> = n div 4096" unfolding sum u by (simp add: k)
  finally show ?thesis by (simp only: page_no_def n_def)
qed

lemma page_start:
  assumes "aligned a"
  shows "VirtPageNum_from_VirtAddr (VirtAddr_from a) = Inr (VirtAddr_floor (VirtAddr_from a))"
proof -
  have "unat (take_bit 12 (take_bit 39 a)) = 0"
    using assms mod_mod_4096 [of "unat a"] by (simp add: unat_take_bit_usize aligned_def)
  then show ?thesis
    by (simp add: VirtPageNum_from_VirtAddr_def VirtAddr_page_offset_bits VirtAddr_from_bits unsigned_eq_0_iff)
qed

lemma pages_in_range:
  assumes "aligned b"
  shows "in_range (VirtAddr_from a) (VirtAddr_from b) v \<longleftrightarrow> page_no a \<le> unat (vpn_0 v) \<and> unat (vpn_0 v) < page_no b"
  using assms by (simp add: in_range_def VirtPageNum_le_unat VirtPageNum_less_unat page_floor page_ceil)

text \<open>A thread whose stack lies in the lower half of the address space, on page boundaries.\<close>

definition res_ok :: "TaskUserRes \<Rightarrow> bool" where
  "res_ok r \<longleftrightarrow> aligned (ur_ustack_base r) \<and> unat (ur_ustack_base r) + (unat (ur_tid r) + 1) * 0x3000 < 2 ^ 38 \<and> unat (ur_tid r) < 2 ^ 25"

definition stack_page :: "TaskUserRes \<Rightarrow> nat" where
  "stack_page r = unat (ur_ustack_base r) div 4096 + 3 * unat (ur_tid r)"

definition trap_page :: "TaskUserRes \<Rightarrow> nat" where
  "trap_page r = 0x7FFFFFE - unat (ur_tid r)"

lemma ustack_bottom_unat:
  assumes "res_ok r"
  shows "unat (ustack_bottom_from_tid (ur_ustack_base r) (ur_tid r)) = unat (ur_ustack_base r) + unat (ur_tid r) * 0x3000"
    "unat (ustack_bottom_from_tid (ur_ustack_base r) (ur_tid r) + USER_STACK_SIZE) = unat (ur_ustack_base r) + unat (ur_tid r) * 0x3000 + 0x2000"
proof -
  let ?n = "unat (ur_ustack_base r) + unat (ur_tid r) * 0x3000"
  have b: "ustack_bottom_from_tid (ur_ustack_base r) (ur_tid r) = of_nat ?n"
    by (simp add: ustack_bottom_from_tid_def PAGE_SIZE_def USER_STACK_SIZE_def)
  have "?n + 0x2000 < 2 ^ 38" using assms by (simp add: res_ok_def)
  then have "?n < 18446744073709551616" "?n + 0x2000 < 18446744073709551616" by simp_all
  from unat_of_nat_usize [OF this(1)] unat_of_nat_usize [OF this(2)] show
    "unat (ustack_bottom_from_tid (ur_ustack_base r) (ur_tid r)) = ?n"
    "unat (ustack_bottom_from_tid (ur_ustack_base r) (ur_tid r) + USER_STACK_SIZE) = ?n + 0x2000"
    unfolding b by (simp_all add: USER_STACK_SIZE_def)
qed

lemma stack_pages:
  assumes "res_ok r"
  defines "low \<equiv> ustack_bottom_from_tid (ur_ustack_base r) (ur_tid r)"
  shows "aligned low" "aligned (low + USER_STACK_SIZE)" "page_no low = stack_page r" "page_no (low + USER_STACK_SIZE) = stack_page r + 2"
    "stack_page r + 2 < 2 ^ 26"
proof -
  have u: "unat low = unat (ur_ustack_base r) + unat (ur_tid r) * 0x3000"
    "unat (low + USER_STACK_SIZE) = unat (ur_ustack_base r) + unat (ur_tid r) * 0x3000 + 0x2000"
    using ustack_bottom_unat [OF assms(1)] by (simp_all add: low_def)
  obtain k where k: "unat (ur_ustack_base r) = 4096 * k" using assms(1) by (auto simp: res_ok_def aligned_def)
  have lt: "4096 * k + (unat (ur_tid r) + 1) * 0x3000 < 2 ^ 38" using assms(1) k by (simp add: res_ok_def)
  have u': "unat low = 4096 * (k + 3 * unat (ur_tid r))" "unat (low + USER_STACK_SIZE) = 4096 * (k + 3 * unat (ur_tid r) + 2)"
    using u k by simp_all
  show "aligned low" "aligned (low + USER_STACK_SIZE)" by (simp_all only: aligned_def u' mod_mult_self1_is_0)
  have "4096 * (k + 3 * unat (ur_tid r) + 2) < 2 ^ 39" "k + 3 * unat (ur_tid r) + 2 < 2 ^ 26" using lt by simp_all
  then show "page_no low = stack_page r" "page_no (low + USER_STACK_SIZE) = stack_page r + 2" "stack_page r + 2 < 2 ^ 26"
    by (simp_all add: page_no_def u' stack_page_def k)
qed

lemma trap_pages:
  assumes "res_ok r"
  defines "low \<equiv> trap_cx_bottom_from_tid (ur_tid r)"
  shows "aligned low" "aligned (low + PAGE_SIZE)" "page_no low = trap_page r" "page_no (low + PAGE_SIZE) = trap_page r + 1"
    "2 ^ 26 \<le> trap_page r" "trap_page r < 0x7FFFFFF"
proof -
  let ?t = "unat (ur_tid r)"
  have t: "?t < 2 ^ 25" using assms(1) by (simp add: res_ok_def)
  have w: "low = of_nat 0xFFFFFFFFFFFFE000 - of_nat (?t * 4096)" "low + PAGE_SIZE = of_nat 0xFFFFFFFFFFFFF000 - of_nat (?t * 4096)"
    by (simp_all add: low_def trap_cx_bottom_from_tid_def TRAP_CONTEXT_BASE_def TRAMPOLINE_value PAGE_SIZE_def)
  have le: "?t * 4096 \<le> 0xFFFFFFFFFFFFE000" "?t * 4096 \<le> 0xFFFFFFFFFFFFF000" using t by simp_all
  have "low = of_nat (0xFFFFFFFFFFFFE000 - ?t * 4096)" unfolding of_nat_diff [OF le(1)] by (rule w(1))
  moreover have "low + PAGE_SIZE = of_nat (0xFFFFFFFFFFFFF000 - ?t * 4096)" unfolding of_nat_diff [OF le(2)] by (rule w(2))
  ultimately have u: "unat low = 4096 * (0xFFFFFFFFFFFFE - ?t)" "unat (low + PAGE_SIZE) = 4096 * (0xFFFFFFFFFFFFF - ?t)"
    using unat_of_nat_usize [of "0xFFFFFFFFFFFFE000 - ?t * 4096"] unat_of_nat_usize [of "0xFFFFFFFFFFFFF000 - ?t * 4096"]
    by simp_all
  show "aligned low" "aligned (low + PAGE_SIZE)" by (simp_all only: aligned_def u mod_mult_self1_is_0)
  have "0xFFFFFFFFFFFFE - ?t = 0x1FFFFFF * 2 ^ 27 + (0x7FFFFFE - ?t)" "0xFFFFFFFFFFFFF - ?t = 0x1FFFFFF * 2 ^ 27 + (0x7FFFFFF - ?t)"
    using t by simp_all
  then have m: "(0xFFFFFFFFFFFFE - ?t) mod 2 ^ 27 = 0x7FFFFFE - ?t" "(0xFFFFFFFFFFFFF - ?t) mod 2 ^ 27 = 0x7FFFFFF - ?t"
    by (simp_all only: mod_mult_self3) simp_all
  have "4096 * n mod 2 ^ 39 div 4096 = n mod 2 ^ 27" for n :: nat
    using mult_mod_right [of 4096 n "2 ^ 27"] by simp
  then show "page_no low = trap_page r" "page_no (low + PAGE_SIZE) = trap_page r + 1" "2 ^ 26 \<le> trap_page r" "trap_page r < 0x7FFFFFF"
    using t by (simp_all only: page_no_def u m trap_page_def) simp_all
qed

definition thread_page :: "TaskUserRes \<Rightarrow> VirtPageNum \<Rightarrow> bool" where
  "thread_page r v \<longleftrightarrow> unat (vpn_0 v) \<in> {stack_page r, stack_page r + 1, trap_page r}"

definition thread_view :: "TaskUserRes \<Rightarrow> VirtPageNum \<Rightarrow> PTEFlags" where
  "thread_view r v = perm_flags (if unat (vpn_0 v) = trap_page r then perm_or PERM_R PERM_W else perm_or (perm_or PERM_R PERM_W) PERM_U)"

definition page_span :: "usize \<Rightarrow> usize \<Rightarrow> VirtPageNum \<Rightarrow> bool" where
  "page_span lo hi v \<longleftrightarrow> page_no lo \<le> unat (vpn_0 v) \<and> unat (vpn_0 v) < page_no hi"

lemma insert_aligned_area:
  assumes "ms_ok l tr s ms" "all_framed ms" "aligned hi" "page_no lo \<le> page_no hi" "page_no hi \<le> 0x7FFFFFF"
    "\<forall>v \<in> set (ms_vpns ms). \<not> page_span lo hi v" "3 * (page_no hi - page_no lo) \<le> mm_free s"
  shows "\<exists>a ms' s'. MemorySet_insert_framed_area (VirtAddr_from lo) (VirtAddr_from hi) perm (ms, s) = Inr (ms', s') \<and>
    ms_ok l tr s' ms' \<and> all_framed ms' \<and> ms_areas ms' = ms_areas ms @ [a] \<and> vr_l (ma_vpn_range a) = VirtAddr_floor (VirtAddr_from lo) \<and>
    (\<forall>v. v \<in> set (area_vpns a) \<longleftrightarrow> page_span lo hi v) \<and> mm_free s \<le> mm_free s' + 3 * (page_no hi - page_no lo) \<and>
    as_evolve l s (ms_page_table ms) s' (ms_page_table ms') (set (area_frames a)) \<and>
    (\<forall>v. vpn_ok v \<longrightarrow> v \<noteq> tramp_vpn \<longrightarrow> page_view (phys s') ms' v =
       (if page_span lo hi v then Some (perm_flags perm, replicate 4096 0) else page_view (phys s) ms v))"
proof -
  have span: "in_range (VirtAddr_from lo) (VirtAddr_from hi) v \<longleftrightarrow> page_span lo hi v" for v
    using pages_in_range [OF assms(3)] by (simp add: page_span_def)
  have le: "VirtAddr_floor (VirtAddr_from lo) \<le> VirtAddr_ceil (VirtAddr_from hi)"
    using assms(3,4) by (simp add: VirtPageNum_le_unat page_floor page_ceil)
  have free: "vpn_ok v \<and> v \<notin> set (tramp_vpn # ms_vpns ms)" if "in_range (VirtAddr_from lo) (VirtAddr_from hi) v" for v
    using that assms(5,6) by (auto simp: span vpn_ok_def page_span_def tramp_vpn_def)
  from insert_framed_area_view [OF assms(1,2) le free, of perm] obtain a ms' s' where
    1: "MemorySet_insert_framed_area (VirtAddr_from lo) (VirtAddr_from hi) perm (ms, s) = Inr (ms', s')" "ms_ok l tr s' ms'"
      "ms_areas ms' = ms_areas ms @ [a]" "ma_map_type a = Framed" "\<forall>v. v \<in> set (area_vpns a) \<longleftrightarrow> page_span lo hi v"
      "vr_l (ma_vpn_range a) = VirtAddr_floor (VirtAddr_from lo)" "mm_free s \<le> mm_free s' + 3 * (page_no hi - page_no lo)"
      "\<forall>v. vpn_ok v \<longrightarrow> v \<noteq> tramp_vpn \<longrightarrow> page_view (phys s') ms' v =
         (if page_span lo hi v then Some (perm_flags perm, replicate 4096 0) else page_view (phys s) ms v)"
    using assms(3,7) by (auto simp: span page_floor page_ceil)
  then have "all_framed ms'" using assms(2) by (simp add: all_framed_def)
  moreover have "as_evolve l s (ms_page_table ms) s' (ms_page_table ms') (set (area_frames a))"
    by (rule insert_framed_area_evolve [OF assms(1) le free _ 1(1,3)]) (use assms(3,7) in \<open>simp_all add: page_floor page_ceil\<close>)
  ultimately show ?thesis using 1 by (intro exI [of _ a] exI [of _ ms'] exI [of _ s']) simp
qed

lemma insert_thread_pages:
  assumes "ms_ok l tr s ms" "all_framed ms" "res_ok r" "\<forall>v \<in> set (ms_vpns ms). \<not> thread_page r v" "9 \<le> mm_free s"
  shows "\<exists>a b ms' s'. TaskUserRes_alloc_user_res r (ms, s) = Inr (ms', s') \<and> ms_ok l tr s' ms' \<and> all_framed ms' \<and>
    ms_areas ms' = ms_areas ms @ [a, b] \<and>
    vr_l (ma_vpn_range a) = VirtAddr_floor (VirtAddr_from (ustack_bottom_from_tid (ur_ustack_base r) (ur_tid r))) \<and>
    vr_l (ma_vpn_range b) = VirtAddr_floor (VirtAddr_from (trap_cx_bottom_from_tid (ur_tid r))) \<and>
    (\<forall>v. v \<in> set (area_vpns a) \<union> set (area_vpns b) \<longleftrightarrow> thread_page r v) \<and>
    as_evolve l s (ms_page_table ms) s' (ms_page_table ms') (set (area_frames a) \<union> set (area_frames b)) \<and>
    (\<forall>v. vpn_ok v \<longrightarrow> v \<noteq> tramp_vpn \<longrightarrow> page_view (phys s') ms' v =
       (if thread_page r v then Some (thread_view r v, replicate 4096 0) else page_view (phys s) ms v))"
proof -
  let ?lo = "ustack_bottom_from_tid (ur_ustack_base r) (ur_tid r)" and ?tl = "trap_cx_bottom_from_tid (ur_tid r)"
  note st = stack_pages [OF assms(3)] and tp = trap_pages [OF assms(3)]
  have in1: "page_span ?lo (?lo + USER_STACK_SIZE) v \<longleftrightarrow> unat (vpn_0 v) \<in> {stack_page r, stack_page r + 1}" for v
    using st by (auto simp: page_span_def)
  have in2: "page_span ?tl (?tl + PAGE_SIZE) v \<longleftrightarrow> unat (vpn_0 v) = trap_page r" for v
    using tp by (auto simp: page_span_def)
  have n: "page_no (?lo + USER_STACK_SIZE) - page_no ?lo = 2" "page_no (?tl + PAGE_SIZE) - page_no ?tl = 1" using st tp by simp_all
  obtain a ms1 s1 where 1: "MemorySet_insert_framed_area (VirtAddr_from ?lo) (VirtAddr_from (?lo + USER_STACK_SIZE))
        (perm_or (perm_or PERM_R PERM_W) PERM_U) (ms, s) = Inr (ms1, s1)" "ms_ok l tr s1 ms1" "all_framed ms1" "ms_areas ms1 = ms_areas ms @ [a]"
      "vr_l (ma_vpn_range a) = VirtAddr_floor (VirtAddr_from ?lo)" "\<forall>v. v \<in> set (area_vpns a) \<longleftrightarrow> page_span ?lo (?lo + USER_STACK_SIZE) v"
      "mm_free s \<le> mm_free s1 + 6" and ev1: "as_evolve l s (ms_page_table ms) s1 (ms_page_table ms1) (set (area_frames a))" and view1:
      "\<forall>v. vpn_ok v \<longrightarrow> v \<noteq> tramp_vpn \<longrightarrow> page_view (phys s1) ms1 v = (if page_span ?lo (?lo + USER_STACK_SIZE) v
          then Some (perm_flags (perm_or (perm_or PERM_R PERM_W) PERM_U), replicate 4096 0) else page_view (phys s) ms v)"
    using insert_aligned_area [OF assms(1,2) st(2), of ?lo "perm_or (perm_or PERM_R PERM_W) PERM_U"] st assms(4,5) n(1)
    by (auto simp: in1 thread_page_def)
  have "\<forall>v \<in> set (ms_vpns ms1). \<not> page_span ?tl (?tl + PAGE_SIZE) v"
    using assms(4) 1(4,6) st(5) tp(5) by (auto simp: ms_vpns_def in1 in2 thread_page_def)
  then obtain b ms2 s2 where 2: "MemorySet_insert_framed_area (VirtAddr_from ?tl) (VirtAddr_from (?tl + PAGE_SIZE))
        (perm_or PERM_R PERM_W) (ms1, s1) = Inr (ms2, s2)" "ms_ok l tr s2 ms2" "all_framed ms2" "ms_areas ms2 = ms_areas ms1 @ [b]"
      "vr_l (ma_vpn_range b) = VirtAddr_floor (VirtAddr_from ?tl)" "\<forall>v. v \<in> set (area_vpns b) \<longleftrightarrow> page_span ?tl (?tl + PAGE_SIZE) v"
      and ev2: "as_evolve l s1 (ms_page_table ms1) s2 (ms_page_table ms2) (set (area_frames b))" and view2:
      "\<forall>v. vpn_ok v \<longrightarrow> v \<noteq> tramp_vpn \<longrightarrow> page_view (phys s2) ms2 v = (if page_span ?tl (?tl + PAGE_SIZE) v
          then Some (perm_flags (perm_or PERM_R PERM_W), replicate 4096 0) else page_view (phys s1) ms1 v)"
    using insert_aligned_area [OF 1(2,3) tp(2), of ?tl "perm_or PERM_R PERM_W"] tp 1(7) assms(5) n(2) by auto
  have run: "TaskUserRes_alloc_user_res r (ms, s) = Inr (ms2, s2)"
    using 1(1) 2(1) by (simp add: TaskUserRes_alloc_user_res_def Let_def)
  have pages: "\<forall>v. v \<in> set (area_vpns a) \<union> set (area_vpns b) \<longleftrightarrow> thread_page r v"
    using 1(6) 2(6) by (auto simp: in1 in2 thread_page_def)
  have "page_view (phys s2) ms2 v = (if thread_page r v then Some (thread_view r v, replicate 4096 0) else page_view (phys s) ms v)"
    if "vpn_ok v" "v \<noteq> tramp_vpn" for v
  proof -
    have "stack_page r \<noteq> trap_page r" "stack_page r + 1 \<noteq> trap_page r" using st(5) tp(5) by simp_all
    then show ?thesis using view1 view2 that by (auto simp: in1 in2 thread_page_def thread_view_def)
  qed
  then show ?thesis using run 2(2,3) 1(4,5) 2(4,5) pages as_evolve_trans [OF ev1 ev2] by (intro exI [of _ a] exI [of _ b] exI [of _ ms2] exI [of _ s2]) simp
qed

lemma remove_thread_pages:
  assumes "ms_ok l tr s ms" "all_framed ms" "res_ok r" "ms_areas ms = as @ [a, b]"
    "vr_l (ma_vpn_range a) = VirtAddr_floor (VirtAddr_from (ustack_bottom_from_tid (ur_ustack_base r) (ur_tid r)))"
    "vr_l (ma_vpn_range b) = VirtAddr_floor (VirtAddr_from (trap_cx_bottom_from_tid (ur_tid r)))"
    "\<forall>v. v \<in> set (area_vpns a) \<union> set (area_vpns b) \<longleftrightarrow> thread_page r v" "\<forall>c \<in> set as. \<not> thread_page r (vr_l (ma_vpn_range c))"
  shows "\<exists>ms' s'. TaskUserRes_dealloc_user_res r (ms, s) = Inr (ms', s') \<and> ms_ok l tr s' ms' \<and> ms_areas ms' = as \<and>
    ms_page_table ms' = ms_page_table ms \<and> mm_live l s' = mm_live l s - set (area_frames a) - set (area_frames b) \<and>
    (\<forall>v. vpn_ok v \<longrightarrow> v \<noteq> tramp_vpn \<longrightarrow> page_view (phys s') ms' v = (if thread_page r v then None else page_view (phys s) ms v))"
proof -
  note st = stack_pages [OF assms(3)] and tp = trap_pages [OF assms(3)]
  have pa: "thread_page r (vr_l (ma_vpn_range a))" "thread_page r (vr_l (ma_vpn_range b))"
    using st(3) tp(3) by (simp_all add: assms(5,6) thread_page_def page_floor)
  have 1: "\<forall>c \<in> set as. vr_l (ma_vpn_range c) \<noteq> vr_l (ma_vpn_range a)" "\<forall>c \<in> set as. vr_l (ma_vpn_range c) \<noteq> vr_l (ma_vpn_range b)"
    using assms(8) pa by auto
  obtain ms1 s1 where m1: "MemorySet_remove_area_with_start_vpn (vr_l (ma_vpn_range a)) (ms, s) = Inr (ms1, s1)"
      "ms_ok l tr s1 ms1" "ms_areas ms1 = as @ [b]" and t1: "ms_page_table ms1 = ms_page_table ms" and w1: "mm_live l s1 = mm_live l s - set (area_frames a)"
      "\<forall>v. vpn_ok v \<longrightarrow> v \<noteq> tramp_vpn \<longrightarrow> page_view (phys s1) ms1 v = (if v \<in> set (area_vpns a) then None else page_view (phys s) ms v)"
    using remove_area_view [OF assms(1,2), of as a "[b]"] assms(4) 1(1) by auto
  have fr: "all_framed ms1" using assms(2,4) m1(3) by (simp add: all_framed_def)
  obtain ms2 s2 where m2: "MemorySet_remove_area_with_start_vpn (vr_l (ma_vpn_range b)) (ms1, s1) = Inr (ms2, s2)"
      "ms_ok l tr s2 ms2" "ms_areas ms2 = as" and t2: "ms_page_table ms2 = ms_page_table ms1" and w2: "mm_live l s2 = mm_live l s1 - set (area_frames b)"
      "\<forall>v. vpn_ok v \<longrightarrow> v \<noteq> tramp_vpn \<longrightarrow> page_view (phys s2) ms2 v = (if v \<in> set (area_vpns b) then None else page_view (phys s1) ms1 v)"
    using remove_area_view [OF m1(2) fr, of as b "[]"] m1(3) 1(2) by auto
  have "TaskUserRes_dealloc_user_res r (ms, s) = Inr (ms2, s2)"
    using m1(1) m2(1) by (simp add: TaskUserRes_dealloc_user_res_def page_start [OF st(1)] page_start [OF tp(1)] assms(5,6))
  moreover have "page_view (phys s2) ms2 v = (if thread_page r v then None else page_view (phys s) ms v)" if "vpn_ok v" "v \<noteq> tramp_vpn" for v
    using w1(2) w2(2) assms(7) that by auto
  ultimately show ?thesis using w1(1) w2(1) t1 t2 m2(2,3) by (intro exI [of _ ms2] exI [of _ s2]) simp
qed

lemma thread_pages:
  assumes "ms_ok l tr s ms" "all_framed ms" "res_ok r" "9 \<le> mm_free s"
    "\<forall>v \<in> set (ms_vpns ms). \<not> thread_page r v" "\<forall>c \<in> set (ms_areas ms). \<not> thread_page r (vr_l (ma_vpn_range c))"
  shows "\<exists>ms' s' ms'' s''. TaskUserRes_alloc_user_res r (ms, s) = Inr (ms', s') \<and> ms_ok l tr s' ms' \<and>
    TaskUserRes_dealloc_user_res r (ms', s') = Inr (ms'', s'') \<and> ms_ok l tr s'' ms'' \<and> ms_areas ms'' = ms_areas ms \<and>
    (\<forall>v. vpn_ok v \<longrightarrow> v \<noteq> tramp_vpn \<longrightarrow>
       page_view (phys s') ms' v = (if thread_page r v then Some (thread_view r v, replicate 4096 0) else page_view (phys s) ms v) \<and>
       page_view (phys s'') ms'' v = page_view (phys s) ms v) \<and>
    own_frames (phys s') ms' (thread_page r) (mm_live l s') (mm_live l s \<union> mm_live l s'') \<and>
    mm_live l s'' = mm_live l s \<union> pt_frame_set (ms_page_table ms'')"
proof -
  obtain a b ms' s' where 1: "TaskUserRes_alloc_user_res r (ms, s) = Inr (ms', s')" "ms_ok l tr s' ms'" "all_framed ms'"
      "ms_areas ms' = ms_areas ms @ [a, b]"
      "vr_l (ma_vpn_range a) = VirtAddr_floor (VirtAddr_from (ustack_bottom_from_tid (ur_ustack_base r) (ur_tid r)))"
      "vr_l (ma_vpn_range b) = VirtAddr_floor (VirtAddr_from (trap_cx_bottom_from_tid (ur_tid r)))"
      "\<forall>v. v \<in> set (area_vpns a) \<union> set (area_vpns b) \<longleftrightarrow> thread_page r v"
      "\<forall>v. vpn_ok v \<longrightarrow> v \<noteq> tramp_vpn \<longrightarrow> page_view (phys s') ms' v =
         (if thread_page r v then Some (thread_view r v, replicate 4096 0) else page_view (phys s) ms v)"
    and ev: "as_evolve l s (ms_page_table ms) s' (ms_page_table ms') (set (area_frames a) \<union> set (area_frames b))"
    using insert_thread_pages [OF assms(1-3,5,4)] by auto
  obtain ms'' s'' where 2: "TaskUserRes_dealloc_user_res r (ms', s') = Inr (ms'', s'')" "ms_ok l tr s'' ms''" "ms_areas ms'' = ms_areas ms"
      "ms_page_table ms'' = ms_page_table ms'" "mm_live l s'' = mm_live l s' - set (area_frames a) - set (area_frames b)"
      "\<forall>v. vpn_ok v \<longrightarrow> v \<noteq> tramp_vpn \<longrightarrow> page_view (phys s'') ms'' v = (if thread_page r v then None else page_view (phys s') ms' v)"
    using remove_thread_pages [OF 1(2,3) assms(3) 1(4-7) assms(6)] by blast
  have "page_view (phys s) ms v = None" if "vpn_ok v" "v \<noteq> tramp_vpn" "thread_page r v" for v
    using page_view_none [OF assms(1)] assms(5) that by auto
  moreover have "own_frames (phys s') ms' (thread_page r) (mm_live l s') (mm_live l s \<union> mm_live l s'')"
    by (rule own_frames_areas [OF 1(2-4)]) (use 1(7) ev 2(5) in \<open>auto simp: as_evolve_def\<close>)
  moreover have "mm_live l s'' = mm_live l s \<union> pt_frame_set (ms_page_table ms'')"
    using ev by (auto simp: as_evolve_def 2(4,5))
  ultimately show ?thesis using 1(1,2,8) 2(1-3,6)
    by (intro exI [of _ ms'] exI [of _ s'] exI [of _ ms''] exI [of _ s'']) simp
qed

lemma tid_comes_and_goes:
  assumes "ra_invar a" "0 < ra_free a" "RecycleAllocator_alloc a = (tid, a')"
  shows "tid \<notin> ra_live a" "ra_live a' = insert tid (ra_live a)"
    "\<exists>a''. RecycleAllocator_dealloc a' tid = Inr a'' \<and> ra_invar a'' \<and> ra_live a'' = ra_live a \<and>
       fst (RecycleAllocator_alloc a'') = tid"
proof -
  have a': "ra_invar a'" "tid \<notin> ra_live a" "ra_live a' = insert tid (ra_live a)"
    using recycle.alloc_spec [OF assms(1,2), of tid a'] assms(3) by auto
  then show "tid \<notin> ra_live a" "ra_live a' = insert tid (ra_live a)" by blast+
  have live: "tid \<in> ra_live a'" using a'(3) by simp
  obtain a'' where de: "RecycleAllocator_dealloc a' tid = Inr a''" "ra_invar a''" "ra_live a'' = ra_live a' - {tid}"
    using recycle.dealloc_spec [OF a'(1) live] by blast
  moreover have "fst (RecycleAllocator_alloc a'') = tid"
    using recycle.recycle_first [OF a'(1) live de(1)] by simp
  ultimately show "\<exists>a''. RecycleAllocator_dealloc a' tid = Inr a'' \<and> ra_invar a'' \<and> ra_live a'' = ra_live a \<and>
       fst (RecycleAllocator_alloc a'') = tid"
    using a'(2,3) by simp
qed

text \<open>
  C14. The user resources of a thread come and go. For a process whose address space is in order, with nine
  free frames and the pages of the new thread unmapped, \<open>TaskUserRes::new\<close> takes a thread id no thread of the
  process has and maps exactly the two pages of its stack, for the user, and the page of its trap context,
  for the kernel only: all cleared, each on a frame of its own that was not in use. Dropping the value gives the id
  back, so that the next thread gets it, and unmaps exactly these pages and gives back their frames: the process sees
  its address space as it was before, with the same segments and the same contents of every page. What stays in
  use is the page tables that were added to map the pages.
\<close>

theorem thread_pages_come_and_go:
  assumes "ms_ok l tr s (pi_memory_set p)" "all_framed (pi_memory_set p)" "9 \<le> mm_free s"
    and "ra_invar (pi_task_res_allocator p)" "0 < ra_free (pi_task_res_allocator p)"
    and r: "r = \<lparr>ur_tid = fst (alloc_tid p), ur_ustack_base = base, ur_process = proc\<rparr>" and "res_ok r"
    and "\<forall>v \<in> set (ms_vpns (pi_memory_set p)). \<not> thread_page r v"
    and "\<forall>c \<in> set (ms_areas (pi_memory_set p)). \<not> thread_page r (vr_l (ma_vpn_range c))"
  shows "\<exists>a' ms' s' a'' ms'' s''.
    TaskUserRes_new proc base True (p, s) = Inr (r, p\<lparr>pi_task_res_allocator := a', pi_memory_set := ms'\<rparr>, s') \<and>
    TaskUserRes_drop r (p\<lparr>pi_task_res_allocator := a', pi_memory_set := ms'\<rparr>, s') =
      Inr (p\<lparr>pi_task_res_allocator := a'', pi_memory_set := ms''\<rparr>, s'') \<and>
    ur_tid r \<notin> ra_live (pi_task_res_allocator p) \<and> ra_live a' = insert (ur_tid r) (ra_live (pi_task_res_allocator p)) \<and>
    ra_live a'' = ra_live (pi_task_res_allocator p) \<and> fst (RecycleAllocator_alloc a'') = ur_tid r \<and>
    ms_ok l tr s' ms' \<and> ms_ok l tr s'' ms'' \<and> ms_areas ms'' = ms_areas (pi_memory_set p) \<and>
    (\<forall>v. vpn_ok v \<longrightarrow> v \<noteq> tramp_vpn \<longrightarrow>
       page_view (phys s') ms' v =
         (if thread_page r v then Some (thread_view r v, replicate 4096 0) else page_view (phys s) (pi_memory_set p) v) \<and>
       page_view (phys s'') ms'' v = page_view (phys s) (pi_memory_set p) v) \<and>
    inj_on (frame_of (phys s') ms') {v. thread_page r v} \<and>
    (\<forall>v. thread_page r v \<longrightarrow> (\<exists>f. frame_of (phys s') ms' v = Some f \<and>
       f \<in> mm_live l s' \<and> f \<notin> mm_live l s \<and> f \<notin> mm_live l s'')) \<and>
    mm_live l s'' = mm_live l s \<union> pt_frame_set (ms_page_table ms'')"
proof -
  obtain tid a' where al: "RecycleAllocator_alloc (pi_task_res_allocator p) = (tid, a')" by (rule prod.exhaust)
  then have at: "alloc_tid p = (tid, p\<lparr>pi_task_res_allocator := a'\<rparr>)" and tid: "ur_tid r = tid"
    by (simp_all add: alloc_tid_def r)
  note t = tid_comes_and_goes [OF assms(4,5) al]
  obtain a'' where a'': "RecycleAllocator_dealloc a' tid = Inr a''" "ra_live a'' = ra_live (pi_task_res_allocator p)"
      "fst (RecycleAllocator_alloc a'') = tid"
    using t(3) by blast
  obtain ms' s' ms'' s'' where 1: "TaskUserRes_alloc_user_res r (pi_memory_set p, s) = Inr (ms', s')"
      "TaskUserRes_dealloc_user_res r (ms', s') = Inr (ms'', s'')"
    and rest: "ms_ok l tr s' ms'" "ms_ok l tr s'' ms''" "ms_areas ms'' = ms_areas (pi_memory_set p)"
      "\<forall>v. vpn_ok v \<longrightarrow> v \<noteq> tramp_vpn \<longrightarrow>
         page_view (phys s') ms' v =
           (if thread_page r v then Some (thread_view r v, replicate 4096 0) else page_view (phys s) (pi_memory_set p) v) \<and>
         page_view (phys s'') ms'' v = page_view (phys s) (pi_memory_set p) v"
      "own_frames (phys s') ms' (thread_page r) (mm_live l s') (mm_live l s \<union> mm_live l s'')"
      "mm_live l s'' = mm_live l s \<union> pt_frame_set (ms_page_table ms'')"
    using thread_pages [OF assms(1,2,7,3,8,9)] by (elim exE conjE)
  have "TaskUserRes_new proc base True (p, s) = Inr (r, p\<lparr>pi_task_res_allocator := a', pi_memory_set := ms'\<rparr>, s')"
    using 1(1) at by (simp add: TaskUserRes_new_def r)
  moreover have "TaskUserRes_drop r (p\<lparr>pi_task_res_allocator := a', pi_memory_set := ms'\<rparr>, s') =
      Inr (p\<lparr>pi_task_res_allocator := a'', pi_memory_set := ms''\<rparr>, s'')"
    using 1(2) a''(1) tid by (simp add: TaskUserRes_drop_def TaskUserRes_dealloc_tid_def dealloc_tid_def)
  ultimately show ?thesis
    using t(1,2) a''(2,3) tid rest(1-4,6) rest(5) [unfolded own_frames_def]
    by (intro exI [of _ a'] exI [of _ ms'] exI [of _ s'] exI [of _ a''] exI [of _ ms''] exI [of _ s'']) simp
qed

text \<open>The first thread of a process without segments.\<close>

theorem thread_pages_come_and_go_witness:
  "\<exists>ms s p' s' p'' s''. bare_user = Inr (ms, s) \<and>
    TaskUserRes_new 0 0x20000 True (ProcessControlBlockInner_new ms 4 5 6, s) =
      Inr (\<lparr>ur_tid = 0, ur_ustack_base = 0x20000, ur_process = 0\<rparr>, p', s') \<and>
    TaskUserRes_drop \<lparr>ur_tid = 0, ur_ustack_base = 0x20000, ur_process = 0\<rparr> (p', s') = Inr (p'', s'') \<and>
    ms_areas (pi_memory_set p'') = [] \<and>
    mm_live 0x80400 s'' = mm_live 0x80400 s \<union> pt_frame_set (ms_page_table (pi_memory_set p''))"
proof -
  let ?r = "\<lparr>ur_tid = 0, ur_ustack_base = 0x20000, ur_process = 0\<rparr> :: TaskUserRes"
  obtain ms s where 1: "bare_user = Inr (ms, s)" "ms_ok 0x80400 0x80200000 s ms" "ms_areas ms = []" "0x7BFD \<le> mm_free s"
    using bare_user_ok by blast
  let ?p = "ProcessControlBlockInner_new ms 4 5 6"
  have f: "pi_memory_set ?p = ms" "pi_task_res_allocator ?p = RecycleAllocator_new"
    by (simp_all add: ProcessControlBlockInner_new_def)
  have fr: "all_framed (pi_memory_set ?p)" "ms_vpns (pi_memory_set ?p) = []"
    using 1(3) by (simp_all add: f all_framed_def ms_vpns_def)
  have ra: "ra_invar (pi_task_res_allocator ?p)" "0 < ra_free (pi_task_res_allocator ?p)"
    using ra_new_invar by (simp_all add: f)
  have r: "?r = \<lparr>ur_tid = fst (alloc_tid ?p), ur_ustack_base = 0x20000, ur_process = 0\<rparr>" "res_ok ?r"
    by (simp_all add: f alloc_tid_def RecycleAllocator_alloc_def RecycleAllocator_new_def res_ok_def aligned_def)
  have pre: "ms_ok 0x80400 0x80200000 s (pi_memory_set ?p)" "9 \<le> mm_free s"
    "\<forall>v \<in> set (ms_vpns (pi_memory_set ?p)). \<not> thread_page ?r v"
    "\<forall>c \<in> set (ms_areas (pi_memory_set ?p)). \<not> thread_page ?r (vr_l (ma_vpn_range c))"
    using 1 fr(2) by (simp_all add: f)
  obtain a' ms' s' a'' ms'' s'' where
    2: "TaskUserRes_new 0 0x20000 True (?p, s) = Inr (?r, ?p\<lparr>pi_task_res_allocator := a', pi_memory_set := ms'\<rparr>, s')"
      "TaskUserRes_drop ?r (?p\<lparr>pi_task_res_allocator := a', pi_memory_set := ms'\<rparr>, s') =
        Inr (?p\<lparr>pi_task_res_allocator := a'', pi_memory_set := ms''\<rparr>, s'')"
      "ms_areas ms'' = ms_areas (pi_memory_set ?p)"
      "mm_live 0x80400 s'' = mm_live 0x80400 s \<union> pt_frame_set (ms_page_table ms'')"
    using thread_pages_come_and_go [OF pre(1) fr(1) pre(2) ra r pre(3,4)]
    by (elim exE conjE) (rule that)
  show ?thesis
    by (rule exI [of _ ms], rule exI [of _ s],
        rule exI [of _ "?p\<lparr>pi_task_res_allocator := a', pi_memory_set := ms'\<rparr>"], rule exI [of _ s'],
        rule exI [of _ "?p\<lparr>pi_task_res_allocator := a'', pi_memory_set := ms''\<rparr>"], rule exI [of _ s''])
      (use 1(1,3) 2 in \<open>simp add: f\<close>)
qed

end
