(* ===== verification/Trap_Context.thy ===== *)
theory Trap_Context
  imports Phys_Mem
begin

text \<open>
  The saved registers: \<open>TrapContext\<close> (\<^verbatim>\<open>os/src/trap/context.rs\<close>), which lies in a page of its own at the layout of
  \<^verbatim>\<open>repr(C)\<close>, 37 eight-byte fields in a row, and \<open>TaskContext\<close> (\<^verbatim>\<open>os/src/task/context.rs\<close>). The status register
  read by \<open>app_init_context\<close>, with the previous privilege set to user, is an argument.
\<close>

section \<open>Trap contexts\<close>

record TrapContext =
  cx_x :: "usize list"
  cx_sstatus :: usize
  cx_sepc :: usize
  cx_kernel_satp :: usize
  cx_kernel_sp :: usize
  cx_trap_handler :: usize

definition TrapContext_set_sp :: "usize \<Rightarrow> TrapContext \<Rightarrow> TrapContext outcome" where
  "TrapContext_set_sp sp cx = and_then (array_update (cx_x cx) 2 sp) (\<lambda>x. Inr (cx\<lparr>cx_x := x\<rparr>))"

definition TrapContext_app_init_context :: "usize \<Rightarrow> usize \<Rightarrow> usize \<Rightarrow> usize \<Rightarrow> usize \<Rightarrow> usize \<Rightarrow> TrapContext outcome" where
  "TrapContext_app_init_context user_sstatus entry sp kernel_satp kernel_sp trap_handler =
     TrapContext_set_sp sp
       \<lparr>cx_x = replicate 32 0, cx_sstatus = user_sstatus, cx_sepc = entry, cx_kernel_satp = kernel_satp,
        cx_kernel_sp = kernel_sp, cx_trap_handler = trap_handler\<rparr>"

text \<open>The fields in memory order, and where they are from the start of the page.\<close>

definition cx_words :: "TrapContext \<Rightarrow> usize list" where
  "cx_words cx = cx_x cx @ [cx_sstatus cx, cx_sepc cx, cx_kernel_satp cx, cx_kernel_sp cx, cx_trap_handler cx]"

definition cx_x_at :: "nat \<Rightarrow> usize" where "cx_x_at i = 8 * of_nat i"
definition cx_sepc_at :: usize where "cx_sepc_at = 8 * 33"
definition cx_kernel_sp_at :: usize where "cx_kernel_sp_at = 8 * 35"

definition write_cx :: "mem \<Rightarrow> usize \<Rightarrow> TrapContext \<Rightarrow> mem" where
  "write_cx m a cx = write_bytes m a (le_words_bytes (cx_words cx))"

definition words_at :: "mem \<Rightarrow> usize \<Rightarrow> nat \<Rightarrow> usize list" where
  "words_at m a n = map (\<lambda>i. read_u64 m (a + 8 * of_nat i)) [0..<n]"

definition cx_of_words :: "usize list \<Rightarrow> TrapContext" where
  "cx_of_words ws =
     \<lparr>cx_x = take 32 ws, cx_sstatus = ws ! 32, cx_sepc = ws ! 33, cx_kernel_satp = ws ! 34, cx_kernel_sp = ws ! 35,
      cx_trap_handler = ws ! 36\<rparr>"

definition read_cx :: "mem \<Rightarrow> usize \<Rightarrow> TrapContext" where
  "read_cx m a = cx_of_words (words_at m a 37)"

section \<open>Task contexts\<close>

record TaskContext =
  tc_ra :: usize
  tc_sp :: usize
  tc_s :: "usize list"

definition TaskContext_zero_init :: TaskContext where
  "TaskContext_zero_init = \<lparr>tc_ra = 0, tc_sp = 0, tc_s = replicate 12 0\<rparr>"

text \<open>\<open>trap_return\<close> is the address of that function.\<close>

definition TaskContext_goto_trap_return :: "usize \<Rightarrow> usize \<Rightarrow> TaskContext" where
  "TaskContext_goto_trap_return trap_return kstack_ptr = \<lparr>tc_ra = trap_return, tc_sp = kstack_ptr, tc_s = replicate 12 0\<rparr>"

section \<open>Reading back\<close>

lemma length_words_at [simp]: "length (words_at m a n) = n"
  by (simp add: words_at_def)

lemma nth_le_words_bytes:
  "i < length ws \<Longrightarrow> take 8 (drop (8 * i) (le_words_bytes (ws :: usize list))) = le_bytes (ws ! i)"
proof (induction ws arbitrary: i)
  case (Cons w ws)
  then show ?case by (cases i) (simp_all add: le_words_bytes_def)
qed simp

lemma unat_word_offset: "8 * i + j < 2 ^ 64 \<Longrightarrow> unat (8 * of_nat i + of_nat j :: usize) = 8 * i + j"
  using unat_of_nat_usize [of "8 * i + j"] by simp

lemma words_at_written:
  assumes "length ws < 1000"
  shows "words_at (write_bytes m a (le_words_bytes ws)) a (length ws) = ws"
proof (rule nth_equalityI)
  fix i assume "i < length (words_at (write_bytes m a (le_words_bytes ws)) a (length ws))"
  then have i: "i < length ws" by simp
  have "read_bytes (write_bytes m a (le_words_bytes ws)) (a + 8 * of_nat i) 8 = take 8 (drop (8 * i) (le_words_bytes ws))"
    (is "?l = ?r")
  proof (rule nth_equalityI)
    fix j assume "j < length ?l"
    then have j: "j < 8" by simp
    have "unat (8 * of_nat i + of_nat j :: usize) = 8 * i + j" using i j assms by (intro unat_word_offset) simp
    moreover have "8 * i + j < 8 * length ws" using i j by linarith
    ultimately show "?l ! j = ?r ! j" using j by (simp add: read_bytes_def write_bytes_def add.assoc)
  qed (use i in simp)
  then show "words_at (write_bytes m a (le_words_bytes ws)) a (length ws) ! i = ws ! i"
    using i by (simp add: words_at_def read_u64_def nth_le_words_bytes)
qed simp

lemma read_write_cx:
  assumes "length (cx_x cx) = 32"
  shows "read_cx (write_cx m a cx) a = cx"
proof -
  have len: "length (cx_words cx) = 37" using assms by (simp add: cx_words_def)
  then have "words_at (write_cx m a cx) a 37 = cx_words cx"
    using words_at_written [of "cx_words cx" m a] by (simp add: write_cx_def)
  then show ?thesis using assms by (simp add: read_cx_def cx_of_words_def cx_words_def nth_append)
qed

text \<open>A field that is written alone leaves the others as they are.\<close>

lemma word_regions_apart:
  assumes "i < 1000" "k < 1000" "i \<noteq> k"
  shows "disjoint_regions (a + 8 * of_nat k) 8 (a + 8 * of_nat i) 8"
  unfolding disjoint_regions_def
proof (intro allI impI)
  fix j :: nat assume j: "j < 8"
  have "unat (8 * of_nat i + of_nat j :: usize) = 8 * i + j" "unat (8 * of_nat k :: usize) = 8 * k"
    using assms j unat_word_offset [of i j] unat_word_offset [of k 0] by simp_all
  then have "8 \<le> unat (8 * of_nat i + of_nat j - 8 * of_nat k :: usize)"
    using assms j by (intro unat_sub_far; cases "i < k") simp_all
  then show "8 \<le> unat (a + 8 * of_nat i + of_nat j - (a + 8 * of_nat k))" by (simp add: algebra_simps)
qed

lemma words_at_update:
  assumes "k < n" "n < 1000"
  shows "words_at (write_u64 m (a + 8 * of_nat k) v) a n = (words_at m a n)[k := v]"
proof (rule nth_equalityI)
  fix i assume "i < length (words_at (write_u64 m (a + 8 * of_nat k) v) a n)"
  then show "words_at (write_u64 m (a + 8 * of_nat k) v) a n ! i = (words_at m a n)[k := v] ! i"
    using assms read_u64_write_other [OF word_regions_apart [of i k a]] by (cases "i = k") (simp_all add: words_at_def)
qed simp

lemma read_cx_update: "k < 37 \<Longrightarrow> read_cx (write_u64 m (a + 8 * of_nat k) v) a = cx_of_words ((words_at m a 37)[k := v])"
  by (simp add: read_cx_def words_at_update)

lemma read_cx_set_x: "k < 32 \<Longrightarrow> read_cx (write_u64 m (a + cx_x_at k) v) a = (read_cx m a)\<lparr>cx_x := (cx_x (read_cx m a))[k := v]\<rparr>"
  unfolding cx_x_at_def by (subst read_cx_update) (simp_all add: read_cx_def cx_of_words_def take_update_swap)

lemma read_cx_set_sepc: "read_cx (write_u64 m (a + cx_sepc_at) v) a = (read_cx m a)\<lparr>cx_sepc := v\<rparr>"
  using read_cx_update [of 33 m a v] by (simp add: cx_sepc_at_def cx_of_words_def read_cx_def)

lemma read_cx_set_kernel_sp: "read_cx (write_u64 m (a + cx_kernel_sp_at) v) a = (read_cx m a)\<lparr>cx_kernel_sp := v\<rparr>"
  using read_cx_update [of 35 m a v] by (simp add: cx_kernel_sp_at_def cx_of_words_def read_cx_def)

lemma app_init_context:
  "TrapContext_app_init_context user_sstatus entry sp kernel_satp kernel_sp trap_handler =
     Inr \<lparr>cx_x = (replicate 32 0)[2 := sp], cx_sstatus = user_sstatus, cx_sepc = entry, cx_kernel_satp = kernel_satp,
        cx_kernel_sp = kernel_sp, cx_trap_handler = trap_handler\<rparr>"
  by (simp add: TrapContext_app_init_context_def TrapContext_set_sp_def array_update_def)

end
