(* ===== verification/Syscall_Sync.thy ===== *)
theory Syscall_Sync
  imports Process_Block
begin

text \<open>
  The system calls for threads that wait (\<^verbatim>\<open>os/src/syscall/sync.rs\<close>): sleeping, mutexes, semaphores, condition
  variables, and the detection of deadlocks. Each is a function of the caller's thread id, the block of its
  process and the scheduler. The first component of a result is the return value, or \<open>None\<close> when the call has given up the
  processor; a semaphore or blocking mutex then returns 0 when the task is resumed, a spin mutex and a condition variable go on
  with \<open>lock_mutex\<close>.
\<close>

section \<open>Sleeping\<close>

definition sys_sleep :: "usize \<Rightarrow> usize \<Rightarrow> TimerCondVar list \<Rightarrow> sched \<Rightarrow> (TimerCondVar list \<times> sched) outcome" where
  "sys_sleep now ms timers s =
     (let expire = get_time_ms now + ms in
      and_then (current_task s) (\<lambda>t.
      let timers = add_timer expire t timers in
      and_then (block_current_and_run_next s) (\<lambda>s. Inr (timers, s))))"

section \<open>Tables\<close>

text \<open>The loops \<^verbatim>\<open>while v.len() < n { v.push(0) }\<close>, and the search for a free slot.\<close>

definition pad :: "nat \<Rightarrow> usize list \<Rightarrow> usize list" where
  "pad n xs = xs @ replicate (n - length xs) 0"

definition fill_slot :: "'a \<Rightarrow> 'a option list \<Rightarrow> nat \<times> 'a option list" where
  "fill_slot x xs =
     (case position (\<lambda>item. item = None) xs of
        Some i \<Rightarrow> (i, xs[i := Some x])
      | None \<Rightarrow> (length (xs @ [Some x]) - 1, xs @ [Some x]))"

definition table_update :: "usize list list \<Rightarrow> nat \<Rightarrow> nat \<Rightarrow> (usize \<Rightarrow> usize) \<Rightarrow> usize list list outcome" where
  "table_update tab i j f =
     and_then (array_index tab i) (\<lambda>row.
     and_then (array_index row j) (\<lambda>v.
     array_update tab i (row[j := f v])))"

definition pad_row :: "nat \<Rightarrow> usize list list \<Rightarrow> nat \<Rightarrow> usize list list outcome" where
  "pad_row n tab i = and_then (array_index tab i) (\<lambda>row. array_update tab i (pad n row))"

definition DEADLOCK :: isize where
  "DEADLOCK = - 0xDEAD"

section \<open>Mutexes\<close>

definition sys_mutex_create :: "bool \<Rightarrow> ProcessControlBlockInner \<Rightarrow> isize \<times> ProcessControlBlockInner" where
  "sys_mutex_create blocking p =
     (let mutex = (if \<not> blocking then Spin MutexSpin_new else Blocking MutexBlocking_new);
          (i, mutexes) = fill_slot mutex (pi_mutex_list p);
          available = pad (i + 1) (pi_mutex_available p) in
      (of_nat i, p\<lparr>pi_mutex_list := mutexes, pi_mutex_available := available[i := 1]\<rparr>))"

text \<open>\<open>mutex.lock()\<close> and \<open>mutex.unlock()\<close> on a mutex of the process.\<close>

definition the_mutex :: "usize \<Rightarrow> ProcessControlBlockInner \<Rightarrow> Mutex outcome" where
  "the_mutex mutex_id p = and_then (vec_index (pi_mutex_list p) mutex_id) unwrap"

definition lock_mutex ::
  "usize \<Rightarrow> ProcessControlBlockInner \<Rightarrow> sched \<Rightarrow> (isize option \<times> ProcessControlBlockInner \<times> sched) outcome" where
  "lock_mutex mutex_id p s =
     and_then (the_mutex mutex_id p) (\<lambda>m.
     and_then (Mutex_lock m s) (\<lambda>(done, m, s).
     Inr (if done then Some 0 else None, p\<lparr>pi_mutex_list := (pi_mutex_list p)[unat mutex_id := Some m]\<rparr>, s)))"

text \<open>One round of the first loop of \<open>sys_mutex_lock\<close>: the rows get their columns together, and the caller's need grows.\<close>

definition note_need :: "usize \<Rightarrow> usize \<Rightarrow> nat \<Rightarrow> ProcessControlBlockInner \<Rightarrow> ProcessControlBlockInner outcome" where
  "note_need mutex_id cur_tid tid p =
     and_then (array_index (pi_mutex_need p) tid) (\<lambda>row.
     let zeros = replicate (unat mutex_id + 1 - length row) 0 in
     and_then (array_update (pi_mutex_need p) tid (row @ zeros)) (\<lambda>need.
     and_then (if zeros = [] then Inr (pi_mutex_allocation p)
               else and_then (array_index (pi_mutex_allocation p) tid) (\<lambda>row.
                    array_update (pi_mutex_allocation p) tid (row @ zeros))) (\<lambda>allocation.
     and_then (if unat cur_tid = tid then table_update need tid (unat mutex_id) (\<lambda>v. v + 1) else Inr need) (\<lambda>need.
     Inr (p\<lparr>pi_mutex_need := need, pi_mutex_allocation := allocation\<rparr>)))))"

text \<open>The search for a thread whose need can be met, on \<open>(work, finish, is_found)\<close>.\<close>

definition mutex_detect_one ::
  "usize \<Rightarrow> ProcessControlBlockInner \<Rightarrow> nat \<Rightarrow> usize list \<times> bool list \<times> bool \<Rightarrow> (usize list \<times> bool list \<times> bool) outcome" where
  "mutex_detect_one mutex_id p tid = (\<lambda>(work, finish, is_found).
     and_then (array_index finish tid) (\<lambda>fin.
     if fin then Inr (work, finish, is_found)
     else
     and_then (array_index (pi_mutex_need p) tid) (\<lambda>need.
     and_then (vec_index need mutex_id) (\<lambda>n.
     and_then (vec_index work mutex_id) (\<lambda>w.
     if n \<le> w
     then and_then (array_index (pi_mutex_allocation p) tid) (\<lambda>alloc.
          and_then (vec_index alloc mutex_id) (\<lambda>a.
          and_then (vec_update work mutex_id (w + a)) (\<lambda>work.
          Inr (work, finish[tid := True], True))))
     else Inr (work, finish, is_found))))))"

definition mutex_detect :: "usize \<Rightarrow> ProcessControlBlockInner \<Rightarrow> bool outcome" where
  "mutex_detect mutex_id p =
     and_then (for_each (mutex_detect_one mutex_id p) [0..<length (pi_tasks p)]
       (pi_mutex_available p, replicate (length (pi_tasks p)) False, False)) (\<lambda>(work, finish, is_found).
     Inr (\<not> is_found \<and> \<not> list_all (\<lambda>value. value) finish))"

definition sys_mutex_lock ::
  "usize \<Rightarrow> usize \<Rightarrow> ProcessControlBlockInner \<Rightarrow> sched \<Rightarrow> (isize option \<times> ProcessControlBlockInner \<times> sched) outcome" where
  "sys_mutex_lock mutex_id cur_tid p s =
     and_then (the_mutex mutex_id p) (\<lambda>_.
     and_then (for_each (note_need mutex_id cur_tid) [0..<length (pi_tasks p)] p) (\<lambda>p.
     and_then (if pi_deadlock_detect p then mutex_detect mutex_id p else Inr False) (\<lambda>dead.
     if dead then Inr (Some DEADLOCK, p, s)
     else
     and_then (vec_index (pi_mutex_available p) mutex_id) (\<lambda>v.
     and_then (vec_update (pi_mutex_available p) mutex_id (v - 1)) (\<lambda>available.
     and_then (table_update (pi_mutex_allocation p) (unat cur_tid) (unat mutex_id) (\<lambda>v. v + 1)) (\<lambda>allocation.
     and_then (table_update (pi_mutex_need p) (unat cur_tid) (unat mutex_id) (\<lambda>v. v - 1)) (\<lambda>need.
     lock_mutex mutex_id
       (p\<lparr>pi_mutex_available := available, pi_mutex_allocation := allocation, pi_mutex_need := need\<rparr>) s)))))))"

definition sys_mutex_unlock ::
  "usize \<Rightarrow> usize \<Rightarrow> ProcessControlBlockInner \<Rightarrow> sched \<Rightarrow> (isize \<times> ProcessControlBlockInner \<times> sched) outcome" where
  "sys_mutex_unlock mutex_id cur_tid p s =
     and_then (the_mutex mutex_id p) (\<lambda>m.
     and_then (vec_index (pi_mutex_available p) mutex_id) (\<lambda>v.
     and_then (vec_update (pi_mutex_available p) mutex_id (v + 1)) (\<lambda>available.
     and_then (table_update (pi_mutex_allocation p) (unat cur_tid) (unat mutex_id) (\<lambda>v. v - 1)) (\<lambda>allocation.
     and_then (Mutex_unlock m s) (\<lambda>(m, s).
     Inr (0, p\<lparr>pi_mutex_available := available, pi_mutex_allocation := allocation,
       pi_mutex_list := (pi_mutex_list p)[unat mutex_id := Some m]\<rparr>, s))))))"

section \<open>Semaphores\<close>

definition sys_semaphore_create :: "usize \<Rightarrow> ProcessControlBlockInner \<Rightarrow> (isize \<times> ProcessControlBlockInner) outcome" where
  "sys_semaphore_create res_count p =
     (let (i, sems) = fill_slot (Semaphore_new res_count) (pi_semaphore_list p);
          available = pad (i + 1) (pi_semaphore_available p);
          p = p\<lparr>pi_semaphore_list := sems, pi_semaphore_available := available[i := res_count]\<rparr> in
      and_then (for_each (\<lambda>tid p.
          and_then (pad_row (i + 1) (pi_semaphore_allocation p) tid) (\<lambda>allocation.
          and_then (pad_row (i + 1) (pi_semaphore_need p) tid) (\<lambda>need.
          Inr (p\<lparr>pi_semaphore_allocation := allocation, pi_semaphore_need := need\<rparr>))))
        [0..<length (pi_tasks p)] p) (\<lambda>p. Inr (of_nat i, p)))"

definition the_semaphore :: "usize \<Rightarrow> ProcessControlBlockInner \<Rightarrow> Semaphore outcome" where
  "the_semaphore sem_id p = and_then (vec_index (pi_semaphore_list p) sem_id) unwrap"

definition sys_semaphore_up ::
  "usize \<Rightarrow> usize \<Rightarrow> ProcessControlBlockInner \<Rightarrow> sched \<Rightarrow> (isize \<times> ProcessControlBlockInner \<times> sched) outcome" where
  "sys_semaphore_up sem_id cur_tid p s =
     and_then (the_semaphore sem_id p) (\<lambda>sem.
     and_then (vec_index (pi_semaphore_available p) sem_id) (\<lambda>v.
     and_then (vec_update (pi_semaphore_available p) sem_id (v + 1)) (\<lambda>available.
     and_then (pad_row (unat sem_id + 1) (pi_semaphore_allocation p) (unat cur_tid)) (\<lambda>allocation.
     and_then (table_update allocation (unat cur_tid) (unat sem_id) (\<lambda>v. v - 1)) (\<lambda>allocation.
     let (sem, s) = Semaphore_up sem s in
     Inr (0, p\<lparr>pi_semaphore_available := available, pi_semaphore_allocation := allocation,
       pi_semaphore_list := (pi_semaphore_list p)[unat sem_id := Some sem]\<rparr>, s))))))"

text \<open>
  The loop of the safety check, on the tables \<open>need\<close> and \<open>allocation\<close>, whose rows it pads on the way, the vectors
  \<open>work\<close> and \<open>finish\<close>, and the flag \<open>is_found\<close>.
\<close>

type_synonym detection = "usize list list \<times> usize list list \<times> usize list \<times> bool list \<times> bool"

text \<open>The scan of a row along \<open>work\<close>; it touches the row only when there is a column.\<close>

definition scan_row :: "usize list list \<Rightarrow> usize list \<Rightarrow> nat \<Rightarrow> (usize list \<times> usize list list) outcome" where
  "scan_row tab work tid =
     (if work = [] then Inr ([], tab)
      else and_then (pad_row (length work) tab tid) (\<lambda>tab. Inr (tab ! tid, tab)))"

definition semaphore_detect_one :: "nat \<Rightarrow> detection \<Rightarrow> detection outcome" where
  "semaphore_detect_one tid = (\<lambda>(need, allocation, work, finish, is_found).
     and_then (scan_row need work tid) (\<lambda>(row, need).
     let valid = list_all (\<lambda>i. row ! i \<le> work ! i) [0..<length work] in
     and_then (array_index finish tid) (\<lambda>fin.
     if \<not> fin \<and> valid
     then and_then (scan_row allocation work tid) (\<lambda>(row, allocation).
          Inr (need, allocation, map (\<lambda>i. work ! i + row ! i) [0..<length work], finish[tid := True], True))
     else Inr (need, allocation, work, finish, is_found))))"

definition semaphore_detect_round :: "nat \<Rightarrow> detection \<Rightarrow> detection outcome" where
  "semaphore_detect_round n = (\<lambda>(need, allocation, work, finish, _).
     for_each semaphore_detect_one [0..<n] (need, allocation, work, finish, False))"

definition unfinished :: "bool list \<Rightarrow> nat" where
  "unfinished finish = length (filter Not finish)"

lemma unfinished_update:
  assumes "i < length finish" "\<not> finish ! i"
  shows "unfinished (finish[i := True]) < unfinished finish"
proof -
  have "unfinished finish = unfinished (take i finish @ finish ! i # drop (Suc i) finish)"
    using arg_cong [OF id_take_nth_drop [OF assms(1)], of unfinished] .
  also have "\<dots> = Suc (unfinished (take i finish) + unfinished (drop (Suc i) finish))"
    using assms(2) by (simp add: unfinished_def)
  finally show ?thesis using assms(1) by (simp add: unfinished_def upd_conv_take_nth_drop)
qed

definition advances :: "detection \<Rightarrow> detection \<Rightarrow> bool" where
  "advances d d' \<longleftrightarrow> (case (d, d') of ((_, _, _, finish, found), (_, _, _, finish', found')) \<Rightarrow>
     unfinished finish' \<le> unfinished finish \<and> (found' \<longrightarrow> found \<or> unfinished finish' < unfinished finish))"

lemma detect_one_advances:
  assumes "semaphore_detect_one tid d = Inr d'"
  shows "advances d d'"
proof -
  obtain need allocation work finish found where d: "d = (need, allocation, work, finish, found)" by (cases d)
  have "\<exists>need' allocation' work' found'. d' = (need', allocation', work', finish, found) \<or>
      tid < length finish \<and> \<not> finish ! tid \<and> d' = (need', allocation', work', finish[tid := True], True)"
    using assms unfolding d semaphore_detect_one_def
    by (auto simp: Let_def array_index_def and_then_def split: if_splits sum.splits prod.splits)
  then show ?thesis using unfinished_update [of tid finish] by (auto simp: advances_def d)
qed

lemma for_each_advances: "for_each semaphore_detect_one ts d = Inr d' \<Longrightarrow> advances d d'"
proof (induction ts arbitrary: d)
  case Nil
  then show ?case by (simp add: advances_def split: prod.split)
next
  case (Cons t ts)
  then obtain d1 where d1: "semaphore_detect_one t d = Inr d1" "for_each semaphore_detect_one ts d1 = Inr d'"
    by (auto simp: and_then_def split: sum.splits)
  have "advances d d1" "advances d1 d'" using detect_one_advances [OF d1(1)] Cons.IH [OF d1(2)] .
  then show ?case by (cases d; cases d1; cases d') (auto simp: advances_def)
qed

function semaphore_detect_loop :: "nat \<Rightarrow> detection \<Rightarrow> (bool \<times> usize list list \<times> usize list list) outcome" where
  "semaphore_detect_loop n (need, allocation, work, finish, found) =
     (case semaphore_detect_round n (need, allocation, work, finish, found) of
        Inl e \<Rightarrow> Inl e
      | Inr (need, allocation, work, finish, is_found) \<Rightarrow>
          if \<not> is_found then Inr (\<not> list_all (\<lambda>value. value) finish, need, allocation)
          else semaphore_detect_loop n (need, allocation, work, finish, is_found))"
  by pat_completeness auto
termination
  by (relation "measure (\<lambda>(n, need, allocation, work, finish, found). unfinished finish)")
    (auto simp: semaphore_detect_round_def advances_def dest!: for_each_advances)

declare semaphore_detect_loop.simps [simp del]

definition semaphore_detect :: "ProcessControlBlockInner \<Rightarrow> (bool \<times> ProcessControlBlockInner) outcome" where
  "semaphore_detect p =
     and_then (semaphore_detect_loop (length (pi_tasks p))
       (pi_semaphore_need p, pi_semaphore_allocation p, pi_semaphore_available p,
        replicate (length (pi_tasks p)) False, False)) (\<lambda>(dead, need, allocation).
     Inr (dead, p\<lparr>pi_semaphore_need := need, pi_semaphore_allocation := allocation\<rparr>))"

text \<open>The bookkeeping of a unit that is taken at once.\<close>

definition take_unit :: "usize \<Rightarrow> usize \<Rightarrow> ProcessControlBlockInner \<Rightarrow> ProcessControlBlockInner outcome" where
  "take_unit sem_id cur_tid p =
     and_then (vec_index (pi_semaphore_available p) sem_id) (\<lambda>v.
     if 1 \<le> v
     then and_then (vec_update (pi_semaphore_available p) sem_id (v - 1)) (\<lambda>available.
          and_then (pad_row (unat sem_id + 1) (pi_semaphore_allocation p) (unat cur_tid)) (\<lambda>allocation.
          and_then (table_update allocation (unat cur_tid) (unat sem_id) (\<lambda>v. v + 1)) (\<lambda>allocation.
          and_then (table_update (pi_semaphore_need p) (unat cur_tid) (unat sem_id) (\<lambda>v. v - 1)) (\<lambda>need.
          Inr (p\<lparr>pi_semaphore_available := available, pi_semaphore_allocation := allocation, pi_semaphore_need := need\<rparr>)))))
     else Inr p)"

definition down_semaphore ::
  "usize \<Rightarrow> ProcessControlBlockInner \<Rightarrow> sched \<Rightarrow> (isize option \<times> ProcessControlBlockInner \<times> sched) outcome" where
  "down_semaphore sem_id p s =
     and_then (the_semaphore sem_id p) (\<lambda>sem.
     and_then (Semaphore_down sem s) (\<lambda>(done, sem, s).
     Inr (if done then Some 0 else None, p\<lparr>pi_semaphore_list := (pi_semaphore_list p)[unat sem_id := Some sem]\<rparr>, s)))"

definition sys_semaphore_down ::
  "usize \<Rightarrow> usize \<Rightarrow> ProcessControlBlockInner \<Rightarrow> sched \<Rightarrow> (isize option \<times> ProcessControlBlockInner \<times> sched) outcome" where
  "sys_semaphore_down sem_id cur_tid p s =
     and_then (the_semaphore sem_id p) (\<lambda>_.
     and_then (pad_row (unat sem_id + 1) (pi_semaphore_need p) (unat cur_tid)) (\<lambda>need.
     and_then (table_update need (unat cur_tid) (unat sem_id) (\<lambda>v. v + 1)) (\<lambda>need.
     let p = p\<lparr>pi_semaphore_need := need\<rparr> in
     and_then (if pi_deadlock_detect p then semaphore_detect p else Inr (False, p)) (\<lambda>(dead, p).
     if dead then Inr (Some DEADLOCK, p, s)
     else and_then (take_unit sem_id cur_tid p) (\<lambda>p. down_semaphore sem_id p s)))))"

section \<open>Condition variables\<close>

definition sys_condvar_create :: "ProcessControlBlockInner \<Rightarrow> isize \<times> ProcessControlBlockInner" where
  "sys_condvar_create p =
     (let (i, condvars) = fill_slot Condvar_new (pi_condvar_list p) in (of_nat i, p\<lparr>pi_condvar_list := condvars\<rparr>))"

definition the_condvar :: "usize \<Rightarrow> ProcessControlBlockInner \<Rightarrow> Condvar outcome" where
  "the_condvar condvar_id p = and_then (vec_index (pi_condvar_list p) condvar_id) unwrap"

definition sys_condvar_signal ::
  "usize \<Rightarrow> ProcessControlBlockInner \<Rightarrow> sched \<Rightarrow> (isize \<times> ProcessControlBlockInner \<times> sched) outcome" where
  "sys_condvar_signal condvar_id p s =
     and_then (the_condvar condvar_id p) (\<lambda>cv.
     let (cv, s) = Condvar_signal cv s in
     Inr (0, p\<lparr>pi_condvar_list := (pi_condvar_list p)[unat condvar_id := Some cv]\<rparr>, s))"

definition sys_condvar_wait ::
  "usize \<Rightarrow> usize \<Rightarrow> ProcessControlBlockInner \<Rightarrow> sched \<Rightarrow> (ProcessControlBlockInner \<times> sched) outcome" where
  "sys_condvar_wait condvar_id mutex_id p s =
     and_then (the_condvar condvar_id p) (\<lambda>cv.
     and_then (the_mutex mutex_id p) (\<lambda>m.
     and_then (Condvar_wait cv m s) (\<lambda>(cv, m, s).
     Inr (p\<lparr>pi_condvar_list := (pi_condvar_list p)[unat condvar_id := Some cv],
       pi_mutex_list := (pi_mutex_list p)[unat mutex_id := Some m]\<rparr>, s))))"

definition sys_enable_deadlock_detect :: "usize \<Rightarrow> ProcessControlBlockInner \<Rightarrow> isize \<times> ProcessControlBlockInner" where
  "sys_enable_deadlock_detect enabled p =
     (if enabled = 1 then (0, p\<lparr>pi_deadlock_detect := True\<rparr>)
      else if enabled = 0 then (0, p\<lparr>pi_deadlock_detect := False\<rparr>)
      else (- 1, p))"

end
