(* ===== verification/Kernel.thy ===== *)
theory Kernel
  imports Task_Ids Kernel_Files Trap_Context Syscall_Sync
begin

unbundle bit_operations_syntax

text \<open>
  The kernel as a whole: its global variables, the control blocks of processes and tasks, and the operations on them
  (\<^verbatim>\<open>os/src/task/task.rs\<close>, \<^verbatim>\<open>process.rs\<close>, \<^verbatim>\<open>mod.rs\<close>, and what is left of \<^verbatim>\<open>manager.rs\<close> and \<^verbatim>\<open>processor.rs\<close>).
  Control blocks, open files and ring buffers are reached through their identity. A strong reference
  (\<^verbatim>\<open>Arc\<close>) keeps its target alive; the references are counted over the whole state, those on the kernel stacks of suspended
  calls included, and the target is dropped with the last one, the way \<^verbatim>\<open>Drop\<close> does it.
\<close>

section \<open>State\<close>

text \<open>Calls that end in a result, in a panic, or, as \<open>None\<close>, never.\<close>

definition and_run :: "'a outcome option \<Rightarrow> ('a \<Rightarrow> 'b outcome option) \<Rightarrow> 'b outcome option" where
  "and_run r f = (case r of None \<Rightarrow> None | Some (Inl e) \<Rightarrow> Some (Inl e) | Some (Inr x) \<Rightarrow> f x)"

lemma and_run_simps [simp]: "and_run None f = None" "and_run (Some (Inl e)) f = Some (Inl e)" "and_run (Some (Inr x)) f = f x"
  by (simp_all add: and_run_def)

text \<open>
  What a task that is suspended inside the kernel does when it runs again, with the references its kernel stack
  holds: a blocked task refers to itself (the local variable of \<open>block_current_and_run_next\<close>), the file calls and those of
  semaphores and condition variables to their process, a file call to its file.
\<close>

datatype pending =
    Preempted
  | Yielded
  | Sleeping
  | MutexWait
  | MutexSpinning usize
  | SemaphoreWait process
  | CondvarWait process usize
  | CondvarLockWait process
  | CondvarSpinning process usize
  | StdinReading process open_file UserBuffer
  | PipeReading process open_file pipe_call
  | PipeWriting process open_file pipe_call

fun pending_self :: "pending \<Rightarrow> bool" where
  "pending_self Sleeping = True"
| "pending_self MutexWait = True"
| "pending_self (SemaphoreWait p) = True"
| "pending_self (CondvarWait p m) = True"
| "pending_self (CondvarLockWait p) = True"
| "pending_self _ = False"

fun pending_process :: "pending \<Rightarrow> process option" where
  "pending_process (SemaphoreWait p) = Some p"
| "pending_process (CondvarWait p m) = Some p"
| "pending_process (CondvarLockWait p) = Some p"
| "pending_process (CondvarSpinning p m) = Some p"
| "pending_process (StdinReading p f b) = Some p"
| "pending_process (PipeReading p f c) = Some p"
| "pending_process (PipeWriting p f c) = Some p"
| "pending_process _ = None"

fun pending_file :: "pending \<Rightarrow> open_file option" where
  "pending_file (StdinReading p f b) = Some f"
| "pending_file (PipeReading p f c) = Some f"
| "pending_file (PipeWriting p f c) = Some f"
| "pending_file _ = None"

text \<open>The status of a task is kept by the scheduler.\<close>

record TaskControlBlock =
  tcb_process :: process
  tcb_kstack :: usize
  tcb_res :: "TaskUserRes option"
  tcb_trap_cx_ppn :: PhysPageNum
  tcb_task_cx :: TaskContext
  tcb_exit_code :: "i32 option"

record ProcessControlBlock =
  pcb_pid :: usize
  pcb_inner :: ProcessControlBlockInner

record 's kernel =
  k_mm :: mm
  k_space :: MemorySet
  k_sched :: sched
  k_timers :: "TimerCondVar list"
  k_pids :: RecycleAllocator
  k_kstacks :: RecycleAllocator
  k_pid2pcb :: "(usize, process) btree"
  k_procs :: "process \<Rightarrow> ProcessControlBlock option"
  k_next_proc :: nat
  k_tasks :: "task \<Rightarrow> TaskControlBlock option"
  k_next_task :: nat
  k_files :: "open_file \<Rightarrow> File option"
  k_next_file :: nat
  k_rings :: "nat \<Rightarrow> PipeRingBuffer option"
  k_next_ring :: nat
  k_pending :: "task \<Rightarrow> pending option"
  k_initproc :: "process option"
  k_fs :: 's
  k_console :: "u8 list"
  k_trigger :: usize
  k_halted :: "bool option"

text \<open>What the kernel is linked with and runs on: the file system, the ELF parser, addresses of code, the status register.\<close>

record 's env =
  ev_store :: "'s store"
  ev_efs :: EasyFileSystem
  ev_parse :: "u8 list \<Rightarrow> ElfFile option"
  ev_strampoline :: usize
  ev_trap_handler :: usize
  ev_trap_return :: usize
  ev_user_sstatus :: usize

definition the_inner :: "process \<Rightarrow> 's kernel \<Rightarrow> ProcessControlBlockInner outcome" where
  "the_inner p k = and_then (unwrap (k_procs k p)) (\<lambda>b. Inr (pcb_inner b))"

definition the_pid :: "process \<Rightarrow> 's kernel \<Rightarrow> usize outcome" where
  "the_pid p k = and_then (unwrap (k_procs k p)) (\<lambda>b. Inr (pcb_pid b))"

definition the_tcb :: "task \<Rightarrow> 's kernel \<Rightarrow> TaskControlBlock outcome" where
  "the_tcb t k = unwrap (k_tasks k t)"

definition set_inner :: "process \<Rightarrow> ProcessControlBlockInner \<Rightarrow> 's kernel \<Rightarrow> 's kernel" where
  "set_inner p i k = k\<lparr>k_procs := (k_procs k)(p := map_option (\<lambda>b. b\<lparr>pcb_inner := i\<rparr>) (k_procs k p))\<rparr>"

definition set_tcb :: "task \<Rightarrow> TaskControlBlock \<Rightarrow> 's kernel \<Rightarrow> 's kernel" where
  "set_tcb t b k = k\<lparr>k_tasks := (k_tasks k)(t \<mapsto> b)\<rparr>"

definition set_phys :: "mem \<Rightarrow> 's kernel \<Rightarrow> 's kernel" where
  "set_phys m k = k\<lparr>k_mm := (k_mm k)\<lparr>phys := m\<rparr>\<rparr>"

section \<open>The current task\<close>

definition current_tcb :: "'s kernel \<Rightarrow> (task \<times> TaskControlBlock) outcome" where
  "current_tcb k = and_then (current_task (k_sched k)) (\<lambda>t. and_then (the_tcb t k) (\<lambda>b. Inr (t, b)))"

definition current_process :: "'s kernel \<Rightarrow> process outcome" where
  "current_process k =
     and_then (current_tcb k) (\<lambda>(t, b). and_then (unwrap (k_procs k (tcb_process b))) (\<lambda>_. Inr (tcb_process b)))"

definition TaskControlBlock_get_user_token :: "TaskControlBlock \<Rightarrow> 's kernel \<Rightarrow> usize outcome" where
  "TaskControlBlock_get_user_token b k = and_then (the_inner (tcb_process b) k) (\<lambda>i. Inr (MemorySet_token (pi_memory_set i)))"

definition current_user_token :: "'s kernel \<Rightarrow> usize outcome" where
  "current_user_token k = and_then (current_tcb k) (\<lambda>(t, b). TaskControlBlock_get_user_token b k)"

text \<open>The address of the trap context, through which the kernel changes it in place.\<close>

definition get_trap_cx :: "TaskControlBlock \<Rightarrow> usize outcome" where
  "get_trap_cx b = PhysAddr_get_mut (PhysAddr_from_PhysPageNum (tcb_trap_cx_ppn b))"

definition current_trap_cx :: "'s kernel \<Rightarrow> usize outcome" where
  "current_trap_cx k = and_then (current_tcb k) (\<lambda>(t, b). get_trap_cx b)"

definition current_trap_cx_user_va :: "'s kernel \<Rightarrow> usize outcome" where
  "current_trap_cx_user_va k =
     and_then (current_tcb k) (\<lambda>(t, b). and_then (unwrap (tcb_res b)) (\<lambda>r. Inr (TaskUserRes_trap_cx_user_va r)))"

definition current_kstack_top :: "'s kernel \<Rightarrow> usize outcome" where
  "current_kstack_top k = and_then (current_tcb k) (\<lambda>(t, b). Inr (KernelStack_get_top (tcb_kstack b)))"

definition current_tid :: "'s kernel \<Rightarrow> usize outcome" where
  "current_tid k = and_then (current_tcb k) (\<lambda>(t, b). and_then (unwrap (tcb_res b)) (\<lambda>r. Inr (ur_tid r)))"

section \<open>References\<close>

definition live_processes :: "'s kernel \<Rightarrow> ProcessControlBlock list" where
  "live_processes k = List.map_filter (k_procs k) [0..<k_next_proc k]"

definition suspended_calls :: "'s kernel \<Rightarrow> pending list" where
  "suspended_calls k = List.map_filter (k_pending k) [0..<k_next_task k]"

definition process_refs :: "process \<Rightarrow> 's kernel \<Rightarrow> nat" where
  "process_refs p k =
     count_list (map snd (k_pid2pcb k)) p +
     sum_list (map (\<lambda>b. count_list (pi_children (pcb_inner b)) p) (live_processes k)) +
     of_bool (k_initproc k = Some p) +
     count_list (map pending_process (suspended_calls k)) (Some p)"

definition wait_queues :: "ProcessControlBlockInner \<Rightarrow> task list" where
  "wait_queues i =
     concat (map (\<lambda>m. case m of Some (Blocking b) \<Rightarrow> mb_wait_queue b | _ \<Rightarrow> []) (pi_mutex_list i)) @
     concat (map (case_option [] sem_wait_queue) (pi_semaphore_list i)) @
     concat (map (case_option [] cv_wait_queue) (pi_condvar_list i))"

definition task_refs :: "task \<Rightarrow> 's kernel \<Rightarrow> nat" where
  "task_refs t k =
     count_list (sc_ready_queue (k_sched k)) t + of_bool (sc_stop_task (k_sched k) = Some t) +
     of_bool (sc_current (k_sched k) = Some t) +
     sum_list (map (\<lambda>b. count_list (pi_tasks (pcb_inner b)) (Some t) + count_list (wait_queues (pcb_inner b)) t) (live_processes k)) +
     count_list (map tc_task (k_timers k)) t +
     of_bool (case k_pending k t of Some c \<Rightarrow> pending_self c | None \<Rightarrow> False)"

text \<open>Whether the weak reference from a ring buffer to the write end of its pipe can be upgraded.\<close>

definition file_alive :: "'s kernel \<Rightarrow> open_file \<Rightarrow> bool" where
  "file_alive k f \<longleftrightarrow>
     list_ex (\<lambda>b. Some f \<in> set (pi_fd_table (pcb_inner b))) (live_processes k) \<or>
     list_ex (\<lambda>c. pending_file c = Some f) (suspended_calls k)"

section \<open>Dropping\<close>

definition drop_res :: "TaskUserRes \<Rightarrow> 's kernel \<Rightarrow> 's kernel outcome" where
  "drop_res r k =
     and_then (the_inner (ur_process r) k) (\<lambda>i.
     and_then (TaskUserRes_drop r (i, k_mm k)) (\<lambda>(i, s).
     Inr ((set_inner (ur_process r) i k)\<lparr>k_mm := s\<rparr>)))"

definition drop_task :: "task \<Rightarrow> 's kernel \<Rightarrow> 's kernel outcome" where
  "drop_task t k =
     and_then (the_tcb t k) (\<lambda>b.
     let k = k\<lparr>k_tasks := (k_tasks k)(t := None)\<rparr> in
     and_then (KernelStack_drop (tcb_kstack b) (k_kstacks k, k_space k, k_mm k)) (\<lambda>(stacks, space, s).
     let k = k\<lparr>k_kstacks := stacks, k_space := space, k_mm := s\<rparr> in
     case tcb_res b of None \<Rightarrow> Inr k | Some r \<Rightarrow> drop_res r k))"

datatype reference = ToProcess process | ToTask task

text \<open>The references a dropped process held come out, in the order of its fields.\<close>

definition drop_process :: "process \<Rightarrow> 's kernel \<Rightarrow> (reference list \<times> 's kernel) outcome" where
  "drop_process p k =
     and_then (unwrap (k_procs k p)) (\<lambda>b.
     let k = k\<lparr>k_procs := (k_procs k)(p := None)\<rparr>; i = pcb_inner b in
     and_then (PidHandle_drop (pcb_pid b) (k_pids k)) (\<lambda>pids.
     and_then (MemorySet_drop (pi_memory_set i) (k_mm k)) (\<lambda>s.
     Inr (map ToProcess (pi_children i) @ map ToTask (List.map_filter (\<lambda>t. t) (pi_tasks i)) @ map ToTask (wait_queues i),
       k\<lparr>k_pids := pids, k_mm := s\<rparr>))))"

text \<open>These references to processes and tasks go away, one after the other.\<close>

function release :: "reference list \<Rightarrow> 's kernel \<Rightarrow> 's kernel outcome" where
  "release [] k = Inr k"
| "release (ToProcess p # rs) k =
     (if p < k_next_proc k \<and> k_procs k p \<noteq> None \<and> process_refs p k + count_list rs (ToProcess p) = 0
      then case drop_process p k of Inl e \<Rightarrow> Inl e | Inr (rs', k) \<Rightarrow> release (rs' @ rs) k
      else release rs k)"
| "release (ToTask t # rs) k =
     (if k_tasks k t \<noteq> None \<and> task_refs t k + count_list rs (ToTask t) = 0
      then case drop_task t k of Inl e \<Rightarrow> Inl e | Inr k \<Rightarrow> release rs k
      else release rs k)"
  by pat_completeness auto

definition live_count :: "'s kernel \<Rightarrow> nat" where
  "live_count k = card {p. p < k_next_proc k \<and> k_procs k p \<noteq> None}"

lemma drop_process_live:
  assumes "drop_process p k = Inr (rs, k')" "p < k_next_proc k"
  shows "live_count k' < live_count k"
proof -
  have *: "k_next_proc k' = k_next_proc k" "k_procs k' = (k_procs k)(p := None)" "k_procs k p \<noteq> None"
    using assms(1) by (auto simp: drop_process_def Let_def and_then_def unwrap_def split: sum.splits option.splits prod.splits)
  have "{q. q < k_next_proc k' \<and> k_procs k' q \<noteq> None} \<subset> {q. q < k_next_proc k \<and> k_procs k q \<noteq> None}"
    using * assms(2) by (auto simp: fun_upd_apply split: if_splits)
  then show ?thesis unfolding live_count_def by (intro psubset_card_mono) simp_all
qed

lemma drop_res_live: "drop_res r k = Inr k' \<Longrightarrow> live_count k' = live_count k"
  by (auto simp: drop_res_def the_inner_def set_inner_def live_count_def and_then_def unwrap_def split: sum.splits option.splits prod.splits if_splits
      intro!: arg_cong [where f = card])

lemma drop_task_live: "drop_task t k = Inr k' \<Longrightarrow> live_count k' = live_count k"
  by (auto simp: drop_task_def Let_def and_then_def live_count_def split: sum.splits option.splits prod.splits dest!: drop_res_live)

termination release
  by (relation "measures [\<lambda>(rs, k). live_count k, \<lambda>(rs, k). length rs]")
    (auto dest: drop_process_live drop_task_live)

declare release.simps(2,3) [simp del]

section \<open>The map of processes\<close>

definition pid2process :: "usize \<Rightarrow> 's kernel \<Rightarrow> process option" where
  "pid2process pid k = map_of (k_pid2pcb k) pid"

definition insert_into_pid2process :: "usize \<Rightarrow> process \<Rightarrow> 's kernel \<Rightarrow> 's kernel outcome" where
  "insert_into_pid2process pid p k =
     (let (old, m) = btree_insert pid p (k_pid2pcb k) in
      release (case old of None \<Rightarrow> [] | Some q \<Rightarrow> [ToProcess q]) (k\<lparr>k_pid2pcb := m\<rparr>))"

text \<open>The caller, \<open>exit_current_and_run_next\<close>, still holds a reference to the process.\<close>

definition remove_from_pid2process :: "usize \<Rightarrow> 's kernel \<Rightarrow> 's kernel outcome" where
  "remove_from_pid2process pid k =
     (let (old, m) = btree_remove pid (k_pid2pcb k) in
      if old = None then Inl ExplicitPanic else Inr (k\<lparr>k_pid2pcb := m\<rparr>))"

section \<open>New tasks\<close>

definition TaskControlBlock_new :: "'s env \<Rightarrow> process \<Rightarrow> usize \<Rightarrow> bool \<Rightarrow> 's kernel \<Rightarrow> (task \<times> 's kernel) outcome" where
  "TaskControlBlock_new ev p ustack_base alloc_user_res k =
     and_then (the_inner p k) (\<lambda>i.
     and_then (TaskUserRes_new p ustack_base alloc_user_res (i, k_mm k)) (\<lambda>(res, i, s).
     and_then (TaskUserRes_trap_cx_ppn res (pi_memory_set i) s) (\<lambda>trap_cx_ppn.
     let k = set_inner p i k in
     and_then (kstack_alloc (k_kstacks k, k_space k, s)) (\<lambda>(kstack, stacks, space, s).
     let t = k_next_task k;
         b = \<lparr>tcb_process = p, tcb_kstack = kstack, tcb_res = Some res, tcb_trap_cx_ppn = trap_cx_ppn,
              tcb_task_cx = TaskContext_goto_trap_return (ev_trap_return ev) (KernelStack_get_top kstack), tcb_exit_code = None\<rparr> in
     Inr (t, k\<lparr>k_mm := s, k_kstacks := stacks, k_space := space, k_tasks := (k_tasks k)(t \<mapsto> b), k_next_task := t + 1,
       k_sched := set_status t Ready (k_sched k)\<rparr>)))))"

definition add_task :: "task \<Rightarrow> 's kernel \<Rightarrow> 's kernel" where
  "add_task t k = k\<lparr>k_sched := TaskManager_add t (k_sched k)\<rparr>"

text \<open>The assignment \<^verbatim>\<open>*task_inner.get_trap_cx() = cx\<close>.\<close>

definition put_trap_cx :: "TaskControlBlock \<Rightarrow> TrapContext \<Rightarrow> 's kernel \<Rightarrow> 's kernel outcome" where
  "put_trap_cx b cx k = and_then (get_trap_cx b) (\<lambda>a. Inr (set_phys (write_cx (phys (k_mm k)) a cx) k))"

definition new_file :: "File \<Rightarrow> 's kernel \<Rightarrow> open_file \<times> 's kernel" where
  "new_file f k = (k_next_file k, k\<lparr>k_files := (k_files k)(k_next_file k \<mapsto> f), k_next_file := k_next_file k + 1\<rparr>)"

definition new_process :: "ProcessControlBlock \<Rightarrow> 's kernel \<Rightarrow> process \<times> 's kernel" where
  "new_process b k = (k_next_proc k, k\<lparr>k_procs := (k_procs k)(k_next_proc k \<mapsto> b), k_next_proc := k_next_proc k + 1\<rparr>)"

section \<open>Processes\<close>

definition getpid :: "process \<Rightarrow> 's kernel \<Rightarrow> usize outcome" where
  "getpid p k = the_pid p k"

definition ProcessControlBlock_new :: "'s env \<Rightarrow> u8 list \<Rightarrow> 's kernel \<Rightarrow> (process \<times> 's kernel) outcome" where
  "ProcessControlBlock_new ev elf_data k =
     and_then (MemorySet_from_elf (ev_parse ev) (ev_strampoline ev) elf_data (k_mm k)) (\<lambda>(memory_set, ustack_base, entry_point, s).
     let (pid, pids) = pid_alloc (k_pids k);
         k = k\<lparr>k_mm := s, k_pids := pids\<rparr>;
         (stdin, k) = new_file StdinFile k; (stdout, k) = new_file StdoutFile k; (stderr, k) = new_file StdoutFile k;
         (p, k) = new_process \<lparr>pcb_pid = pid, pcb_inner = ProcessControlBlockInner_new memory_set stdin stdout stderr\<rparr> k in
     and_then (TaskControlBlock_new ev p ustack_base True k) (\<lambda>(t, k).
     and_then (the_tcb t k) (\<lambda>b.
     and_then (unwrap (tcb_res b)) (\<lambda>res.
     and_then (TrapContext_app_init_context (ev_user_sstatus ev) entry_point (TaskUserRes_ustack_top res)
       (MemorySet_token (k_space k)) (KernelStack_get_top (tcb_kstack b)) (ev_trap_handler ev)) (\<lambda>cx.
     and_then (put_trap_cx b cx k) (\<lambda>k.
     and_then (the_inner p k) (\<lambda>i.
     let k = set_inner p (i\<lparr>pi_tasks := pi_tasks i @ [Some t],
         pi_mutex_allocation := pi_mutex_allocation i @ [[]], pi_semaphore_allocation := pi_semaphore_allocation i @ [[]],
         pi_mutex_need := pi_mutex_need i @ [[]], pi_semaphore_need := pi_semaphore_need i @ [[]]\<rparr>) k in
     and_then (insert_into_pid2process pid p k) (\<lambda>k.
     Inr (p, add_task t k)))))))))"

text \<open>The arguments of a program, as bytes. Each is copied below the previous one, with a zero at its end.\<close>

definition push_bytes :: "usize \<Rightarrow> u8 list \<Rightarrow> usize \<Rightarrow> mem \<Rightarrow> mem outcome" where
  "push_bytes token bytes user_sp m =
     and_then (for_each (\<lambda>c (p, m). and_then (translated_refmut token m p) (\<lambda>a. Inr (p + 1, m(a := c)))) bytes (user_sp, m)) (\<lambda>(p, m).
     and_then (translated_refmut token m p) (\<lambda>a. Inr (m(a := 0))))"

definition push_arg :: "usize \<Rightarrow> usize list \<Rightarrow> nat \<times> u8 list \<Rightarrow> usize \<times> mem \<Rightarrow> (usize \<times> mem) outcome" where
  "push_arg token argv = (\<lambda>(i, arg) (user_sp, m).
     let user_sp = user_sp - (of_nat (length arg) + 1) in
     and_then (array_index argv i) (\<lambda>r.
     and_then (push_bytes token arg user_sp (write_u64 m r user_sp)) (\<lambda>m.
     Inr (user_sp, m))))"

text \<open>The stack pointer after the arguments, the address of the vector of pointers to them, and the memory.\<close>

definition push_args :: "usize \<Rightarrow> u8 list list \<Rightarrow> usize \<Rightarrow> mem \<Rightarrow> (usize \<times> usize \<times> mem) outcome" where
  "push_args token args user_sp m =
     (let user_sp = user_sp - (of_nat (length args) + 1) * 8; argv_base = user_sp in
      and_then (for_each (\<lambda>arg argv. and_then (translated_refmut token m (argv_base + of_nat arg * 8)) (\<lambda>a. Inr (argv @ [a])))
        [0..<length args + 1] []) (\<lambda>argv.
      and_then (array_index argv (length args)) (\<lambda>last.
      and_then (for_each (push_arg token argv) (zip [0..<length args] args) (user_sp, write_u64 m last 0)) (\<lambda>(user_sp, m).
      Inr (user_sp - user_sp mod 8, argv_base, m)))))"

definition ProcessControlBlock_exec :: "'s env \<Rightarrow> process \<Rightarrow> u8 list \<Rightarrow> u8 list list \<Rightarrow> 's kernel \<Rightarrow> 's kernel outcome" where
  "ProcessControlBlock_exec ev p elf_data args k =
     and_then (the_inner p k) (\<lambda>i.
     and_then (assert_that (thread_count i = 1)) (\<lambda>_.
     and_then (MemorySet_from_elf (ev_parse ev) (ev_strampoline ev) elf_data (k_mm k)) (\<lambda>(memory_set, ustack_base, entry_point, s).
     let new_token = MemorySet_token memory_set in
     and_then (MemorySet_drop (pi_memory_set i) s) (\<lambda>s.
     and_then (get_task 0 i) (\<lambda>t.
     and_then (the_tcb t k) (\<lambda>b.
     and_then (unwrap (tcb_res b)) (\<lambda>res.
     let res = res\<lparr>ur_ustack_base := ustack_base\<rparr> in
     and_then (TaskUserRes_alloc_user_res res (memory_set, s)) (\<lambda>(memory_set, s).
     and_then (TaskUserRes_trap_cx_ppn res memory_set s) (\<lambda>trap_cx_ppn.
     let b = b\<lparr>tcb_res := Some res, tcb_trap_cx_ppn := trap_cx_ppn\<rparr> in
     and_then (push_args new_token args (TaskUserRes_ustack_top res) (phys s)) (\<lambda>(user_sp, argv_base, m).
     and_then (TrapContext_app_init_context (ev_user_sstatus ev) entry_point user_sp
       (MemorySet_token (k_space k)) (KernelStack_get_top (tcb_kstack b)) (ev_trap_handler ev)) (\<lambda>cx.
     and_then (array_update (cx_x cx) 10 (of_nat (length args))) (\<lambda>x.
     and_then (array_update x 11 argv_base) (\<lambda>x.
     put_trap_cx b (cx\<lparr>cx_x := x\<rparr>)
       (set_tcb t b (set_inner p (i\<lparr>pi_memory_set := memory_set\<rparr>) (k\<lparr>k_mm := s\<lparr>phys := m\<rparr>\<rparr>))))))))))))))))"

text \<open>The block of a child, which shares the open files and starts with the tables of its parent.\<close>

definition forked_inner :: "process \<Rightarrow> MemorySet \<Rightarrow> ProcessControlBlockInner \<Rightarrow> ProcessControlBlockInner" where
  "forked_inner p memory_set i =
     \<lparr>pi_is_zombie = False, pi_memory_set = memory_set, pi_parent = Some p, pi_children = [], pi_exit_code = 0,
      pi_fd_table = pi_fd_table i, pi_signals = 0, pi_tasks = [], pi_task_res_allocator = RecycleAllocator_new,
      pi_mutex_list = [], pi_semaphore_list = [], pi_condvar_list = [], pi_deadlock_detect = pi_deadlock_detect i,
      pi_mutex_available = pi_mutex_available i, pi_semaphore_available = pi_semaphore_available i,
      pi_mutex_allocation = pi_mutex_allocation i, pi_semaphore_allocation = pi_semaphore_allocation i,
      pi_mutex_need = pi_mutex_need i, pi_semaphore_need = pi_semaphore_need i\<rparr>"

definition ProcessControlBlock_fork :: "'s env \<Rightarrow> process \<Rightarrow> 's kernel \<Rightarrow> (process \<times> 's kernel) outcome" where
  "ProcessControlBlock_fork ev p k =
     and_then (the_inner p k) (\<lambda>parent.
     and_then (assert_that (thread_count parent = 1)) (\<lambda>_.
     and_then (MemorySet_from_existed_user (ev_strampoline ev) (pi_memory_set parent) (k_mm k)) (\<lambda>(memory_set, s).
     let (pid, pids) = pid_alloc (k_pids k);
         (child, k) = new_process \<lparr>pcb_pid = pid, pcb_inner = forked_inner p memory_set parent\<rparr> (k\<lparr>k_mm := s, k_pids := pids\<rparr>);
         k = set_inner p (parent\<lparr>pi_children := pi_children parent @ [child]\<rparr>) k in
     and_then (get_task 0 parent) (\<lambda>pt.
     and_then (the_tcb pt k) (\<lambda>pb.
     and_then (unwrap (tcb_res pb)) (\<lambda>pres.
     and_then (TaskControlBlock_new ev child (TaskUserRes_ustack_base pres) False k) (\<lambda>(t, k).
     and_then (the_inner child k) (\<lambda>i.
     let k = set_inner child (i\<lparr>pi_tasks := pi_tasks i @ [Some t]\<rparr>) k in
     and_then (the_tcb t k) (\<lambda>b.
     and_then (get_trap_cx b) (\<lambda>a.
     let k = set_phys (write_u64 (phys (k_mm k)) (a + cx_kernel_sp_at) (KernelStack_get_top (tcb_kstack b))) k in
     and_then (insert_into_pid2process pid child k) (\<lambda>k.
     Inr (child, add_task t k))))))))))))"

section \<open>Leaving the processor\<close>

definition set_pending :: "task \<Rightarrow> pending option \<Rightarrow> 's kernel \<Rightarrow> 's kernel" where
  "set_pending t c k = k\<lparr>k_pending := (k_pending k)(t := c)\<rparr>"

text \<open>\<open>suspend_current_and_run_next\<close> in the middle of a call that will go on with \<open>c\<close>.\<close>

definition suspend_with :: "pending \<Rightarrow> 's kernel \<Rightarrow> 's kernel outcome" where
  "suspend_with c k =
     and_then (current_task (k_sched k)) (\<lambda>t.
     and_then (suspend_current_and_run_next (k_sched k)) (\<lambda>s.
     Inr (set_pending t (Some c) (k\<lparr>k_sched := s\<rparr>))))"

definition add_stopping_task :: "task \<Rightarrow> 's kernel \<Rightarrow> 's kernel outcome" where
  "add_stopping_task t k =
     (let old = sc_stop_task (k_sched k) in
      release (case old of None \<Rightarrow> [] | Some u \<Rightarrow> [ToTask u]) (k\<lparr>k_sched := TaskManager_add_stop t (k_sched k)\<rparr>))"

definition remove_inactive_task :: "task \<Rightarrow> 's kernel \<Rightarrow> 's kernel" where
  "remove_inactive_task t k = k\<lparr>k_sched := TaskManager_remove t (k_sched k), k_timers := remove_timer t (k_timers k)\<rparr>"

text \<open>The loops of \<open>exit_current_and_run_next\<close>: the children go to the initial process, the resources of the threads are collected.\<close>

definition adopt_child :: "process \<Rightarrow> process \<Rightarrow> 's kernel \<Rightarrow> 's kernel outcome" where
  "adopt_child initproc child k =
     and_then (the_inner child k) (\<lambda>i.
     let k = set_inner child (i\<lparr>pi_parent := Some initproc\<rparr>) k in
     and_then (the_inner initproc k) (\<lambda>i.
     Inr (set_inner initproc (i\<lparr>pi_children := pi_children i @ [child]\<rparr>) k)))"

definition collect_res :: "task \<Rightarrow> TaskUserRes list \<times> 's kernel \<Rightarrow> (TaskUserRes list \<times> 's kernel) outcome" where
  "collect_res t = (\<lambda>(recycle_res, k).
     let k = remove_inactive_task t k in
     and_then (the_tcb t k) (\<lambda>b.
     Inr (case tcb_res b of
        None \<Rightarrow> (recycle_res, k)
      | Some res \<Rightarrow> (recycle_res @ [res], set_tcb t (b\<lparr>tcb_res := None\<rparr>) k))))"

text \<open>What happens to a process when its main thread exits.\<close>

definition exit_process :: "process \<Rightarrow> i32 \<Rightarrow> 's kernel \<Rightarrow> 's kernel outcome" where
  "exit_process p exit_code k =
     and_then (getpid p k) (\<lambda>pid.
     if pid = IDLE_PID then Inr (k\<lparr>k_halted := Some (exit_code = 0)\<rparr>)
     else
     and_then (remove_from_pid2process pid k) (\<lambda>k.
     and_then (the_inner p k) (\<lambda>i.
     let k = set_inner p (i\<lparr>pi_is_zombie := True, pi_exit_code := exit_code\<rparr>) k in
     and_then (unwrap (k_initproc k)) (\<lambda>initproc.
     and_then (for_each (adopt_child initproc) (pi_children i) k) (\<lambda>k.
     and_then (for_each collect_res (List.map_filter (\<lambda>t. t) (pi_tasks i)) ([], k)) (\<lambda>(recycle_res, k).
     and_then (for_each drop_res recycle_res k) (\<lambda>k.
     and_then (the_inner p k) (\<lambda>i.
     and_then (release (map ToProcess (pi_children i)) (set_inner p (i\<lparr>pi_children := []\<rparr>) k)) (\<lambda>k.
     and_then (the_inner p k) (\<lambda>i.
     and_then (MemorySet_recycle_data_pages (pi_memory_set i, k_mm k)) (\<lambda>(ms, s).
     release (map ToTask (List.map_filter (\<lambda>t. t) (pi_tasks i)))
       (set_inner p (i\<lparr>pi_memory_set := ms, pi_fd_table := [], pi_tasks := []\<rparr>) (k\<lparr>k_mm := s\<rparr>)))))))))))))"

definition exit_current_and_run_next :: "i32 \<Rightarrow> 's kernel \<Rightarrow> 's kernel outcome" where
  "exit_current_and_run_next exit_code k =
     (let (cur, s) = take_current_task (k_sched k); k = k\<lparr>k_sched := s\<rparr> in
      and_then (unwrap cur) (\<lambda>t.
      and_then (the_tcb t k) (\<lambda>b.
      and_then (unwrap (k_procs k (tcb_process b))) (\<lambda>_.
      let p = tcb_process b in
      and_then (unwrap (tcb_res b)) (\<lambda>res.
      let tid = ur_tid res in
      and_then (drop_res res (set_tcb t (b\<lparr>tcb_exit_code := Some exit_code, tcb_res := None\<rparr>) k)) (\<lambda>k.
      and_then (if tid = 0 then add_stopping_task t k else release [ToTask t] k) (\<lambda>k.
      if tid = 0
      then and_then (exit_process p exit_code k) (\<lambda>k.
           if k_halted k \<noteq> None then Inr k else release [ToProcess p] k)
      else release [ToProcess p] k)))))))"

section \<open>Signals\<close>

definition check_signals_of_current :: "'s kernel \<Rightarrow> (i32 \<times> string) option outcome" where
  "check_signals_of_current k =
     and_then (current_process k) (\<lambda>p. and_then (the_inner p k) (\<lambda>i. Inr (check_error (pi_signals i))))"

definition current_add_signal :: "u32 \<Rightarrow> 's kernel \<Rightarrow> 's kernel outcome" where
  "current_add_signal signal k =
     and_then (current_process k) (\<lambda>p. and_then (the_inner p k) (\<lambda>i.
     Inr (set_inner p (i\<lparr>pi_signals := pi_signals i OR signal\<rparr>) k)))"

section \<open>The initial process\<close>

definition initproc_name :: "u8 list" where
  "initproc_name = [99, 104, 56, 98, 95, 105, 110, 105, 116, 112, 114, 111, 99]"

definition add_initproc :: "'s env \<Rightarrow> 's kernel \<Rightarrow> 's kernel outcome option" where
  "add_initproc ev k =
     and_run (Some (open_file (ev_store ev) (ev_efs ev) initproc_name RDONLY (k_fs k))) (\<lambda>(r, s).
     and_run (Some (unwrap r)) (\<lambda>inode.
     and_run (OSInode_read_all (ev_store ev) inode s) (\<lambda>(v, inode, s).
     and_run (Some (ProcessControlBlock_new ev v (k\<lparr>k_fs := s\<rparr>))) (\<lambda>(p, k).
     Some (Inr (k\<lparr>k_initproc := Some p\<rparr>))))))"

section \<open>What dropping leaves alone\<close>

text \<open>
  Dropping frees control blocks, memory and ids: what is left of a process differs at most in its address space and its thread
  ids, what is left of a task not at all, and queues, maps, files and suspended calls stay.
\<close>

definition same_but_res :: "ProcessControlBlock \<Rightarrow> ProcessControlBlock \<Rightarrow> bool" where
  "same_but_res b b' \<longleftrightarrow>
     (\<exists>ms tids. b' = b\<lparr>pcb_inner := (pcb_inner b)\<lparr>pi_task_res_allocator := tids, pi_memory_set := ms\<rparr>\<rparr>)"

definition only_drops :: "'s kernel \<Rightarrow> 's kernel \<Rightarrow> bool" where
  "only_drops k k' \<longleftrightarrow>
     (\<exists>mm space pids kstacks procs tasks.
       k' = k\<lparr>k_mm := mm, k_space := space, k_pids := pids, k_kstacks := kstacks, k_procs := procs, k_tasks := tasks\<rparr>) \<and>
     (\<forall>p b'. k_procs k' p = Some b' \<longrightarrow> (\<exists>b. k_procs k p = Some b \<and> same_but_res b b')) \<and>
     (\<forall>t b'. k_tasks k' t = Some b' \<longrightarrow> k_tasks k t = Some b')"

lemma same_but_resI: "same_but_res b (b\<lparr>pcb_inner := (pcb_inner b)\<lparr>pi_task_res_allocator := tids, pi_memory_set := ms\<rparr>\<rparr>)"
  unfolding same_but_res_def by blast

lemma same_but_res_refl [simp]: "same_but_res b b"
  using same_but_resI [of b "pi_memory_set (pcb_inner b)" "pi_task_res_allocator (pcb_inner b)"] by simp

lemma same_but_res_trans:
  assumes "same_but_res a b" "same_but_res b c"
  shows "same_but_res a c"
proof -
  obtain ms tids ms' tids' where *: "b = a\<lparr>pcb_inner := (pcb_inner a)\<lparr>pi_task_res_allocator := tids, pi_memory_set := ms\<rparr>\<rparr>"
    "c = b\<lparr>pcb_inner := (pcb_inner b)\<lparr>pi_task_res_allocator := tids', pi_memory_set := ms'\<rparr>\<rparr>"
    using assms unfolding same_but_res_def by blast
  have "c = a\<lparr>pcb_inner := (pcb_inner a)\<lparr>pi_task_res_allocator := tids', pi_memory_set := ms'\<rparr>\<rparr>"
    unfolding * by (cases "pcb_inner a") simp
  then show ?thesis unfolding same_but_res_def by blast
qed

lemma only_drops_refl [simp]: "only_drops k k"
  by (cases k) (auto simp: only_drops_def)

lemma only_dropsI:
  assumes "k' = k\<lparr>k_mm := mm, k_space := space, k_pids := pids, k_kstacks := kstacks, k_procs := procs, k_tasks := tasks\<rparr>"
    "\<And>p b'. procs p = Some b' \<Longrightarrow> \<exists>b. k_procs k p = Some b \<and> same_but_res b b'"
    "\<And>t b'. tasks t = Some b' \<Longrightarrow> k_tasks k t = Some b'"
  shows "only_drops k k'"
  unfolding only_drops_def
proof (intro conjI)
  show "\<exists>mm space pids kstacks procs tasks.
      k' = k\<lparr>k_mm := mm, k_space := space, k_pids := pids, k_kstacks := kstacks, k_procs := procs, k_tasks := tasks\<rparr>"
    using assms(1) by blast
qed (use assms in auto)

lemma only_drops_trans:
  assumes "only_drops k k'" "only_drops k' k''"
  shows "only_drops k k''"
proof -
  obtain mm space pids kstacks procs tasks where
    k'': "k'' = k'\<lparr>k_mm := mm, k_space := space, k_pids := pids, k_kstacks := kstacks, k_procs := procs, k_tasks := tasks\<rparr>"
    using assms(2) unfolding only_drops_def by blast
  show ?thesis
  proof (rule only_dropsI)
    show "k'' = k\<lparr>k_mm := mm, k_space := space, k_pids := pids, k_kstacks := kstacks, k_procs := procs, k_tasks := tasks\<rparr>"
      using assms(1) k'' unfolding only_drops_def by auto
    show "\<exists>b. k_procs k p = Some b \<and> same_but_res b b'" if "procs p = Some b'" for p b'
    proof -
      have "k_procs k'' p = Some b'" using that k'' by simp
      then obtain b1 where b1: "k_procs k' p = Some b1" "same_but_res b1 b'" using assms(2) unfolding only_drops_def by blast
      then obtain b where "k_procs k p = Some b" "same_but_res b b1" using assms(1) unfolding only_drops_def by blast
      then show ?thesis using b1 same_but_res_trans by blast
    qed
    show "k_tasks k t = Some b'" if "tasks t = Some b'" for t b'
      using that k'' assms unfolding only_drops_def by auto
  qed
qed

lemma only_drops_fields:
  assumes "only_drops k k'"
  shows "k_sched k' = k_sched k" "k_timers k' = k_timers k" "k_pid2pcb k' = k_pid2pcb k" "k_next_proc k' = k_next_proc k"
    "k_next_task k' = k_next_task k" "k_files k' = k_files k" "k_rings k' = k_rings k" "k_pending k' = k_pending k"
    "k_initproc k' = k_initproc k" "k_fs k' = k_fs k" "k_halted k' = k_halted k"
  using assms by (auto simp: only_drops_def)

lemma TaskUserRes_drop_fields:
  assumes "TaskUserRes_drop r (i, s) = Inr (i', s')"
  obtains ms tids where "i' = i\<lparr>pi_task_res_allocator := tids, pi_memory_set := ms\<rparr>"
  using assms by (auto simp: TaskUserRes_drop_def TaskUserRes_dealloc_tid_def dealloc_tid_def panic_simps)

lemma drop_res_only_drops:
  assumes "drop_res r k = Inr k'"
  shows "only_drops k k'"
proof -
  obtain b i s where b: "k_procs k (ur_process r) = Some b" "TaskUserRes_drop r (pcb_inner b, k_mm k) = Inr (i, s)"
    "k' = (set_inner (ur_process r) i k)\<lparr>k_mm := s\<rparr>"
    using assms by (auto simp: drop_res_def the_inner_def panic_simps)
  obtain ms tids where "i = (pcb_inner b)\<lparr>pi_task_res_allocator := tids, pi_memory_set := ms\<rparr>"
    using TaskUserRes_drop_fields [OF b(2)] by blast
  then have "same_but_res b (b\<lparr>pcb_inner := i\<rparr>)" using same_but_resI by simp
  then show ?thesis
    by (intro only_dropsI [where mm = s and space = "k_space k" and pids = "k_pids k" and kstacks = "k_kstacks k" and
          procs = "(k_procs k)(ur_process r \<mapsto> b\<lparr>pcb_inner := i\<rparr>)" and tasks = "k_tasks k"])
      (auto simp: b(1,3) set_inner_def split: if_splits)
qed

lemma drop_taskE:
  assumes "drop_task t k = Inr k'"
  obtains b stacks space s where "k_tasks k t = Some b"
    "(case tcb_res b of None \<Rightarrow> Inr (k\<lparr>k_tasks := (k_tasks k)(t := None), k_kstacks := stacks, k_space := space, k_mm := s\<rparr>)
      | Some r \<Rightarrow> drop_res r (k\<lparr>k_tasks := (k_tasks k)(t := None), k_kstacks := stacks, k_space := space, k_mm := s\<rparr>)) = Inr k'"
  using assms by (auto simp: drop_task_def the_tcb_def Let_def panic_simps)

lemma drop_task_only_drops:
  assumes "drop_task t k = Inr k'"
  shows "only_drops k k'"
  using assms
proof (rule drop_taskE)
  fix b stacks space s
  let ?k = "k\<lparr>k_tasks := (k_tasks k)(t := None), k_kstacks := stacks, k_space := space, k_mm := s\<rparr>"
  assume b: "(case tcb_res b of None \<Rightarrow> Inr ?k | Some r \<Rightarrow> drop_res r ?k) = Inr k'"
  have "only_drops k ?k"
    by (intro only_dropsI [where mm = s and space = space and pids = "k_pids k" and kstacks = stacks and
          procs = "k_procs k" and tasks = "(k_tasks k)(t := None)"]) (auto simp: fun_upd_apply split: if_splits)
  moreover have "only_drops ?k k'" using b drop_res_only_drops by (cases "tcb_res b") auto
  ultimately show ?thesis by (rule only_drops_trans)
qed

lemma drop_process_only_drops:
  assumes "drop_process p k = Inr (rs, k')"
  shows "only_drops k k'"
proof -
  obtain pids s where "k' = k\<lparr>k_procs := (k_procs k)(p := None), k_pids := pids, k_mm := s\<rparr>"
    using assms by (auto simp: drop_process_def Let_def panic_simps)
  then show ?thesis
    by (intro only_dropsI [where mm = s and space = "k_space k" and pids = pids and kstacks = "k_kstacks k" and
          procs = "(k_procs k)(p := None)" and tasks = "k_tasks k"]) (auto simp: fun_upd_apply split: if_splits)
qed

text \<open>A release is a sequence of single drops, each of something nothing refers to any more.\<close>

lemma release_induct [consumes 1, case_names stop process task]:
  assumes "release rs k = Inr k'" "P k'"
    "\<And>k p rs k1. process_refs p k = 0 \<Longrightarrow> drop_process p k = Inr (rs, k1) \<Longrightarrow> P k1 \<Longrightarrow> P k"
    "\<And>k t k1. task_refs t k = 0 \<Longrightarrow> drop_task t k = Inr k1 \<Longrightarrow> P k1 \<Longrightarrow> P k"
  shows "P k"
  using assms(1)
proof (induction rs k rule: release.induct)
  case (2 p rs k)
  show ?case
  proof (cases "p < k_next_proc k \<and> k_procs k p \<noteq> None \<and> process_refs p k + count_list rs (ToProcess p) = 0")
    case True
    then obtain rs1 k1 where 1: "drop_process p k = Inr (rs1, k1)" "release (rs1 @ rs) k1 = Inr k'"
      using 2(3) unfolding release.simps(2) by (auto split: sum.splits)
    have "process_refs p k = 0" using True by simp
    then show ?thesis using assms(3) 1(1) 2(1) [OF True 1(1) refl 1(2)] by blast
  next
    case False
    then show ?thesis using 2(2) [OF False] 2(3) unfolding release.simps(2) by (simp only: if_False)
  qed
next
  case (3 t rs k)
  show ?case
  proof (cases "k_tasks k t \<noteq> None \<and> task_refs t k + count_list rs (ToTask t) = 0")
    case True
    then obtain k1 where 1: "drop_task t k = Inr k1" "release rs k1 = Inr k'"
      using 3(3) unfolding release.simps(3) by (auto split: sum.splits)
    have "task_refs t k = 0" using True by simp
    then show ?thesis using assms(4) 1(1) 3(1) [OF True 1] by blast
  next
    case False
    then show ?thesis using 3(2) [OF False] 3(3) unfolding release.simps(3) by (simp only: if_False)
  qed
qed (use assms(2) in simp)

lemma release_only_drops:
  assumes "release rs k = Inr k'"
  shows "only_drops k k'"
  using assms
proof (induction rule: release_induct)
  case (process k p rs k1)
  then show ?case using drop_process_only_drops only_drops_trans by blast
next
  case (task k t k1)
  then show ?case using drop_task_only_drops only_drops_trans by blast
qed simp

text \<open>What is still referred to afterwards was not dropped.\<close>

lemma sum_over_live:
  "sum_list (map f (List.map_filter g xs)) = sum_list (map (\<lambda>x. case g x of None \<Rightarrow> (0 :: nat) | Some b \<Rightarrow> f b) xs)"
  by (induction xs) (simp_all add: List.map_filter_simps split: option.split)

lemma only_drops_live:
  assumes "only_drops k k'" "k_procs k' p = Some b'"
  obtains b where "k_procs k p = Some b" "pcb_pid b' = pcb_pid b" "pi_children (pcb_inner b') = pi_children (pcb_inner b)"
    "pi_tasks (pcb_inner b') = pi_tasks (pcb_inner b)" "wait_queues (pcb_inner b') = wait_queues (pcb_inner b)"
    "pi_fd_table (pcb_inner b') = pi_fd_table (pcb_inner b)" "pi_is_zombie (pcb_inner b') = pi_is_zombie (pcb_inner b)"
    "pi_exit_code (pcb_inner b') = pi_exit_code (pcb_inner b)" "pi_parent (pcb_inner b') = pi_parent (pcb_inner b)"
proof -
  obtain b where "k_procs k p = Some b" "same_but_res b b'" using assms unfolding only_drops_def by blast
  then show ?thesis using that [of b] by (auto simp: same_but_res_def wait_queues_def)
qed

lemma only_drops_sum:
  fixes f :: "ProcessControlBlockInner \<Rightarrow> nat"
  assumes "only_drops k k'" "\<And>p b b'. k_procs k p = Some b \<Longrightarrow> k_procs k' p = Some b' \<Longrightarrow> same_but_res b b' \<Longrightarrow> f (pcb_inner b') = f (pcb_inner b)"
  shows "sum_list (map (\<lambda>b. f (pcb_inner b)) (live_processes k')) \<le> sum_list (map (\<lambda>b. f (pcb_inner b)) (live_processes k))"
  unfolding live_processes_def sum_over_live only_drops_fields [OF assms(1)]
proof (rule sum_list_mono)
  fix q
  show "(case k_procs k' q of None \<Rightarrow> 0 | Some b \<Rightarrow> f (pcb_inner b)) \<le> (case k_procs k q of None \<Rightarrow> 0 | Some b \<Rightarrow> f (pcb_inner b))"
  proof (cases "k_procs k' q")
    case (Some b')
    then obtain b where "k_procs k q = Some b" "same_but_res b b'" using assms(1) unfolding only_drops_def by blast
    then show ?thesis using assms(2) Some by simp
  qed simp
qed

lemma only_drops_process_refs:
  assumes "only_drops k k'"
  shows "process_refs p k' \<le> process_refs p k"
proof -
  have "sum_list (map (\<lambda>b. count_list (pi_children (pcb_inner b)) p) (live_processes k')) \<le>
      sum_list (map (\<lambda>b. count_list (pi_children (pcb_inner b)) p) (live_processes k))"
    by (rule only_drops_sum [OF assms, of "\<lambda>i. count_list (pi_children i) p"]) (auto simp: same_but_res_def)
  then show ?thesis by (simp add: process_refs_def suspended_calls_def only_drops_fields [OF assms])
qed

lemma only_drops_task_refs:
  assumes "only_drops k k'"
  shows "task_refs t k' \<le> task_refs t k"
proof -
  have "sum_list (map (\<lambda>b. count_list (pi_tasks (pcb_inner b)) (Some t) + count_list (wait_queues (pcb_inner b)) t) (live_processes k')) \<le>
      sum_list (map (\<lambda>b. count_list (pi_tasks (pcb_inner b)) (Some t) + count_list (wait_queues (pcb_inner b)) t) (live_processes k))"
    by (rule only_drops_sum [OF assms, of "\<lambda>i. count_list (pi_tasks i) (Some t) + count_list (wait_queues i) t"])
      (auto simp: same_but_res_def wait_queues_def)
  then show ?thesis by (simp add: task_refs_def only_drops_fields [OF assms])
qed

lemma drop_res_dom:
  assumes "drop_res r k = Inr k'"
  shows "k_procs k' p = None \<longleftrightarrow> k_procs k p = None" "k_tasks k' = k_tasks k"
  using assms by (auto simp: drop_res_def the_inner_def set_inner_def panic_simps split: if_splits)

lemma drop_task_dom:
  assumes "drop_task t k = Inr k'"
  shows "(k_procs k' p = None \<longleftrightarrow> k_procs k p = None) \<and> k_tasks k' = (k_tasks k)(t := None)"
  using assms
proof (rule drop_taskE)
  fix b stacks space s
  let ?k = "k\<lparr>k_tasks := (k_tasks k)(t := None), k_kstacks := stacks, k_space := space, k_mm := s\<rparr>"
  assume b: "(case tcb_res b of None \<Rightarrow> Inr ?k | Some r \<Rightarrow> drop_res r ?k) = Inr k'"
  show ?thesis
  proof (cases "tcb_res b")
    case (Some r)
    then have "drop_res r ?k = Inr k'" using b by simp
    from drop_res_dom [OF this] show ?thesis by simp
  qed (use b in auto)
qed

lemma drop_process_dom:
  assumes "drop_process p k = Inr (rs, k')"
  shows "k_procs k' = (k_procs k)(p := None)" "k_tasks k' = k_tasks k"
  using assms by (auto simp: drop_process_def Let_def panic_simps)


lemma release_keeps:
  assumes "release rs k = Inr k'"
  shows "(k_procs k p \<noteq> None \<longrightarrow> process_refs p k' > 0 \<longrightarrow> k_procs k' p \<noteq> None) \<and>
    (k_tasks k t \<noteq> None \<longrightarrow> task_refs t k' > 0 \<longrightarrow> k_tasks k' t \<noteq> None) \<and> only_drops k k'"
  using assms
proof (induction rule: release_induct)
  case (process k q rs k1)
  have d: "only_drops k k'" using process only_drops_trans drop_process_only_drops by blast
  have "p \<noteq> q" if "process_refs p k' > 0" using process(1) only_drops_process_refs [OF d, of p] that by auto
  then show ?case using process(3) drop_process_dom [OF process(2)] d by auto
next
  case (task k u k1)
  have d: "only_drops k k'" using task only_drops_trans drop_task_only_drops by blast
  have "t \<noteq> u" if "task_refs t k' > 0" using task(1) only_drops_task_refs [OF d, of t] that by auto
  then show ?case using task(3) drop_task_dom [OF task(2), of p] d by auto
qed simp

end
