(* ===== verification/Syscall_Process.thy ===== *)
theory Syscall_Process
  imports Kernel
begin

unbundle bit_operations_syntax

text \<open>
  The system calls on processes (\<^verbatim>\<open>os/src/syscall/process.rs\<close>) and threads (\<^verbatim>\<open>os/src/syscall/thread.rs\<close>). The result
  of a call is its return value and the new state of the kernel; \<open>sys_exit\<close> and \<open>sys_yield\<close> leave the processor and
  return no value here.
\<close>

section \<open>Strings\<close>

text \<open>\<open>translated_str\<close> makes a character of every byte; as bytes again, a character above 127 takes two.\<close>

definition str_bytes :: "u8 list \<Rightarrow> u8 list" where
  "str_bytes cs = concat (map (\<lambda>c. if c < 0x80 then [c] else [0xC0 OR drop_bit 6 c, 0x80 OR (c AND 0x3F)]) cs)"

section \<open>Processes\<close>

definition sys_exit :: "i32 \<Rightarrow> 's kernel \<Rightarrow> 's kernel outcome" where
  "sys_exit exit_code k = exit_current_and_run_next exit_code k"

definition sys_yield :: "'s kernel \<Rightarrow> 's kernel outcome" where
  "sys_yield k = suspend_with Yielded k"

definition sys_getpid :: "'s kernel \<Rightarrow> isize outcome" where
  "sys_getpid k = and_then (current_process k) (\<lambda>p. getpid p k)"

definition sys_fork :: "'s env \<Rightarrow> 's kernel \<Rightarrow> (isize \<times> 's kernel) outcome" where
  "sys_fork ev k =
     and_then (current_process k) (\<lambda>p.
     and_then (ProcessControlBlock_fork ev p k) (\<lambda>(child, k).
     and_then (getpid child k) (\<lambda>new_pid.
     and_then (the_inner child k) (\<lambda>i.
     and_then (and_then (array_index (pi_tasks i) 0) unwrap) (\<lambda>t.
     and_then (and_then (the_tcb t k) get_trap_cx) (\<lambda>a.
     Inr (new_pid, set_phys (write_u64 (phys (k_mm k)) (a + cx_x_at 10) 0) k)))))))"

text \<open>The pointers to the arguments, up to a null pointer.\<close>

partial_function (option) exec_args_loop :: "usize \<Rightarrow> mem \<Rightarrow> usize \<Rightarrow> u8 list list \<Rightarrow> u8 list list outcome option" where
  "exec_args_loop token m args args_vec =
     (case translated_ref token m args of
        Inl e \<Rightarrow> Some (Inl e)
      | Inr a \<Rightarrow>
          (let arg_str_ptr = read_u64 m a in
           if arg_str_ptr = 0 then Some (Inr args_vec)
           else case translated_str token m arg_str_ptr of
                  None \<Rightarrow> None
                | Some (Inl e) \<Rightarrow> Some (Inl e)
                | Some (Inr string) \<Rightarrow> exec_args_loop token m (args + 8) (args_vec @ [str_bytes string])))"

definition sys_exec :: "'s env \<Rightarrow> usize \<Rightarrow> usize \<Rightarrow> 's kernel \<Rightarrow> (isize \<times> 's kernel) outcome option" where
  "sys_exec ev path args k =
     and_run (Some (current_user_token k)) (\<lambda>token.
     and_run (translated_str token (phys (k_mm k)) path) (\<lambda>path.
     and_run (exec_args_loop token (phys (k_mm k)) args []) (\<lambda>args_vec.
     and_run (Some (open_file (ev_store ev) (ev_efs ev) (str_bytes path) RDONLY (k_fs k))) (\<lambda>(r, s).
     case r of
       Some app_inode \<Rightarrow>
         and_run (OSInode_read_all (ev_store ev) app_inode s) (\<lambda>(all_data, app_inode, s).
         and_run (Some (current_process k)) (\<lambda>p.
         and_run (Some (ProcessControlBlock_exec ev p all_data args_vec (k\<lparr>k_fs := s\<rparr>))) (\<lambda>k.
         Some (Inr (of_nat (length args_vec), k)))))
     | None \<Rightarrow> Some (Inr (- 1, k\<lparr>k_fs := s\<rparr>))))))"

text \<open>A predicate on the children that may panic: the first that it holds for.\<close>

fun find_child :: "(process \<Rightarrow> bool outcome) \<Rightarrow> nat \<Rightarrow> process list \<Rightarrow> (nat \<times> process) option outcome" where
  "find_child P n [] = Inr None"
| "find_child P n (c # cs) = and_then (P c) (\<lambda>b. if b then Inr (Some (n, c)) else find_child P (n + 1) cs)"

definition pid_matches :: "isize \<Rightarrow> 's kernel \<Rightarrow> process \<Rightarrow> bool outcome" where
  "pid_matches pid k c = (if pid = - 1 then Inr True else and_then (getpid c k) (\<lambda>n. Inr (pid = n)))"

definition zombie_matches :: "isize \<Rightarrow> 's kernel \<Rightarrow> process \<Rightarrow> bool outcome" where
  "zombie_matches pid k c =
     and_then (the_inner c k) (\<lambda>i. if pi_is_zombie i then pid_matches pid k c else Inr False)"

definition sys_waitpid :: "isize \<Rightarrow> usize \<Rightarrow> 's kernel \<Rightarrow> (isize \<times> 's kernel) outcome" where
  "sys_waitpid pid exit_code_ptr k =
     and_then (current_process k) (\<lambda>p.
     and_then (the_inner p k) (\<lambda>inner.
     and_then (find_child (pid_matches pid k) 0 (pi_children inner)) (\<lambda>found.
     if found = None then Inr (- 1, k)
     else
     and_then (find_child (zombie_matches pid k) 0 (pi_children inner)) (\<lambda>pair.
     case pair of
       Some (idx, child) \<Rightarrow>
         (let k = set_inner p (inner\<lparr>pi_children := remove_at idx (pi_children inner)\<rparr>) k in
          and_then (assert_that (process_refs child k = 0)) (\<lambda>_.
          and_then (getpid child k) (\<lambda>found_pid.
          and_then (the_inner child k) (\<lambda>ci.
          and_then (translated_refmut (MemorySet_token (pi_memory_set inner)) (phys (k_mm k)) exit_code_ptr) (\<lambda>a.
          let k = set_phys (write_bytes (phys (k_mm k)) a (le_bytes (pi_exit_code ci))) k in
          and_then (release [ToProcess child] k) (\<lambda>k.
          Inr (found_pid, k)))))))
     | None \<Rightarrow> Inr (- 2, k)))))"

definition sys_kill :: "usize \<Rightarrow> u32 \<Rightarrow> 's kernel \<Rightarrow> (isize \<times> 's kernel) outcome" where
  "sys_kill pid signal k =
     (case pid2process pid k of
        Some p \<Rightarrow>
          (case SignalFlags_from_bits signal of
             Some flag \<Rightarrow> and_then (the_inner p k) (\<lambda>i. Inr (0, set_inner p (i\<lparr>pi_signals := pi_signals i OR flag\<rparr>) k))
           | None \<Rightarrow> Inr (- 1, k))
      | None \<Rightarrow> Inr (- 1, k))"

definition vir_to_phy :: "VirtAddr \<Rightarrow> 's kernel \<Rightarrow> PhysAddr outcome" where
  "vir_to_phy virtual_addr k =
     (let vpn = VirtAddr_floor virtual_addr; vpo = VirtAddr_page_offset virtual_addr in
      and_then (current_user_token k) (\<lambda>token.
      and_then (and_then (PageTable_translate (PageTable_from_token token) (phys (k_mm k)) vpn) unwrap) (\<lambda>pte.
      Inr (PhysAddr (pa_0 (PhysAddr_from_PhysPageNum (PageTableEntry_ppn pte)) + vpo)))))"

definition sys_get_time :: "usize \<Rightarrow> usize \<Rightarrow> 's kernel \<Rightarrow> (isize \<times> 's kernel) outcome" where
  "sys_get_time now ts k =
     and_then (vir_to_phy (VirtAddr ts) k) (\<lambda>physical_addr.
     let us = get_time_us now in
     Inr (0, set_phys (write_bytes (phys (k_mm k)) (pa_0 physical_addr) (le_words_bytes [us div 1000000, us mod 1000000])) k))"

definition sys_task_info :: "usize \<Rightarrow> isize" where "sys_task_info ti = - 1"
definition sys_mmap :: "usize \<Rightarrow> usize \<Rightarrow> usize \<Rightarrow> isize" where "sys_mmap start len port = - 1"
definition sys_munmap :: "usize \<Rightarrow> usize \<Rightarrow> isize" where "sys_munmap start len = - 1"
definition sys_spawn :: "usize \<Rightarrow> isize" where "sys_spawn path = - 1"
definition sys_set_priority :: "isize \<Rightarrow> isize" where "sys_set_priority prio = - 1"

section \<open>Threads\<close>

text \<open>The table of threads grows up to the new thread, and with it the rows of the deadlock detection.\<close>

definition grow_tasks :: "nat \<Rightarrow> ProcessControlBlockInner \<Rightarrow> ProcessControlBlockInner" where
  "grow_tasks n i =
     (let d = n - length (pi_tasks i) in
      i\<lparr>pi_tasks := pi_tasks i @ replicate d None,
        pi_mutex_allocation := pi_mutex_allocation i @ replicate d [], pi_mutex_need := pi_mutex_need i @ replicate d [],
        pi_semaphore_allocation := pi_semaphore_allocation i @ replicate d [],
        pi_semaphore_need := pi_semaphore_need i @ replicate d []\<rparr>)"

definition sys_thread_create :: "'s env \<Rightarrow> usize \<Rightarrow> usize \<Rightarrow> 's kernel \<Rightarrow> (isize \<times> 's kernel) outcome" where
  "sys_thread_create ev entry_point arg k =
     and_then (current_tcb k) (\<lambda>(t, b).
     and_then (unwrap (k_procs k (tcb_process b))) (\<lambda>_.
     let p = tcb_process b in
     and_then (unwrap (tcb_res b)) (\<lambda>res.
     and_then (TaskControlBlock_new ev p (ur_ustack_base res) True k) (\<lambda>(new_task, k).
     let k = add_task new_task k in
     and_then (the_tcb new_task k) (\<lambda>nb.
     and_then (unwrap (tcb_res nb)) (\<lambda>new_task_res.
     let new_task_tid = ur_tid new_task_res in
     and_then (the_inner p k) (\<lambda>i.
     let i = grow_tasks (unat (new_task_tid + 1)) i in
     and_then (vec_update (pi_tasks i) new_task_tid (Some new_task)) (\<lambda>tasks.
     let k = set_inner p (i\<lparr>pi_tasks := tasks\<rparr>) k in
     and_then (TrapContext_app_init_context (ev_user_sstatus ev) entry_point (TaskUserRes_ustack_top new_task_res)
       (MemorySet_token (k_space k)) (KernelStack_get_top (tcb_kstack nb)) (ev_trap_handler ev)) (\<lambda>cx.
     and_then (array_update (cx_x cx) 10 arg) (\<lambda>x.
     and_then (put_trap_cx nb (cx\<lparr>cx_x := x\<rparr>) k) (\<lambda>k.
     Inr (new_task_tid, k))))))))))))"

definition sys_gettid :: "'s kernel \<Rightarrow> isize outcome" where
  "sys_gettid k = current_tid k"

definition sys_waittid :: "usize \<Rightarrow> 's kernel \<Rightarrow> (i32 \<times> 's kernel) outcome" where
  "sys_waittid tid k =
     and_then (current_tcb k) (\<lambda>(t, b).
     and_then (the_inner (tcb_process b) k) (\<lambda>i.
     let p = tcb_process b in
     and_then (unwrap (tcb_res b)) (\<lambda>res.
     if ur_tid res = tid then Inr (- 1, k)
     else
     and_then (vec_index (pi_tasks i) tid) (\<lambda>waited_task.
     case waited_task of
       Some w \<Rightarrow>
         and_then (the_tcb w k) (\<lambda>wb.
         case tcb_exit_code wb of
           Some exit_code \<Rightarrow>
             and_then (vec_update (pi_tasks i) tid None) (\<lambda>tasks.
             and_then (release [ToTask w] (set_inner p (i\<lparr>pi_tasks := tasks\<rparr>) k)) (\<lambda>k.
             Inr (exit_code, k)))
         | None \<Rightarrow> Inr (- 2, k))
     | None \<Rightarrow> Inr (- 1, k)))))"

end
