(* ===== verification/Syscall_Fs.thy ===== *)
theory Syscall_Fs
  imports Syscall_Process
begin

text \<open>
  The system calls on files (\<^verbatim>\<open>os/src/syscall/fs.rs\<close>): \<open>read\<close> and \<open>write\<close> dispatch on the kind of file. A call that gives
  up the processor returns no value here and goes on when its task is resumed. \<open>key\<close> is the character
  that the firmware returns when the console is asked.
\<close>

section \<open>Reading and writing files\<close>

definition put_file :: "open_file \<Rightarrow> File \<Rightarrow> 's kernel \<Rightarrow> 's kernel" where
  "put_file f x k = k\<lparr>k_files := (k_files k)(f \<mapsto> x)\<rparr>"

definition pipe_read_turn :: "process \<Rightarrow> open_file \<Rightarrow> Pipe \<Rightarrow> pipe_call \<Rightarrow> 's kernel \<Rightarrow> (isize option \<times> 's kernel) outcome option" where
  "pipe_read_turn p f pipe c k =
     and_run (Some (unwrap (k_rings k (pipe_buffer pipe)))) (\<lambda>rb.
     and_run (read_turn (file_alive k) rb (phys (k_mm k)) c) (\<lambda>(t, rb, m).
     let k = set_phys m (k\<lparr>k_rings := (k_rings k)(pipe_buffer pipe \<mapsto> rb)\<rparr>) in
     case t of
       Return n \<Rightarrow> Some (Inr (Some n, k))
     | Suspend c \<Rightarrow> and_run (Some (suspend_with (PipeReading p f c) k)) (\<lambda>k. Some (Inr (None, k)))))"

definition pipe_write_turn :: "process \<Rightarrow> open_file \<Rightarrow> Pipe \<Rightarrow> pipe_call \<Rightarrow> 's kernel \<Rightarrow> (isize option \<times> 's kernel) outcome option" where
  "pipe_write_turn p f pipe c k =
     and_run (Some (unwrap (k_rings k (pipe_buffer pipe)))) (\<lambda>rb.
     and_run (write_turn rb (phys (k_mm k)) c) (\<lambda>(t, rb).
     let k = k\<lparr>k_rings := (k_rings k)(pipe_buffer pipe \<mapsto> rb)\<rparr> in
     case t of
       Return n \<Rightarrow> Some (Inr (Some n, k))
     | Suspend c \<Rightarrow> and_run (Some (suspend_with (PipeWriting p f c) k)) (\<lambda>k. Some (Inr (None, k)))))"

definition stdin_read_turn :: "usize \<Rightarrow> process \<Rightarrow> open_file \<Rightarrow> UserBuffer \<Rightarrow> 's kernel \<Rightarrow> (isize option \<times> 's kernel) outcome option" where
  "stdin_read_turn key p f buf k =
     and_run (Some (Stdin_read buf key (phys (k_mm k)))) (\<lambda>r.
     case r of
       Some (n, m) \<Rightarrow> Some (Inr (Some (of_nat n), set_phys m k))
     | None \<Rightarrow> and_run (Some (suspend_with (StdinReading p f buf) k)) (\<lambda>k. Some (Inr (None, k))))"

definition File_read :: "'s env \<Rightarrow> usize \<Rightarrow> process \<Rightarrow> open_file \<Rightarrow> UserBuffer \<Rightarrow> 's kernel \<Rightarrow> (isize option \<times> 's kernel) outcome option" where
  "File_read ev key p f buf k =
     and_run (Some (unwrap (k_files k f))) (\<lambda>file.
     case file of
       StdinFile \<Rightarrow> stdin_read_turn key p f buf k
     | StdoutFile \<Rightarrow> Some (Inl ExplicitPanic)
     | InodeFile osi \<Rightarrow>
         and_run (Some (OSInode_read (ev_store ev) buf osi (phys (k_mm k)) (k_fs k))) (\<lambda>(n, osi, m, s).
         Some (Inr (Some (of_nat n), put_file f (InodeFile osi) (set_phys m (k\<lparr>k_fs := s\<rparr>)))))
     | PipeFile pipe \<Rightarrow>
         and_run (Some (Pipe_read_start pipe buf)) (\<lambda>c. pipe_read_turn p f pipe c k))"

definition File_write :: "'s env \<Rightarrow> process \<Rightarrow> open_file \<Rightarrow> UserBuffer \<Rightarrow> 's kernel \<Rightarrow> (isize option \<times> 's kernel) outcome option" where
  "File_write ev p f buf k =
     and_run (Some (unwrap (k_files k f))) (\<lambda>file.
     case file of
       StdinFile \<Rightarrow> Some (Inl ExplicitPanic)
     | StdoutFile \<Rightarrow>
         and_run (Some (Stdout_write buf (phys (k_mm k)))) (\<lambda>(out, n).
         Some (Inr (Some (of_nat n), k\<lparr>k_console := k_console k @ out\<rparr>)))
     | InodeFile osi \<Rightarrow>
         and_run (Some (OSInode_write (ev_store ev) (ev_efs ev) buf osi (phys (k_mm k)) (k_fs k))) (\<lambda>(n, osi, s).
         Some (Inr (Some (of_nat n), put_file f (InodeFile osi) (k\<lparr>k_fs := s\<rparr>))))
     | PipeFile pipe \<Rightarrow>
         and_run (Some (Pipe_write_start pipe buf)) (\<lambda>c. pipe_write_turn p f pipe c k))"

section \<open>System calls\<close>

definition sys_write :: "'s env \<Rightarrow> usize \<Rightarrow> usize \<Rightarrow> usize \<Rightarrow> 's kernel \<Rightarrow> (isize option \<times> 's kernel) outcome option" where
  "sys_write ev fd buf len k =
     and_run (Some (current_user_token k)) (\<lambda>token.
     and_run (Some (current_process k)) (\<lambda>p.
     and_run (Some (the_inner p k)) (\<lambda>inner.
     if unat fd \<ge> length (pi_fd_table inner) then Some (Inr (Some (- 1), k))
     else case pi_fd_table inner ! unat fd of
       Some f \<Rightarrow>
         and_run (Some (unwrap (k_files k f))) (\<lambda>file.
         if \<not> File_writable file then Some (Inr (Some (- 1), k))
         else and_run (translated_byte_buffer token (phys (k_mm k)) buf len) (\<lambda>bs. File_write ev p f (UserBuffer_new bs) k))
     | None \<Rightarrow> Some (Inr (Some (- 1), k)))))"

definition sys_read :: "'s env \<Rightarrow> usize \<Rightarrow> usize \<Rightarrow> usize \<Rightarrow> usize \<Rightarrow> 's kernel \<Rightarrow> (isize option \<times> 's kernel) outcome option" where
  "sys_read ev key fd buf len k =
     and_run (Some (current_user_token k)) (\<lambda>token.
     and_run (Some (current_process k)) (\<lambda>p.
     and_run (Some (the_inner p k)) (\<lambda>inner.
     if unat fd \<ge> length (pi_fd_table inner) then Some (Inr (Some (- 1), k))
     else case pi_fd_table inner ! unat fd of
       Some f \<Rightarrow>
         and_run (Some (unwrap (k_files k f))) (\<lambda>file.
         if \<not> File_readable file then Some (Inr (Some (- 1), k))
         else and_run (translated_byte_buffer token (phys (k_mm k)) buf len) (\<lambda>bs. File_read ev key p f (UserBuffer_new bs) k))
     | None \<Rightarrow> Some (Inr (Some (- 1), k)))))"

definition sys_open :: "'s env \<Rightarrow> usize \<Rightarrow> u32 \<Rightarrow> 's kernel \<Rightarrow> (isize \<times> 's kernel) outcome option" where
  "sys_open ev path flags k =
     and_run (Some (current_process k)) (\<lambda>p.
     and_run (Some (current_user_token k)) (\<lambda>token.
     and_run (translated_str token (phys (k_mm k)) path) (\<lambda>path.
     and_run (Some (unwrap (OpenFlags_from_bits flags))) (\<lambda>flags.
     and_run (Some (open_file (ev_store ev) (ev_efs ev) (str_bytes path) flags (k_fs k))) (\<lambda>(r, s).
     let k = k\<lparr>k_fs := s\<rparr> in
     case r of
       Some inode \<Rightarrow>
         (let (f, k) = new_file (InodeFile inode) k in
          and_run (Some (the_inner p k)) (\<lambda>inner.
          let (fd, inner) = alloc_fd inner in
          and_run (Some (array_update (pi_fd_table inner) fd (Some f))) (\<lambda>tab.
          Some (Inr (of_nat fd, set_inner p (inner\<lparr>pi_fd_table := tab\<rparr>) k)))))
     | None \<Rightarrow> Some (Inr (- 1, k)))))))"

definition sys_close :: "usize \<Rightarrow> 's kernel \<Rightarrow> (isize \<times> 's kernel) outcome" where
  "sys_close fd k =
     and_then (current_process k) (\<lambda>p.
     and_then (the_inner p k) (\<lambda>inner.
     if unat fd \<ge> length (pi_fd_table inner) then Inr (- 1, k)
     else if pi_fd_table inner ! unat fd = None then Inr (- 1, k)
     else Inr (0, set_inner p (inner\<lparr>pi_fd_table := (pi_fd_table inner)[unat fd := None]\<rparr>) k)))"

definition sys_pipe :: "usize \<Rightarrow> 's kernel \<Rightarrow> (isize \<times> 's kernel) outcome" where
  "sys_pipe pipe k =
     and_then (current_process k) (\<lambda>p.
     and_then (current_user_token k) (\<lambda>token.
     and_then (the_inner p k) (\<lambda>inner.
     let buffer = k_next_ring k;
         (pipe_read, pipe_write, rb) = make_pipe buffer (k_next_file k + 1);
         (r, k) = new_file (PipeFile pipe_read) k;
         (w, k) = new_file (PipeFile pipe_write) k;
         k = k\<lparr>k_rings := (k_rings k)(buffer \<mapsto> rb), k_next_ring := buffer + 1\<rparr>;
         (read_fd, inner) = alloc_fd inner in
     and_then (array_update (pi_fd_table inner) read_fd (Some r)) (\<lambda>tab.
     let (write_fd, inner) = alloc_fd (inner\<lparr>pi_fd_table := tab\<rparr>) in
     and_then (array_update (pi_fd_table inner) write_fd (Some w)) (\<lambda>tab.
     let k = set_inner p (inner\<lparr>pi_fd_table := tab\<rparr>) k in
     and_then (translated_refmut token (phys (k_mm k)) pipe) (\<lambda>a.
     let k = set_phys (write_u64 (phys (k_mm k)) a (of_nat read_fd)) k in
     and_then (translated_refmut token (phys (k_mm k)) (pipe + 8)) (\<lambda>a.
     Inr (0, set_phys (write_u64 (phys (k_mm k)) a (of_nat write_fd)) k))))))))"

definition sys_dup :: "usize \<Rightarrow> 's kernel \<Rightarrow> (isize \<times> 's kernel) outcome" where
  "sys_dup fd k =
     and_then (current_process k) (\<lambda>p.
     and_then (the_inner p k) (\<lambda>inner.
     if unat fd \<ge> length (pi_fd_table inner) then Inr (- 1, k)
     else if pi_fd_table inner ! unat fd = None then Inr (- 1, k)
     else let (new_fd, inner) = alloc_fd inner in
       and_then (and_then (vec_index (pi_fd_table inner) fd) unwrap) (\<lambda>f.
       and_then (array_update (pi_fd_table inner) new_fd (Some f)) (\<lambda>tab.
       Inr (of_nat new_fd, set_inner p (inner\<lparr>pi_fd_table := tab\<rparr>) k)))))"

definition sys_fstat :: "usize \<Rightarrow> usize \<Rightarrow> isize" where "sys_fstat fd st = - 1"
definition sys_linkat :: "usize \<Rightarrow> usize \<Rightarrow> isize" where "sys_linkat old_name new_name = - 1"
definition sys_unlinkat :: "usize \<Rightarrow> isize" where "sys_unlinkat name = - 1"

end
