(* ===== verification/Trap.thy ===== *)
theory Trap
  imports Syscall_Fs
begin

text \<open>
  The entries into the kernel: the dispatch of system calls (\<^verbatim>\<open>os/src/syscall/mod.rs\<close>), the trap handler and the
  return to user mode (\<^verbatim>\<open>os/src/trap/mod.rs\<close>). A trap runs until the kernel returns to user mode or the task
  leaves the processor; \<open>resume\<close> is what a task does when the scheduler has picked it again. The time register and the
  character of the console are inputs.
\<close>

section \<open>System call numbers\<close>

definition SYSCALL_OPENAT :: usize where "SYSCALL_OPENAT = 56"
definition SYSCALL_CLOSE :: usize where "SYSCALL_CLOSE = 57"
definition SYSCALL_READ :: usize where "SYSCALL_READ = 63"
definition SYSCALL_WRITE :: usize where "SYSCALL_WRITE = 64"
definition SYSCALL_UNLINKAT :: usize where "SYSCALL_UNLINKAT = 35"
definition SYSCALL_LINKAT :: usize where "SYSCALL_LINKAT = 37"
definition SYSCALL_FSTAT :: usize where "SYSCALL_FSTAT = 80"
definition SYSCALL_EXIT :: usize where "SYSCALL_EXIT = 93"
definition SYSCALL_SLEEP :: usize where "SYSCALL_SLEEP = 101"
definition SYSCALL_YIELD :: usize where "SYSCALL_YIELD = 124"
definition SYSCALL_KILL :: usize where "SYSCALL_KILL = 129"
definition SYSCALL_GETTIMEOFDAY :: usize where "SYSCALL_GETTIMEOFDAY = 169"
definition SYSCALL_GETPID :: usize where "SYSCALL_GETPID = 172"
definition SYSCALL_GETTID :: usize where "SYSCALL_GETTID = 178"
definition SYSCALL_FORK :: usize where "SYSCALL_FORK = 220"
definition SYSCALL_EXEC :: usize where "SYSCALL_EXEC = 221"
definition SYSCALL_WAITPID :: usize where "SYSCALL_WAITPID = 260"
definition SYSCALL_SET_PRIORITY :: usize where "SYSCALL_SET_PRIORITY = 140"
definition SYSCALL_MUNMAP :: usize where "SYSCALL_MUNMAP = 215"
definition SYSCALL_MMAP :: usize where "SYSCALL_MMAP = 222"
definition SYSCALL_SPAWN :: usize where "SYSCALL_SPAWN = 400"
definition SYSCALL_DUP :: usize where "SYSCALL_DUP = 24"
definition SYSCALL_PIPE :: usize where "SYSCALL_PIPE = 59"
definition SYSCALL_TASK_INFO :: usize where "SYSCALL_TASK_INFO = 410"
definition SYSCALL_THREAD_CREATE :: usize where "SYSCALL_THREAD_CREATE = 460"
definition SYSCALL_WAITTID :: usize where "SYSCALL_WAITTID = 462"
definition SYSCALL_MUTEX_CREATE :: usize where "SYSCALL_MUTEX_CREATE = 463"
definition SYSCALL_MUTEX_LOCK :: usize where "SYSCALL_MUTEX_LOCK = 464"
definition SYSCALL_MUTEX_UNLOCK :: usize where "SYSCALL_MUTEX_UNLOCK = 466"
definition SYSCALL_SEMAPHORE_CREATE :: usize where "SYSCALL_SEMAPHORE_CREATE = 467"
definition SYSCALL_SEMAPHORE_UP :: usize where "SYSCALL_SEMAPHORE_UP = 468"
definition SYSCALL_ENABLE_DEADLOCK_DETECT :: usize where "SYSCALL_ENABLE_DEADLOCK_DETECT = 469"
definition SYSCALL_SEMAPHORE_DOWN :: usize where "SYSCALL_SEMAPHORE_DOWN = 470"
definition SYSCALL_CONDVAR_CREATE :: usize where "SYSCALL_CONDVAR_CREATE = 471"
definition SYSCALL_CONDVAR_SIGNAL :: usize where "SYSCALL_CONDVAR_SIGNAL = 472"
definition SYSCALL_CONDVAR_WAIT :: usize where "SYSCALL_CONDVAR_WAIT = 473"

lemmas syscall_numbers = SYSCALL_OPENAT_def SYSCALL_CLOSE_def SYSCALL_READ_def SYSCALL_WRITE_def SYSCALL_UNLINKAT_def SYSCALL_LINKAT_def SYSCALL_FSTAT_def SYSCALL_EXIT_def SYSCALL_SLEEP_def SYSCALL_YIELD_def SYSCALL_KILL_def SYSCALL_GETTIMEOFDAY_def SYSCALL_GETPID_def SYSCALL_GETTID_def SYSCALL_FORK_def SYSCALL_EXEC_def SYSCALL_WAITPID_def SYSCALL_SET_PRIORITY_def SYSCALL_MUNMAP_def SYSCALL_MMAP_def SYSCALL_SPAWN_def SYSCALL_DUP_def SYSCALL_PIPE_def SYSCALL_TASK_INFO_def SYSCALL_THREAD_CREATE_def SYSCALL_WAITTID_def SYSCALL_MUTEX_CREATE_def SYSCALL_MUTEX_LOCK_def SYSCALL_MUTEX_UNLOCK_def SYSCALL_SEMAPHORE_CREATE_def SYSCALL_SEMAPHORE_UP_def SYSCALL_ENABLE_DEADLOCK_DETECT_def SYSCALL_SEMAPHORE_DOWN_def SYSCALL_CONDVAR_CREATE_def SYSCALL_CONDVAR_SIGNAL_def SYSCALL_CONDVAR_WAIT_def

section \<open>Calls that wait\<close>

text \<open>What is read from the clock and the console while a trap is handled.\<close>

record inputs =
  in_time :: usize
  in_time_after :: usize
  in_key :: usize

type_synonym 's step = "(isize option \<times> 's kernel) outcome option"

definition returns :: "(isize \<times> 's kernel) outcome \<Rightarrow> 's step" where
  "returns r = Some (and_then r (\<lambda>(n, k). Inr (Some n, k)))"

definition leaves :: "'s kernel outcome \<Rightarrow> 's step" where
  "leaves r = Some (and_then r (\<lambda>k. Inr (None, k)))"

text \<open>A call on the block of the current process and on the scheduler, which goes on as \<open>c\<close> says if it does not return.\<close>

definition sync_call ::
  "(ProcessControlBlockInner \<Rightarrow> sched \<Rightarrow> (isize option \<times> ProcessControlBlockInner \<times> sched) outcome) \<Rightarrow>
   (ProcessControlBlockInner \<Rightarrow> process \<Rightarrow> pending) \<Rightarrow> 's kernel \<Rightarrow> (isize option \<times> 's kernel) outcome" where
  "sync_call f c k =
     and_then (current_tcb k) (\<lambda>(t, b).
     and_then (the_inner (tcb_process b) k) (\<lambda>i.
     and_then (f i (k_sched k)) (\<lambda>(r, i', s).
     let k = set_inner (tcb_process b) i' (k\<lparr>k_sched := s\<rparr>) in
     Inr (r, if r = None then set_pending t (Some (c i (tcb_process b))) k else k))))"

definition is_spin :: "usize \<Rightarrow> ProcessControlBlockInner \<Rightarrow> bool" where
  "is_spin mutex_id i \<longleftrightarrow> (case the_mutex mutex_id i of Inr (Spin _) \<Rightarrow> True | _ \<Rightarrow> False)"

definition mutex_lock_call :: "usize \<Rightarrow> 's kernel \<Rightarrow> (isize option \<times> 's kernel) outcome" where
  "mutex_lock_call mutex_id k =
     and_then (current_tid k) (\<lambda>tid.
     sync_call (sys_mutex_lock mutex_id tid) (\<lambda>i p. if is_spin mutex_id i then MutexSpinning mutex_id else MutexWait) k)"

definition semaphore_down_call :: "usize \<Rightarrow> 's kernel \<Rightarrow> (isize option \<times> 's kernel) outcome" where
  "semaphore_down_call sem_id k =
     and_then (current_tid k) (\<lambda>tid. sync_call (sys_semaphore_down sem_id tid) (\<lambda>i. SemaphoreWait) k)"

definition condvar_wait_call :: "usize \<Rightarrow> usize \<Rightarrow> 's kernel \<Rightarrow> (isize option \<times> 's kernel) outcome" where
  "condvar_wait_call condvar_id mutex_id k =
     sync_call (\<lambda>i s. and_then (sys_condvar_wait condvar_id mutex_id i s) (\<lambda>(i, s). Inr (None, i, s)))
       (\<lambda>i p. CondvarWait p mutex_id) k"

definition sleep_call :: "usize \<Rightarrow> usize \<Rightarrow> 's kernel \<Rightarrow> (isize option \<times> 's kernel) outcome" where
  "sleep_call now ms k =
     and_then (current_task (k_sched k)) (\<lambda>t.
     and_then (sys_sleep now ms (k_timers k) (k_sched k)) (\<lambda>(timers, s).
     Inr (None, set_pending t (Some Sleeping) (k\<lparr>k_timers := timers, k_sched := s\<rparr>))))"

section \<open>Dispatch\<close>

definition syscall :: "'s env \<Rightarrow> inputs \<Rightarrow> usize \<Rightarrow> usize list \<Rightarrow> 's kernel \<Rightarrow> 's step" where
  "syscall ev inp syscall_id args k =
     (let a = (\<lambda>i. args ! i);
          value = (\<lambda>n. returns (Inr (n, k)));
          pure_call = (\<lambda>f. Some (sync_call (\<lambda>i s. Inr (let (n, i) = f i in (Some n, i, s))) (\<lambda>i p. Yielded) k));
          fail_call = (\<lambda>f. Some (sync_call (\<lambda>i s. and_then (f i) (\<lambda>(n, i). Inr (Some n, i, s))) (\<lambda>i p. Yielded) k));
          sched_call = (\<lambda>f. Some (sync_call (\<lambda>i s. and_then (f i s) (\<lambda>(n, i, s). Inr (Some n, i, s))) (\<lambda>i p. Yielded) k));
          with_tid = (\<lambda>f. case current_tid k of Inl e \<Rightarrow> Some (Inl e) | Inr tid \<Rightarrow> f tid) in
      if syscall_id = SYSCALL_DUP then returns (sys_dup (a 0) k)
      else if syscall_id = SYSCALL_LINKAT then value (sys_linkat (a 1) (a 3))
      else if syscall_id = SYSCALL_UNLINKAT then value (sys_unlinkat (a 1))
      else if syscall_id = SYSCALL_OPENAT then and_run (sys_open ev (a 1) (ucast (a 2)) k) (\<lambda>(n, k). Some (Inr (Some n, k)))
      else if syscall_id = SYSCALL_CLOSE then returns (sys_close (a 0) k)
      else if syscall_id = SYSCALL_PIPE then returns (sys_pipe (a 0) k)
      else if syscall_id = SYSCALL_READ then sys_read ev (in_key inp) (a 0) (a 1) (a 2) k
      else if syscall_id = SYSCALL_WRITE then sys_write ev (a 0) (a 1) (a 2) k
      else if syscall_id = SYSCALL_FSTAT then value (sys_fstat (a 0) (a 1))
      else if syscall_id = SYSCALL_EXIT then leaves (sys_exit (ucast (a 0)) k)
      else if syscall_id = SYSCALL_SLEEP then Some (sleep_call (in_time inp) (a 0) k)
      else if syscall_id = SYSCALL_YIELD then leaves (sys_yield k)
      else if syscall_id = SYSCALL_GETPID then returns (and_then (sys_getpid k) (\<lambda>n. Inr (n, k)))
      else if syscall_id = SYSCALL_GETTID then returns (and_then (sys_gettid k) (\<lambda>n. Inr (n, k)))
      else if syscall_id = SYSCALL_FORK then returns (sys_fork ev k)
      else if syscall_id = SYSCALL_EXEC then and_run (sys_exec ev (a 0) (a 1) k) (\<lambda>(n, k). Some (Inr (Some n, k)))
      else if syscall_id = SYSCALL_WAITPID then returns (sys_waitpid (a 0) (a 1) k)
      else if syscall_id = SYSCALL_GETTIMEOFDAY then returns (sys_get_time (in_time inp) (a 0) k)
      else if syscall_id = SYSCALL_MMAP then value (sys_mmap (a 0) (a 1) (a 2))
      else if syscall_id = SYSCALL_MUNMAP then value (sys_munmap (a 0) (a 1))
      else if syscall_id = SYSCALL_SET_PRIORITY then value (sys_set_priority (a 0))
      else if syscall_id = SYSCALL_TASK_INFO then value (sys_task_info (a 0))
      else if syscall_id = SYSCALL_SPAWN then value (sys_spawn (a 0))
      else if syscall_id = SYSCALL_THREAD_CREATE then returns (sys_thread_create ev (a 0) (a 1) k)
      else if syscall_id = SYSCALL_WAITTID then returns (and_then (sys_waittid (a 0) k) (\<lambda>(n, k). Inr (scast n, k)))
      else if syscall_id = SYSCALL_MUTEX_CREATE then pure_call (sys_mutex_create (a 0 = 1))
      else if syscall_id = SYSCALL_MUTEX_LOCK then Some (mutex_lock_call (a 0) k)
      else if syscall_id = SYSCALL_MUTEX_UNLOCK then with_tid (\<lambda>tid. sched_call (sys_mutex_unlock (a 0) tid))
      else if syscall_id = SYSCALL_SEMAPHORE_CREATE then fail_call (sys_semaphore_create (a 0))
      else if syscall_id = SYSCALL_SEMAPHORE_UP then with_tid (\<lambda>tid. sched_call (sys_semaphore_up (a 0) tid))
      else if syscall_id = SYSCALL_ENABLE_DEADLOCK_DETECT then pure_call (sys_enable_deadlock_detect (a 0))
      else if syscall_id = SYSCALL_SEMAPHORE_DOWN then Some (semaphore_down_call (a 0) k)
      else if syscall_id = SYSCALL_CONDVAR_CREATE then pure_call sys_condvar_create
      else if syscall_id = SYSCALL_CONDVAR_SIGNAL then sched_call (sys_condvar_signal (a 0))
      else if syscall_id = SYSCALL_CONDVAR_WAIT then Some (condvar_wait_call (a 0) (a 1) k)
      else if syscall_id = SYSCALL_KILL then returns (sys_kill (a 0) (ucast (a 1)) k)
      else Some (Inl ExplicitPanic))"

section \<open>Traps\<close>

datatype Trap = UserEnvCall | StoreFault | StorePageFault | InstructionFault | InstructionPageFault | LoadFault | LoadPageFault
  | IllegalInstruction | SupervisorTimer | OtherTrap

text \<open>
  Where a trap ends: in user mode, with the registers passed to \<^verbatim>\<open>__restore\<close>, or in the idle loop, or with the machine
  switched off.
\<close>

datatype 's trap_end = ToUser usize usize "'s kernel" | ToIdle "'s kernel" | PowerOff bool "'s kernel"

definition trap_return :: "'s kernel \<Rightarrow> 's trap_end outcome" where
  "trap_return k =
     and_then (current_trap_cx_user_va k) (\<lambda>trap_cx_user_va.
     and_then (current_user_token k) (\<lambda>user_satp.
     Inr (ToUser trap_cx_user_va user_satp k)))"

definition to_idle :: "'s kernel \<Rightarrow> 's trap_end" where
  "to_idle k = (case k_halted k of Some b \<Rightarrow> PowerOff b k | None \<Rightarrow> ToIdle k)"

text \<open>The end of \<open>trap_handler\<close>, from the check of the signals on.\<close>

definition finish_trap :: "'s kernel \<Rightarrow> 's trap_end outcome" where
  "finish_trap k =
     and_then (check_signals_of_current k) (\<lambda>r.
     case r of
       Some (errno, msg) \<Rightarrow> and_then (exit_current_and_run_next errno k) (\<lambda>k. Inr (to_idle k))
     | None \<Rightarrow> trap_return k)"

text \<open>The result of a system call goes to the register \<open>a0\<close> of the context, which \<open>sys_exec\<close> may have replaced.\<close>

definition finish_syscall :: "isize \<Rightarrow> 's kernel \<Rightarrow> 's trap_end outcome" where
  "finish_syscall result k =
     and_then (current_trap_cx k) (\<lambda>cx.
     finish_trap (set_phys (write_u64 (phys (k_mm k)) (cx + cx_x_at 10) result) k))"

definition end_syscall :: "isize option \<times> 's kernel \<Rightarrow> 's trap_end outcome" where
  "end_syscall = (\<lambda>(r, k). case r of Some result \<Rightarrow> finish_syscall result k | None \<Rightarrow> Inr (to_idle k))"

definition trap_handler :: "'s env \<Rightarrow> inputs \<Rightarrow> Trap \<Rightarrow> 's kernel \<Rightarrow> 's trap_end outcome option" where
  "trap_handler ev inp cause k =
     (if cause = UserEnvCall then
        and_run (Some (current_trap_cx k)) (\<lambda>cx.
        let m = phys (k_mm k); m = write_u64 m (cx + cx_sepc_at) (read_u64 m (cx + cx_sepc_at) + 4);
            x = (\<lambda>i. read_u64 m (cx + cx_x_at i)) in
        and_run (syscall ev inp (x 17) [x 10, x 11, x 12, x 13] (set_phys m k)) (\<lambda>r.
        Some (end_syscall r)))
      else if cause \<in> {StoreFault, StorePageFault, InstructionFault, InstructionPageFault, LoadFault, LoadPageFault} then
        and_run (Some (current_add_signal SIGSEGV k)) (\<lambda>k. Some (finish_trap k))
      else if cause = IllegalInstruction then
        and_run (Some (current_add_signal SIGILL k)) (\<lambda>k. Some (finish_trap k))
      else if cause = SupervisorTimer then
        (let (timers, s) = check_timer (in_time_after inp) (k_timers k) (k_sched k);
             k = k\<lparr>k_trigger := set_next_trigger (in_time inp), k_timers := timers, k_sched := s\<rparr> in
         and_run (Some (suspend_with Preempted k)) (\<lambda>k. Some (Inr (to_idle k))))
      else Some (Inl ExplicitPanic))"

section \<open>Resumption\<close>

text \<open>\<open>mutex.lock()\<close> once more, in \<open>MutexSpin::lock\<close> or at the end of \<open>Condvar::wait\<close>.\<close>

definition relock :: "usize \<Rightarrow> (ProcessControlBlockInner \<Rightarrow> process \<Rightarrow> pending) \<Rightarrow> 's kernel \<Rightarrow> (isize option \<times> 's kernel) outcome" where
  "relock mutex_id c k = sync_call (lock_mutex mutex_id) c k"

definition resume :: "'s env \<Rightarrow> inputs \<Rightarrow> 's kernel \<Rightarrow> 's trap_end outcome option" where
  "resume ev inp k =
     and_run (Some (current_task (k_sched k))) (\<lambda>t.
     let goes_on = (\<lambda>r. and_run r (\<lambda>r. Some (end_syscall r))) in
     case k_pending k t of
       None \<Rightarrow> Some (trap_return k)
     | Some c \<Rightarrow>
         (let k = set_pending t None k in
          case c of
            Preempted \<Rightarrow> Some (finish_trap k)
          | MutexSpinning m \<Rightarrow> goes_on (Some (relock m (\<lambda>i p. MutexSpinning m) k))
          | CondvarWait p m \<Rightarrow>
              goes_on (Some (relock m (\<lambda>i p. if is_spin m i then CondvarSpinning p m else CondvarLockWait p) k))
          | CondvarSpinning p m \<Rightarrow> goes_on (Some (relock m (\<lambda>i p. CondvarSpinning p m) k))
          | StdinReading p f buf \<Rightarrow> goes_on (stdin_read_turn (in_key inp) p f buf k)
          | PipeReading p f call \<Rightarrow>
              goes_on (case k_files k f of Some (PipeFile pipe) \<Rightarrow> pipe_read_turn p f pipe call k | _ \<Rightarrow> Some (Inl ExplicitPanic))
          | PipeWriting p f call \<Rightarrow>
              goes_on (case k_files k f of Some (PipeFile pipe) \<Rightarrow> pipe_write_turn p f pipe call k | _ \<Rightarrow> Some (Inl ExplicitPanic))
          | _ \<Rightarrow> goes_on (Some (Inr (Some 0, k)))))"

text \<open>A round of the idle loop: the next ready task, and what it does in the kernel.\<close>

definition idle_round :: "'s env \<Rightarrow> inputs \<Rightarrow> 's kernel \<Rightarrow> 's trap_end outcome option" where
  "idle_round ev inp k =
     (if sc_ready_queue (k_sched k) = [] then Some (Inr (ToIdle k))
      else resume ev inp (k\<lparr>k_sched := run_tasks_round (k_sched k)\<rparr>))"

end
