(* ===== verification/Process_Life.thy ===== *)
theory Process_Life
  imports Trap
begin

text \<open>
  The life of processes and threads over the whole kernel: what an exit leaves behind, what \<open>waitpid\<close> and \<open>waittid\<close>
  return, and when the assertion of \<open>waitpid\<close> on the number of references fails.
\<close>

section \<open>The loops of an exit\<close>


definition adopted :: "process \<Rightarrow> process list \<Rightarrow> process \<Rightarrow> ProcessControlBlockInner \<Rightarrow> ProcessControlBlockInner" where
  "adopted q cs x i = i\<lparr>pi_parent := if x \<in> set cs then Some q else pi_parent i,
     pi_children := if x = q then pi_children i @ cs else pi_children i\<rparr>"

lemma adopted_simps [simp]:
  "pi_tasks (adopted q cs x i) = pi_tasks i" "pi_is_zombie (adopted q cs x i) = pi_is_zombie i"
  "pi_exit_code (adopted q cs x i) = pi_exit_code i" "pi_fd_table (adopted q cs x i) = pi_fd_table i"
  "pi_parent (adopted q cs x i) = (if x \<in> set cs then Some q else pi_parent i)"
  "pi_children (adopted q cs x i) = (if x = q then pi_children i @ cs else pi_children i)"
  by (simp_all add: adopted_def)






section \<open>Exit\<close>

lemma the_inner_eq: "the_inner p k = Inr i \<longleftrightarrow> (\<exists>b. k_procs k p = Some b \<and> i = pcb_inner b)"
  by (auto simp: the_inner_def panic_simps)

lemma set_inner_fields [simp]:
  "k_sched (set_inner p i k) = k_sched k" "k_timers (set_inner p i k) = k_timers k" "k_pid2pcb (set_inner p i k) = k_pid2pcb k"
  "k_next_proc (set_inner p i k) = k_next_proc k" "k_tasks (set_inner p i k) = k_tasks k"
  "k_next_task (set_inner p i k) = k_next_task k" "k_files (set_inner p i k) = k_files k" "k_rings (set_inner p i k) = k_rings k"
  "k_pending (set_inner p i k) = k_pending k" "k_initproc (set_inner p i k) = k_initproc k" "k_fs (set_inner p i k) = k_fs k"
  "k_mm (set_inner p i k) = k_mm k" "k_halted (set_inner p i k) = k_halted k"
  "k_procs (set_inner p i k) = (k_procs k)(p := map_option (\<lambda>b. b\<lparr>pcb_inner := i\<rparr>) (k_procs k p))"
  by (simp_all add: set_inner_def)

text \<open>The stages of \<open>exit_process\<close>, with the state after each.\<close>

lemma exit_process_stages:
  assumes "exit_process p code k = Inr k'" "k_procs k p = Some b" "pcb_pid b \<noteq> IDLE_PID"
  obtains q k1 k2 k3 k4 k5 rs ms s i4 i5 where
    "btree_remove (pcb_pid b) (k_pid2pcb k) \<noteq> (None, k_pid2pcb k1)" "k1 = k\<lparr>k_pid2pcb := snd (btree_remove (pcb_pid b) (k_pid2pcb k))\<rparr>"
    "k_initproc k = Some q"
    "for_each (adopt_child q) (pi_children (pcb_inner b))
      (set_inner p ((pcb_inner b)\<lparr>pi_is_zombie := True, pi_exit_code := code\<rparr>) k1) = Inr k2"
    "for_each collect_res (List.map_filter (\<lambda>t. t) (pi_tasks (pcb_inner b))) ([], k2) = Inr (rs, k3)"
    "for_each drop_res rs k3 = Inr k4" "the_inner p k4 = Inr i4"
    "release (map ToProcess (pi_children i4)) (set_inner p (i4\<lparr>pi_children := []\<rparr>) k4) = Inr k5" "the_inner p k5 = Inr i5"
    "release (map ToTask (List.map_filter (\<lambda>t. t) (pi_tasks i5)))
       (set_inner p (i5\<lparr>pi_memory_set := ms, pi_fd_table := [], pi_tasks := []\<rparr>) (k5\<lparr>k_mm := s\<rparr>)) = Inr k'"
  using assms
  by (auto simp: exit_process_def getpid_def the_pid_def remove_from_pid2process_def Let_def panic_simps the_inner_eq split: if_splits prod.splits)

text \<open>References that keep a process alive.\<close>

lemma map_filter_live: "p < k_next_proc k \<Longrightarrow> k_procs k p = Some b \<Longrightarrow> b \<in> set (live_processes k)"
  by (force simp: live_processes_def List.map_filter_def)

lemma process_refs_pos:
  "x \<in> snd ` set (k_pid2pcb k) \<Longrightarrow> process_refs x k > 0"
  "k_initproc k = Some x \<Longrightarrow> process_refs x k > 0"
  "q < k_next_proc k \<Longrightarrow> k_procs k q = Some b \<Longrightarrow> x \<in> set (pi_children (pcb_inner b)) \<Longrightarrow> process_refs x k > 0"
  "u < k_next_task k \<Longrightarrow> k_pending k u = Some c \<Longrightarrow> pending_process c = Some x \<Longrightarrow> process_refs x k > 0"
proof -
  show "process_refs x k > 0" if "x \<in> snd ` set (k_pid2pcb k)"
  proof -
    have "count_list (map snd (k_pid2pcb k)) x \<noteq> 0" using that by (simp only: count_list_0_iff set_map simp_thms)
    then show ?thesis by (simp add: process_refs_def)
  qed
  show "process_refs x k > 0" if "k_initproc k = Some x" using that by (simp add: process_refs_def)
  show "process_refs x k > 0" if "q < k_next_proc k" "k_procs k q = Some b" "x \<in> set (pi_children (pcb_inner b))"
  proof -
    have "count_list (pi_children (pcb_inner b)) x > 0" using that(3) by (simp add: count_list_0_iff flip: neq0_conv)
    moreover have "count_list (pi_children (pcb_inner b)) x \<le> sum_list (map (\<lambda>b. count_list (pi_children (pcb_inner b)) x) (live_processes k))"
      using map_filter_live [OF that(1,2)] by (intro member_le_sum_list) auto
    ultimately show ?thesis by (simp add: process_refs_def)
  qed
  show "process_refs x k > 0" if "u < k_next_task k" "k_pending k u = Some c" "pending_process c = Some x"
  proof -
    have "c \<in> set (suspended_calls k)" using that(1,2) by (force simp: suspended_calls_def List.map_filter_def)
    then have "Some x \<in> set (map pending_process (suspended_calls k))" using that(3) by force
    then have "count_list (map pending_process (suspended_calls k)) (Some x) \<noteq> 0" by (simp only: count_list_0_iff simp_thms)
    then show ?thesis by (simp add: process_refs_def)
  qed
qed


text \<open>What other processes see of a process.\<close>

record process_view =
  pv_parent :: "process option"
  pv_children :: "process list"
  pv_zombie :: bool
  pv_exit_code :: i32
  pv_tasks :: "task option list"
  pv_files :: "open_file option list"

definition view_of :: "ProcessControlBlockInner \<Rightarrow> process_view" where
  "view_of i = \<lparr>pv_parent = pi_parent i, pv_children = pi_children i, pv_zombie = pi_is_zombie i, pv_exit_code = pi_exit_code i,
     pv_tasks = pi_tasks i, pv_files = pi_fd_table i\<rparr>"

definition proc_view :: "'s kernel \<Rightarrow> process \<Rightarrow> process_view option" where
  "proc_view k p = map_option (\<lambda>b. view_of (pcb_inner b)) (k_procs k p)"


lemma proc_view_set_inner: "k_procs k p \<noteq> None \<Longrightarrow> proc_view (set_inner p i k) y = (if y = p then Some (view_of i) else proc_view k y)"
  by (auto simp: proc_view_def)

lemma only_drops_view:
  assumes "only_drops k k'" "k_procs k' y \<noteq> None"
  shows "proc_view k' y = proc_view k y"
proof -
  obtain b' where b': "k_procs k' y = Some b'" using assms(2) by blast
  then obtain b where "k_procs k y = Some b" "same_but_res b b'" using assms(1) unfolding only_drops_def by blast
  then show ?thesis using b' by (auto simp: proc_view_def same_but_res_def view_of_def)
qed





lemma release_process_view:
  assumes "release rs k = Inr k'" "k_procs k' y \<noteq> None"
  shows "proc_view k' y = proc_view k y"
  using only_drops_view [OF release_only_drops [OF assms(1)] assms(2)] .

text \<open>After the first half: the process is a zombie, its children belong to the initial process, its threads are nowhere queued.\<close>

definition half_exited :: "process \<Rightarrow> process \<Rightarrow> i32 \<Rightarrow> process list \<Rightarrow> process \<Rightarrow> process_view \<Rightarrow> process_view" where
  "half_exited p q code cs y v =
     (if y = p then v\<lparr>pv_zombie := True, pv_exit_code := code\<rparr>
      else v\<lparr>pv_parent := if y \<in> set cs then Some q else pv_parent v, pv_children := if y = q then pv_children v @ cs else pv_children v\<rparr>)"


lemma half_exited_fields [simp]:
  "pv_tasks (half_exited p q code cs y v) = pv_tasks v"
  "pv_children (half_exited p q code cs y v) = (if y = q \<and> y \<noteq> p then pv_children v @ cs else pv_children v)"
  by (simp_all add: half_exited_def)






text \<open>A small kernel: the initial process 0, its child 1, whose main thread runs, and the child 2 of that one.\<close>

definition small_task :: "process \<Rightarrow> usize \<Rightarrow> TaskControlBlock" where
  "small_task p kstack = \<lparr>tcb_process = p, tcb_kstack = kstack, tcb_res = Some \<lparr>ur_tid = 0, ur_ustack_base = 0x10000, ur_process = p\<rparr>,
     tcb_trap_cx_ppn = PhysPageNum 0x80500, tcb_task_cx = TaskContext_zero_init, tcb_exit_code = None\<rparr>"

definition small_inner :: "process option \<Rightarrow> process list \<Rightarrow> task \<Rightarrow> ProcessControlBlockInner" where
  "small_inner parent children t = (ProcessControlBlockInner_new empty_space 0 1 2)
     \<lparr>pi_parent := parent, pi_children := children, pi_tasks := [Some t], pi_task_res_allocator := \<lparr>ra_current = 1, ra_recycled = []\<rparr>,
      pi_mutex_allocation := [[]], pi_semaphore_allocation := [[]], pi_mutex_need := [[]], pi_semaphore_need := [[]]\<rparr>"

definition small_kernel :: "unit kernel" where
  "small_kernel =
     \<lparr>k_mm = boot_mm, k_space = empty_space,
      k_sched = \<lparr>sc_ready_queue = [0, 2], sc_stop_task = None, sc_current = Some 1, sc_status = (\<lambda>t. if t = 1 then Running else Ready)\<rparr>,
      k_timers = [], k_pids = \<lparr>ra_current = 3, ra_recycled = []\<rparr>, k_kstacks = \<lparr>ra_current = 3, ra_recycled = []\<rparr>,
      k_pid2pcb = [(0, 0), (1, 1), (2, 2)],
      k_procs = [0 \<mapsto> \<lparr>pcb_pid = 0, pcb_inner = small_inner None [1] 0\<rparr>, 1 \<mapsto> \<lparr>pcb_pid = 1, pcb_inner = small_inner (Some 0) [2] 1\<rparr>,
        2 \<mapsto> \<lparr>pcb_pid = 2, pcb_inner = small_inner (Some 1) [] 2\<rparr>],
      k_next_proc = 3, k_tasks = [0 \<mapsto> small_task 0 0, 1 \<mapsto> small_task 1 1, 2 \<mapsto> small_task 2 2], k_next_task = 3,
      k_files = [0 \<mapsto> StdinFile, 1 \<mapsto> StdoutFile, 2 \<mapsto> StdoutFile], k_next_file = 3, k_rings = Map.empty, k_next_ring = 0,
      k_pending = Map.empty, k_initproc = Some 0, k_fs = (), k_console = [], k_trigger = 0, k_halted = None\<rparr>"



lemma small_facts:
  "sc_current (k_sched small_kernel) = Some 1" "k_tasks small_kernel 1 = Some (small_task 1 1)"
  "k_procs small_kernel 0 = Some \<lparr>pcb_pid = 0, pcb_inner = small_inner None [1] 0\<rparr>"
  "k_procs small_kernel 1 = Some \<lparr>pcb_pid = 1, pcb_inner = small_inner (Some 0) [2] 1\<rparr>"
  "k_procs small_kernel 2 = Some \<lparr>pcb_pid = 2, pcb_inner = small_inner (Some 1) [] 2\<rparr>"
  "k_halted small_kernel = None" "k_initproc small_kernel = Some 0" "k_next_proc small_kernel = 3"
  "k_pid2pcb small_kernel = [(0, 0), (1, 1), (2, 2)]" "sc_ready_queue (k_sched small_kernel) = [0, 2]"
  "pi_children (small_inner par cs t) = cs" "tcb_process (small_task p ks) = p"
  "tcb_res (small_task p ks) = Some \<lparr>ur_tid = 0, ur_ustack_base = 0x10000, ur_process = p\<rparr>"
  by (simp_all add: small_kernel_def small_inner_def small_task_def)


section \<open>Waiting for a child\<close>

lemma position_Cons: "position P (x # xs) = (if P x then Some 0 else map_option Suc (position P xs))"
proof (cases "P x")
  case True
  then show ?thesis by (simp add: position_Some)
next
  case False
  show ?thesis
  proof (cases "position P xs")
    case None
    then have "position P (x # xs) = None" using False by (simp add: position_None)
    then show ?thesis using None False by simp
  next
    case (Some i)
    then have "position P (x # xs) = Some (Suc i)" using False by (auto simp: position_Some nth_Cons split: nat.splits)
    then show ?thesis using Some False by simp
  qed
qed

lemma find_child_position:
  assumes "\<forall>c \<in> set cs. P c = Inr (Q c)"
  shows "find_child P n cs = Inr (map_option (\<lambda>j. (n + j, cs ! j)) (position Q cs))"
  using assms
proof (induction cs arbitrary: n)
  case Nil
  then show ?case by (simp add: position_def)
next
  case (Cons c cs)
  then show ?case by (cases "position Q cs") (simp_all add: position_Cons)
qed

definition pid_of :: "'s kernel \<Rightarrow> process \<Rightarrow> usize" where
  "pid_of k c = pcb_pid (the (k_procs k c))"

definition waited_for :: "isize \<Rightarrow> 's kernel \<Rightarrow> process \<Rightarrow> bool" where
  "waited_for pid k c \<longleftrightarrow> pid = - 1 \<or> pid = pid_of k c"

definition is_zombie :: "'s kernel \<Rightarrow> process \<Rightarrow> bool" where
  "is_zombie k c \<longleftrightarrow> pi_is_zombie (pcb_inner (the (k_procs k c)))"

lemma matches_live:
  assumes "k_procs k c \<noteq> None"
  shows "pid_matches pid k c = Inr (waited_for pid k c)" "zombie_matches pid k c = Inr (is_zombie k c \<and> waited_for pid k c)"
  using assms by (auto simp: pid_matches_def zombie_matches_def waited_for_def is_zombie_def pid_of_def getpid_def the_pid_def the_inner_def)

lemma waitpid_unfold:
  assumes "current_process k = Inr p" "the_inner p k = Inr i" "\<forall>c \<in> set (pi_children i). k_procs k c \<noteq> None"
  shows "sys_waitpid pid ptr k =
    (if \<not> list_ex (waited_for pid k) (pi_children i) then Inr (- 1, k)
     else case position (\<lambda>c. is_zombie k c \<and> waited_for pid k c) (pi_children i) of
       None \<Rightarrow> Inr (- 2, k)
     | Some j \<Rightarrow>
         (let c = pi_children i ! j; k1 = set_inner p (i\<lparr>pi_children := remove_at j (pi_children i)\<rparr>) k in
          and_then (assert_that (process_refs c k1 = 0)) (\<lambda>_.
          and_then (getpid c k1) (\<lambda>found_pid.
          and_then (the_inner c k1) (\<lambda>ci.
          and_then (translated_refmut (MemorySet_token (pi_memory_set i)) (phys (k_mm k1)) ptr) (\<lambda>a.
          and_then (release [ToProcess c] (set_phys (write_bytes (phys (k_mm k1)) a (le_bytes (pi_exit_code ci))) k1)) (\<lambda>k'.
          Inr (found_pid, k'))))))))"
proof -
  have f: "find_child (pid_matches pid k) 0 (pi_children i) = Inr (map_option (\<lambda>j. (0 + j, pi_children i ! j)) (position (waited_for pid k) (pi_children i)))"
    "find_child (zombie_matches pid k) 0 (pi_children i) =
      Inr (map_option (\<lambda>j. (0 + j, pi_children i ! j)) (position (\<lambda>c. is_zombie k c \<and> waited_for pid k c) (pi_children i)))"
    using assms(3) matches_live by (intro find_child_position; blast)+
  have "position (waited_for pid k) (pi_children i) = None \<longleftrightarrow> \<not> list_ex (waited_for pid k) (pi_children i)"
    by (auto simp: position_None list_ex_iff)
  then show ?thesis
    unfolding sys_waitpid_def assms(1,2) and_then_Inr f
    by (auto simp: Let_def split: option.split)
qed

text \<open>A reference that stays until a task runs again.\<close>

lemma only_drops_None: "only_drops k k' \<Longrightarrow> k_procs k p = None \<Longrightarrow> k_procs k' p = None"
  by (rule ccontr) (force simp: only_drops_def)

lemma release_drops_unreferenced:
  assumes "release [ToProcess c] k = Inr k'" "process_refs c k = 0" "c < k_next_proc k"
  shows "k_procs k' c = None"
proof (cases "k_procs k c = None")
  case True
  then show ?thesis using only_drops_None [OF release_only_drops [OF assms(1)]] by blast
next
  case False
  then obtain rs k1 where "drop_process c k = Inr (rs, k1)" "release rs k1 = Inr k'"
    using assms by (auto simp: release.simps(2) split: sum.splits)
  then have "k_procs k1 c = None \<and> only_drops k1 k'" using drop_process_dom(1) release_only_drops by fastforce
  then show ?thesis using only_drops_None by blast
qed

lemma set_phys_fields [simp]:
  "k_procs (set_phys m k) = k_procs k" "k_next_proc (set_phys m k) = k_next_proc k" "process_refs p (set_phys m k) = process_refs p k"
  "proc_view (set_phys m k) p = proc_view k p" "phys (k_mm (set_phys m k)) = m"
  by (simp_all add: set_phys_def process_refs_def live_processes_def suspended_calls_def proc_view_def)

text \<open>Whenever \<open>waitpid\<close> returns from collecting a child, also one that leaves something behind.\<close>

lemma waitpid_found:
  assumes w: "sys_waitpid pid ptr k = Inr (n, k')" and cur: "current_process k = Inr p" "the_inner p k = Inr i"
    and live: "\<forall>c \<in> set (pi_children i). k_procs k c \<noteq> None"
    and j: "position (\<lambda>c. is_zombie k c \<and> waited_for pid k c) (pi_children i) = Some j" "pi_children i ! j = c" "c \<noteq> p" "c < k_next_proc k"
  shows "n = pid_of k c \<and> k_procs k' c = None \<and>
    (k_procs k' p \<noteq> None \<longrightarrow> map_option pv_children (proc_view k' p) = Some (remove_at j (pi_children i))) \<and>
    (\<exists>a k1. translated_refmut (MemorySet_token (pi_memory_set i)) (phys (k_mm k)) ptr = Inr a \<and>
      phys (k_mm k1) = write_bytes (phys (k_mm k)) a (le_bytes (pi_exit_code (pcb_inner (the (k_procs k c))))) \<and> only_drops k1 k')"
proof -
  let ?k1 = "set_inner p (i\<lparr>pi_children := remove_at j (pi_children i)\<rparr>) k"
  have c: "c \<in> set (pi_children i)" "waited_for pid k c" using j(1,2) by (auto simp: position_Some)
  then have ex: "list_ex (waited_for pid k) (pi_children i)" by (auto simp: list_ex_iff)
  obtain cb where cb: "k_procs k c = Some cb" using live c by blast
  have u: "and_then (assert_that (process_refs c ?k1 = 0)) (\<lambda>_. and_then (getpid c ?k1) (\<lambda>found_pid. and_then (the_inner c ?k1) (\<lambda>ci.
      and_then (translated_refmut (MemorySet_token (pi_memory_set i)) (phys (k_mm ?k1)) ptr) (\<lambda>a.
      and_then (release [ToProcess c] (set_phys (write_bytes (phys (k_mm ?k1)) a (le_bytes (pi_exit_code ci))) ?k1)) (\<lambda>k'. Inr (found_pid, k')))))) = Inr (n, k')"
    using w unfolding waitpid_unfold [OF cur live] j(1) by (simp only: ex j(2) Let_def option.case if_False not_True_eq_False)
  have "getpid c ?k1 = Inr (pcb_pid cb)" "the_inner c ?k1 = Inr (pcb_inner cb)"
    using cb j(3) by (simp_all add: getpid_def the_pid_def the_inner_def)
  then obtain a where a: "process_refs c ?k1 = 0" "n = pcb_pid cb" "translated_refmut (MemorySet_token (pi_memory_set i)) (phys (k_mm k)) ptr = Inr a"
    "release [ToProcess c] (set_phys (write_bytes (phys (k_mm k)) a (le_bytes (pi_exit_code (pcb_inner cb)))) ?k1) = Inr k'"
    using u by (auto simp: panic_simps)
  let ?k2 = "set_phys (write_bytes (phys (k_mm k)) a (le_bytes (pi_exit_code (pcb_inner cb)))) ?k1"
  have "k_procs k' c = None" by (rule release_drops_unreferenced [OF a(4)]) (use a(1) j(4) in simp_all)
  moreover have "map_option pv_children (proc_view k' p) = Some (remove_at j (pi_children i))" if "k_procs k' p \<noteq> None"
  proof -
    have "k_procs k p \<noteq> None" using cur(2) by (auto simp: the_inner_eq)
    then show ?thesis using release_process_view [OF a(4) that] by (simp add: proc_view_set_inner view_of_def)
  qed
  moreover have "phys (k_mm ?k2) = write_bytes (phys (k_mm k)) a (le_bytes (pi_exit_code (pcb_inner (the (k_procs k c)))))" using cb by simp
  ultimately show ?thesis using a(2,3) cb release_only_drops [OF a(4)] by (intro conjI exI [of _ a] exI [of _ ?k2]) (simp_all add: pid_of_def)
qed

lemma for_each_keeps:
  assumes "for_each f xs s = Inr s'" "\<And>x s s'. f x s = Inr s' \<Longrightarrow> g s' = g s"
  shows "g s' = g s"
  using assms(1)
proof (induction xs arbitrary: s)
  case (Cons x xs)
  then obtain s1 where "f x s = Inr s1" "for_each f xs s1 = Inr s'" by (auto simp: panic_simps)
  then show ?case using Cons.IH assms(2) by metis
qed simp

lemma FrameTracker_drop_phys: "FrameTracker_drop s f = Inr s' \<Longrightarrow> phys s' = phys s"
  by (auto simp: FrameTracker_drop_def frame_dealloc_def panic_simps)

lemma MapArea_drop_phys: "MapArea_drop a s = Inr s' \<Longrightarrow> phys s' = phys s"
  unfolding MapArea_drop_def by (rule for_each_keeps [where g = phys]) (auto intro: FrameTracker_drop_phys)

lemma MemorySet_drop_phys: "MemorySet_drop ms s = Inr s' \<Longrightarrow> phys s' = phys s"
  by (auto simp: MemorySet_drop_def panic_simps dest!: for_each_keeps [where g = phys] intro: FrameTracker_drop_phys MapArea_drop_phys)

text \<open>A child nothing else refers to, with no child, thread or waiter left, goes with its pid and its memory.\<close>

lemma release_last:
  assumes "process_refs c k = 0" "c < k_next_proc k" "k_procs k c = Some b"
    "pi_children (pcb_inner b) = []" "pi_tasks (pcb_inner b) = []" "wait_queues (pcb_inner b) = []"
    "PidHandle_drop (pcb_pid b) (k_pids k) = Inr pids" "MemorySet_drop (pi_memory_set (pcb_inner b)) (k_mm k) = Inr s"
  shows "release [ToProcess c] k = Inr (k\<lparr>k_procs := (k_procs k)(c := None), k_pids := pids, k_mm := s\<rparr>)"
  using assms by (simp add: release.simps(2) drop_process_def Let_def List.map_filter_simps)

lemma waitpid_collects:
  assumes cur: "current_process k = Inr p" "the_inner p k = Inr i"
    and live: "\<forall>c \<in> set (pi_children i). k_procs k c \<noteq> None"
    and j: "position (\<lambda>c. is_zombie k c \<and> waited_for pid k c) (pi_children i) = Some j" "pi_children i ! j = c" "c \<noteq> p" "c < k_next_proc k"
    and cb: "k_procs k c = Some b" and k1: "k1 = set_inner p (i\<lparr>pi_children := remove_at j (pi_children i)\<rparr>) k"
  shows "process_refs c k1 \<noteq> 0 \<Longrightarrow> sys_waitpid pid ptr k = Inl AssertFailed"
    "process_refs c k1 = 0 \<Longrightarrow> translated_refmut (MemorySet_token (pi_memory_set i)) (phys (k_mm k)) ptr = Inr a \<Longrightarrow>
      pi_children (pcb_inner b) = [] \<Longrightarrow> pi_tasks (pcb_inner b) = [] \<Longrightarrow> wait_queues (pcb_inner b) = [] \<Longrightarrow>
      PidHandle_drop (pcb_pid b) (k_pids k) = Inr pids \<Longrightarrow>
      MemorySet_drop (pi_memory_set (pcb_inner b)) ((k_mm k)\<lparr>phys := write_bytes (phys (k_mm k)) a (le_bytes (pi_exit_code (pcb_inner b)))\<rparr>) = Inr s \<Longrightarrow>
      sys_waitpid pid ptr k = Inr (pcb_pid b, k1\<lparr>k_procs := (k_procs k1)(c := None), k_pids := pids, k_mm := s\<rparr>)"
proof -
  have c: "c \<in> set (pi_children i)" "waited_for pid k c" using j(1,2) by (auto simp: position_Some)
  then have ex: "list_ex (waited_for pid k) (pi_children i)" by (auto simp: list_ex_iff)
  have f: "getpid c k1 = Inr (pcb_pid b)" "the_inner c k1 = Inr (pcb_inner b)" "k_procs k1 c = Some b" "k_mm k1 = k_mm k"
      "k_pids k1 = k_pids k" "k_next_proc k1 = k_next_proc k"
    using cb j(3) by (simp_all add: k1 getpid_def the_pid_def the_inner_def) (simp add: set_inner_def split: option.split)
  have u: "sys_waitpid pid ptr k = and_then (assert_that (process_refs c k1 = 0)) (\<lambda>_.
      and_then (translated_refmut (MemorySet_token (pi_memory_set i)) (phys (k_mm k)) ptr) (\<lambda>a.
      and_then (release [ToProcess c] (set_phys (write_bytes (phys (k_mm k)) a (le_bytes (pi_exit_code (pcb_inner b)))) k1)) (\<lambda>k'.
      Inr (pcb_pid b, k'))))"
    unfolding waitpid_unfold [OF cur live] j(1)
    by (simp only: ex j(2) Let_def option.case if_False not_True_eq_False k1 [symmetric] f and_then_Inr)
  show "sys_waitpid pid ptr k = Inl AssertFailed" if "process_refs c k1 \<noteq> 0"
    unfolding u using that by (simp add: assert_that_def)
  show "sys_waitpid pid ptr k = Inr (pcb_pid b, k1\<lparr>k_procs := (k_procs k1)(c := None), k_pids := pids, k_mm := s\<rparr>)"
    if h: "process_refs c k1 = 0" "translated_refmut (MemorySet_token (pi_memory_set i)) (phys (k_mm k)) ptr = Inr a"
      "pi_children (pcb_inner b) = []" "pi_tasks (pcb_inner b) = []" "wait_queues (pcb_inner b) = []"
      "PidHandle_drop (pcb_pid b) (k_pids k) = Inr pids"
      "MemorySet_drop (pi_memory_set (pcb_inner b)) ((k_mm k)\<lparr>phys := write_bytes (phys (k_mm k)) a (le_bytes (pi_exit_code (pcb_inner b)))\<rparr>) = Inr s"
  proof -
    let ?k2 = "set_phys (write_bytes (phys (k_mm k)) a (le_bytes (pi_exit_code (pcb_inner b)))) k1"
    have "release [ToProcess c] ?k2 = Inr (?k2\<lparr>k_procs := (k_procs ?k2)(c := None), k_pids := pids, k_mm := s\<rparr>)"
    proof (rule release_last)
      show "process_refs c ?k2 = 0" using h(1) by simp
    qed (use h(3-7) f j(4) in \<open>simp_all add: set_phys_def\<close>)
    moreover have "?k2\<lparr>k_procs := (k_procs ?k2)(c := None), k_pids := pids, k_mm := s\<rparr> = k1\<lparr>k_procs := (k_procs k1)(c := None), k_pids := pids, k_mm := s\<rparr>"
      by (simp add: set_phys_def)
    ultimately show ?thesis unfolding u using h(1,2) by (simp add: assert_that_def)
  qed
qed


text \<open>
  C11. \<open>waitpid\<close> answers as documented: -1 when no child has the pid (any child will do for -1), -2 when such children exist but none
  has exited, both without a change. Otherwise it takes the first child in the list that has exited and has the pid: when something still
  refers to that child the assertion on its reference count panics; when nothing does, and the child has no child, thread or waiter left, as
  after an exit, its pid and frames can be given back and the pointer is mapped, \<open>waitpid\<close> returns the pid, has stored
  the exit code behind the pointer, and the child has left the list and is gone, with its pid and memory given back.
\<close>

theorem waitpid_result:
  assumes "current_process k = Inr p" "the_inner p k = Inr i" "\<forall>c \<in> set (pi_children i). k_procs k c \<noteq> None \<and> c < k_next_proc k \<and> c \<noteq> p"
  shows "if \<not> list_ex (waited_for pid k) (pi_children i) then sys_waitpid pid ptr k = Inr (- 1, k)
    else case position (\<lambda>c. is_zombie k c \<and> waited_for pid k c) (pi_children i) of
      None \<Rightarrow> sys_waitpid pid ptr k = Inr (- 2, k)
    | Some j \<Rightarrow>
        (let c = pi_children i ! j; b = the (k_procs k c); k1 = set_inner p (i\<lparr>pi_children := remove_at j (pi_children i)\<rparr>) k in
         (process_refs c k1 \<noteq> 0 \<longrightarrow> sys_waitpid pid ptr k = Inl AssertFailed) \<and>
         (\<forall>a m pids s. process_refs c k1 = 0 \<longrightarrow> translated_refmut (MemorySet_token (pi_memory_set i)) (phys (k_mm k)) ptr = Inr a \<longrightarrow>
            pi_children (pcb_inner b) = [] \<longrightarrow> pi_tasks (pcb_inner b) = [] \<longrightarrow> wait_queues (pcb_inner b) = [] \<longrightarrow>
            m = write_bytes (phys (k_mm k)) a (le_bytes (pi_exit_code (pcb_inner b))) \<longrightarrow>
            PidHandle_drop (pcb_pid b) (k_pids k) = Inr pids \<longrightarrow> MemorySet_drop (pi_memory_set (pcb_inner b)) ((k_mm k)\<lparr>phys := m\<rparr>) = Inr s \<longrightarrow>
            sys_waitpid pid ptr k = Inr (pcb_pid b, k1\<lparr>k_procs := (k_procs k1)(c := None), k_pids := pids, k_mm := s\<rparr>) \<and> phys s = m))"
proof -
  have live: "\<forall>c \<in> set (pi_children i). k_procs k c \<noteq> None" using assms(3) by blast
  note u = waitpid_unfold [OF assms(1,2) live, of pid ptr]
  show ?thesis
  proof (cases "position (\<lambda>c. is_zombie k c \<and> waited_for pid k c) (pi_children i)")
    case None
    then show ?thesis unfolding u by simp
  next
    case (Some j)
    then have "pi_children i ! j \<in> set (pi_children i)" by (simp add: position_Some)
    then have c: "pi_children i ! j \<noteq> p" "pi_children i ! j < k_next_proc k" "k_procs k (pi_children i ! j) = Some (the (k_procs k (pi_children i ! j)))"
      using assms(3) by auto
    note w = waitpid_collects [OF assms(1,2) live Some refl c refl]
    show ?thesis
    proof (cases "list_ex (waited_for pid k) (pi_children i)")
      case True
      show ?thesis unfolding Some option.case Let_def
        using True by (simp only: not_True_eq_False if_False) (use w MemorySet_drop_phys in fastforce)
    next
      case False
      then show ?thesis unfolding u by simp
    qed
  qed
qed

text \<open>A process with an exited child 2 whose memory is mapped onto frame 1.\<close>

definition wait_inner :: ProcessControlBlockInner where
  "wait_inner = (small_inner (Some 0) [2] 1)
     \<lparr>pi_memory_set := \<lparr>ms_page_table = PageTable_from_token self_token, ms_areas = []\<rparr>\<rparr>"

definition wait_kernel :: "unit kernel" where
  "wait_kernel = small_kernel
     \<lparr>k_mm := boot_mm\<lparr>phys := self_map\<rparr>, k_pid2pcb := [(0, 0), (1, 1)],
      k_procs := [0 \<mapsto> \<lparr>pcb_pid = 0, pcb_inner = small_inner None [1] 0\<rparr>, 1 \<mapsto> \<lparr>pcb_pid = 1, pcb_inner = wait_inner\<rparr>,
        2 \<mapsto> \<lparr>pcb_pid = 2, pcb_inner = (small_inner (Some 1) [] 2)\<lparr>pi_is_zombie := True, pi_exit_code := 9, pi_tasks := [], pi_fd_table := []\<rparr>\<rparr>],
      k_tasks := [0 \<mapsto> small_task 0 0, 1 \<mapsto> small_task 1 1]\<rparr>"

lemma wait_translated: "translated_refmut (MemorySet_token (pi_memory_set wait_inner)) (phys (k_mm wait_kernel)) 0x20 = Inr 0x1020"
proof -
  have "(case translated_refmut (MemorySet_token (pi_memory_set wait_inner)) (phys (k_mm wait_kernel)) 0x20 of Inr a \<Rightarrow> a = 0x1020 | Inl _ \<Rightarrow> False)"
    by code_simp
  then show ?thesis by (auto split: sum.splits)
qed

lemma wait_facts:
  "current_process wait_kernel = Inr 1" "the_inner 1 wait_kernel = Inr wait_inner" "pi_children wait_inner = [2]"
  "k_next_proc wait_kernel = 3" "k_procs wait_kernel 2 \<noteq> None" "pid_of wait_kernel 2 = 2"
  "position (\<lambda>c. is_zombie wait_kernel c \<and> waited_for 2 wait_kernel c) [2] = Some 0" "waited_for 2 wait_kernel 2"
  "pi_exit_code (pcb_inner (the (k_procs wait_kernel 2))) = 9"
  "current_process small_kernel = Inr 1" "the_inner 1 small_kernel = Inr (small_inner (Some 0) [2] 1)"
  "\<not> is_zombie small_kernel 2" "waited_for 2 small_kernel 2" "\<not> waited_for 5 small_kernel 2" "k_procs small_kernel 2 \<noteq> None"
  by (simp_all add: wait_kernel_def small_kernel_def wait_inner_def small_inner_def small_task_def current_process_def current_task_def
      current_tcb_def the_inner_def pid_of_def position_Cons is_zombie_def waited_for_def ProcessControlBlockInner_new_def the_tcb_def)

lemma wait_child:
  "process_refs 2 (set_inner 1 (wait_inner\<lparr>pi_children := remove_at 0 [2]\<rparr>) wait_kernel) = 0"
  "PidHandle_drop 2 (k_pids wait_kernel) = Inr \<lparr>ra_current = 3, ra_recycled = [2]\<rparr>"
  "pi_children (pcb_inner (the (k_procs wait_kernel 2))) = []" "pi_tasks (pcb_inner (the (k_procs wait_kernel 2))) = []"
  "wait_queues (pcb_inner (the (k_procs wait_kernel 2))) = []" "pcb_pid (the (k_procs wait_kernel 2)) = 2"
  "MemorySet_drop (pi_memory_set (pcb_inner (the (k_procs wait_kernel 2)))) s = Inr s"
proof -
  show "process_refs 2 (set_inner 1 (wait_inner\<lparr>pi_children := remove_at 0 [2]\<rparr>) wait_kernel) = 0" by code_simp
qed (simp_all add: wait_kernel_def small_kernel_def small_inner_def ProcessControlBlockInner_new_def wait_queues_def PidHandle_drop_def
  RecycleAllocator_dealloc_def assert_that_def empty_space_def MemorySet_drop_def)

theorem waitpid_result_witness:
  "sys_waitpid 5 0x20 small_kernel = Inr (- 1, small_kernel) \<and> sys_waitpid 2 0x20 small_kernel = Inr (- 2, small_kernel) \<and>
   (\<exists>k'. sys_waitpid 2 0x20 wait_kernel = Inr (2, k') \<and> k_procs k' 2 = None \<and>
     phys (k_mm k') = write_bytes (phys (k_mm wait_kernel)) 0x1020 (le_bytes (9 :: i32)))"
proof (intro conjI)
  note r = waitpid_result [OF wait_facts(10,11), of _ "0x20"]
  show "sys_waitpid 5 0x20 small_kernel = Inr (- 1, small_kernel)"
    using r [of 5] by (simp add: wait_facts small_facts)
  show "sys_waitpid 2 0x20 small_kernel = Inr (- 2, small_kernel)"
    using r [of 2] by (simp add: wait_facts small_facts position_Cons position_None [THEN iffD2])
  show "\<exists>k'. sys_waitpid 2 0x20 wait_kernel = Inr (2, k') \<and> k_procs k' 2 = None \<and>
     phys (k_mm k') = write_bytes (phys (k_mm wait_kernel)) 0x1020 (le_bytes (9 :: i32))"
    using waitpid_result [OF wait_facts(1,2), of 2 "0x20"] wait_child by (simp add: wait_facts wait_translated Let_def)
qed

section \<open>A thread that is blocked when its process exits\<close>

text \<open>The calls that are suspended stay as they are through an exit.\<close>

definition same_calls :: "'s kernel \<Rightarrow> 's kernel \<Rightarrow> bool" where
  "same_calls k k' \<longleftrightarrow> k_pending k' = k_pending k \<and> k_next_task k' = k_next_task k"

lemma same_calls_trans: "same_calls k k1 \<Longrightarrow> same_calls k1 k2 \<Longrightarrow> same_calls k k2"
  by (simp add: same_calls_def)

lemma only_drops_same_calls: "only_drops k k' \<Longrightarrow> same_calls k k'"
  by (simp add: same_calls_def only_drops_fields)

lemma release_same_calls: "release rs k = Inr k' \<Longrightarrow> same_calls k k'"
  by (rule only_drops_same_calls) (rule release_only_drops)

lemma set_inner_same_calls [simp]: "same_calls (set_inner p i k) k' = same_calls k k'" "same_calls k (set_inner p i k') = same_calls k k'"
  by (simp_all add: same_calls_def)

lemma for_each_same_calls:
  assumes "for_each f xs s = Inr s'" "\<And>x s s'. f x s = Inr s' \<Longrightarrow> same_calls (g s) (g s')"
  shows "same_calls (g s) (g s')"
  using assms(1)
proof (induction xs arbitrary: s)
  case (Cons x xs)
  then obtain s1 where "f x s = Inr s1" "for_each f xs s1 = Inr s'" by (auto simp: panic_simps)
  then show ?case using Cons.IH assms(2) same_calls_trans by blast
qed (simp add: same_calls_def)

lemma adopt_child_same_calls: "adopt_child q c k = Inr k' \<Longrightarrow> same_calls k k'"
  by (auto simp: adopt_child_def Let_def panic_simps) (simp add: same_calls_def)

lemma collect_res_same_calls: "collect_res t s = Inr s' \<Longrightarrow> same_calls (snd s) (snd s')"
  by (auto simp: collect_res_def remove_inactive_task_def Let_def set_tcb_def same_calls_def panic_simps split: option.splits prod.splits)

lemma exit_process_same_calls:
  assumes "exit_process p code k = Inr k'" "k_procs k p = Some b"
  shows "same_calls k k'"
proof (cases "pcb_pid b = IDLE_PID")
  case True
  then show ?thesis using assms by (auto simp: exit_process_def getpid_def the_pid_def same_calls_def)
next
  case False
  obtain q k1 k2 k3 k4 k5 rs ms s i4 i5 where st: "k1 = k\<lparr>k_pid2pcb := snd (btree_remove (pcb_pid b) (k_pid2pcb k))\<rparr>"
    "for_each (adopt_child q) (pi_children (pcb_inner b)) (set_inner p ((pcb_inner b)\<lparr>pi_is_zombie := True, pi_exit_code := code\<rparr>) k1) = Inr k2"
    "for_each collect_res (List.map_filter (\<lambda>t. t) (pi_tasks (pcb_inner b))) ([], k2) = Inr (rs, k3)" "for_each drop_res rs k3 = Inr k4"
    "release (map ToProcess (pi_children i4)) (set_inner p (i4\<lparr>pi_children := []\<rparr>) k4) = Inr k5"
    "release (map ToTask (List.map_filter (\<lambda>t. t) (pi_tasks i5)))
       (set_inner p (i5\<lparr>pi_memory_set := ms, pi_fd_table := [], pi_tasks := []\<rparr>) (k5\<lparr>k_mm := s\<rparr>)) = Inr k'"
    using exit_process_stages [OF assms False] by metis
  have "same_calls k k1" by (simp add: st(1) same_calls_def)
  moreover have "same_calls k1 k2"
    using for_each_same_calls [where g = "\<lambda>k. k", OF st(2) adopt_child_same_calls] by simp
  moreover have "same_calls k2 k3"
    using for_each_same_calls [where g = snd, OF st(3) collect_res_same_calls] by simp
  moreover have "same_calls k3 k4"
    using for_each_same_calls [where g = "\<lambda>k. k", OF st(4) only_drops_same_calls [OF drop_res_only_drops]] by simp
  moreover have "same_calls k4 k5" "same_calls (k5\<lparr>k_mm := s\<rparr>) k'" using release_same_calls [OF st(5)] release_same_calls [OF st(6)] by simp_all
  ultimately show ?thesis by (simp add: same_calls_def)
qed

lemma add_stopping_task_same_calls: "add_stopping_task t k = Inr k' \<Longrightarrow> same_calls k k'"
  by (auto simp: add_stopping_task_def Let_def dest!: release_same_calls) (simp add: same_calls_def)

lemma exit_same_calls:
  assumes "exit_current_and_run_next code k = Inr k'"
  shows "same_calls k k'"
proof -
  obtain t b r k1 k2 where k: "drop_res r (set_tcb t (b\<lparr>tcb_exit_code := Some code, tcb_res := None\<rparr>) (k\<lparr>k_sched := (k_sched k)\<lparr>sc_current := None\<rparr>\<rparr>)) = Inr k1"
    "(if ur_tid r = 0 then add_stopping_task t k1 else release [ToTask t] k1) = Inr k2"
    "(if ur_tid r = 0 then and_then (exit_process (tcb_process b) code k2) (\<lambda>k. if k_halted k \<noteq> None then Inr k else release [ToProcess (tcb_process b)] k)
      else release [ToProcess (tcb_process b)] k2) = Inr k'"
    using assms by (auto simp: exit_current_and_run_next_def take_current_task_def Let_def panic_simps split: prod.splits)
  have 1: "same_calls k k1" using only_drops_same_calls [OF drop_res_only_drops [OF k(1)]] by (simp add: same_calls_def set_tcb_def)
  have 2: "same_calls k1 k2" using k(2) add_stopping_task_same_calls release_same_calls by (auto split: if_splits)
  have "same_calls k2 k3" if "exit_process p code k2 = Inr k3" for p k3
    by (rule exit_process_same_calls [OF that, of "the (k_procs k2 p)"])
      (use that in \<open>auto simp: exit_process_def getpid_def the_pid_def panic_simps\<close>)
  then have "same_calls k2 k'" using k(3) release_same_calls same_calls_trans by (auto simp: panic_simps split: if_splits) blast+
  then show ?thesis using 1 2 same_calls_trans by blast
qed

text \<open>
  C37. A thread that waits in a semaphore, a condition variable or a read or write of a file keeps its process alive from its
  kernel stack, and exiting does not end such a wait. If the main thread exits meanwhile, the parent's \<open>waitpid\<close> for this
  process fails its assertion that nothing else refers to the process, as long as the call is still suspended.
\<close>

theorem blocked_thread_breaks_waitpid:
  assumes "exit_current_and_run_next code k = Inr k1" "u < k_next_task k" "k_pending k u = Some call" "pending_process call = Some c"
    and later: "k_pending k2 u = k_pending k1 u" "k_next_task k1 \<le> k_next_task k2"
    and "current_process k2 = Inr p" "the_inner p k2 = Inr i" "\<forall>c \<in> set (pi_children i). k_procs k2 c \<noteq> None"
    and j: "position (\<lambda>c. is_zombie k2 c \<and> waited_for pid k2 c) (pi_children i) = Some j" "pi_children i ! j = c"
  shows "sys_waitpid pid ptr k2 = Inl AssertFailed"
proof -
  have "k_pending k2 u = Some call" "u < k_next_task k2" using exit_same_calls [OF assms(1)] assms(2,3) later by (simp_all add: same_calls_def)
  then have "process_refs c (set_inner p (i\<lparr>pi_children := remove_at j (pi_children i)\<rparr>) k2) > 0"
    using assms(4) by (intro process_refs_pos(4) [of u]) simp_all
  moreover have "list_ex (waited_for pid k2) (pi_children i)" using j(1) by (auto simp: position_Some list_ex_iff)
  ultimately show ?thesis unfolding waitpid_unfold [OF assms(7-9)] j by (simp add: j Let_def assert_that_def)
qed

text \<open>Process 1 has a second thread, task 3, that waits for a semaphore; its main thread exits and the initial process, task 0, runs.\<close>

definition blocked_kernel :: "unit kernel" where
  "blocked_kernel = small_kernel
     \<lparr>k_sched := \<lparr>sc_ready_queue = [0, 2], sc_stop_task = None, sc_current = Some 1,
        sc_status = (\<lambda>t. if t = 1 then Running else if t = 3 then Blocked else Ready)\<rparr>,
      k_procs := (k_procs small_kernel)(1 \<mapsto> \<lparr>pcb_pid = 1, pcb_inner = (small_inner (Some 0) [2] 1)
        \<lparr>pi_tasks := [Some 1, Some 3], pi_task_res_allocator := \<lparr>ra_current = 2, ra_recycled = []\<rparr>,
         pi_semaphore_list := [Some \<lparr>sem_count = - 1, sem_wait_queue = [3]\<rparr>], pi_semaphore_available := [0],
         pi_mutex_allocation := [[], []], pi_semaphore_allocation := [[0], [0]], pi_mutex_need := [[], []], pi_semaphore_need := [[0], [1]]\<rparr>\<rparr>),
      k_tasks := (k_tasks small_kernel)(3 \<mapsto> (small_task 1 3)\<lparr>tcb_res := Some \<lparr>ur_tid = 1, ur_ustack_base = 0x10000, ur_process = 1\<rparr>\<rparr>),
      k_next_task := 4, k_kstacks := \<lparr>ra_current = 4, ra_recycled = []\<rparr>,
      k_pending := [3 \<mapsto> SemaphoreWait 1]\<rparr>"

definition parent_runs :: "'s kernel \<Rightarrow> 's kernel" where
  "parent_runs k = k\<lparr>k_sched := (k_sched k)\<lparr>sc_current := Some 0\<rparr>\<rparr>"

lemma blocked_exit:
  "\<exists>k1 i. exit_current_and_run_next 7 blocked_kernel = Inr k1 \<and> current_process (parent_runs k1) = Inr 0 \<and>
    the_inner 0 (parent_runs k1) = Inr i \<and> pi_children i = [1, 2] \<and>
    (\<forall>c \<in> set (pi_children i). k_procs (parent_runs k1) c \<noteq> None) \<and> is_zombie (parent_runs k1) 1 \<and> pid_of (parent_runs k1) 1 = 1"
proof -
  have "(case exit_current_and_run_next 7 blocked_kernel of Inl _ \<Rightarrow> False | Inr k1 \<Rightarrow>
      (case current_process (parent_runs k1) of Inl _ \<Rightarrow> False | Inr p \<Rightarrow> p = 0) \<and>
      (case the_inner 0 (parent_runs k1) of Inl _ \<Rightarrow> False | Inr i \<Rightarrow> pi_children i = [1, 2]) \<and>
      \<not> Option.is_none (k_procs (parent_runs k1) 1) \<and> \<not> Option.is_none (k_procs (parent_runs k1) 2) \<and>
      is_zombie (parent_runs k1) 1 \<and> pid_of (parent_runs k1) 1 = 1)" by code_simp
  then show ?thesis by (auto simp: Option.is_none_def split: sum.splits)
qed

theorem blocked_thread_breaks_waitpid_witness:
  "\<exists>k1. exit_current_and_run_next 7 blocked_kernel = Inr k1 \<and> sys_waitpid 1 0x20 (parent_runs k1) = Inl AssertFailed"
proof -
  obtain k1 i where k1: "exit_current_and_run_next 7 blocked_kernel = Inr k1" "current_process (parent_runs k1) = Inr 0"
    "the_inner 0 (parent_runs k1) = Inr i" "pi_children i = [1, 2]" "\<forall>c \<in> set (pi_children i). k_procs (parent_runs k1) c \<noteq> None"
    "is_zombie (parent_runs k1) 1" "pid_of (parent_runs k1) 1 = 1" using blocked_exit by blast
  have b: "3 < k_next_task blocked_kernel" "k_pending blocked_kernel 3 = Some (SemaphoreWait 1)" by (simp_all add: blocked_kernel_def)
  have "position (\<lambda>c. is_zombie (parent_runs k1) c \<and> waited_for 1 (parent_runs k1) c) (pi_children i) = Some 0" "pi_children i ! 0 = 1"
    using k1(4,6,7) by (simp_all add: position_Cons waited_for_def)
  from blocked_thread_breaks_waitpid [OF k1(1) b pending_process.simps(1) _ _ k1(2,3,5) this] show ?thesis
    using k1(1) by (simp add: parent_runs_def)
qed

end
