(* ===== verification/Deadlock.thy ===== *)
theory Deadlock
  imports Syscall_Sync
begin

text \<open>
  What the deadlock detection of the semaphore and mutex system calls decides. For semaphores it is the
  safety check of the banker's algorithm: as long as its books are in order, it reports a deadlock exactly when the threads cannot all
  finish, one after the other, each with what is available and what the threads before it have given back; a thread that gives back what it
  did not take puts the books out of order, and free units are then refused. For mutexes the check is much weaker.
\<close>

section \<open>Safe states\<close>

text \<open>The entry of a table, 0 beyond its end.\<close>

definition cell :: "usize list list \<Rightarrow> nat \<Rightarrow> nat \<Rightarrow> nat" where
  "cell tab t i = (if t < length tab \<and> i < length (tab ! t) then unat (tab ! t ! i) else 0)"

text \<open>
  \<open>N t i\<close> is what thread \<open>t\<close> still needs of resource \<open>i\<close>, \<open>A t i\<close> what it holds, \<open>V i\<close> what is available, with \<open>m\<close>
  resources. The threads of \<open>ts\<close> can finish in this order when the needs of each are covered by what is available
  and what those before it hold.
\<close>

definition can_finish :: "nat \<Rightarrow> (nat \<Rightarrow> nat \<Rightarrow> nat) \<Rightarrow> (nat \<Rightarrow> nat \<Rightarrow> nat) \<Rightarrow> (nat \<Rightarrow> nat) \<Rightarrow> nat list \<Rightarrow> bool" where
  "can_finish m N A V ts \<longleftrightarrow>
     (\<forall>k < length ts. \<forall>i < m. N (ts ! k) i \<le> V i + (\<Sum>j < k. A (ts ! j) i))"

definition safe :: "nat \<Rightarrow> nat \<Rightarrow> (nat \<Rightarrow> nat \<Rightarrow> nat) \<Rightarrow> (nat \<Rightarrow> nat \<Rightarrow> nat) \<Rightarrow> (nat \<Rightarrow> nat) \<Rightarrow> bool" where
  "safe m n N A V \<longleftrightarrow> (\<exists>ts. distinct ts \<and> set ts = {..<n} \<and> can_finish m N A V ts)"

lemma can_finish_Nil [simp]: "can_finish m N A V []"
  by (simp add: can_finish_def)

lemma sum_nth_distinct:
  assumes "distinct ts"
  shows "(\<Sum>j < length ts. f (ts ! j)) = sum f (set ts)"
  using assms by (metis bij_betw_nth sum.reindex_bij_betw lessThan_atLeast0)

lemma can_finish_snoc:
  assumes "distinct ts"
  shows "can_finish m N A V (ts @ [t]) \<longleftrightarrow>
    can_finish m N A V ts \<and> (\<forall>i < m. N t i \<le> V i + (\<Sum>u \<in> set ts. A u i))"
proof -
  have s: "(\<Sum>j < k. A ((ts @ [t]) ! j) i) = (\<Sum>j < k. A (ts ! j) i)" if "k \<le> length ts" for k i
    using that by (intro sum.cong) (auto simp: nth_append)
  show ?thesis
    using sum_nth_distinct [OF assms, of "\<lambda>u. A u i" for i]
    by (auto simp: can_finish_def less_Suc_eq all_conj_distrib s nth_append)
qed

text \<open>A thread set from which the search cannot go on decides safety.\<close>

lemma stuck_unsafe:
  assumes "F \<subseteq> {..<n}" "F \<noteq> {..<n}"
    "\<forall>t < n. t \<notin> F \<longrightarrow> (\<exists>i < m. V i + (\<Sum>u \<in> F. A u i) < N t i)"
  shows "\<not> safe m n N A V"
proof
  assume "safe m n N A V"
  then obtain ts where ts: "distinct ts" "set ts = {..<n}" "can_finish m N A V ts" by (auto simp: safe_def)
  define k where "k = (LEAST k. k < length ts \<and> ts ! k \<notin> F)"
  obtain t where "t \<in> set ts" "t \<notin> F" using assms(1,2) ts(2) by blast
  then have "\<exists>k. k < length ts \<and> ts ! k \<notin> F" by (metis in_set_conv_nth)
  then have k: "k < length ts" "ts ! k \<notin> F" unfolding k_def by (metis (mono_tags, lifting) LeastI)+
  have before: "ts ! j \<in> F" if "j < k" for j
    using that k(1) not_less_Least [of j "\<lambda>k. k < length ts \<and> ts ! k \<notin> F"] by (auto simp: k_def)
  have fin: "finite F" using assms(1) finite_subset by blast
  obtain i where i: "i < m" "V i + (\<Sum>u \<in> F. A u i) < N (ts ! k) i" using assms(3) k ts(2) nth_mem by blast
  have "(\<Sum>j < k. A (ts ! j) i) = (\<Sum>u \<in> (!) ts ` {..<k}. A u i)"
    using k(1) ts(1) by (subst sum.reindex) (auto simp: inj_on_def nth_eq_iff_index_eq)
  also have "\<dots> \<le> (\<Sum>u \<in> F. A u i)" using before fin by (intro sum_mono2) auto
  finally show False using ts(3) k(1) i by (fastforce simp: can_finish_def)
qed

section \<open>The search\<close>

text \<open>The state of the search, from the tables \<open>need0\<close>, \<open>alloc0\<close> and \<open>avail0\<close> for \<open>n\<close> threads.\<close>

definition done_set :: "bool list \<Rightarrow> nat set" where
  "done_set finish = {t. t < length finish \<and> finish ! t}"

definition searching :: "usize list list \<Rightarrow> usize list list \<Rightarrow> usize list \<Rightarrow> nat \<Rightarrow> detection \<Rightarrow> bool" where
  "searching need0 alloc0 avail0 n = (\<lambda>(need, allocation, work, finish, found).
     cell need = cell need0 \<and> cell allocation = cell alloc0 \<and> n \<le> length need \<and> n \<le> length allocation \<and>
     length work = length avail0 \<and> length finish = n \<and>
     (\<forall>i < length work. unat (work ! i) = unat (avail0 ! i) + (\<Sum>t \<in> done_set finish. cell alloc0 t i)) \<and>
     (\<exists>ts. distinct ts \<and> set ts = done_set finish \<and>
        can_finish (length avail0) (cell need0) (cell alloc0) (\<lambda>i. unat (avail0 ! i)) ts))"

lemma cell_pad:
  assumes "t < length tab"
  shows "cell (tab[t := pad k (tab ! t)]) = cell tab"
  using assms by (auto simp: cell_def pad_def fun_eq_iff nth_list_update nth_append)

lemma scan_row_ok:
  assumes "t < length tab"
  shows "\<exists>row tab'. scan_row tab work t = Inr (row, tab') \<and> cell tab' = cell tab \<and> length tab' = length tab \<and>
    (\<forall>i < length work. unat (row ! i) = cell tab t i)"
proof (cases "work = []")
  case False
  let ?row = "pad (length work) (tab ! t)"
  have "unat (?row ! i) = cell tab t i" if "i < length work" for i
    using assms that by (auto simp: cell_def pad_def nth_append)
  moreover have "scan_row tab work t = Inr (?row, tab[t := ?row])"
    using assms False by (simp add: scan_row_def pad_row_def array_index_def array_update_def)
  ultimately show ?thesis using cell_pad [OF assms] by (intro exI [of _ ?row] exI [of _ "tab[t := ?row]"]) simp
qed (simp add: scan_row_def)

lemma done_set_update: "t < length finish \<Longrightarrow> done_set (finish[t := True]) = insert t (done_set finish)"
  by (auto simp: done_set_def nth_list_update)

lemma finite_done_set [simp]: "finite (done_set finish)"
  by (simp add: done_set_def)

definition room :: "usize list list \<Rightarrow> usize list \<Rightarrow> nat \<Rightarrow> bool" where
  "room alloc0 avail0 n \<longleftrightarrow> (\<forall>i < length avail0. unat (avail0 ! i) + (\<Sum>t < n. cell alloc0 t i) < 2 ^ 64)"

text \<open>What thread \<open>t\<close> needs is there once the threads of \<open>F\<close> have finished.\<close>

definition covered :: "usize list list \<Rightarrow> usize list list \<Rightarrow> usize list \<Rightarrow> nat set \<Rightarrow> nat \<Rightarrow> bool" where
  "covered need0 alloc0 avail0 F t \<longleftrightarrow>
     (\<forall>i < length avail0. cell need0 t i \<le> unat (avail0 ! i) + (\<Sum>u \<in> F. cell alloc0 u i))"

lemma room_partial:
  assumes "room alloc0 avail0 n" "i < length avail0" "insert t F \<subseteq> {..<n}" "t \<notin> F"
  shows "unat (avail0 ! i) + (\<Sum>u \<in> F. cell alloc0 u i) + cell alloc0 t i < 2 ^ 64"
proof -
  have "finite F" using assms(3) by (meson finite_lessThan finite_subset subset_insertI subset_trans)
  then have "(\<Sum>u \<in> F. cell alloc0 u i) + cell alloc0 t i = (\<Sum>u \<in> insert t F. cell alloc0 u i)" using assms(4) by simp
  also have "\<dots> \<le> (\<Sum>u < n. cell alloc0 u i)" using assms(3) by (intro sum_mono2) auto
  finally have "(\<Sum>u \<in> F. cell alloc0 u i) + cell alloc0 t i \<le> (\<Sum>u < n. cell alloc0 u i)" .
  moreover have "unat (avail0 ! i) + (\<Sum>t < n. cell alloc0 t i) < 2 ^ 64" using assms(1,2) unfolding room_def by blast
  ultimately show ?thesis by linarith
qed

lemma unat_add_room:
  fixes a b :: usize
  assumes "unat a + unat b < 2 ^ 64"
  shows "unat (a + b) = unat a + unat b"
  using assms by (subst unat_add_lem [THEN iffD1]) simp_all

lemma detect_one_step:
  assumes "room alloc0 avail0 n" "searching need0 alloc0 avail0 n (need, allocation, work, finish, found)" "t < n"
  shows "\<exists>need' allocation' work' finish' found'.
    semaphore_detect_one t (need, allocation, work, finish, found) = Inr (need', allocation', work', finish', found') \<and>
    searching need0 alloc0 avail0 n (need', allocation', work', finish', found') \<and>
    (if t \<notin> done_set finish \<and> covered need0 alloc0 avail0 (done_set finish) t
     then done_set finish' = insert t (done_set finish) \<and> found'
     else done_set finish' = done_set finish \<and> found' = found)"
proof -
  note d = assms(2) [unfolded searching_def prod.case]
  let ?m = "length avail0"
  obtain nrow need' where nr: "scan_row need work t = Inr (nrow, need')" "cell need' = cell need0" "length need' = length need"
    "\<forall>i < length work. unat (nrow ! i) = cell need0 t i" using scan_row_ok [of t need work] d assms(3) by auto
  obtain arow alloc' where ar: "scan_row allocation work t = Inr (arow, alloc')" "cell alloc' = cell alloc0"
    "length alloc' = length allocation" "\<forall>i < length work. unat (arow ! i) = cell alloc0 t i"
    using scan_row_ok [of t allocation work] d assms(3) by auto
  have valid: "list_all (\<lambda>i. nrow ! i \<le> work ! i) [0..<length work] \<longleftrightarrow> covered need0 alloc0 avail0 (done_set finish) t"
    using nr(4) d by (auto simp: list_all_iff word_le_nat_alt covered_def)
  have fin: "array_index finish t = Inr (finish ! t)" "t \<in> done_set finish \<longleftrightarrow> finish ! t"
    using d assms(3) by (simp_all add: array_index_def done_set_def)
  show ?thesis
  proof (cases "t \<notin> done_set finish \<and> covered need0 alloc0 avail0 (done_set finish) t")
    case True
    let ?work = "map (\<lambda>i. work ! i + arow ! i) [0..<length work]"
    have run: "semaphore_detect_one t (need, allocation, work, finish, found) =
        Inr (need', alloc', ?work, finish[t := True], True)"
      using nr(1) ar(1) valid fin True by (simp add: semaphore_detect_one_def)
    have ds: "done_set (finish[t := True]) = insert t (done_set finish)" using d assms(3) by (simp add: done_set_update)
    have sub: "insert t (done_set finish) \<subseteq> {..<n}" using d assms(3) by (auto simp: done_set_def)
    have "unat (?work ! i) = unat (avail0 ! i) + (\<Sum>u \<in> insert t (done_set finish). cell alloc0 u i)" if "i < ?m" for i
    proof -
      have i: "i < length work" using d that by simp
      have w: "unat (work ! i) = unat (avail0 ! i) + (\<Sum>u \<in> done_set finish. cell alloc0 u i)" using d i by blast
      have "unat (work ! i) + unat (arow ! i) < 2 ^ 64"
        using room_partial [OF assms(1) that sub] True ar(4) i w by simp
      from unat_add_room [OF this] show ?thesis using w ar(4) i True by simp
    qed
    moreover obtain ts where ts: "distinct ts" "set ts = done_set finish"
      "can_finish ?m (cell need0) (cell alloc0) (\<lambda>i. unat (avail0 ! i)) ts" using d by blast
    have "can_finish ?m (cell need0) (cell alloc0) (\<lambda>i. unat (avail0 ! i)) (ts @ [t])"
      using ts True by (simp add: can_finish_snoc covered_def)
    then have "\<exists>ts. distinct ts \<and> set ts = insert t (done_set finish) \<and>
        can_finish ?m (cell need0) (cell alloc0) (\<lambda>i. unat (avail0 ! i)) ts"
      using ts True by (intro exI [of _ "ts @ [t]"]) simp
    ultimately have "searching need0 alloc0 avail0 n (need', alloc', ?work, finish[t := True], True)"
      using d nr(2,3) ar(2,3) by (simp add: searching_def ds)
    then show ?thesis using run ds True by auto
  next
    case False
    then have "semaphore_detect_one t (need, allocation, work, finish, found) = Inr (need', allocation, work, finish, found)"
      using nr(1) valid fin by (auto simp: semaphore_detect_one_def)
    moreover have "searching need0 alloc0 avail0 n (need', allocation, work, finish, found)"
      using d nr(2,3) by (simp add: searching_def)
    ultimately show ?thesis using False by auto
  qed
qed

lemma covered_mono:
  assumes "covered need0 alloc0 avail0 F t" "F \<subseteq> G" "finite G"
  shows "covered need0 alloc0 avail0 G t"
  unfolding covered_def
proof (intro allI impI)
  fix i assume "i < length avail0"
  then have "cell need0 t i \<le> unat (avail0 ! i) + (\<Sum>u \<in> F. cell alloc0 u i)" using assms(1) by (simp add: covered_def)
  also have "\<dots> \<le> unat (avail0 ! i) + (\<Sum>u \<in> G. cell alloc0 u i)" using assms(2,3) by (simp add: sum_mono2)
  finally show "cell need0 t i \<le> unat (avail0 ! i) + (\<Sum>u \<in> G. cell alloc0 u i)" .
qed

lemma detect_for_each:
  assumes "room alloc0 avail0 n" "searching need0 alloc0 avail0 n (need, allocation, work, finish, found)" "set ts \<subseteq> {..<n}"
  shows "\<exists>need' allocation' work' finish' found'.
    for_each semaphore_detect_one ts (need, allocation, work, finish, found) = Inr (need', allocation', work', finish', found') \<and>
    searching need0 alloc0 avail0 n (need', allocation', work', finish', found') \<and>
    done_set finish \<subseteq> done_set finish' \<and> (found \<longrightarrow> found') \<and>
    (\<not> found' \<longrightarrow> done_set finish' = done_set finish \<and>
      (\<forall>t \<in> set ts. t \<in> done_set finish \<or> \<not> covered need0 alloc0 avail0 (done_set finish) t))"
  using assms(2,3)
proof (induction ts arbitrary: need allocation work finish found)
  case (Cons t ts)
  obtain need1 allocation1 work1 finish1 found1 where
    1: "semaphore_detect_one t (need, allocation, work, finish, found) = Inr (need1, allocation1, work1, finish1, found1)"
      "searching need0 alloc0 avail0 n (need1, allocation1, work1, finish1, found1)"
      "if t \<notin> done_set finish \<and> covered need0 alloc0 avail0 (done_set finish) t
       then done_set finish1 = insert t (done_set finish) \<and> found1
       else done_set finish1 = done_set finish \<and> found1 = found"
    using detect_one_step [OF assms(1) Cons.prems(1), of t] Cons.prems(2) by auto
  obtain need2 allocation2 work2 finish2 found2 where
    2: "for_each semaphore_detect_one ts (need1, allocation1, work1, finish1, found1) = Inr (need2, allocation2, work2, finish2, found2)"
      "searching need0 alloc0 avail0 n (need2, allocation2, work2, finish2, found2)" "done_set finish1 \<subseteq> done_set finish2" "found1 \<longrightarrow> found2"
      "\<not> found2 \<longrightarrow> done_set finish2 = done_set finish1 \<and>
        (\<forall>t \<in> set ts. t \<in> done_set finish1 \<or> \<not> covered need0 alloc0 avail0 (done_set finish1) t)"
    using Cons.IH [OF 1(2)] Cons.prems(2) by auto
  show ?case using 1 2 by (auto split: if_splits)
qed simp

lemma detect_loop_safe:
  assumes "room alloc0 avail0 n" "searching need0 alloc0 avail0 n (need, allocation, work, finish, found)"
  shows "\<exists>need' allocation'. semaphore_detect_loop n (need, allocation, work, finish, found) =
      Inr (\<not> safe (length avail0) n (cell need0) (cell alloc0) (\<lambda>i. unat (avail0 ! i)), need', allocation') \<and>
    cell need' = cell need0 \<and> cell allocation' = cell alloc0 \<and> n \<le> length need' \<and> n \<le> length allocation'"
  using assms(2)
proof (induction "unfinished finish" arbitrary: need allocation work finish found rule: less_induct)
  case less
  have "searching need0 alloc0 avail0 n (need, allocation, work, finish, False)" using less.prems by (simp add: searching_def)
  moreover have upto: "set [0..<n] = {..<n}" by auto
  ultimately obtain need' allocation' work' finish' found' where
    run: "semaphore_detect_round n (need, allocation, work, finish, found) = Inr (need', allocation', work', finish', found')"
      and s': "searching need0 alloc0 avail0 n (need', allocation', work', finish', found')"
      and stop: "\<not> found' \<longrightarrow> done_set finish' = done_set finish \<and>
        (\<forall>t \<in> {..<n}. t \<in> done_set finish \<or> \<not> covered need0 alloc0 avail0 (done_set finish) t)"
    using detect_for_each [OF assms(1), of need0 need allocation work finish False "[0..<n]"]
    unfolding semaphore_detect_round_def upto prod.case by blast
  note d' = s' [unfolded searching_def prod.case]
  show ?case
  proof (cases found')
    case True
    have "advances (need, allocation, work, finish, False) (need', allocation', work', finish', found')"
      using run by (intro for_each_advances) (simp add: semaphore_detect_round_def)
    then have "unfinished finish' < unfinished finish" using True by (simp add: advances_def)
    from less.hyps [OF this s'] show ?thesis
      using run True by (subst semaphore_detect_loop.simps) (simp only: sum.case prod.case not_True_eq_False if_False)
  next
    case False
    let ?F = "done_set finish'"
    have sub: "?F \<subseteq> {..<n}" using d' by (auto simp: done_set_def)
    have all: "list_all (\<lambda>value. value) finish' \<longleftrightarrow> ?F = {..<n}" using d' by (auto simp: list_all_length done_set_def)
    have "safe (length avail0) n (cell need0) (cell alloc0) (\<lambda>i. unat (avail0 ! i)) \<longleftrightarrow> ?F = {..<n}"
    proof
      assume "?F = {..<n}"
      then show "safe (length avail0) n (cell need0) (cell alloc0) (\<lambda>i. unat (avail0 ! i))" using d' by (auto simp: safe_def)
    next
      assume safe: "safe (length avail0) n (cell need0) (cell alloc0) (\<lambda>i. unat (avail0 ! i))"
      have st: "\<forall>t < n. t \<notin> ?F \<longrightarrow> (\<exists>i < length avail0. unat (avail0 ! i) + (\<Sum>u \<in> ?F. cell alloc0 u i) < cell need0 t i)"
        using stop False by (auto simp: covered_def not_le)
      show "?F = {..<n}"
      proof (rule ccontr)
        assume "?F \<noteq> {..<n}"
        from stuck_unsafe [OF sub this st] safe show False by (rule notE)
      qed
    qed
    then have "semaphore_detect_loop n (need, allocation, work, finish, found) =
        Inr (\<not> safe (length avail0) n (cell need0) (cell alloc0) (\<lambda>i. unat (avail0 ! i)), need', allocation')"
      using run False all by (subst semaphore_detect_loop.simps) (simp only: sum.case prod.case not_False_eq_True if_True)
    then show ?thesis using d' by blast
  qed
qed

text \<open>The tables have a row for every thread.\<close>

definition sem_tables_ok :: "ProcessControlBlockInner \<Rightarrow> bool" where
  "sem_tables_ok p \<longleftrightarrow>
     length (pi_tasks p) \<le> length (pi_semaphore_need p) \<and> length (pi_tasks p) \<le> length (pi_semaphore_allocation p)"

definition process_safe :: "ProcessControlBlockInner \<Rightarrow> bool" where
  "process_safe p \<longleftrightarrow>
     safe (length (pi_semaphore_available p)) (length (pi_tasks p)) (cell (pi_semaphore_need p))
       (cell (pi_semaphore_allocation p)) (\<lambda>i. unat (pi_semaphore_available p ! i))"

lemma semaphore_detect_exact:
  assumes "sem_tables_ok p" "room (pi_semaphore_allocation p) (pi_semaphore_available p) (length (pi_tasks p))"
  shows "\<exists>need allocation. semaphore_detect p =
      Inr (\<not> process_safe p, p\<lparr>pi_semaphore_need := need, pi_semaphore_allocation := allocation\<rparr>) \<and>
    cell need = cell (pi_semaphore_need p) \<and> cell allocation = cell (pi_semaphore_allocation p)"
proof -
  let ?d = "(pi_semaphore_need p, pi_semaphore_allocation p, pi_semaphore_available p, replicate (length (pi_tasks p)) False, False)"
  have "done_set (replicate (length (pi_tasks p)) False) = {}" by (auto simp: done_set_def)
  then have "searching (pi_semaphore_need p) (pi_semaphore_allocation p) (pi_semaphore_available p) (length (pi_tasks p)) ?d"
    using assms(1) by (simp add: searching_def sem_tables_ok_def)
  from detect_loop_safe [OF assms(2) this] obtain need allocation where
    "semaphore_detect_loop (length (pi_tasks p)) ?d = Inr (\<not> process_safe p, need, allocation)"
    "cell need = cell (pi_semaphore_need p)" "cell allocation = cell (pi_semaphore_allocation p)"
    unfolding process_safe_def by blast
  then show ?thesis by (intro exI [of _ need] exI [of _ allocation]) (simp add: semaphore_detect_def)
qed

text \<open>The process with the caller's request noted in its need.\<close>

definition requesting :: "usize \<Rightarrow> usize \<Rightarrow> ProcessControlBlockInner \<Rightarrow> ProcessControlBlockInner" where
  "requesting sem_id cur_tid p =
     (let row = pad (unat sem_id + 1) (pi_semaphore_need p ! unat cur_tid) in
      p\<lparr>pi_semaphore_need := (pi_semaphore_need p)[unat cur_tid := row[unat sem_id := row ! unat sem_id + 1]]\<rparr>)"

lemma length_pad: "length (pad n xs) = max n (length xs)"
  by (simp add: pad_def)

lemma request_need:
  assumes "unat cur_tid < length (pi_semaphore_need p)"
  shows "\<exists>need. pad_row (unat sem_id + 1) (pi_semaphore_need p) (unat cur_tid) = Inr need \<and>
    table_update need (unat cur_tid) (unat sem_id) (\<lambda>v. v + 1) = Inr (pi_semaphore_need (requesting sem_id cur_tid p))"
  using assms by (simp add: pad_row_def table_update_def array_index_def array_update_def requesting_def length_pad Let_def)

lemma down_after_check:
  "and_then (take_unit sem_id cur_tid p) (\<lambda>p. down_semaphore sem_id p s) \<noteq> Inr (Some DEADLOCK, p', s')"
proof -
  have "down_semaphore sem_id q s \<noteq> Inr (Some DEADLOCK, p', s')" for q
    by (auto simp: down_semaphore_def and_then_def DEADLOCK_def split: sum.splits)
  then show ?thesis by (auto simp: and_then_def split: sum.splits)
qed

text \<open>
  C10. The detection is exact as long as the books are in order. With detection on, and with no counter wrapped around (for every
  semaphore, what is entered as available and as held by the threads adds up to less than \<open>2 ^ 64\<close>), \<open>sys_semaphore_down\<close> refuses with
  \<open>-0xDEAD\<close> exactly when granting the request leaves no order in which all threads can finish by these books; it then
  changes nothing in the scheduler, so the caller does not block. A thread that gives back a unit it is not entered as
  holding breaks the condition, since its entry wraps around; what may be reported then is the subject of \<open>semaphore_detection_false_alarm\<close>.
\<close>

theorem semaphore_deadlock_detection_exact:
  assumes "pi_deadlock_detect p" "the_semaphore sem_id p = Inr sem" "sem_tables_ok p" "unat cur_tid < length (pi_tasks p)"
    and in_order: "\<forall>i < length (pi_semaphore_available p).
      unat (pi_semaphore_available p ! i) + (\<Sum>t < length (pi_tasks p). cell (pi_semaphore_allocation p) t i) < 2 ^ 64"
  shows "((\<exists>p' s'. sys_semaphore_down sem_id cur_tid p s = Inr (Some DEADLOCK, p', s')) \<longleftrightarrow>
      \<not> process_safe (requesting sem_id cur_tid p)) \<and>
    (\<forall>p' s'. sys_semaphore_down sem_id cur_tid p s = Inr (Some DEADLOCK, p', s') \<longrightarrow> s' = s)"
proof -
  let ?q = "requesting sem_id cur_tid p"
  have q: "?q = p\<lparr>pi_semaphore_need := pi_semaphore_need ?q\<rparr>" "pi_deadlock_detect ?q"
    "room (pi_semaphore_allocation ?q) (pi_semaphore_available ?q) (length (pi_tasks ?q))" "sem_tables_ok ?q"
    using assms by (simp_all add: requesting_def Let_def sem_tables_ok_def room_def)
  have cur: "unat cur_tid < length (pi_semaphore_need p)" using assms(3,4) by (simp add: sem_tables_ok_def)
  obtain need where need: "pad_row (unat sem_id + 1) (pi_semaphore_need p) (unat cur_tid) = Inr need"
    "table_update need (unat cur_tid) (unat sem_id) (\<lambda>v. v + 1) = Inr (pi_semaphore_need ?q)"
    using request_need [OF cur] by blast
  obtain p1 where p1: "semaphore_detect ?q = Inr (\<not> process_safe ?q, p1)"
    using semaphore_detect_exact [OF q(4,3)] by blast
  have run: "sys_semaphore_down sem_id cur_tid p s =
      (if \<not> process_safe ?q then Inr (Some DEADLOCK, p1, s)
       else and_then (take_unit sem_id cur_tid p1) (\<lambda>p. down_semaphore sem_id p s))"
    unfolding sys_semaphore_down_def Let_def using assms(2) need p1 q(2)
    by (simp only: and_then_Inr q(1) [symmetric] if_True prod.case)
  show ?thesis unfolding run using down_after_check by auto
qed

text \<open>Two threads that hold one semaphore each; thread 0 waits for the other's.\<close>

definition crossed :: ProcessControlBlockInner where
  "crossed = (ProcessControlBlockInner_new empty_space 4 5 6)
     \<lparr>pi_tasks := [Some 3, Some 5], pi_deadlock_detect := True,
      pi_semaphore_list := [Some \<lparr>sem_count = 0, sem_wait_queue = []\<rparr>, Some \<lparr>sem_count = - 1, sem_wait_queue = [3]\<rparr>],
      pi_semaphore_available := [0, 0], pi_semaphore_allocation := [[1, 0], [0, 1]], pi_semaphore_need := [[0, 1], [0, 0]]\<rparr>"

lemma crossed_fields [simp]:
  "pi_tasks crossed = [Some 3, Some 5]" "pi_deadlock_detect crossed" "pi_semaphore_available crossed = [0, 0]"
  "pi_semaphore_allocation crossed = [[1, 0], [0, 1]]" "pi_semaphore_need crossed = [[0, 1], [0, 0]]"
  by (simp_all add: crossed_def)

lemma crossed_unsafe: "\<not> process_safe (requesting 0 1 crossed)"
  unfolding process_safe_def
proof (rule stuck_unsafe [of "{}"])
  have need: "pi_semaphore_need (requesting 0 1 crossed) = [[0, 1], [1, 0]]" by (simp add: requesting_def pad_def)
  have rest: "pi_semaphore_available (requesting 0 1 crossed) = [0, 0]" "length (pi_tasks (requesting 0 1 crossed)) = 2"
    by (simp_all add: requesting_def Let_def)
  show "{} \<noteq> {..<length (pi_tasks (requesting 0 1 crossed))}" by (metis rest(2) lessThan_empty_iff zero_neq_numeral)
  show "\<forall>t < length (pi_tasks (requesting 0 1 crossed)). t \<notin> {} \<longrightarrow>
      (\<exists>i < length (pi_semaphore_available (requesting 0 1 crossed)).
        unat (pi_semaphore_available (requesting 0 1 crossed) ! i) +
          (\<Sum>u \<in> {}. cell (pi_semaphore_allocation (requesting 0 1 crossed)) u i)
        < cell (pi_semaphore_need (requesting 0 1 crossed)) t i)"
    unfolding need rest by (auto simp: cell_def less_Suc_eq numeral_2_eq_2)
qed simp

theorem semaphore_deadlock_detection_exact_witness:
  "\<exists>p' s'. sys_semaphore_down 0 1 crossed one_running = Inr (Some DEADLOCK, p', s')"
proof -
  have "the_semaphore 0 crossed = Inr \<lparr>sem_count = 0, sem_wait_queue = []\<rparr>"
    by (simp add: the_semaphore_def crossed_def unwrap_def)
  moreover have "sem_tables_ok crossed" by (simp add: sem_tables_ok_def)
  moreover have "\<forall>i < length (pi_semaphore_available crossed).
      unat (pi_semaphore_available crossed ! i) + (\<Sum>t < length (pi_tasks crossed). cell (pi_semaphore_allocation crossed) t i) < 2 ^ 64"
  proof -
    have "{..<2 :: nat} = {0, 1}" by auto
    then show ?thesis by (simp add: cell_def less_Suc_eq)
  qed
  ultimately show ?thesis using semaphore_deadlock_detection_exact [of crossed 0 _ 1 one_running] crossed_unsafe by simp
qed

section \<open>A false alarm\<close>

text \<open>
  One step of the search in the words of the code, whose sums wrap around: \<open>W\<close> is the vector \<open>work\<close>, \<open>F\<close> the set of threads
  that have finished.
\<close>

definition at_state :: "usize list list \<Rightarrow> usize list list \<Rightarrow> nat \<Rightarrow> usize list \<Rightarrow> nat set \<Rightarrow> bool \<Rightarrow> detection \<Rightarrow> bool" where
  "at_state need0 alloc0 n W F b = (\<lambda>(need, allocation, work, finish, found).
     cell need = cell need0 \<and> cell allocation = cell alloc0 \<and> n \<le> length need \<and> n \<le> length allocation \<and>
     work = W \<and> length finish = n \<and> done_set finish = F \<and> found = b)"

definition fits :: "usize list list \<Rightarrow> usize list \<Rightarrow> nat \<Rightarrow> bool" where
  "fits need0 W t \<longleftrightarrow> (\<forall>i < length W. cell need0 t i \<le> unat (W ! i))"

definition give_back :: "usize list list \<Rightarrow> usize list \<Rightarrow> nat \<Rightarrow> usize list" where
  "give_back alloc0 W t = map (\<lambda>i. W ! i + of_nat (cell alloc0 t i)) [0..<length W]"

lemma detect_one_words:
  assumes "at_state need0 alloc0 n W F b d" "t < n"
  shows "\<exists>d'. semaphore_detect_one t d = Inr d' \<and>
    (if t \<notin> F \<and> fits need0 W t then at_state need0 alloc0 n (give_back alloc0 W t) (insert t F) True d'
     else at_state need0 alloc0 n W F b d')"
proof -
  obtain need allocation finish where d: "d = (need, allocation, W, finish, b)"
    and c: "cell need = cell need0" "cell allocation = cell alloc0" "n \<le> length need" "n \<le> length allocation"
      "length finish = n" "done_set finish = F"
    using assms(1) by (cases d) (auto simp: at_state_def)
  obtain nrow need' where nr: "scan_row need W t = Inr (nrow, need')" "cell need' = cell need0" "length need' = length need"
    "\<forall>i < length W. unat (nrow ! i) = cell need0 t i" using scan_row_ok [of t need W] c assms(2) by auto
  obtain arow alloc' where ar: "scan_row allocation W t = Inr (arow, alloc')" "cell alloc' = cell alloc0"
    "length alloc' = length allocation" "\<forall>i < length W. unat (arow ! i) = cell alloc0 t i"
    using scan_row_ok [of t allocation W] c assms(2) by auto
  have valid: "list_all (\<lambda>i. nrow ! i \<le> W ! i) [0..<length W] \<longleftrightarrow> fits need0 W t"
    using nr(4) by (auto simp: list_all_iff word_le_nat_alt fits_def)
  have fin: "array_index finish t = Inr (finish ! t)" "t \<in> F \<longleftrightarrow> finish ! t"
    using c assms(2) by (auto simp: array_index_def done_set_def)
  have "of_nat (cell alloc0 t i) = arow ! i" if "i < length W" for i
    using arg_cong [OF ar(4) [rule_format, OF that], of "of_nat :: nat \<Rightarrow> usize"] by simp
  then have gb: "map (\<lambda>i. W ! i + arow ! i) [0..<length W] = give_back alloc0 W t" by (simp add: give_back_def)
  have ds: "done_set (finish[t := True]) = insert t F" using c assms(2) by (simp add: done_set_update)
  show ?thesis
    using nr ar valid fin c gb ds by (auto simp: d semaphore_detect_one_def at_state_def)
qed

text \<open>Threads that need nothing and hold nothing finish and change nothing else.\<close>

lemma idle_threads_finish:
  assumes "at_state need0 alloc0 n W F b d" "set ts \<subseteq> {..<n}" "\<forall>t \<in> set ts. \<forall>i < length W. cell need0 t i = 0 \<and> cell alloc0 t i = 0"
    "distinct ts" "set ts \<inter> F = {}"
  shows "\<exists>d'. for_each semaphore_detect_one ts d = Inr d' \<and> at_state need0 alloc0 n W (set ts \<union> F) (b \<or> ts \<noteq> []) d'"
  using assms
proof (induction ts arbitrary: d F b)
  case (Cons t ts)
  have z: "\<forall>i < length W. cell need0 t i = 0 \<and> cell alloc0 t i = 0" using Cons.prems(3) by simp
  then have "fits need0 W t" by (simp add: fits_def)
  moreover have "give_back alloc0 W t = W" using z by (intro nth_equalityI) (simp_all add: give_back_def)
  ultimately obtain d1 where d1: "semaphore_detect_one t d = Inr d1" "at_state need0 alloc0 n W (insert t F) True d1"
    using detect_one_words [OF Cons.prems(1), of t] Cons.prems(2,5) by auto
  obtain d2 where "for_each semaphore_detect_one ts d1 = Inr d2" "at_state need0 alloc0 n W (set ts \<union> insert t F) True d2"
    using Cons.IH [OF d1(2)] Cons.prems(2-5) by auto
  then show ?case using d1(1) by (intro exI [of _ d2]) simp
qed simp

lemma stuck_round:
  assumes "at_state need0 alloc0 n W F b d" "set ts \<subseteq> {..<n}" "\<forall>t \<in> set ts. t \<in> F \<or> \<not> fits need0 W t"
  shows "\<exists>d'. for_each semaphore_detect_one ts d = Inr d' \<and> at_state need0 alloc0 n W F b d'"
  using assms
proof (induction ts arbitrary: d)
  case (Cons t ts)
  then obtain d1 where "semaphore_detect_one t d = Inr d1" "at_state need0 alloc0 n W F b d1"
    using detect_one_words [OF Cons.prems(1), of t] by auto
  then show ?case using Cons.IH [of d1] Cons.prems(2,3) by simp
qed simp


text \<open>
  Books in which nothing is needed or held but that thread \<open>u\<close> has given back a unit of semaphore \<open>i\<close> it did not hold, the only
  one there is, and that thread \<open>v\<close> asks for it.
\<close>

definition one_given_back :: "usize list list \<Rightarrow> usize list list \<Rightarrow> usize list \<Rightarrow> nat \<Rightarrow> nat \<Rightarrow> nat \<Rightarrow> bool" where
  "one_given_back need0 alloc0 W i u v \<longleftrightarrow> i < length W \<and> W ! i = 1 \<and>
     (\<forall>t. \<forall>j < length W. cell need0 t j = (if t = v \<and> j = i then 1 else 0) \<and>
        cell alloc0 t j = (if t = u \<and> j = i then 2 ^ 64 - 1 else 0))"

lemma given_back_finishes:
  assumes "one_given_back need0 alloc0 W i u v" "u \<noteq> v"
  shows "fits need0 W u" "give_back alloc0 W u = W[i := 0]" "\<not> fits need0 (W[i := 0]) v"
proof -
  show "fits need0 W u" "\<not> fits need0 (W[i := 0]) v" using assms by (auto simp: one_given_back_def fits_def)
  show "give_back alloc0 W u = W[i := 0]"
  proof (rule nth_equalityI)
    fix j assume "j < length (give_back alloc0 W u)"
    then have "j < length W" by (simp add: give_back_def)
    then show "give_back alloc0 W u ! j = W[i := 0] ! j"
      using assms(1) by (auto simp: one_given_back_def give_back_def)
  qed (simp add: give_back_def)
qed

lemma false_alarm_round:
  assumes g: "one_given_back need0 alloc0 W i u v" and lt: "u < v" "v < n" and at: "at_state need0 alloc0 n W {} False d"
  shows "\<exists>d'. for_each semaphore_detect_one [0..<n] d = Inr d' \<and> at_state need0 alloc0 n (W[i := 0]) ({..<n} - {v}) True d'"
proof -
  note u = given_back_finishes [OF g less_imp_neq [OF lt(1)]]
  have zero: "cell need0 t j = 0 \<and> cell alloc0 t j = 0" if "t \<noteq> u" "t \<noteq> v" "j < length W" for t j
    using g that by (simp add: one_given_back_def)
  have "[0..<n] = [0..<u] @ u # [Suc u..<v] @ v # [Suc v..<n]"
    using lt upt_add_eq_append [of 0 u "n - u"] upt_add_eq_append [of "Suc u" v "n - v"] upt_conv_Cons [of u n] upt_conv_Cons [of v n]
    by simp
  moreover obtain d1 where d1: "for_each semaphore_detect_one [0..<u] d = Inr d1"
      "at_state need0 alloc0 n W {..<u} (u \<noteq> 0) d1"
    using idle_threads_finish [OF at, of "[0..<u]"] zero lt by (auto simp: lessThan_atLeast0)
  moreover obtain d2 where d2: "semaphore_detect_one u d1 = Inr d2" "at_state need0 alloc0 n (W[i := 0]) (insert u {..<u}) True d2"
    using detect_one_words [OF d1(2), of u] u(1,2) lt by auto
  moreover obtain d3 where d3: "for_each semaphore_detect_one [Suc u..<v] d2 = Inr d3" "at_state need0 alloc0 n (W[i := 0]) {..<v} True d3"
  proof -
    have "set [Suc u..<v] \<union> insert u {..<u} = {..<v}" "set [Suc u..<v] \<subseteq> {..<n}" "set [Suc u..<v] \<inter> insert u {..<u} = {}"
      using lt by auto
    then show ?thesis using idle_threads_finish [OF d2(2), of "[Suc u..<v]"] zero lt that by auto
  qed
  moreover obtain d4 where d4: "semaphore_detect_one v d3 = Inr d4" "at_state need0 alloc0 n (W[i := 0]) {..<v} True d4"
    using detect_one_words [OF d3(2), of v] u(3) lt by auto
  moreover obtain d5 where "for_each semaphore_detect_one [Suc v..<n] d4 = Inr d5"
      "at_state need0 alloc0 n (W[i := 0]) ({..<n} - {v}) True d5"
  proof -
    have "set [Suc v..<n] \<union> {..<v} = {..<n} - {v}" "set [Suc v..<n] \<subseteq> {..<n}" "set [Suc v..<n] \<inter> {..<v} = {}"
      using lt by auto
    then show ?thesis using idle_threads_finish [OF d4(2), of "[Suc v..<n]"] zero lt that by auto
  qed
  ultimately show ?thesis by (intro exI [of _ d5]) (simp add: for_each_append)
qed

lemma false_alarm_detect:
  assumes g: "one_given_back (pi_semaphore_need p) (pi_semaphore_allocation p) (pi_semaphore_available p) i u v"
    and lt: "u < v" "v < length (pi_tasks p)" and ok: "sem_tables_ok p"
  shows "\<exists>p'. semaphore_detect p = Inr (True, p')"
proof -
  let ?n = "length (pi_tasks p)" and ?need = "pi_semaphore_need p" and ?alloc = "pi_semaphore_allocation p"
  let ?W = "pi_semaphore_available p"
  let ?d = "(?need, ?alloc, ?W, replicate ?n False, False)"
  have "at_state ?need ?alloc ?n ?W {} False ?d" using ok by (auto simp: at_state_def sem_tables_ok_def done_set_def)
  from false_alarm_round [OF g lt this] obtain need1 alloc1 W1 finish1 found1 where
    1: "semaphore_detect_round ?n ?d = Inr (need1, alloc1, W1, finish1, found1)"
      "at_state ?need ?alloc ?n (?W[i := 0]) ({..<?n} - {v}) True (need1, alloc1, W1, finish1, found1)"
    by (auto simp: semaphore_detect_round_def)
  then have at: "at_state ?need ?alloc ?n (?W[i := 0]) ({..<?n} - {v}) False (need1, alloc1, W1, finish1, False)" and found1
    by (simp_all add: at_state_def)
  have "\<forall>t \<in> set [0..<?n]. t \<in> {..<?n} - {v} \<or> \<not> fits ?need (?W[i := 0]) t"
    using given_back_finishes(3) [OF g less_imp_neq [OF lt(1)]] by auto
  moreover have "set [0..<?n] \<subseteq> {..<?n}" by auto
  ultimately obtain need2 alloc2 W2 finish2 where
    2: "semaphore_detect_round ?n (need1, alloc1, W1, finish1, True) = Inr (need2, alloc2, W2, finish2, False)"
      "done_set finish2 = {..<?n} - {v}" "length finish2 = ?n"
    using stuck_round [OF at, of "[0..<?n]"] by (auto simp: semaphore_detect_round_def at_state_def)
  have "\<not> finish2 ! v" using 2(2,3) lt(2) by (auto simp: done_set_def set_eq_iff)
  then have "\<not> list_all (\<lambda>value. value) finish2" using 2(3) lt(2) by (auto simp: list_all_length)
  then have "semaphore_detect_loop ?n ?d = Inr (True, need2, alloc2)"
    using 1(1) 2(1) \<open>found1\<close> semaphore_detect_loop.simps [of ?n ?need ?alloc ?W "replicate ?n False" False]
      semaphore_detect_loop.simps [of ?n need1 alloc1 W1 finish1 True] by simp
  then show ?thesis by (simp add: semaphore_detect_def)
qed


lemma cell_pad_update:
  assumes "t < length tab"
  shows "cell (tab[t := (pad (i + 1) (tab ! t))[i := x]]) u j = (if u = t \<and> j = i then unat x else cell tab u j)"
  using assms by (auto simp: cell_def pad_def nth_list_update nth_append)

lemma pad_nth_cell:
  assumes "t < length tab"
  shows "unat (pad (i + 1) (tab ! t) ! i) = cell tab t i"
  using assms by (auto simp: cell_def pad_def nth_append)

text \<open>
  C35. A wrong report. Let no thread of the process hold or ask for a unit of any semaphore, and let semaphore \<open>i\<close>
  have none. When thread \<open>u\<close> gives a unit with \<open>sys_semaphore_up\<close> and then a thread \<open>v\<close> after it in the list asks for one,
  \<open>sys_semaphore_down\<close> refuses with \<open>-0xDEAD\<close>, although the unit is there and taking it would not block. The cause: \<open>up\<close>
  subtracts 1 from what \<open>u\<close> is taken to hold, which is 0 and wraps around.
\<close>

theorem semaphore_detection_false_alarm:
  assumes "pi_deadlock_detect p" "sem_tables_ok p" "the_semaphore i p = Inr \<lparr>sem_count = 0, sem_wait_queue = []\<rparr>"
    and "unat i < length (pi_semaphore_available p)" "pi_semaphore_available p ! unat i = 0"
    and "u < v" "unat v < length (pi_tasks p)"
    and "\<forall>t j. cell (pi_semaphore_need p) t j = 0 \<and> cell (pi_semaphore_allocation p) t j = 0"
  shows "\<exists>p1. sys_semaphore_up i u p s = Inr (0, p1, s) \<and>
    the_semaphore i p1 = Inr \<lparr>sem_count = 1, sem_wait_queue = []\<rparr> \<and> pi_semaphore_available p1 ! unat i = 1 \<and>
    (\<forall>s2. \<exists>p2. sys_semaphore_down i v p1 s2 = Inr (Some DEADLOCK, p2, s2))"
proof -
  let ?n = "length (pi_tasks p)" and ?A = "pi_semaphore_allocation p" and ?i = "unat i"
  let ?row = "pad (?i + 1) (?A ! unat u)"
  have u: "unat u < length ?A" and v: "unat v < length (pi_semaphore_need p)" and uv: "unat u < unat v"
    using assms(2,6,7) by (simp_all add: sem_tables_ok_def word_less_nat_alt)
  have i: "?i < length (pi_semaphore_list p)" using assms(3) by (auto simp: the_semaphore_def panic_simps)
  define A1 where "A1 = ?A[unat u := ?row[?i := - 1]]"
  define p1 where "p1 = p\<lparr>pi_semaphore_available := (pi_semaphore_available p)[?i := 1], pi_semaphore_allocation := A1,
      pi_semaphore_list := (pi_semaphore_list p)[?i := Some \<lparr>sem_count = 1, sem_wait_queue = []\<rparr>]\<rparr>"
  have "?row ! ?i = 0" using pad_nth_cell [OF u, of ?i] assms(8) by (simp add: word_unat_eq_iff)
  then have "sys_semaphore_up i u p s = Inr (0, p1, s)"
    using assms(3-5) u by (simp add: sys_semaphore_up_def pad_row_def table_update_def array_index_def array_update_def
        length_pad Semaphore_up_def p1_def A1_def)
  moreover have sem: "the_semaphore i p1 = Inr \<lparr>sem_count = 1, sem_wait_queue = []\<rparr>"
    using i by (simp add: p1_def the_semaphore_def unwrap_def)
  moreover have "\<exists>p2. sys_semaphore_down i v p1 s2 = Inr (Some DEADLOCK, p2, s2)" for s2
  proof -
    let ?q = "requesting i v p1"
    have v1: "unat v < length (pi_semaphore_need p1)" using v by (simp add: p1_def)
    have "pad (?i + 1) (pi_semaphore_need p1 ! unat v) ! ?i = 0"
      using pad_nth_cell [OF v1, of ?i] assms(8) by (simp add: word_unat_eq_iff p1_def)
    then have "one_given_back (pi_semaphore_need ?q) (pi_semaphore_allocation ?q) (pi_semaphore_available ?q) ?i (unat u) (unat v)"
      using assms(4,8) u v by (simp add: one_given_back_def requesting_def p1_def A1_def Let_def cell_pad_update [simplified])
    then obtain p2 where det: "semaphore_detect ?q = Inr (True, p2)"
      using false_alarm_detect [of ?q ?i "unat u" "unat v"] uv assms(2,7)
      by (auto simp: sem_tables_ok_def requesting_def p1_def A1_def Let_def)
    have q: "p1\<lparr>pi_semaphore_need := pi_semaphore_need ?q\<rparr> = ?q" "pi_deadlock_detect ?q"
      using assms(1) by (simp_all add: requesting_def p1_def Let_def)
    obtain need where need: "pad_row (?i + 1) (pi_semaphore_need p1) (unat v) = Inr need"
        "table_update need (unat v) ?i (\<lambda>v. v + 1) = Inr (pi_semaphore_need ?q)"
      using request_need [OF v1] by blast
    show ?thesis
      by (simp only: sys_semaphore_down_def Let_def sem need q det and_then_Inr if_True prod.case) simp
  qed
  ultimately show ?thesis using assms(4) by (intro exI [of _ p1]) (simp add: p1_def)
qed


text \<open>Two threads and a semaphore made for 0 units.\<close>

definition empty_semaphore :: ProcessControlBlockInner where
  "empty_semaphore = (ProcessControlBlockInner_new empty_space 4 5 6)
     \<lparr>pi_tasks := [Some 3, Some 5], pi_deadlock_detect := True, pi_semaphore_list := [Some (Semaphore_new 0)],
      pi_semaphore_available := [0], pi_semaphore_allocation := [[0], [0]], pi_semaphore_need := [[0], [0]]\<rparr>"

theorem semaphore_detection_false_alarm_witness:
  "\<exists>p1 p2. sys_semaphore_up 0 0 empty_semaphore one_running = Inr (0, p1, one_running) \<and>
    the_semaphore 0 p1 = Inr \<lparr>sem_count = 1, sem_wait_queue = []\<rparr> \<and>
    sys_semaphore_down 0 1 p1 one_running = Inr (Some DEADLOCK, p2, one_running)"
proof -
  have f: "pi_tasks empty_semaphore = [Some 3, Some 5]" "pi_semaphore_list empty_semaphore = [Some (Semaphore_new 0)]"
      "pi_semaphore_allocation empty_semaphore = [[0], [0]]" "pi_semaphore_need empty_semaphore = [[0], [0]]"
      "pi_semaphore_available empty_semaphore = [0]"
    by (simp_all add: empty_semaphore_def)
  have h: "pi_deadlock_detect empty_semaphore" "sem_tables_ok empty_semaphore"
      "the_semaphore 0 empty_semaphore = Inr \<lparr>sem_count = 0, sem_wait_queue = []\<rparr>"
      "unat (0 :: usize) < length (pi_semaphore_available empty_semaphore)"
      "pi_semaphore_available empty_semaphore ! unat (0 :: usize) = 0"
      "(0 :: usize) < 1" "unat (1 :: usize) < length (pi_tasks empty_semaphore)"
      "\<forall>t j. cell (pi_semaphore_need empty_semaphore) t j = 0 \<and> cell (pi_semaphore_allocation empty_semaphore) t j = 0"
    by (simp_all add: f sem_tables_ok_def the_semaphore_def unwrap_def Semaphore_new_def empty_semaphore_def)
      (auto simp: cell_def less_Suc_eq)
  from semaphore_detection_false_alarm [OF h, of one_running] show ?thesis by blast
qed

section \<open>When the books are in order\<close>

text \<open>
  A unit that is taken at once or given back by a thread that holds one moves between the books of the thread and of the semaphore,
  so that their sum, and with it \<open>room\<close>, stays as it is.
\<close>

definition entered :: "ProcessControlBlockInner \<Rightarrow> nat \<Rightarrow> nat" where
  "entered p i = unat (pi_semaphore_available p ! i) + (\<Sum>t < length (pi_tasks p). cell (pi_semaphore_allocation p) t i)"

lemma sum_cell_update:
  assumes "t < n" "t < length tab"
  shows "(\<Sum>u < n. cell (tab[t := (pad (i + 1) (tab ! t))[i := x]]) u j) + (if j = i then cell tab t i else 0) =
    (\<Sum>u < n. cell tab u j) + (if j = i then unat x else 0)"
proof -
  have t: "t \<in> {..<n}" using assms(1) by simp
  have "(\<Sum>u \<in> {..<n} - {t}. cell (tab[t := (pad (i + 1) (tab ! t))[i := x]]) u j) = (\<Sum>u \<in> {..<n} - {t}. cell tab u j)"
    by (intro sum.cong) (auto simp: cell_pad_update [OF assms(2), simplified])
  then show ?thesis
    using sum.remove [OF finite_lessThan t, of "\<lambda>u. cell tab u j"]
      sum.remove [OF finite_lessThan t, of "\<lambda>u. cell (tab[t := (pad (i + 1) (tab ! t))[i := x]]) u j"]
    by (auto simp: cell_pad_update [OF assms(2), simplified])
qed

lemma up_of_a_holder:
  assumes "sys_semaphore_up sem_id cur_tid p s = Inr (r, p', s')" "unat cur_tid < length (pi_tasks p)"
    "0 < cell (pi_semaphore_allocation p) (unat cur_tid) (unat sem_id)" "entered p (unat sem_id) < 2 ^ 64"
  shows "entered p' i = entered p i"
proof -
  let ?i = "unat sem_id" and ?t = "unat cur_tid" and ?A = "pi_semaphore_allocation p" and ?W = "pi_semaphore_available p"
  let ?row = "pad (?i + 1) (?A ! ?t)"
  have t: "?t < length ?A" using assms(3) by (simp add: cell_def split: if_splits)
  have i: "?i < length ?W" and p': "pi_semaphore_available p' = ?W[?i := ?W ! ?i + 1]"
      "pi_semaphore_allocation p' = ?A[?t := ?row[?i := ?row ! ?i - 1]]" "pi_tasks p' = pi_tasks p"
    using assms(1) t by (auto simp: sys_semaphore_up_def panic_simps pad_row_def table_update_def array_index_def array_update_def
        length_pad vec_index_def vec_update_def Let_def split_beta split: if_splits)
  have row: "unat (?row ! ?i) = cell ?A ?t ?i" by (rule pad_nth_cell [OF t])
  have "?row ! ?i \<noteq> 0" using row assms(3) by auto
  then have dec: "unat (?row ! ?i - 1) = cell ?A ?t ?i - 1" using row by (simp add: unat_minus_one)
  have "cell ?A ?t ?i \<le> (\<Sum>u < length (pi_tasks p). cell ?A u ?i)" using assms(2) by (intro member_le_sum) auto
  then have "unat (?W ! ?i) + 1 < 2 ^ 64" using assms(3,4) unfolding entered_def by linarith
  then have inc: "unat (?W ! ?i + 1) = unat (?W ! ?i) + 1" using unat_add_room [of "?W ! ?i" 1] by simp
  show ?thesis
    using sum_cell_update [OF assms(2) t, of ?i "?row ! ?i - 1" i] dec inc i assms(3)
    by (auto simp: entered_def p' split: if_splits)
qed


lemma take_unit_entered:
  assumes "take_unit sem_id cur_tid p = Inr p'" "unat cur_tid < length (pi_tasks p)" "entered p (unat sem_id) < 2 ^ 64"
  shows "entered p' i = entered p i"
proof (cases "pi_semaphore_available p ! unat sem_id = 0")
  case True
  then show ?thesis using assms(1) by (auto simp: take_unit_def panic_simps vec_index_def split: if_splits)
next
  case False
  let ?i = "unat sem_id" and ?t = "unat cur_tid" and ?A = "pi_semaphore_allocation p" and ?W = "pi_semaphore_available p"
  let ?row = "pad (?i + 1) (?A ! ?t)"
  have "1 \<le> ?W ! ?i" using False by (simp add: word_le_nat_alt unat_gt_0 Suc_le_eq)
  then have i: "?i < length ?W" and t: "?t < length ?A" and p': "pi_semaphore_available p' = ?W[?i := ?W ! ?i - 1]"
      "pi_semaphore_allocation p' = ?A[?t := ?row[?i := ?row ! ?i + 1]]" "pi_tasks p' = pi_tasks p"
    using assms(1) by (auto simp: take_unit_def panic_simps pad_row_def table_update_def array_index_def array_update_def
        length_pad vec_index_def vec_update_def split: if_splits)
  have row: "unat (?row ! ?i) = cell ?A ?t ?i" by (rule pad_nth_cell [OF t])
  have dec: "unat (?W ! ?i - 1) = unat (?W ! ?i) - 1" "0 < unat (?W ! ?i)" using False by (simp_all add: unat_minus_one unat_gt_0)
  have "cell ?A ?t ?i \<le> (\<Sum>u < length (pi_tasks p). cell ?A u ?i)" using assms(2) by (intro member_le_sum) auto
  then have "unat (?row ! ?i) + 1 < 2 ^ 64" using assms(3) dec(2) unfolding entered_def row by linarith
  then have inc: "unat (?row ! ?i + 1) = cell ?A ?t ?i + 1" using unat_add_room [of "?row ! ?i" 1] row by simp
  show ?thesis
    using sum_cell_update [OF assms(2) t, of ?i "?row ! ?i + 1" i] dec inc i
    by (auto simp: entered_def p' split: if_splits)
qed

lemma down_semaphore_entered: "down_semaphore sem_id q s = Inr (r, p', s') \<Longrightarrow> entered p' = entered q"
  by (auto simp: down_semaphore_def panic_simps entered_def fun_eq_iff)

lemma down_keeps_entered:
  assumes "sys_semaphore_down sem_id cur_tid p s = Inr (r, p', s')" "sem_tables_ok p" "unat cur_tid < length (pi_tasks p)"
    "room (pi_semaphore_allocation p) (pi_semaphore_available p) (length (pi_tasks p))" "unat sem_id < length (pi_semaphore_available p)"
  shows "entered p' i = entered p i"
proof -
  let ?q = "requesting sem_id cur_tid p"
  have cur: "unat cur_tid < length (pi_semaphore_need p)" using assms(2,3) by (simp add: sem_tables_ok_def)
  obtain need where need: "pad_row (unat sem_id + 1) (pi_semaphore_need p) (unat cur_tid) = Inr need"
    "table_update need (unat cur_tid) (unat sem_id) (\<lambda>v. v + 1) = Inr (pi_semaphore_need ?q)"
    using request_need [OF cur] by blast
  have q: "p\<lparr>pi_semaphore_need := pi_semaphore_need ?q\<rparr> = ?q" "sem_tables_ok ?q" "entered ?q = entered p" "pi_tasks ?q = pi_tasks p"
      "room (pi_semaphore_allocation ?q) (pi_semaphore_available ?q) (length (pi_tasks ?q))"
    using assms(2,4) by (simp_all add: requesting_def Let_def sem_tables_ok_def entered_def fun_eq_iff)
  obtain dead p1 where 1: "(if pi_deadlock_detect ?q then semaphore_detect ?q else Inr (False, ?q)) = Inr (dead, p1)"
      "entered p1 = entered p" "pi_tasks p1 = pi_tasks p"
    using semaphore_detect_exact [OF q(2,5)] q(3,4) by (cases "pi_deadlock_detect ?q") (auto simp: entered_def fun_eq_iff)
  obtain sem where sem: "the_semaphore sem_id p = Inr sem"
    using assms(1) by (auto simp: sys_semaphore_down_def and_then_def split: sum.splits)
  have rest: "(if dead then Inr (Some DEADLOCK, p1, s) else and_then (take_unit sem_id cur_tid p1) (\<lambda>p. down_semaphore sem_id p s)) = Inr (r, p', s')"
    using assms(1) by (simp only: sys_semaphore_down_def Let_def sem need q(1) 1(1) and_then_Inr prod.case)
  have "entered p1 (unat sem_id) < 2 ^ 64" using assms(4,5) 1(2) by (simp add: room_def entered_def)
  then have "entered p2 i = entered p i" if "take_unit sem_id cur_tid p1 = Inr p2" for p2
    using take_unit_entered [OF that] 1(2,3) assms(3) by simp
  then show ?thesis
    using rest 1(2) by (cases dead) (auto simp: panic_simps dest: down_semaphore_entered)
qed

section \<open>Mutexes\<close>

text \<open>The two tables have the same shape, with a row for every thread, and every mutex has its counter.\<close>

definition mutex_tables_ok :: "ProcessControlBlockInner \<Rightarrow> bool" where
  "mutex_tables_ok p \<longleftrightarrow>
     map length (pi_mutex_need p) = map length (pi_mutex_allocation p) \<and>
     length (pi_tasks p) \<le> length (pi_mutex_need p) \<and> length (pi_mutex_list p) \<le> length (pi_mutex_available p)"

lemma mutex_tables_rows:
  assumes "mutex_tables_ok p" "t < length (pi_mutex_need p)"
  shows "t < length (pi_mutex_allocation p)" "length (pi_mutex_allocation p ! t) = length (pi_mutex_need p ! t)"
proof -
  have m: "map length (pi_mutex_need p) = map length (pi_mutex_allocation p)" using assms(1) by (simp add: mutex_tables_ok_def)
  then show "t < length (pi_mutex_allocation p)" using assms(2) by (metis length_map)
  then show "length (pi_mutex_allocation p ! t) = length (pi_mutex_need p ! t)" using m assms(2) by (metis nth_map)
qed

definition noted :: "nat \<Rightarrow> nat \<Rightarrow> nat \<Rightarrow> ProcessControlBlockInner \<Rightarrow> ProcessControlBlockInner" where
  "noted i cur t p =
     (let zeros = replicate (i + 1 - length (pi_mutex_need p ! t)) 0; row = pi_mutex_need p ! t @ zeros in
      p\<lparr>pi_mutex_need := (pi_mutex_need p)[t := if cur = t then row[i := row ! i + 1] else row],
        pi_mutex_allocation := (pi_mutex_allocation p)[t := pi_mutex_allocation p ! t @ zeros]\<rparr>)"

lemma note_need_ok:
  assumes "mutex_tables_ok p" "t < length (pi_mutex_need p)"
  shows "note_need mutex_id cur_tid t p = Inr (noted (unat mutex_id) (unat cur_tid) t p)"
  using assms mutex_tables_rows [OF assms]
  by (auto simp: note_need_def noted_def array_index_def array_update_def table_update_def Let_def list_update_beyond)

lemma noted_tables:
  assumes "mutex_tables_ok p" "t < length (pi_mutex_need p)"
  shows "mutex_tables_ok (noted i cur t p)" "length (pi_mutex_need (noted i cur t p)) = length (pi_mutex_need p)"
  using assms mutex_tables_rows [OF assms]
  by (auto simp: mutex_tables_ok_def noted_def Let_def map_update) 

text \<open>What the rows are after the loop.\<close>

definition wanted :: "usize list list \<Rightarrow> nat \<Rightarrow> nat \<Rightarrow> nat \<Rightarrow> usize" where
  "wanted need i cur t = (if i < length (need ! t) then need ! t ! i else 0) + (if t = cur then 1 else 0)"

lemma noted_row:
  assumes "t < length (pi_mutex_need p)"
  shows "i < length (pi_mutex_need (noted i cur t p) ! t)" "pi_mutex_need (noted i cur t p) ! t ! i = wanted (pi_mutex_need p) i cur t"
    "u \<noteq> t \<Longrightarrow> pi_mutex_need (noted i cur t p) ! u = pi_mutex_need p ! u"
  using assms by (auto simp: noted_def wanted_def Let_def nth_append)

lemma note_all:
  assumes "mutex_tables_ok p" "n \<le> length (pi_mutex_need p)"
  shows "\<exists>q. for_each (note_need mutex_id cur_tid) [0..<n] p = Inr q \<and> mutex_tables_ok q \<and>
    length (pi_mutex_need q) = length (pi_mutex_need p) \<and>
    q = p\<lparr>pi_mutex_need := pi_mutex_need q, pi_mutex_allocation := pi_mutex_allocation q\<rparr> \<and>
    (\<forall>t < n. unat mutex_id < length (pi_mutex_need q ! t) \<and>
      pi_mutex_need q ! t ! unat mutex_id = wanted (pi_mutex_need p) (unat mutex_id) (unat cur_tid) t) \<and>
    (\<forall>t. n \<le> t \<longrightarrow> pi_mutex_need q ! t = pi_mutex_need p ! t)"
  using assms(2)
proof (induction n)
  case 0
  then show ?case using assms(1) by simp
next
  case (Suc n)
  then obtain q where q: "for_each (note_need mutex_id cur_tid) [0..<n] p = Inr q" "mutex_tables_ok q"
    "length (pi_mutex_need q) = length (pi_mutex_need p)"
    "q = p\<lparr>pi_mutex_need := pi_mutex_need q, pi_mutex_allocation := pi_mutex_allocation q\<rparr>"
    "\<forall>t < n. unat mutex_id < length (pi_mutex_need q ! t) \<and>
      pi_mutex_need q ! t ! unat mutex_id = wanted (pi_mutex_need p) (unat mutex_id) (unat cur_tid) t"
    "\<forall>t. n \<le> t \<longrightarrow> pi_mutex_need q ! t = pi_mutex_need p ! t" by auto
  define r where "r = noted (unat mutex_id) (unat cur_tid) n q"
  have n: "n < length (pi_mutex_need q)" using Suc.prems q(3) by simp
  have "for_each (note_need mutex_id cur_tid) [0..<Suc n] p = Inr r"
    using q(1) note_need_ok [OF q(2) n] by (simp add: for_each_append r_def)
  moreover have "wanted (pi_mutex_need q) (unat mutex_id) (unat cur_tid) n = wanted (pi_mutex_need p) (unat mutex_id) (unat cur_tid) n"
    using q(6) by (simp add: wanted_def)
  moreover have "r = p\<lparr>pi_mutex_need := pi_mutex_need r, pi_mutex_allocation := pi_mutex_allocation r\<rparr>"
    unfolding r_def noted_def Let_def by (subst q(4)) simp
  ultimately show ?case
    using noted_tables [OF q(2) n] noted_row [OF n] q(3,5,6) by (intro exI [of _ r]) (auto simp: r_def less_Suc_eq)
qed

lemma mutex_detect_found:
  assumes "for_each (mutex_detect_one mutex_id p) ts (work, finish, True) = Inr (work', finish', found')"
  shows found'
  using assms
proof (induction ts arbitrary: work finish)
  case (Cons t ts)
  then show ?case by (auto simp: mutex_detect_one_def and_then_def split: sum.splits if_splits)
qed simp

lemma mutex_detect_total:
  assumes "mutex_tables_ok p" "unat mutex_id < length work" "set ts \<subseteq> {..<length finish}" "length finish \<le> length (pi_mutex_need p)"
    "\<forall>t \<in> set ts. unat mutex_id < length (pi_mutex_need p ! t)"
  shows "\<exists>work' finish' found'. for_each (mutex_detect_one mutex_id p) ts (work, finish, found) = Inr (work', finish', found')"
  using assms(2-5)
proof (induction ts arbitrary: work finish found)
  case (Cons t ts)
  then have t: "t < length finish" "t < length (pi_mutex_need p)" "unat mutex_id < length (pi_mutex_need p ! t)" by auto
  from Cons t mutex_tables_rows [OF assms(1) t(2)] show ?case by (simp add: mutex_detect_one_def array_index_def)
qed simp

lemma mutex_detect_none:
  assumes "unat mutex_id < length work" "set ts \<subseteq> {..<length finish}" "length finish \<le> length (pi_mutex_need p)"
    "\<forall>t \<in> set ts. unat mutex_id < length (pi_mutex_need p ! t) \<and> work ! unat mutex_id < pi_mutex_need p ! t ! unat mutex_id"
  shows "for_each (mutex_detect_one mutex_id p) ts (work, finish, found) = Inr (work, finish, found)"
  using assms(2-4)
proof (induction ts)
  case (Cons t ts)
  then have "t < length finish" "t < length (pi_mutex_need p)" by auto
  then have "mutex_detect_one mutex_id p t (work, finish, found) = Inr (work, finish, found)"
    using Cons.prems assms(1) by (auto simp: mutex_detect_one_def array_index_def)
  then show ?case using Cons by simp
qed simp

lemma mutex_detect_iff:
  assumes "mutex_tables_ok p" "unat mutex_id < length (pi_mutex_available p)"
    "\<forall>t < length (pi_tasks p). unat mutex_id < length (pi_mutex_need p ! t)"
  shows "mutex_detect mutex_id p = Inr (pi_tasks p \<noteq> [] \<and>
    (\<forall>t < length (pi_tasks p). pi_mutex_available p ! unat mutex_id < pi_mutex_need p ! t ! unat mutex_id))"
proof -
  let ?n = "length (pi_tasks p)" and ?work = "pi_mutex_available p" and ?finish = "replicate (length (pi_tasks p)) False"
  let ?wait = "\<lambda>t. ?work ! unat mutex_id < pi_mutex_need p ! t ! unat mutex_id"
  have n: "?n \<le> length (pi_mutex_need p)" using assms(1) by (simp add: mutex_tables_ok_def)
  show ?thesis
  proof (cases "\<forall>t < ?n. ?wait t")
    case True
    then have "for_each (mutex_detect_one mutex_id p) [0..<?n] (?work, ?finish, False) = Inr (?work, ?finish, False)"
      using assms(2,3) n by (intro mutex_detect_none) auto
    moreover have "list_all (\<lambda>value. value) ?finish \<longleftrightarrow> pi_tasks p = []" by (auto simp: list_all_iff)
    ultimately show ?thesis using True by (simp add: mutex_detect_def)
  next
    case False
    define t where "t = (LEAST t. t < ?n \<and> \<not> ?wait t)"
    have t: "t < ?n" "\<not> ?wait t" using False LeastI_ex [of "\<lambda>t. t < ?n \<and> \<not> ?wait t"] by (auto simp: t_def)
    have "?wait u" if "u < t" for u using not_less_Least [of u "\<lambda>t. t < ?n \<and> \<not> ?wait t"] that t(1) by (simp add: t_def)
    then have 1: "for_each (mutex_detect_one mutex_id p) [0..<t] (?work, ?finish, False) = Inr (?work, ?finish, False)"
      using assms(2,3) n t(1) by (intro mutex_detect_none) auto
    have tn: "t < length (pi_mutex_need p)" using t(1) n by simp
    have le: "pi_mutex_need p ! t ! unat mutex_id \<le> ?work ! unat mutex_id" using t(2) by (simp only: not_less)
    define work1 where "work1 = ?work[unat mutex_id := ?work ! unat mutex_id + pi_mutex_allocation p ! t ! unat mutex_id]"
    define finish1 where "finish1 = ?finish[t := True]"
    have 2: "mutex_detect_one mutex_id p t (?work, ?finish, False) = Inr (work1, finish1, True)"
      "length work1 = length ?work" "length finish1 = ?n"
      using t(1) le assms(2,3) mutex_tables_rows [OF assms(1) tn] tn
      by (simp_all add: mutex_detect_one_def array_index_def work1_def finish1_def)
    have sub: "set [Suc t..<?n] \<subseteq> {..<length finish1}" using 2(3) by auto
    obtain work' finish' found' where 3: "for_each (mutex_detect_one mutex_id p) [Suc t..<?n] (work1, finish1, True) = Inr (work', finish', found')"
      using mutex_detect_total [OF assms(1) _ sub, of mutex_id work1 True] 2 n assms(2,3) by auto
    have split: "[0..<?n] = [0..<t] @ t # [Suc t..<?n]" using upt_add_eq_append [of 0 t "?n - t"] upt_conv_Cons [of t ?n] t(1) by simp
    have "for_each (mutex_detect_one mutex_id p) [0..<?n] (?work, ?finish, False) = Inr (work', finish', found')"
      unfolding split using 1 2(1) 3 by (simp add: for_each_append)
    moreover have found' using mutex_detect_found [OF 3] .
    ultimately show ?thesis using False by (simp add: mutex_detect_def) 
  qed
qed

text \<open>
  C34. With detection on, \<open>sys_mutex_lock\<close> refuses with \<open>-0xDEAD\<close> exactly when every thread of the process, its caller
  included, wants more of this one mutex than is available. In particular a process with a single thread is refused its own locked mutex,
  and a request is never refused as long as some thread does not want that mutex.
\<close>

theorem mutex_deadlock_reported_iff:
  assumes "pi_deadlock_detect p" "the_mutex mutex_id p = Inr m" "mutex_tables_ok p" "unat cur_tid < length (pi_tasks p)"
  shows "(\<exists>p' s'. sys_mutex_lock mutex_id cur_tid p s = Inr (Some DEADLOCK, p', s')) \<longleftrightarrow>
    (\<forall>t < length (pi_tasks p). pi_mutex_available p ! unat mutex_id < wanted (pi_mutex_need p) (unat mutex_id) (unat cur_tid) t)"
proof -
  have n: "length (pi_tasks p) \<le> length (pi_mutex_need p)" using assms(3) by (simp add: mutex_tables_ok_def)
  have i: "unat mutex_id < length (pi_mutex_available p)"
    using assms(2,3) by (auto simp: the_mutex_def mutex_tables_ok_def panic_simps)
  obtain q where q: "for_each (note_need mutex_id cur_tid) [0..<length (pi_tasks p)] p = Inr q" "mutex_tables_ok q"
    "q = p\<lparr>pi_mutex_need := pi_mutex_need q, pi_mutex_allocation := pi_mutex_allocation q\<rparr>"
    "\<forall>t < length (pi_tasks p). unat mutex_id < length (pi_mutex_need q ! t) \<and>
      pi_mutex_need q ! t ! unat mutex_id = wanted (pi_mutex_need p) (unat mutex_id) (unat cur_tid) t"
    using note_all [OF assms(3) n] by blast
  have same: "pi_tasks q = pi_tasks p" "pi_mutex_available q = pi_mutex_available p" "pi_deadlock_detect q"
    by (subst q(3), simp add: assms(1))+
  let ?all = "\<forall>t < length (pi_tasks p). pi_mutex_available p ! unat mutex_id < wanted (pi_mutex_need p) (unat mutex_id) (unat cur_tid) t"
  have "mutex_detect mutex_id q = Inr ?all"
    using mutex_detect_iff [OF q(2), of mutex_id] i q(4) assms(4) by (auto simp: same)
  then obtain rest where run: "sys_mutex_lock mutex_id cur_tid p s = (if ?all then Inr (Some DEADLOCK, q, s) else rest)"
    and rest: "rest = and_then (vec_index (pi_mutex_available q) mutex_id) (\<lambda>v.
     and_then (vec_update (pi_mutex_available q) mutex_id (v - 1)) (\<lambda>available.
     and_then (table_update (pi_mutex_allocation q) (unat cur_tid) (unat mutex_id) (\<lambda>v. v + 1)) (\<lambda>allocation.
     and_then (table_update (pi_mutex_need q) (unat cur_tid) (unat mutex_id) (\<lambda>v. v - 1)) (\<lambda>need.
     lock_mutex mutex_id
       (q\<lparr>pi_mutex_available := available, pi_mutex_allocation := allocation, pi_mutex_need := need\<rparr>) s))))"
    unfolding sys_mutex_lock_def using assms(2) q(1) same(3) by (simp only: and_then_Inr if_True)
  have "rest \<noteq> Inr (Some DEADLOCK, p', s')" for p' s'
    unfolding rest by (auto simp: lock_mutex_def and_then_def DEADLOCK_def split: sum.splits)
  then show ?thesis unfolding run by auto
qed

text \<open>Two threads and two mutexes, detection on, nothing locked.\<close>

definition two_mutexes :: ProcessControlBlockInner where
  "two_mutexes = snd (sys_mutex_create True (snd (sys_mutex_create True
     ((ProcessControlBlockInner_new empty_space 4 5 6)
       \<lparr>pi_tasks := [Some 3, Some 5], pi_deadlock_detect := True, pi_mutex_allocation := [[], []], pi_mutex_need := [[], []]\<rparr>))))"

lemma two_mutexes_fields:
  "pi_tasks two_mutexes = [Some 3, Some 5]" "pi_deadlock_detect two_mutexes" "pi_mutex_need two_mutexes = [[], []]"
  "pi_mutex_allocation two_mutexes = [[], []]" "pi_mutex_available two_mutexes = [1, 1]"
  "pi_mutex_list two_mutexes = [Some (Blocking MutexBlocking_new), Some (Blocking MutexBlocking_new)]"
  by (simp_all add: two_mutexes_def sys_mutex_create_def fill_slot_def position_def pad_def ProcessControlBlockInner_new_def Let_def)

theorem mutex_deadlock_reported_iff_witness:
  "\<not> (\<exists>p' s'. sys_mutex_lock 1 0 two_mutexes one_running = Inr (Some DEADLOCK, p', s'))"
proof -
  have "the_mutex 1 two_mutexes = Inr (Blocking MutexBlocking_new)" by (simp add: the_mutex_def two_mutexes_fields unwrap_def)
  moreover have "mutex_tables_ok two_mutexes" by (simp add: mutex_tables_ok_def two_mutexes_fields)
  moreover have "\<not> (\<forall>t < length (pi_tasks two_mutexes).
      pi_mutex_available two_mutexes ! unat (1 :: usize) < wanted (pi_mutex_need two_mutexes) (unat (1 :: usize)) (unat (0 :: usize)) t)"
    by (rule notI, drule spec [of _ 0]) (simp add: two_mutexes_fields wanted_def)
  ultimately show ?thesis using mutex_deadlock_reported_iff [of two_mutexes 1 _ 0 one_running]
    by (simp add: two_mutexes_fields)
qed

text \<open>The first loop of \<open>sys_mutex_lock\<close> leaves the columns of the other mutexes as they are, but for zeros.\<close>

lemma note_need_other:
  assumes "note_need mutex_id cur_tid t p = Inr q" "i \<noteq> unat mutex_id"
  shows "cell (pi_mutex_need q) u i = cell (pi_mutex_need p) u i"
  using assms
  by (auto simp: note_need_def cell_def array_index_def array_update_def table_update_def Let_def and_then_def nth_list_update
      nth_append split: if_splits sum.splits)

lemma note_all_other:
  assumes "for_each (note_need mutex_id cur_tid) ts p = Inr q" "i \<noteq> unat mutex_id"
  shows "cell (pi_mutex_need q) u i = cell (pi_mutex_need p) u i"
  using assms(1)
proof (induction ts arbitrary: p)
  case (Cons t ts)
  then obtain p1 where "note_need mutex_id cur_tid t p = Inr p1" "for_each (note_need mutex_id cur_tid) ts p1 = Inr q"
    by (auto simp: and_then_def split: sum.splits)
  then show ?case using Cons.IH note_need_other [OF _ assms(2)] by simp
qed simp

lemma wanted_other: "t \<noteq> cur \<Longrightarrow> t < length need \<Longrightarrow> unat (wanted need i cur t) = cell need t i"
  by (simp add: wanted_def cell_def)

lemma cell_update: "j \<noteq> i \<Longrightarrow> cell (tab[t := (tab ! t)[i := v]]) u j = cell tab u j"
  by (cases "u = t") (auto simp: cell_def)

text \<open>A request is let through as long as another thread does not ask for that mutex.\<close>

lemma mutex_not_refused:
  assumes "the_mutex mutex_id p = Inr m" "mutex_tables_ok p" "unat cur_tid < length (pi_tasks p)"
    "w < length (pi_tasks p)" "w \<noteq> unat cur_tid" "cell (pi_mutex_need p) w (unat mutex_id) = 0"
  obtains q where "for_each (note_need mutex_id cur_tid) [0..<length (pi_tasks p)] p = Inr q" "mutex_tables_ok q"
    "q = p\<lparr>pi_mutex_need := pi_mutex_need q, pi_mutex_allocation := pi_mutex_allocation q\<rparr>"
    "unat cur_tid < length (pi_mutex_need q)" "unat mutex_id < length (pi_mutex_need q ! unat cur_tid)"
    "mutex_detect mutex_id q = Inr False" "\<And>u i. i \<noteq> unat mutex_id \<Longrightarrow> cell (pi_mutex_need q) u i = cell (pi_mutex_need p) u i"
proof -
  have n: "length (pi_tasks p) \<le> length (pi_mutex_need p)" using assms(2) by (simp add: mutex_tables_ok_def)
  have i: "unat mutex_id < length (pi_mutex_available p)"
    using assms(1,2) by (auto simp: the_mutex_def mutex_tables_ok_def panic_simps)
  obtain q where q: "for_each (note_need mutex_id cur_tid) [0..<length (pi_tasks p)] p = Inr q" "mutex_tables_ok q"
    "length (pi_mutex_need q) = length (pi_mutex_need p)"
    "q = p\<lparr>pi_mutex_need := pi_mutex_need q, pi_mutex_allocation := pi_mutex_allocation q\<rparr>"
    "\<forall>t < length (pi_tasks p). unat mutex_id < length (pi_mutex_need q ! t) \<and>
      pi_mutex_need q ! t ! unat mutex_id = wanted (pi_mutex_need p) (unat mutex_id) (unat cur_tid) t"
    using note_all [OF assms(2) n] by blast
  have same: "pi_tasks q = pi_tasks p" "pi_mutex_available q = pi_mutex_available p" by (subst q(4), simp)+
  have "unat (wanted (pi_mutex_need p) (unat mutex_id) (unat cur_tid) w) = 0" using wanted_other assms(4-6) n by simp
  then have "mutex_detect mutex_id q = Inr False"
    using mutex_detect_iff [OF q(2), of mutex_id] i q(5) assms(4) by (auto simp: same word_less_nat_alt)
  moreover have "unat cur_tid < length (pi_mutex_need q)" "unat mutex_id < length (pi_mutex_need q ! unat cur_tid)"
    using q(3,5) assms(3) n by auto
  ultimately show ?thesis using q(1,2,4) note_all_other [OF q(1)] by (intro that)
qed

text \<open>A thread whose request for a locked mutex is let through waits for it.\<close>

lemma locked_mutex_blocks:
  assumes "pi_deadlock_detect p" "the_mutex mutex_id p = Inr (Blocking mb)" "mb_locked mb" "mutex_tables_ok p"
    "unat cur_tid < length (pi_tasks p)" "sc_current s = Some t"
    "w < length (pi_tasks p)" "w \<noteq> unat cur_tid" "cell (pi_mutex_need p) w (unat mutex_id) = 0"
  shows "\<exists>p'. sys_mutex_lock mutex_id cur_tid p s = Inr (None, p', set_status t Blocked (s\<lparr>sc_current := None\<rparr>)) \<and>
    pi_mutex_list p' = (pi_mutex_list p)[unat mutex_id := Some (Blocking (mb\<lparr>mb_wait_queue := mb_wait_queue mb @ [t]\<rparr>))] \<and>
    mutex_tables_ok p' \<and> pi_tasks p' = pi_tasks p \<and> pi_deadlock_detect p' \<and>
    (\<forall>u i. i \<noteq> unat mutex_id \<longrightarrow> cell (pi_mutex_need p') u i = cell (pi_mutex_need p) u i)"
proof -
  let ?i = "unat mutex_id" and ?c = "unat cur_tid"
  obtain q where q: "for_each (note_need mutex_id cur_tid) [0..<length (pi_tasks p)] p = Inr q" "mutex_tables_ok q"
    "q = p\<lparr>pi_mutex_need := pi_mutex_need q, pi_mutex_allocation := pi_mutex_allocation q\<rparr>"
    and c: "?c < length (pi_mutex_need q)" "?i < length (pi_mutex_need q ! ?c)" and det: "mutex_detect mutex_id q = Inr False"
    and other: "\<And>u i. i \<noteq> ?i \<Longrightarrow> cell (pi_mutex_need q) u i = cell (pi_mutex_need p) u i"
    by (rule mutex_not_refused [OF assms(2,4,5,7-9)], rule that)
  have i: "?i < length (pi_mutex_available p)" "?i < length (pi_mutex_list p)"
    using assms(2,4) by (auto simp: the_mutex_def mutex_tables_ok_def panic_simps)
  have same: "pi_tasks q = pi_tasks p" "pi_mutex_available q = pi_mutex_available p" "pi_deadlock_detect q" "pi_mutex_list q = pi_mutex_list p"
    by (subst q(3), simp add: assms(1))+
  note rows = mutex_tables_rows [OF q(2) c(1)]
  define need allocation where "need = (pi_mutex_need q)[?c := (pi_mutex_need q ! ?c)[?i := pi_mutex_need q ! ?c ! ?i - 1]]"
    and "allocation = (pi_mutex_allocation q)[?c := (pi_mutex_allocation q ! ?c)[?i := pi_mutex_allocation q ! ?c ! ?i + 1]]"
  define q' where "q' = q\<lparr>pi_mutex_available := (pi_mutex_available p)[?i := pi_mutex_available p ! ?i - 1],
      pi_mutex_allocation := allocation, pi_mutex_need := need\<rparr>"
  define p' where "p' = q'\<lparr>pi_mutex_list := (pi_mutex_list p)[?i := Some (Blocking (mb\<lparr>mb_wait_queue := mb_wait_queue mb @ [t]\<rparr>))]\<rparr>"
  have up: "table_update (pi_mutex_allocation q) ?c ?i (\<lambda>v. v + 1) = Inr allocation"
    "table_update (pi_mutex_need q) ?c ?i (\<lambda>v. v - 1) = Inr need"
    using c rows by (simp_all add: table_update_def array_index_def array_update_def need_def allocation_def)
  have "lock_mutex mutex_id q' s = Inr (None, p', set_status t Blocked (s\<lparr>sc_current := None\<rparr>))"
    using assms(2,3,6) same(4)
    by (simp add: lock_mutex_def the_mutex_def q'_def p'_def MutexBlocking_lock_def sched_defs Let_def)
  then have "sys_mutex_lock mutex_id cur_tid p s = Inr (None, p', set_status t Blocked (s\<lparr>sc_current := None\<rparr>))"
    unfolding sys_mutex_lock_def using assms(2) q(1) same det up i by (simp add: q'_def)
  moreover have "mutex_tables_ok p'"
    using q(2) i rows same unfolding mutex_tables_ok_def p'_def q'_def need_def allocation_def
    by (simp add: map_update list_update_same_conv)
  moreover have "cell (pi_mutex_need p') u j = cell (pi_mutex_need p) u j" if "j \<noteq> ?i" for u j
    using other [OF that] cell_update [OF that] by (simp add: p'_def q'_def need_def)
  ultimately show ?thesis using same by (intro exI [of _ p']) (simp add: p'_def q'_def)
qed

text \<open>
  C36. The detection misses the simplest deadlock of two mutexes. With it switched on, let mutex \<open>a\<close> be locked and thread \<open>u\<close>
  not be asking for it, as when \<open>u\<close> holds it, and mutex \<open>b\<close> be locked and thread \<open>v\<close> not be asking for it. When \<open>u\<close> now asks for \<open>b\<close> and
  then, whatever the scheduler has done in between, \<open>v\<close> asks for \<open>a\<close>, neither call is refused: \<open>u\<close> is blocked in the queue of \<open>b\<close>
  and \<open>v\<close> in the queue of \<open>a\<close>, each waiting for the mutex of the other.
\<close>

theorem mutex_detection_misses_cross_locking:
  assumes "pi_deadlock_detect p" "mutex_tables_ok p" "a \<noteq> b" "u \<noteq> v"
    and "the_mutex a p = Inr (Blocking ma)" "mb_locked ma" "the_mutex b p = Inr (Blocking mb)" "mb_locked mb"
    and "unat u < length (pi_tasks p)" "cell (pi_mutex_need p) (unat u) (unat a) = 0"
    and "unat v < length (pi_tasks p)" "cell (pi_mutex_need p) (unat v) (unat b) = 0"
    and "sc_current s = Some t"
  shows "\<exists>p1 s1. sys_mutex_lock b u p s = Inr (None, p1, s1) \<and> sc_current s1 = None \<and> sc_status s1 t = Blocked \<and>
    (\<forall>s2 t'. sc_current s2 = Some t' \<longrightarrow>
       (\<exists>p2 s3. sys_mutex_lock a v p1 s2 = Inr (None, p2, s3) \<and> sc_current s3 = None \<and> sc_status s3 t' = Blocked \<and>
          the_mutex a p2 = Inr (Blocking (ma\<lparr>mb_wait_queue := mb_wait_queue ma @ [t']\<rparr>)) \<and>
          the_mutex b p2 = Inr (Blocking (mb\<lparr>mb_wait_queue := mb_wait_queue mb @ [t]\<rparr>))))"
proof -
  have ne: "unat a \<noteq> unat b" "unat u \<noteq> unat v" using assms(3,4) by (simp_all add: word_unat_eq_iff)
  have len: "unat a < length (pi_mutex_list p)" "unat b < length (pi_mutex_list p)"
    using assms(5,7) by (auto simp: the_mutex_def panic_simps)
  obtain p1 where p1: "sys_mutex_lock b u p s = Inr (None, p1, set_status t Blocked (s\<lparr>sc_current := None\<rparr>))"
      "pi_mutex_list p1 = (pi_mutex_list p)[unat b := Some (Blocking (mb\<lparr>mb_wait_queue := mb_wait_queue mb @ [t]\<rparr>))]"
      "mutex_tables_ok p1" "pi_tasks p1 = pi_tasks p" "pi_deadlock_detect p1"
      "\<forall>u i. i \<noteq> unat b \<longrightarrow> cell (pi_mutex_need p1) u i = cell (pi_mutex_need p) u i"
    using locked_mutex_blocks [OF assms(1,7,8,2,9,13,11) ne(2) [symmetric] assms(12)] by blast
  have a1: "the_mutex a p1 = Inr (Blocking ma)" using assms(5) p1(2) ne(1) len(1) by (simp add: the_mutex_def vec_index_def)
  have "\<exists>p2 s3. sys_mutex_lock a v p1 s2 = Inr (None, p2, s3) \<and> sc_current s3 = None \<and> sc_status s3 t' = Blocked \<and>
      the_mutex a p2 = Inr (Blocking (ma\<lparr>mb_wait_queue := mb_wait_queue ma @ [t']\<rparr>)) \<and>
      the_mutex b p2 = Inr (Blocking (mb\<lparr>mb_wait_queue := mb_wait_queue mb @ [t]\<rparr>))" if cur: "sc_current s2 = Some t'" for s2 t'
  proof -
    obtain p2 where "sys_mutex_lock a v p1 s2 = Inr (None, p2, set_status t' Blocked (s2\<lparr>sc_current := None\<rparr>))"
        "pi_mutex_list p2 = (pi_mutex_list p1)[unat a := Some (Blocking (ma\<lparr>mb_wait_queue := mb_wait_queue ma @ [t']\<rparr>))]"
      using locked_mutex_blocks [OF p1(5) a1 assms(6) p1(3), of v s2 t' "unat u"] cur assms(9-11) p1(4,6) ne by auto
    then show ?thesis using p1(2) len ne(1) by (auto simp: the_mutex_def unwrap_def set_status_def)
  qed
  then show ?thesis using p1(1) by (intro exI [of _ p1] exI) (auto simp: set_status_def)
qed

lemmas lock_eval = sys_mutex_lock_def the_mutex_def lock_mutex_def note_need_def mutex_detect_def mutex_detect_one_def
  table_update_def array_index_def array_update_def unwrap_def MutexBlocking_lock_def MutexBlocking_new_def Let_def

definition after_locks :: "Mutex \<Rightarrow> Mutex \<Rightarrow> usize list list \<Rightarrow> usize list list \<Rightarrow> usize list \<Rightarrow> ProcessControlBlockInner" where
  "after_locks m0 m1 need allocation available = two_mutexes\<lparr>pi_mutex_list := [Some m0, Some m1],
     pi_mutex_need := need, pi_mutex_allocation := allocation, pi_mutex_available := available\<rparr>"

abbreviation free_mutex :: Mutex where
  "free_mutex \<equiv> Blocking \<lparr>mb_locked = False, mb_wait_queue = []\<rparr>"

abbreviation held_mutex :: "task list \<Rightarrow> Mutex" where
  "held_mutex q \<equiv> Blocking \<lparr>mb_locked = True, mb_wait_queue = q\<rparr>"

text \<open>Thread 0 (task 3) locks mutex 0 and thread 1 (task 5) mutex 1; then thread 0 asks for mutex 1.\<close>

lemma cross_1:
  "sys_mutex_lock 0 0 two_mutexes s = Inr (Some 0, after_locks (held_mutex []) free_mutex [[0], [0]] [[1], [0]] [0, 1], s)"
  by (simp add: lock_eval two_mutexes_fields after_locks_def)

lemma cross_2:
  "sys_mutex_lock 1 1 (after_locks (held_mutex []) free_mutex [[0], [0]] [[1], [0]] [0, 1]) s =
    Inr (Some 0, after_locks (held_mutex []) (held_mutex []) [[0, 0], [0, 0]] [[1, 0], [0, 1]] [0, 0], s)"
  by (simp add: lock_eval two_mutexes_fields after_locks_def)

lemma cross_3:
  assumes "sc_current s = Some 3"
  shows "sys_mutex_lock 1 0 (after_locks (held_mutex []) (held_mutex []) [[0, 0], [0, 0]] [[1, 0], [0, 1]] [0, 0]) s =
    Inr (None, after_locks (held_mutex []) (held_mutex [3]) [[0, 0], [0, 0]] [[1, 1], [0, 1]] [0, - 1],
      set_status 3 Blocked (s\<lparr>sc_current := None\<rparr>))"
  using assms by (simp add: lock_eval two_mutexes_fields after_locks_def sched_defs)

theorem mutex_detection_misses_cross_locking_witness:
  "\<exists>p1 s1. sys_mutex_lock 1 0 (after_locks (held_mutex []) (held_mutex []) [[0, 0], [0, 0]] [[1, 0], [0, 1]] [0, 0]) one_running
      = Inr (None, p1, s1) \<and>
    (\<exists>p2 s3. sys_mutex_lock 0 1 p1 (run_tasks_round s1) = Inr (None, p2, s3) \<and> sc_current s3 = None \<and> sc_status s3 5 = Blocked)"
proof -
  let ?p = "after_locks (held_mutex []) (held_mutex []) [[0, 0], [0, 0]] [[1, 0], [0, 1]] [0, 0]"
  have f: "pi_deadlock_detect ?p" "pi_tasks ?p = [Some 3, Some 5]" "pi_mutex_need ?p = [[0, 0], [0, 0]]"
      "pi_mutex_allocation ?p = [[1, 0], [0, 1]]" "pi_mutex_available ?p = [0, 0]"
      "pi_mutex_list ?p = [Some (held_mutex []), Some (held_mutex [])]"
    by (simp_all add: after_locks_def two_mutexes_fields)
  have m: "the_mutex 0 ?p = Inr (held_mutex [])" "the_mutex 1 ?p = Inr (held_mutex [])"
    by (simp_all add: the_mutex_def f unwrap_def)
  have ok: "mutex_tables_ok ?p" by (simp add: mutex_tables_ok_def f)
  have h: "(0 :: usize) \<noteq> 1" "mb_locked \<lparr>mb_locked = True, mb_wait_queue = []\<rparr>" "unat (0 :: usize) < length (pi_tasks ?p)"
      "cell (pi_mutex_need ?p) (unat (0 :: usize)) (unat (0 :: usize)) = 0" "unat (1 :: usize) < length (pi_tasks ?p)"
      "cell (pi_mutex_need ?p) (unat (1 :: usize)) (unat (1 :: usize)) = 0" "sc_current one_running = Some 3"
    by (simp_all add: f cell_def one_running_def)
  obtain p1 s1 where 1: "sys_mutex_lock 1 0 ?p one_running = Inr (None, p1, s1)"
    and 2: "\<And>s2 t'. sc_current s2 = Some t' \<Longrightarrow>
       \<exists>p2 s3. sys_mutex_lock 0 1 p1 s2 = Inr (None, p2, s3) \<and> sc_current s3 = None \<and> sc_status s3 t' = Blocked"
    using mutex_detection_misses_cross_locking [OF f(1) ok h(1,1) m(1) h(2) m(2) h(2,3,4,5,6,7)] by blast
  have "s1 = set_status 3 Blocked (one_running\<lparr>sc_current := None\<rparr>)" using 1 cross_3 [OF h(7)] by simp
  then have "sc_current (run_tasks_round s1) = Some 5" by (simp add: one_running_def sched_defs)
  then show ?thesis using 1 2 by blast
qed

section \<open>The books of a semaphore\<close>

text \<open>
  A \<open>down\<close> that has to wait is never entered as granted: after thread 0 has waited for a semaphore and thread 1 has passed it
  the unit, no unit is left and nobody waits, yet the books show one available unit and an open need of thread 0.
\<close>

definition handed_over :: "(ProcessControlBlockInner \<times> sched) outcome" where
  "handed_over =
     and_then (sys_semaphore_create 0 ((ProcessControlBlockInner_new empty_space 4 5 6)
       \<lparr>pi_tasks := [Some 3, Some 5], pi_semaphore_allocation := [[], []], pi_semaphore_need := [[], []]\<rparr>)) (\<lambda>(_, p).
     and_then (sys_semaphore_down 0 0 p one_running) (\<lambda>(_, p, s).
     and_then (sys_semaphore_up 0 1 p (run_tasks_round s)) (\<lambda>(_, p, s). Inr (p, s))))"

lemma semaphore_books_drift:
  "\<exists>p s. handed_over = Inr (p, s) \<and> pi_semaphore_list p = [Some \<lparr>sem_count = 0, sem_wait_queue = []\<rparr>] \<and>
    pi_semaphore_available p = [1] \<and> pi_semaphore_need p = [[1], [0]] \<and> pi_semaphore_allocation p = [[0], [- 1]]"
  by (simp add: handed_over_def sys_semaphore_create_def sys_semaphore_down_def sys_semaphore_up_def the_semaphore_def take_unit_def
    down_semaphore_def fill_slot_def position_def pad_def pad_row_def table_update_def array_index_def array_update_def unwrap_def
    ProcessControlBlockInner_new_def Semaphore_new_def Semaphore_down_def Semaphore_up_def one_running_def sched_defs Let_def)

text \<open>A thread that sleeps long enough stops the timers of all processes.\<close>

lemma long_sleep_stops_timers:
  assumes "heap timer_key timers" "sys_sleep now ms timers s = Inr (timers', s')" "2 ^ 63 < unat (get_time_ms now + ms)"
  shows "check_timer later timers' s'' = (timers', s'')"
proof -
  obtain t where t: "timers' = add_timer (get_time_ms now + ms) t timers"
    using assms(2) by (auto simp: sys_sleep_def panic_simps Let_def)
  have "\<lparr>expire_ms = get_time_ms now + ms, tc_task = t\<rparr> \<in># mset timers'" by (simp add: t add_timer_heap [OF assms(1)])
  then have c: "\<lparr>expire_ms = get_time_ms now + ms, tc_task = t\<rparr> \<in> set timers'" by (simp only: set_mset_mset)
  have h: "heap timer_key timers'" by (simp add: t add_timer_heap [OF assms(1)])
  show ?thesis using far_timer_stops [OF h c] assms(3) by simp
qed

end
