(* ===== verification/Kernel_Types.thy ===== *)
theory Kernel_Types
  imports Process_Life Deadlock
begin

text \<open>
  The shape of the tables of the deadlock detection, for the whole kernel: every process has a row for each of its threads in the
  four tables and a counter for each of its mutexes and semaphores, whatever system calls, interrupts and faults
  happen in whatever order.
\<close>

section \<open>Partial correctness\<close>

text \<open>What holds of the result of a computation if it returns one.\<close>

definition holds :: "('a \<Rightarrow> bool) \<Rightarrow> 'a outcome \<Rightarrow> bool" where
  "holds P r \<longleftrightarrow> (\<forall>x. r = Inr x \<longrightarrow> P x)"

definition holds_run :: "('a \<Rightarrow> bool) \<Rightarrow> 'a outcome option \<Rightarrow> bool" where
  "holds_run P r \<longleftrightarrow> (\<forall>x. r = Some (Inr x) \<longrightarrow> P x)"

lemma holds_simps [simp]: "holds P (Inr x) = P x" "holds P (Inl e)"
  by (simp_all add: holds_def)

lemma holds_and_then: "holds P (and_then r f) = holds (\<lambda>x. holds P (f x)) r"
  by (cases r) simp_all

lemma holds_if: "(c \<Longrightarrow> holds P r) \<Longrightarrow> (\<not> c \<Longrightarrow> holds P r') \<Longrightarrow> holds P (if c then r else r')"
  by simp

lemma holds_run_simps [simp]:
  "holds_run P (Some r) = holds P r" "holds_run P None"
  by (auto simp: holds_def holds_run_def)

lemma holds_mono: "holds P r \<Longrightarrow> (\<And>x. P x \<Longrightarrow> Q x) \<Longrightarrow> holds Q r"
  by (simp add: holds_def)

lemma holds_any: "(\<And>x. P x) \<Longrightarrow> holds P r"
  by (simp add: holds_def)

lemma holds_run_any: "(\<And>x. P x) \<Longrightarrow> holds_run P r"
  by (simp add: holds_run_def)

lemma holds_bind: "(\<And>x. r = Inr x \<Longrightarrow> holds P (f x)) \<Longrightarrow> holds P (and_then r f)"
  by (cases r) simp_all

lemma holdsD: "holds P r \<Longrightarrow> r = Inr x \<Longrightarrow> P x"
  by (simp add: holds_def)

lemma holds_for_each:
  assumes "I s" "\<And>x s. x \<in> set xs \<Longrightarrow> I s \<Longrightarrow> holds I (f x s)"
  shows "holds I (for_each f xs s)"
  using assms
proof (induction xs arbitrary: s)
  case (Cons x xs)
  then have "holds I (f x s)" by simp
  then have "holds (\<lambda>s. holds I (for_each f xs s)) (f x s)" by (rule holds_mono) (use Cons in simp)
  then show ?case by (simp add: holds_and_then)
qed simp

section \<open>The tables of a process\<close>

definition tables_typed :: "ProcessControlBlockInner \<Rightarrow> bool" where
  "tables_typed i \<longleftrightarrow> mutex_tables_ok i \<and> sem_tables_ok i \<and> length (pi_semaphore_list i) \<le> length (pi_semaphore_available i)"

lemmas tables_defs = tables_typed_def mutex_tables_ok_def sem_tables_ok_def

lemma tables_typed_other [simp]:
  "tables_typed (i\<lparr>pi_is_zombie := z\<rparr>) = tables_typed i" "tables_typed (i\<lparr>pi_memory_set := ms\<rparr>) = tables_typed i"
  "tables_typed (i\<lparr>pi_parent := p\<rparr>) = tables_typed i" "tables_typed (i\<lparr>pi_children := cs\<rparr>) = tables_typed i"
  "tables_typed (i\<lparr>pi_exit_code := c\<rparr>) = tables_typed i" "tables_typed (i\<lparr>pi_fd_table := fds\<rparr>) = tables_typed i"
  "tables_typed (i\<lparr>pi_signals := sig\<rparr>) = tables_typed i" "tables_typed (i\<lparr>pi_task_res_allocator := a\<rparr>) = tables_typed i"
  "tables_typed (i\<lparr>pi_condvar_list := cvs\<rparr>) = tables_typed i" "tables_typed (i\<lparr>pi_deadlock_detect := d\<rparr>) = tables_typed i"
  by (simp_all add: tables_defs)

lemma tables_typed_tasks: "tables_typed i \<Longrightarrow> length ts \<le> length (pi_tasks i) \<Longrightarrow> tables_typed (i\<lparr>pi_tasks := ts\<rparr>)"
  by (simp add: tables_defs)

lemma table_update_shape: "table_update tab i j f = Inr tab' \<Longrightarrow> map length tab' = map length tab"
  by (auto simp: table_update_def array_index_def array_update_def map_update panic_simps split: if_splits) (metis list_update_id nth_map)

lemma table_update_rows: "table_update tab i j f = Inr tab' \<Longrightarrow> length tab' = length tab"
  using table_update_shape map_eq_imp_length_eq by blast

lemma pad_row_rows: "pad_row n tab i = Inr tab' \<Longrightarrow> length tab' = length tab"
  by (auto simp: pad_row_def array_index_def array_update_def panic_simps split: if_splits)

lemmas table_rows = table_update_shape table_update_rows pad_row_rows

subsection \<open>Mutexes\<close>

lemma fill_slot_length: "fill_slot x xs = (i, ys) \<Longrightarrow> length ys \<le> max (Suc i) (length xs)"
  by (auto simp: fill_slot_def split: option.splits)

lemma typed_mutex_create: "tables_typed i \<Longrightarrow> tables_typed (snd (sys_mutex_create blocking i))"
  by (auto simp: sys_mutex_create_def Let_def tables_defs length_pad split: prod.split dest!: fill_slot_length)

lemma typed_lock_mutex: "tables_typed i \<Longrightarrow> holds (\<lambda>(r, i, s). tables_typed i) (lock_mutex m i s)"
  by (auto simp: lock_mutex_def holds_def panic_simps tables_defs)

lemma note_need_shape:
  assumes "tables_typed i"
  shows "holds tables_typed (note_need m cur t i)"
proof (cases "t < length (pi_mutex_need i)")
  case True
  have ok: "mutex_tables_ok i" using assms by (simp add: tables_typed_def)
  show ?thesis using noted_tables(1) [OF ok True, of "unat m" "unat cur"] assms
    by (simp add: note_need_ok [OF ok True] noted_def tables_defs Let_def)
next
  case False
  then show ?thesis by (simp add: note_need_def array_index_def)
qed

lemma typed_mutex_lock:
  assumes "tables_typed i"
  shows "holds (\<lambda>(r, i, s). tables_typed i) (sys_mutex_lock m cur i s)"
proof -
  have n: "holds tables_typed (for_each (note_need m cur) [0..<length (pi_tasks i)] i)"
    by (intro holds_for_each assms note_need_shape)
  have l: "holds (\<lambda>(r, i, s). tables_typed i) (lock_mutex m
      (q\<lparr>pi_mutex_available := (pi_mutex_available q)[unat m := v], pi_mutex_allocation := allocation, pi_mutex_need := need\<rparr>) s)"
    if "for_each (note_need m cur) [0..<length (pi_tasks i)] i = Inr q"
      "table_update (pi_mutex_allocation q) t j f = Inr allocation" "table_update (pi_mutex_need q) t j g = Inr need"
    for q v t j f g allocation need
    using holdsD [OF n that(1)] table_update_shape [OF that(2)] table_update_shape [OF that(3)] table_update_rows [OF that(3)]
    by (intro typed_lock_mutex) (simp add: tables_defs)
  show ?thesis
    unfolding sys_mutex_lock_def
  proof (intro holds_bind)
    fix q dead
    assume q: "for_each (note_need m cur) [0..<length (pi_tasks i)] i = Inr q"
    show "holds (\<lambda>(r, i, s). tables_typed i) (if dead then Inr (Some DEADLOCK, q, s) else
        and_then (vec_index (pi_mutex_available q) m) (\<lambda>v. and_then (vec_update (pi_mutex_available q) m (v - 1)) (\<lambda>available.
        and_then (table_update (pi_mutex_allocation q) (unat cur) (unat m) (\<lambda>v. v + 1)) (\<lambda>allocation.
        and_then (table_update (pi_mutex_need q) (unat cur) (unat m) (\<lambda>v. v - 1)) (\<lambda>need.
        lock_mutex m (q\<lparr>pi_mutex_available := available, pi_mutex_allocation := allocation, pi_mutex_need := need\<rparr>) s)))))"
      using holdsD [OF n q] by (auto simp: vec_update_eq_Inr intro!: holds_bind l [OF q])
  qed
qed

lemma typed_mutex_unlock: "tables_typed i \<Longrightarrow> holds (\<lambda>(r, i, s). tables_typed i) (sys_mutex_unlock m cur i s)"
  by (auto simp: sys_mutex_unlock_def holds_def panic_simps tables_defs dest!: table_update_shape)

subsection \<open>Semaphores\<close>

lemma typed_semaphore_create:
  assumes "tables_typed i"
  shows "holds (\<lambda>(n, i). tables_typed i) (sys_semaphore_create units i)"
proof -
  obtain n sems where f: "fill_slot (Semaphore_new units) (pi_semaphore_list i) = (n, sems)" by fastforce
  let ?i = "i\<lparr>pi_semaphore_list := sems, pi_semaphore_available := (pad (n + 1) (pi_semaphore_available i))[n := units]\<rparr>"
  have "tables_typed ?i" using assms fill_slot_length [OF f] by (auto simp: tables_defs length_pad)
  then have "holds tables_typed (for_each (\<lambda>tid p.
          and_then (pad_row (n + 1) (pi_semaphore_allocation p) tid) (\<lambda>allocation.
          and_then (pad_row (n + 1) (pi_semaphore_need p) tid) (\<lambda>need.
          Inr (p\<lparr>pi_semaphore_allocation := allocation, pi_semaphore_need := need\<rparr>)))) [0..<length (pi_tasks ?i)] ?i)"
    by (intro holds_for_each) (auto simp: holds_def panic_simps tables_defs dest!: pad_row_rows)
  then show ?thesis by (simp add: sys_semaphore_create_def f Let_def holds_and_then)
qed

lemma typed_semaphore_up: "tables_typed i \<Longrightarrow> holds (\<lambda>(r, i, s). tables_typed i) (sys_semaphore_up m cur i s)"
  by (auto simp: sys_semaphore_up_def holds_def panic_simps tables_defs Let_def split_beta dest!: table_update_rows pad_row_rows)

definition detect_rows :: "nat \<Rightarrow> nat \<Rightarrow> detection \<Rightarrow> bool" where
  "detect_rows n m = (\<lambda>(need, allocation, work, finish, found). length need = n \<and> length allocation = m)"

lemma scan_row_rows: "scan_row tab work tid = Inr (row, tab') \<Longrightarrow> length tab' = length tab"
  by (auto simp: scan_row_def panic_simps split: if_splits dest!: pad_row_rows)

lemma detect_one_rows: "detect_rows n m d \<Longrightarrow> holds (detect_rows n m) (semaphore_detect_one tid d)"
  by (auto simp: semaphore_detect_one_def detect_rows_def holds_def panic_simps Let_def split: prod.splits if_splits dest!: scan_row_rows)

lemma detect_loop_rows:
  "detect_rows n m d \<Longrightarrow> holds (\<lambda>(dead, need, allocation). length need = n \<and> length allocation = m) (semaphore_detect_loop l d)"
proof (induction l d rule: semaphore_detect_loop.induct)
  case (1 l need allocation work finish found)
  have r: "holds (detect_rows n m) (semaphore_detect_round l (need, allocation, work, finish, found))"
    unfolding semaphore_detect_round_def split_conv
    by (intro holds_for_each detect_one_rows) (use 1(2) in \<open>simp_all add: detect_rows_def\<close>)
  show ?case
  proof (cases "semaphore_detect_round l (need, allocation, work, finish, found)")
    case (Inr d)
    then show ?thesis using 1(1) [OF Inr] holdsD [OF r Inr]
      by (cases d) (auto simp: semaphore_detect_loop.simps detect_rows_def)
  qed (simp add: semaphore_detect_loop.simps)
qed

lemma typed_semaphore_detect:
  assumes "tables_typed i"
  shows "holds (\<lambda>(dead, i). tables_typed i) (semaphore_detect i)"
  unfolding semaphore_detect_def
proof (intro holds_bind)
  fix r
  assume r: "semaphore_detect_loop (length (pi_tasks i)) (pi_semaphore_need i, pi_semaphore_allocation i, pi_semaphore_available i,
    replicate (length (pi_tasks i)) False, False) = Inr r"
  have "case r of (dead, need, allocation) \<Rightarrow> length need = length (pi_semaphore_need i) \<and> length allocation = length (pi_semaphore_allocation i)"
    by (rule holdsD [OF detect_loop_rows r]) (simp add: detect_rows_def)
  then show "holds (\<lambda>(dead, i). tables_typed i) (case r of (dead, need, allocation) \<Rightarrow>
      Inr (dead, i\<lparr>pi_semaphore_need := need, pi_semaphore_allocation := allocation\<rparr>))"
    using assms by (auto simp: tables_defs)
qed

lemma typed_take_unit: "tables_typed i \<Longrightarrow> holds tables_typed (take_unit m cur i)"
  by (auto simp: take_unit_def holds_def panic_simps tables_defs split: if_splits dest!: table_update_rows pad_row_rows)

lemma typed_down_semaphore: "tables_typed i \<Longrightarrow> holds (\<lambda>(r, i, s). tables_typed i) (down_semaphore m i s)"
  by (auto simp: down_semaphore_def holds_def panic_simps tables_defs)

lemma typed_semaphore_down:
  assumes "tables_typed i"
  shows "holds (\<lambda>(r, i, s). tables_typed i) (sys_semaphore_down m cur i s)"
proof -
  have *: "tables_typed (i\<lparr>pi_semaphore_need := need\<rparr>)" if "pad_row n (pi_semaphore_need i) t = Inr tab" "table_update tab t j f = Inr need"
    for n t tab j f need
    using assms pad_row_rows [OF that(1)] table_update_rows [OF that(2)] by (simp add: tables_defs)
  have d: "holds (\<lambda>(dead, i). tables_typed i) (if pi_deadlock_detect q then semaphore_detect q else Inr (False, q))" if "tables_typed q" for q
    using typed_semaphore_detect [OF that] that by simp
  have e: "holds (\<lambda>(r, i, s). tables_typed i) (and_then (take_unit m cur q) (\<lambda>p. down_semaphore m p s))" if "tables_typed q" for q
    by (intro holds_bind typed_down_semaphore) (rule holdsD [OF typed_take_unit [OF that]])
  show ?thesis
    unfolding sys_semaphore_down_def Let_def
  proof (intro holds_bind)
    fix tab need r
    assume "pad_row (unat m + 1) (pi_semaphore_need i) (unat cur) = Inr tab" "table_update tab (unat cur) (unat m) (\<lambda>v. v + 1) = Inr need"
      "(if pi_deadlock_detect (i\<lparr>pi_semaphore_need := need\<rparr>) then semaphore_detect (i\<lparr>pi_semaphore_need := need\<rparr>)
        else Inr (False, i\<lparr>pi_semaphore_need := need\<rparr>)) = Inr r"
    from holdsD [OF d [OF * [OF this(1,2)]] this(3)]
    show "holds (\<lambda>(r, i, s). tables_typed i) (case r of (dead, p) \<Rightarrow> if dead then Inr (Some DEADLOCK, p, s)
        else and_then (take_unit m cur p) (\<lambda>p. down_semaphore m p s))"
      using e by (auto)
  qed
qed

subsection \<open>Condition variables\<close>

lemma typed_condvar_calls:
  "tables_typed i \<Longrightarrow> tables_typed (snd (sys_condvar_create i))"
  "tables_typed i \<Longrightarrow> holds (\<lambda>(r, i, s). tables_typed i) (sys_condvar_signal c i s)"
  "tables_typed i \<Longrightarrow> holds (\<lambda>(i, s). tables_typed i) (sys_condvar_wait c m i s)"
  "tables_typed i \<Longrightarrow> tables_typed (snd (sys_enable_deadlock_detect n i))"
  by (auto simp: sys_condvar_create_def sys_condvar_signal_def sys_condvar_wait_def sys_enable_deadlock_detect_def Let_def holds_def
      panic_simps tables_defs split_beta)


section \<open>The kernel\<close>

definition kernel_typed :: "'s kernel \<Rightarrow> bool" where
  "kernel_typed k \<longleftrightarrow> (\<forall>p b. k_procs k p = Some b \<longrightarrow> p < k_next_proc k \<and> tables_typed (pcb_inner b))"

lemma kernel_typed_other [simp]:
  "kernel_typed (k\<lparr>k_mm := mm\<rparr>) = kernel_typed k" "kernel_typed (k\<lparr>k_space := sp\<rparr>) = kernel_typed k"
  "kernel_typed (k\<lparr>k_sched := s\<rparr>) = kernel_typed k" "kernel_typed (k\<lparr>k_timers := ts\<rparr>) = kernel_typed k"
  "kernel_typed (k\<lparr>k_pids := a\<rparr>) = kernel_typed k" "kernel_typed (k\<lparr>k_kstacks := a\<rparr>) = kernel_typed k"
  "kernel_typed (k\<lparr>k_pid2pcb := m\<rparr>) = kernel_typed k" "kernel_typed (k\<lparr>k_tasks := tb\<rparr>) = kernel_typed k"
  "kernel_typed (k\<lparr>k_next_task := n\<rparr>) = kernel_typed k" "kernel_typed (k\<lparr>k_files := fs\<rparr>) = kernel_typed k"
  "kernel_typed (k\<lparr>k_next_file := n\<rparr>) = kernel_typed k" "kernel_typed (k\<lparr>k_rings := rs\<rparr>) = kernel_typed k"
  "kernel_typed (k\<lparr>k_next_ring := n\<rparr>) = kernel_typed k" "kernel_typed (k\<lparr>k_pending := c\<rparr>) = kernel_typed k"
  "kernel_typed (k\<lparr>k_initproc := p\<rparr>) = kernel_typed k" "kernel_typed (k\<lparr>k_fs := f\<rparr>) = kernel_typed k"
  "kernel_typed (k\<lparr>k_console := cs\<rparr>) = kernel_typed k" "kernel_typed (k\<lparr>k_trigger := t\<rparr>) = kernel_typed k"
  "kernel_typed (k\<lparr>k_halted := h\<rparr>) = kernel_typed k"
  by (simp_all add: kernel_typed_def)

lemma kernel_typed_updates [simp]:
  "kernel_typed (set_phys m k) = kernel_typed k" "kernel_typed (set_tcb t b k) = kernel_typed k"
  "kernel_typed (set_pending t c k) = kernel_typed k" "kernel_typed (put_file f x k) = kernel_typed k"
  "kernel_typed (add_task t k) = kernel_typed k"
  by (simp_all add: set_phys_def set_tcb_def set_pending_def put_file_def add_task_def)

lemma typed_new_file [simp]: "kernel_typed (snd (new_file f k)) = kernel_typed k"
  by (simp add: new_file_def)

lemma typed_set_inner: "kernel_typed k \<Longrightarrow> tables_typed i \<Longrightarrow> kernel_typed (set_inner p i k)"
  by (auto simp: kernel_typed_def)

lemma typed_the_inner: "kernel_typed k \<Longrightarrow> holds tables_typed (the_inner p k)"
  by (auto simp: holds_def the_inner_eq kernel_typed_def)

lemma typed_only_drops: "only_drops k k' \<Longrightarrow> kernel_typed k \<Longrightarrow> kernel_typed k'"
  unfolding kernel_typed_def only_drops_def same_but_res_def by (fastforce simp: tables_defs)

lemma typed_release: "kernel_typed k \<Longrightarrow> holds kernel_typed (release rs k)"
  using typed_only_drops [OF release_only_drops] by (auto simp: holds_def)

lemma typed_drop_res: "kernel_typed k \<Longrightarrow> holds kernel_typed (drop_res r k)"
  using typed_only_drops [OF drop_res_only_drops] by (auto simp: holds_def)

lemma typed_insert_pid: "kernel_typed k \<Longrightarrow> holds kernel_typed (insert_into_pid2process pid p k)"
  by (simp add: insert_into_pid2process_def split_beta typed_release)

subsection \<open>New tasks and processes\<close>

text \<open>A new task takes a thread id and pages of its process.\<close>

lemma TaskControlBlock_new_procs:
  assumes "TaskControlBlock_new ev p base a k = Inr (t, k')"
  obtains b b' where "k_procs k p = Some b" "same_but_res b b'" "k_procs k' = (k_procs k)(p \<mapsto> b')" "k_next_proc k' = k_next_proc k"
proof -
  obtain b res i s where b: "k_procs k p = Some b" "TaskUserRes_new p base a (pcb_inner b, k_mm k) = Inr (res, i, s)"
    "k_procs k' = (k_procs k)(p \<mapsto> b\<lparr>pcb_inner := i\<rparr>)" "k_next_proc k' = k_next_proc k"
    using assms by (auto simp: TaskControlBlock_new_def the_inner_eq Let_def panic_simps)
  obtain tids ms where "i = (pcb_inner b)\<lparr>pi_task_res_allocator := tids, pi_memory_set := ms\<rparr>"
    using b(2) by (auto simp: TaskUserRes_new_def alloc_tid_def Let_def split_beta panic_simps split: if_splits)
      (metis ProcessControlBlockInner.surjective ProcessControlBlockInner.update_convs(2) ProcessControlBlockInner.select_convs(2))
  then have "same_but_res b (b\<lparr>pcb_inner := i\<rparr>)" using same_but_resI by simp
  then show ?thesis using that b by blast
qed

lemma same_but_res_typed: "same_but_res b b' \<Longrightarrow> tables_typed (pcb_inner b') = tables_typed (pcb_inner b)"
  by (auto simp: same_but_res_def)

text \<open>Rules for the calls that change processes, one step of a sequence at a time; any other step is skipped.\<close>

named_theorems typed_seq \<open>steps that keep the kernel typed\<close>

lemma holds_seq: "holds P r \<Longrightarrow> (\<And>x. P x \<Longrightarrow> holds Q (f x)) \<Longrightarrow> holds Q (and_then r f)"
  by (cases r) simp_all

lemma holds_skip: "(\<And>x. holds Q (f x)) \<Longrightarrow> holds Q (and_then r f)"
  by (cases r) simp_all

lemma typed_task_new:
  assumes "kernel_typed k"
  shows "holds (\<lambda>x. kernel_typed (snd x)) (TaskControlBlock_new ev p base a k)"
  unfolding holds_def
proof (intro allI impI)
  fix r
  assume "TaskControlBlock_new ev p base a k = Inr r"
  then have "TaskControlBlock_new ev p base a k = Inr (fst r, snd r)" by simp
  then show "kernel_typed (snd r)"
  proof (rule TaskControlBlock_new_procs)
    fix b b'
    assume b: "k_procs k p = Some b" "same_but_res b b'" "k_procs (snd r) = (k_procs k)(p \<mapsto> b')" "k_next_proc (snd r) = k_next_proc k"
    show ?thesis unfolding kernel_typed_def b(3,4) using assms b(1) same_but_res_typed [OF b(2)]
      by (auto simp: kernel_typed_def fun_upd_apply split: if_splits)
  qed
qed

lemma typed_put_trap_cx: "kernel_typed k \<Longrightarrow> holds kernel_typed (put_trap_cx b cx k)"
  by (simp add: put_trap_cx_def holds_and_then holds_any)

lemmas typed_steps [typed_seq] = holds_seq [OF typed_the_inner] holds_seq [OF typed_release] holds_seq [OF typed_drop_res]
  holds_seq [OF typed_insert_pid] holds_seq [OF typed_task_new] holds_seq [OF typed_put_trap_cx]

lemma typed_new_process [simp]:
  assumes "kernel_typed k" "tables_typed (pcb_inner b)"
  shows "kernel_typed (snd (new_process b k))"
  unfolding kernel_typed_def
proof (intro allI impI)
  fix p c
  assume p: "k_procs (snd (new_process b k)) p = Some c"
  show "p < k_next_proc (snd (new_process b k)) \<and> tables_typed (pcb_inner c)"
  proof (cases "p = k_next_proc k")
    case True
    then show ?thesis using p assms(2) by (simp add: new_process_def)
  next
    case False
    then have "k_procs k p = Some c" using p by (simp add: new_process_def)
    then show ?thesis using assms(1) by (auto simp: kernel_typed_def new_process_def less_Suc_eq)
  qed
qed

text \<open>A fresh row for the first thread.\<close>

lemma tables_typed_push [simp]:
  "tables_typed i \<Longrightarrow> tables_typed (i\<lparr>pi_tasks := pi_tasks i @ [t], pi_mutex_allocation := pi_mutex_allocation i @ [[]],
     pi_semaphore_allocation := pi_semaphore_allocation i @ [[]], pi_mutex_need := pi_mutex_need i @ [[]], pi_semaphore_need := pi_semaphore_need i @ [[]]\<rparr>)"
  by (simp add: tables_defs)

lemma tables_typed_new [simp]: "tables_typed (ProcessControlBlockInner_new ms a b c)"
  by (simp add: tables_defs ProcessControlBlockInner_new_def)

lemma typed_process_new:
  assumes "kernel_typed k"
  shows "holds (\<lambda>x. kernel_typed (snd x)) (ProcessControlBlock_new ev elf k)"
  unfolding ProcessControlBlock_new_def Let_def split_beta
  by (rule typed_seq holds_skip | simp add: assms typed_set_inner)+

text \<open>The child of a fork has the rows of its parent, which has at least one, for its only thread.\<close>

lemma typed_fork_thread:
  assumes "kernel_typed k" "k_procs k c = Some b" "tables_typed (pcb_inner b)" "length (pi_tasks (pcb_inner b)) < length (pi_mutex_need (pcb_inner b))"
    "length (pi_tasks (pcb_inner b)) < length (pi_semaphore_need (pcb_inner b))" "length (pi_tasks (pcb_inner b)) < length (pi_semaphore_allocation (pcb_inner b))"
  shows "holds (\<lambda>x. kernel_typed (snd x)) (and_then (TaskControlBlock_new ev c base a k) (\<lambda>(t, k).
     and_then (the_inner c k) (\<lambda>i.
     let k = set_inner c (i\<lparr>pi_tasks := pi_tasks i @ [Some t]\<rparr>) k in
     and_then (the_tcb t k) (\<lambda>b.
     and_then (get_trap_cx b) (\<lambda>a.
     let k = set_phys (write_u64 (phys (k_mm k)) (a + cx_kernel_sp_at) (KernelStack_get_top (tcb_kstack b))) k in
     and_then (insert_into_pid2process pid c k) (\<lambda>k.
     Inr (c, add_task t k)))))))"
proof (rule holds_bind)
  fix r
  assume "TaskControlBlock_new ev c base a k = Inr r"
  then have new: "TaskControlBlock_new ev c base a k = Inr (fst r, snd r)" by simp
  have typed: "kernel_typed (snd r)" using holdsD [OF typed_task_new [OF assms(1)] new] by simp
  obtain b' where b': "same_but_res b b'" "k_procs (snd r) c = Some b'"
    using assms(2) by (rule_tac TaskControlBlock_new_procs [OF new]) auto
  have "tables_typed ((pcb_inner b')\<lparr>pi_tasks := pi_tasks (pcb_inner b') @ [Some (fst r)]\<rparr>)"
    using b'(1) assms(3-) by (auto simp: same_but_res_def tables_defs)
  then have "kernel_typed (set_inner c ((pcb_inner b')\<lparr>pi_tasks := pi_tasks (pcb_inner b') @ [Some (fst r)]\<rparr>) (snd r))"
    using typed by (rule_tac typed_set_inner)
  moreover have "the_inner c (snd r) = Inr (pcb_inner b')" using b'(2) by (simp add: the_inner_eq)
  ultimately show "holds (\<lambda>x. kernel_typed (snd x)) (case r of (t, k) \<Rightarrow>
     and_then (the_inner c k) (\<lambda>i.
     let k = set_inner c (i\<lparr>pi_tasks := pi_tasks i @ [Some t]\<rparr>) k in
     and_then (the_tcb t k) (\<lambda>b.
     and_then (get_trap_cx b) (\<lambda>a.
     let k = set_phys (write_u64 (phys (k_mm k)) (a + cx_kernel_sp_at) (KernelStack_get_top (tcb_kstack b))) k in
     and_then (insert_into_pid2process pid c k) (\<lambda>k.
     Inr (c, add_task t k))))))"
    unfolding Let_def split_beta
    by (simp only: and_then_Inr) (rule typed_seq holds_skip | simp)+
qed

lemma typed_fork:
  assumes "kernel_typed k"
  shows "holds (\<lambda>x. kernel_typed (snd x)) (ProcessControlBlock_fork ev p k)"
  unfolding ProcessControlBlock_fork_def
proof (intro holds_bind)
  fix parent u and ms_s :: "MemorySet \<times> mm"
  assume inner: "the_inner p k = Inr parent" and one: "assert_that (thread_count parent = 1) = Inr u"
  obtain ms s where ms: "ms_s = (ms, s)" by fastforce
  obtain pid pids where pid: "pid_alloc (k_pids k) = (pid, pids)" by fastforce
  let ?b = "\<lparr>pcb_pid = pid, pcb_inner = forked_inner p ms parent\<rparr>"
  let ?k = "k\<lparr>k_mm := s, k_pids := pids\<rparr>"
  define k' where "k' = snd (new_process ?b ?k)"
  have np: "new_process ?b ?k = (k_next_proc k, k')" by (simp add: k'_def new_process_def)
  let ?k2 = "set_inner p (parent\<lparr>pi_children := pi_children parent @ [k_next_proc k]\<rparr>) k'"
  have typed: "tables_typed parent" using holdsD [OF typed_the_inner [OF assms] inner] .
  have "pi_tasks parent \<noteq> []" using one by (auto simp: panic_simps thread_count_def)
  then have rows: "pi_mutex_need parent \<noteq> []" "pi_semaphore_need parent \<noteq> []" "pi_semaphore_allocation parent \<noteq> []"
    using typed by (auto simp: tables_defs)
  have "p < k_next_proc k" using inner assms by (auto simp: the_inner_eq kernel_typed_def)
  then have c: "k_procs ?k2 (k_next_proc k) = Some ?b" by (simp add: k'_def new_process_def)
  have b: "tables_typed (forked_inner p ms parent)" using typed by (simp add: forked_inner_def tables_defs)
  have "kernel_typed ?k2" unfolding k'_def using assms b typed by (intro typed_set_inner typed_new_process) simp_all
  note t = typed_fork_thread [OF this c]
  show "holds (\<lambda>x. kernel_typed (snd x)) (case ms_s of (memory_set, s) \<Rightarrow>
     let (pid, pids) = pid_alloc (k_pids k);
         (child, k) = new_process \<lparr>pcb_pid = pid, pcb_inner = forked_inner p memory_set parent\<rparr> (k\<lparr>k_mm := s, k_pids := pids\<rparr>);
         k = set_inner p (parent\<lparr>pi_children := pi_children parent @ [child]\<rparr>) k in
     and_then (get_task 0 parent) (\<lambda>pt.
     and_then (the_tcb pt k) (\<lambda>pb.
     and_then (unwrap (tcb_res pb)) (\<lambda>pres.
     and_then (TaskControlBlock_new ev child (TaskUserRes_ustack_base pres) False k) (\<lambda>(t, k).
     and_then (the_inner child k) (\<lambda>i.
     let k = set_inner child (i\<lparr>pi_tasks := pi_tasks i @ [Some t]\<rparr>) k in
     and_then (the_tcb t k) (\<lambda>b.
     and_then (get_trap_cx b) (\<lambda>a.
     let k = set_phys (write_u64 (phys (k_mm k)) (a + cx_kernel_sp_at) (KernelStack_get_top (tcb_kstack b))) k in
     and_then (insert_into_pid2process pid child k) (\<lambda>k.
     Inr (child, add_task t k))))))))))"
    using rows by (simp only: ms pid np split_conv Let_def [of "(_, _)"] Let_def [of "set_inner p _ _"])
      (rule holds_skip, rule holds_skip, rule holds_skip, rule t, use b in \<open>simp_all add: forked_inner_def\<close>)
qed

lemma typed_exec: "kernel_typed k \<Longrightarrow> holds kernel_typed (ProcessControlBlock_exec ev p elf args k)"
  unfolding ProcessControlBlock_exec_def Let_def split_beta
  by (rule typed_seq holds_skip typed_put_trap_cx | simp add: typed_set_inner)+

subsection \<open>Leaving the processor\<close>

lemma typed_suspend: "kernel_typed k \<Longrightarrow> holds kernel_typed (suspend_with c k)"
  unfolding suspend_with_def by (rule holds_skip | simp)+

lemma typed_adopt_child: "kernel_typed k \<Longrightarrow> holds kernel_typed (adopt_child q c k)"
  unfolding adopt_child_def Let_def by (rule typed_seq | simp add: typed_set_inner)+

lemma typed_collect_res: "kernel_typed (snd s) \<Longrightarrow> holds (\<lambda>s. kernel_typed (snd s)) (collect_res t s)"
  unfolding collect_res_def remove_inactive_task_def Let_def split_beta
  by (rule holds_skip | simp split: option.split)+

lemma typed_add_stopping: "kernel_typed k \<Longrightarrow> holds kernel_typed (add_stopping_task t k)"
  by (simp add: add_stopping_task_def Let_def typed_release)

lemma typed_remove_pid: "kernel_typed k \<Longrightarrow> holds kernel_typed (remove_from_pid2process pid k)"
  by (simp add: remove_from_pid2process_def split_beta Let_def)

lemmas typed_exit_steps [typed_seq] = holds_seq [OF typed_remove_pid] holds_seq [OF typed_add_stopping]
  holds_seq [OF holds_for_each [where I = kernel_typed, OF _ typed_adopt_child]]
  holds_seq [OF holds_for_each [where I = "\<lambda>s. kernel_typed (snd s)", OF _ typed_collect_res]]
  holds_seq [OF holds_for_each [where I = kernel_typed, OF _ typed_drop_res]]

lemma tables_typed_no_tasks [simp]: "tables_typed i \<Longrightarrow> tables_typed (i\<lparr>pi_memory_set := ms, pi_fd_table := fds, pi_tasks := []\<rparr>)"
  by (simp add: tables_defs)

lemma typed_exit_process: "kernel_typed k \<Longrightarrow> holds kernel_typed (exit_process p code k)"
  unfolding exit_process_def Let_def split_beta
  by (rule typed_seq holds_skip holds_if typed_release | simp add: typed_set_inner)+

lemma typed_exit:
  assumes "kernel_typed k"
  shows "holds kernel_typed (exit_current_and_run_next code k)"
  unfolding exit_current_and_run_next_def Let_def split_beta
proof (rule holds_skip, rule holds_skip, rule holds_skip, rule holds_skip)
  fix t b u and r :: TaskUserRes
  let ?k = "set_tcb t (b\<lparr>tcb_exit_code := Some code, tcb_res := None\<rparr>) (k\<lparr>k_sched := snd (take_current_task (k_sched k))\<rparr>)"
  have a: "holds kernel_typed (if ur_tid r = 0 then add_stopping_task t k1 else release [ToTask t] k1)" if "kernel_typed k1" for k1 :: "'a kernel"
    using typed_add_stopping [OF that] typed_release [OF that] by simp
  have b: "holds kernel_typed (if ur_tid r = 0 then and_then (exit_process (tcb_process b) code k2) (\<lambda>k. if k_halted k \<noteq> None then Inr k
      else release [ToProcess (tcb_process b)] k) else release [ToProcess (tcb_process b)] k2)" if "kernel_typed k2" for k2 :: "'a kernel"
    using that typed_release by (auto intro!: holds_seq [OF typed_exit_process])
  show "holds kernel_typed (and_then (drop_res r ?k) (\<lambda>k.
      and_then (if ur_tid r = 0 then add_stopping_task t k else release [ToTask t] k) (\<lambda>k.
      if ur_tid r = 0 then and_then (exit_process (tcb_process b) code k) (\<lambda>k. if k_halted k \<noteq> None then Inr k
        else release [ToProcess (tcb_process b)] k) else release [ToProcess (tcb_process b)] k)))"
    by (rule holds_seq [OF typed_drop_res], simp add: assms, rule holds_seq [OF a], assumption, rule b)
qed

lemma typed_add_signal: "kernel_typed k \<Longrightarrow> holds kernel_typed (current_add_signal sig k)"
  unfolding current_add_signal_def by (rule typed_seq holds_skip | simp add: typed_set_inner)+

section \<open>System calls\<close>

abbreviation typed_result :: "('a \<times> 's kernel) outcome \<Rightarrow> bool" where
  "typed_result \<equiv> holds (\<lambda>x. kernel_typed (snd x))"

abbreviation typed_step :: "('a \<times> 's kernel) outcome option \<Rightarrow> bool" where
  "typed_step \<equiv> holds_run (\<lambda>x. kernel_typed (snd x))"

lemma holds_run_seq: "holds P r \<Longrightarrow> (\<And>x. P x \<Longrightarrow> holds_run Q (f x)) \<Longrightarrow> holds_run Q (and_run (Some r) f)"
  by (cases r) simp_all

lemma holds_run_skip: "(\<And>x. holds_run Q (f x)) \<Longrightarrow> holds_run Q (and_run r f)"
  by (auto simp: and_run_def split: option.split sum.split)

lemma holds_run_if: "(c \<Longrightarrow> holds_run P r) \<Longrightarrow> (\<not> c \<Longrightarrow> holds_run P r') \<Longrightarrow> holds_run P (if c then r else r')"
  by simp

lemmas typed_run [typed_seq] = holds_run_seq [OF typed_the_inner] holds_run_seq [OF typed_suspend] holds_run_seq [OF typed_exec]
  holds_run_seq [OF typed_exit] holds_run_seq [OF typed_add_signal] holds_run_seq [OF typed_process_new]

subsection \<open>Processes and threads\<close>

lemmas typed_fork_steps [typed_seq] = holds_seq [OF typed_fork]

lemma typed_sys_fork: "kernel_typed k \<Longrightarrow> typed_result (sys_fork ev k)"
  unfolding sys_fork_def Let_def split_beta by (rule typed_seq holds_skip | simp)+

lemma typed_sys_exec: "kernel_typed k \<Longrightarrow> typed_step (sys_exec ev path args k)"
  unfolding sys_exec_def split_beta by (rule typed_seq holds_run_skip | simp split: option.split | intro conjI allI impI)+

lemma typed_sys_waitpid: "kernel_typed k \<Longrightarrow> typed_result (sys_waitpid pid ptr k)"
  unfolding sys_waitpid_def Let_def split_beta
  by (rule typed_seq holds_skip holds_if | simp add: typed_set_inner split: option.split | intro conjI allI impI)+

lemma typed_sys_kill: "kernel_typed k \<Longrightarrow> typed_result (sys_kill pid sig k)"
  unfolding sys_kill_def
  by (simp split: option.split, intro conjI allI impI) (rule typed_seq | simp add: typed_set_inner)+

lemma typed_sys_get_time: "kernel_typed k \<Longrightarrow> typed_result (sys_get_time now ts k)"
  unfolding sys_get_time_def Let_def by (rule holds_skip | simp)+

lemma vec_update_length: "holds (\<lambda>ys. length ys = length xs) (vec_update xs i v)"
  by (auto simp: holds_def panic_simps)

lemmas typed_vec_update [typed_seq] = holds_seq [OF vec_update_length]

lemma tables_typed_grow: "tables_typed i \<Longrightarrow> tables_typed (grow_tasks n i)"
  by (simp add: tables_defs grow_tasks_def Let_def)

lemma typed_sys_thread_create: "kernel_typed k \<Longrightarrow> typed_result (sys_thread_create ev entry_point arg k)"
  unfolding sys_thread_create_def Let_def split_beta
  by (rule typed_seq holds_skip | simp add: typed_set_inner tables_typed_grow tables_typed_tasks)+

lemma typed_sys_waittid: "kernel_typed k \<Longrightarrow> typed_result (sys_waittid tid k)"
  unfolding sys_waittid_def Let_def split_beta
  by (rule typed_seq holds_skip holds_if | simp add: typed_set_inner tables_typed_tasks split: option.split | intro conjI allI impI)+

subsection \<open>Files\<close>

lemma typed_pipe_turns:
  "kernel_typed k \<Longrightarrow> typed_step (pipe_read_turn p f pipe c k)"
  "kernel_typed k \<Longrightarrow> typed_step (pipe_write_turn p f pipe c k)"
  "kernel_typed k \<Longrightarrow> typed_step (stdin_read_turn key p f buf k)"
  unfolding pipe_read_turn_def pipe_write_turn_def stdin_read_turn_def Let_def split_beta
  by (rule typed_seq holds_run_skip | simp split: turn.split option.split | intro conjI allI impI)+

lemma typed_file_calls:
  "kernel_typed k \<Longrightarrow> typed_step (File_read ev key p f buf k)"
  "kernel_typed k \<Longrightarrow> typed_step (File_write ev p f buf k)"
  unfolding File_read_def File_write_def split_beta
  by (rule holds_run_skip typed_pipe_turns | simp split: File.split | intro conjI allI impI)+

lemma typed_sys_read_write:
  "kernel_typed k \<Longrightarrow> typed_step (sys_read ev key fd buf len k)"
  "kernel_typed k \<Longrightarrow> typed_step (sys_write ev fd buf len k)"
  unfolding sys_read_def sys_write_def
  by (rule holds_run_skip holds_run_if typed_file_calls | simp split: option.split | intro conjI allI impI)+

lemma tables_typed_alloc_fd: "tables_typed (snd (alloc_fd i)) = tables_typed i"
  by (simp add: alloc_fd_def Let_def split: option.split)

lemmas typed_fd = typed_set_inner tables_typed_alloc_fd

lemma typed_sys_open: "kernel_typed k \<Longrightarrow> typed_step (sys_open ev path flags k)"
  unfolding sys_open_def Let_def split_beta
  by (rule typed_seq holds_run_skip | simp add: typed_fd split: option.split | intro conjI allI impI)+

lemma typed_sys_close: "kernel_typed k \<Longrightarrow> typed_result (sys_close fd k)"
  unfolding sys_close_def by (rule typed_seq holds_skip holds_if | simp add: typed_fd)+

lemma typed_sys_pipe: "kernel_typed k \<Longrightarrow> typed_result (sys_pipe ptr k)"
  unfolding sys_pipe_def Let_def split_beta by (rule typed_seq holds_skip | simp add: typed_fd)+

lemma typed_sys_dup: "kernel_typed k \<Longrightarrow> typed_result (sys_dup fd k)"
  unfolding sys_dup_def Let_def split_beta by (rule typed_seq holds_skip holds_if | simp add: typed_fd)+

subsection \<open>Synchronisation\<close>

lemma typed_sync_call:
  assumes "kernel_typed k" "\<And>i s. tables_typed i \<Longrightarrow> holds (\<lambda>(r, i, s). tables_typed i) (f i s)"
  shows "typed_result (sync_call f c k)"
  unfolding sync_call_def split_beta
proof (rule holds_skip, rule holds_seq [OF typed_the_inner [OF assms(1)]], rule holds_seq [OF assms(2)], assumption)
  fix x :: "task \<times> TaskControlBlock" and i and r :: "isize option \<times> ProcessControlBlockInner \<times> sched"
  assume "case r of (r, i, s) \<Rightarrow> tables_typed i"
  then show "typed_result (let k = set_inner (tcb_process (snd x)) (fst (snd r)) (k\<lparr>k_sched := snd (snd r)\<rparr>)
      in Inr (fst r, if fst r = None then set_pending (fst x) (Some (c i (tcb_process (snd x)))) k else k))"
    using assms(1) by (auto simp: Let_def typed_set_inner split_beta)
qed

lemma typed_sync_calls:
  assumes "kernel_typed k"
  shows "typed_result (mutex_lock_call m k)" "typed_result (semaphore_down_call m k)" "typed_result (condvar_wait_call c m k)"
    "typed_result (sleep_call now ms k)" "typed_result (relock m d k)"
  unfolding mutex_lock_call_def semaphore_down_call_def condvar_wait_call_def relock_def
proof -
  have w: "holds (\<lambda>(r, i, s). tables_typed i) (and_then (sys_condvar_wait c m i s) (\<lambda>(i, s). Inr (None, i, s)))" if "tables_typed i" for i s
    by (rule holds_seq [OF typed_condvar_calls(3) [OF that]]) auto
  show "typed_result (sync_call (\<lambda>i s. and_then (sys_condvar_wait c m i s) (\<lambda>(i, s). Inr (None, i, s))) (\<lambda>i p. CondvarWait p m) k)"
    by (rule typed_sync_call [OF assms w])
  show "typed_result (sleep_call now ms k)"
    unfolding sleep_call_def split_beta using assms by - (rule holds_skip | simp)+
qed (rule holds_skip typed_sync_call [OF assms] typed_mutex_lock typed_semaphore_down typed_lock_mutex | assumption)+

subsection \<open>Dispatch\<close>

lemma typed_returns: "typed_result r \<Longrightarrow> typed_step (returns r)"
  by (simp add: returns_def holds_and_then split_beta)

lemma typed_leaves: "holds kernel_typed r \<Longrightarrow> typed_step (leaves r)"
  by (simp add: leaves_def holds_and_then)

lemma typed_pure_call:
  assumes "kernel_typed k" "\<And>i. tables_typed i \<Longrightarrow> tables_typed (snd (f i))"
  shows "typed_result (sync_call (\<lambda>i s. Inr (let (n, i) = f i in (Some n, i, s))) c k)"
  by (rule typed_sync_call [OF assms(1)]) (use assms(2) in \<open>simp add: split_beta\<close>)

lemma typed_fail_call:
  assumes "kernel_typed k" "\<And>i. tables_typed i \<Longrightarrow> holds (\<lambda>(n, i). tables_typed i) (f i)"
  shows "typed_result (sync_call (\<lambda>i s. and_then (f i) (\<lambda>(n, i). Inr (Some n, i, s))) c k)"
  by (rule typed_sync_call [OF assms(1)], rule holds_seq [OF assms(2)]) (auto simp: split_beta)

lemma typed_sched_call:
  assumes "kernel_typed k" "\<And>i s. tables_typed i \<Longrightarrow> holds (\<lambda>(n, i, s). tables_typed i) (f i s)"
  shows "typed_result (sync_call (\<lambda>i s. and_then (f i s) (\<lambda>(n, i, s). Inr (Some n, i, s))) c k)"
  by (rule typed_sync_call [OF assms(1)], rule holds_seq [OF assms(2)]) (auto simp: split_beta)

lemma typed_values:
  assumes "kernel_typed k"
  shows "typed_result (and_then r (\<lambda>n. Inr (n, k)))" "typed_result (and_then (sys_waittid tid k) (\<lambda>(n, k). Inr (scast n :: isize, k)))"
    "typed_step (and_run (sys_open ev path flags k) (\<lambda>(n, k). Some (Inr (Some n, k))))"
    "typed_step (and_run (sys_exec ev path argv k) (\<lambda>(n, k). Some (Inr (Some n, k))))"
proof -
  show "typed_result (and_then r (\<lambda>n. Inr (n, k)))" by (rule holds_skip) (simp add: assms)
  show "typed_result (and_then (sys_waittid tid k) (\<lambda>(n, k). Inr (scast n :: isize, k)))"
    by (rule holds_seq [OF typed_sys_waittid [OF assms]]) (simp add: split_beta)
  have *: "typed_step (and_run u (\<lambda>(n, k). Some (Inr (Some n, k))))" if "typed_step u" for u :: "('c \<times> 'd kernel) outcome option"
    using that by (auto simp: holds_run_def and_run_def split: option.splits sum.splits)
  show "typed_step (and_run (sys_open ev path flags k) (\<lambda>(n, k). Some (Inr (Some n, k))))"
    "typed_step (and_run (sys_exec ev path argv k) (\<lambda>(n, k). Some (Inr (Some n, k))))"
    by (intro * typed_sys_open typed_sys_exec assms)+
qed

lemma typed_with_tid: "(\<And>tid. typed_step (f tid)) \<Longrightarrow> typed_step (case r of Inl e \<Rightarrow> Some (Inl e) | Inr tid \<Rightarrow> f tid)"
  by (cases r) simp_all

lemmas typed_calls = typed_returns typed_leaves typed_values typed_sys_fork typed_sys_waitpid typed_sys_kill typed_sys_get_time
  typed_sys_thread_create typed_sys_read_write typed_sys_close typed_sys_pipe typed_sys_dup typed_exit typed_suspend
  typed_mutex_create typed_condvar_calls typed_mutex_unlock typed_semaphore_create typed_semaphore_up typed_with_tid
  typed_pure_call typed_fail_call typed_sched_call

lemma typed_syscall: "kernel_typed k \<Longrightarrow> typed_step (syscall ev inp n args k)"
  unfolding syscall_def sys_exit_def sys_yield_def Let_def
  by (rule holds_run_if typed_calls | simp add: typed_sync_calls typed_pure_call [unfolded Let_def] typed_mutex_create typed_condvar_calls)+

section \<open>Runs of the kernel\<close>

fun end_kernel :: "'s trap_end \<Rightarrow> 's kernel" where
  "end_kernel (ToUser a b k) = k"
| "end_kernel (ToIdle k) = k"
| "end_kernel (PowerOff b k) = k"

lemma end_kernel_to_idle [simp]: "end_kernel (to_idle k) = k"
  by (simp add: to_idle_def split: option.split)

abbreviation typed_end :: "'s trap_end \<Rightarrow> bool" where
  "typed_end e \<equiv> kernel_typed (end_kernel e)"

lemma typed_trap_return: "kernel_typed k \<Longrightarrow> holds typed_end (trap_return k)"
  unfolding trap_return_def by (rule holds_skip | simp)+

lemma typed_finish_trap: "kernel_typed k \<Longrightarrow> holds typed_end (finish_trap k)"
  unfolding finish_trap_def
  by (rule holds_skip holds_seq [OF typed_exit] | simp add: typed_trap_return split: option.split | intro conjI allI impI)+

lemma typed_end_syscall: "kernel_typed (snd x) \<Longrightarrow> holds typed_end (end_syscall x)"
  unfolding end_syscall_def finish_syscall_def split_beta
  by (simp split: option.split, intro conjI impI allI) (rule holds_skip typed_finish_trap | simp)+

lemma typed_goes_on: "typed_step r \<Longrightarrow> holds_run typed_end (and_run r (\<lambda>r. Some (end_syscall r)))"
  unfolding and_run_def by (auto simp: typed_end_syscall split: option.split sum.split)

lemma typed_trap_handler: "kernel_typed k \<Longrightarrow> holds_run typed_end (trap_handler ev inp cause k)"
  unfolding trap_handler_def Let_def split_beta
  by (rule holds_run_if typed_goes_on typed_syscall typed_seq holds_run_skip | simp add: typed_finish_trap)+

lemma typed_resume:
  assumes "kernel_typed k"
  shows "holds_run typed_end (resume ev inp k)"
  unfolding resume_def Let_def
proof (rule holds_run_skip)
  fix t
  have k: "kernel_typed (set_pending t None k)" using assms by simp
  note * = typed_sync_calls [OF k] typed_pipe_turns [OF k] typed_finish_trap [OF k] typed_end_syscall typed_goes_on
  show "holds_run typed_end (case k_pending k t of None \<Rightarrow> Some (trap_return k)
     | Some c \<Rightarrow> (case c of
            Preempted \<Rightarrow> Some (finish_trap (set_pending t None k))
          | MutexSpinning m \<Rightarrow> and_run (Some (relock m (\<lambda>i p. MutexSpinning m) (set_pending t None k))) (\<lambda>r. Some (end_syscall r))
          | CondvarWait p m \<Rightarrow> and_run (Some (relock m (\<lambda>i p. if is_spin m i then CondvarSpinning p m else CondvarLockWait p) (set_pending t None k)))
              (\<lambda>r. Some (end_syscall r))
          | CondvarSpinning p m \<Rightarrow> and_run (Some (relock m (\<lambda>i p. CondvarSpinning p m) (set_pending t None k))) (\<lambda>r. Some (end_syscall r))
          | StdinReading p f buf \<Rightarrow> and_run (stdin_read_turn (in_key inp) p f buf (set_pending t None k)) (\<lambda>r. Some (end_syscall r))
          | PipeReading p f call \<Rightarrow> and_run (case k_files (set_pending t None k) f of
                Some (PipeFile pipe) \<Rightarrow> pipe_read_turn p f pipe call (set_pending t None k) | _ \<Rightarrow> Some (Inl ExplicitPanic)) (\<lambda>r. Some (end_syscall r))
          | PipeWriting p f call \<Rightarrow> and_run (case k_files (set_pending t None k) f of
                Some (PipeFile pipe) \<Rightarrow> pipe_write_turn p f pipe call (set_pending t None k) | _ \<Rightarrow> Some (Inl ExplicitPanic)) (\<lambda>r. Some (end_syscall r))
          | _ \<Rightarrow> and_run (Some (Inr (Some 0, set_pending t None k))) (\<lambda>r. Some (end_syscall r))))"
    using assms by (auto simp: * typed_trap_return split: option.split pending.split File.split)
qed

text \<open>
  What happens on the machine: the initial process is made; the idle loop picks a task, which goes on where it left the kernel;
  user programs change memory in any way and trap for any reason.
\<close>

inductive kernel_step :: "'s env \<Rightarrow> 's trap_end \<Rightarrow> 's trap_end \<Rightarrow> bool" for ev where
  boot: "add_initproc ev k = Some (Inr k') \<Longrightarrow> kernel_step ev (ToIdle k) (ToIdle k')"
| idle: "idle_round ev inp k = Some (Inr e) \<Longrightarrow> kernel_step ev (ToIdle k) e"
| user: "kernel_step ev (ToUser a b k) (ToUser a b (set_phys m k))"
| trap: "trap_handler ev inp cause k = Some (Inr e) \<Longrightarrow> kernel_step ev (ToUser a b k) e"

lemma typed_boot: "kernel_typed k \<Longrightarrow> holds_run kernel_typed (add_initproc ev k)"
  unfolding add_initproc_def split_beta by (rule typed_seq holds_run_skip | simp)+

lemma kernel_step_typed: "kernel_step ev e e' \<Longrightarrow> typed_end e \<Longrightarrow> typed_end e'"
proof (induction rule: kernel_step.induct)
  case (boot k k')
  then show ?case using typed_boot [of k ev] by (simp add: holds_run_def)
next
  case (idle inp k e)
  then have "typed_end e" if "sc_ready_queue (k_sched k) \<noteq> []"
    using that typed_resume [of "k\<lparr>k_sched := run_tasks_round (k_sched k)\<rparr>" ev inp] by (simp add: idle_round_def holds_run_def)
  then show ?case using idle by (auto simp: idle_round_def split: if_splits)
next
  case (trap inp cause k e a b)
  then show ?case using typed_trap_handler [of k ev inp cause] by (simp add: holds_run_def)
qed simp

text \<open>
  C12. Whatever the machine does, short of a panic, the tables of the deadlock detection of every process keep the shape their users rely on: a row for
  each thread in the four tables, rows of the same length for the allocation of mutexes and the need for them, and a
  counter for every mutex and every semaphore. A kernel without processes is of this kind, and no system call, interrupt,
  fault or program, and no sequence of them, leads out of it.
\<close>

theorem kernel_stays_typed:
  assumes "(kernel_step ev)\<^sup>*\<^sup>* e e'" "kernel_typed (end_kernel e)"
  shows "kernel_typed (end_kernel e')"
  using assms by (induction rule: rtranclp_induct) (auto intro: kernel_step_typed)

text \<open>A timer interrupt in the small kernel, and the round of the idle loop after it, which goes on with task 0.\<close>

definition small_env :: "unit env" where
  "small_env = \<lparr>ev_store = \<lparr>st_get = (\<lambda>i s. Inl ExplicitPanic), st_put = (\<lambda>i b s. s), st_release = (\<lambda>i s. s), st_sync_all = (\<lambda>s. Inr s)\<rparr>,
     ev_efs = \<lparr>efs_inode_bitmap = Bitmap_new 0 1, efs_data_bitmap = Bitmap_new 1 1, efs_inode_area_start_block = 2, efs_data_area_start_block = 3\<rparr>,
     ev_parse = (\<lambda>_. None), ev_strampoline = 0, ev_trap_handler = 0, ev_trap_return = 0, ev_user_sstatus = 0\<rparr>"

definition no_inputs :: inputs where
  "no_inputs = \<lparr>in_time = 0, in_time_after = 0, in_key = 0\<rparr>"

definition idle_kernel :: "'s trap_end outcome option \<Rightarrow> 's kernel option" where
  "idle_kernel r = (case r of Some (Inr (ToIdle k)) \<Rightarrow> Some k | _ \<Rightarrow> None)"

definition user_task :: "'s trap_end outcome option \<Rightarrow> task option" where
  "user_task r = (case r of Some (Inr (ToUser a b k)) \<Rightarrow> sc_current (k_sched k) | _ \<Rightarrow> None)"

lemma idle_kernel_Some: "idle_kernel r = Some k \<Longrightarrow> r = Some (Inr (ToIdle k))"
  by (auto simp: idle_kernel_def split: option.splits sum.splits trap_end.splits)

lemma user_task_Some: "user_task r = Some t \<Longrightarrow> \<exists>a b k. r = Some (Inr (ToUser a b k)) \<and> sc_current (k_sched k) = Some t"
  by (auto simp: user_task_def split: option.splits sum.splits trap_end.splits)

lemma small_interrupt:
  "\<exists>k1 a b k2. trap_handler small_env no_inputs SupervisorTimer small_kernel = Some (Inr (ToIdle k1)) \<and>
     idle_round small_env no_inputs k1 = Some (Inr (ToUser a b k2)) \<and> sc_current (k_sched k2) = Some 0"
proof -
  have "(case idle_kernel (trap_handler small_env no_inputs SupervisorTimer small_kernel) of
      Some k1 \<Rightarrow> user_task (idle_round small_env no_inputs k1) = Some 0 | None \<Rightarrow> False)" by code_simp
  then show ?thesis using idle_kernel_Some user_task_Some by (fastforce split: option.splits)
qed

lemma small_typed: "kernel_typed small_kernel"
  by (auto simp: kernel_typed_def small_kernel_def small_inner_def tables_defs ProcessControlBlockInner_new_def split: if_splits)

theorem kernel_stays_typed_witness:
  "\<exists>a b k. (kernel_step small_env)\<^sup>*\<^sup>* (ToUser 0 0 small_kernel) (ToUser a b k) \<and> kernel_typed k \<and> sc_current (k_sched k) = Some 0"
proof -
  obtain k1 a b k2 where k: "trap_handler small_env no_inputs SupervisorTimer small_kernel = Some (Inr (ToIdle k1))"
    "idle_round small_env no_inputs k1 = Some (Inr (ToUser a b k2))" "sc_current (k_sched k2) = Some 0" using small_interrupt by blast
  have "(kernel_step small_env)\<^sup>*\<^sup>* (ToUser 0 0 small_kernel) (ToUser a b k2)"
    using kernel_step.trap [OF k(1)] kernel_step.idle [OF k(2)] by (meson converse_rtranclp_into_rtranclp r_into_rtranclp)
  moreover from kernel_stays_typed [OF this] have "kernel_typed k2" by (simp add: small_typed)
  ultimately show ?thesis using k(3) by blast
qed

section \<open>Calls that do not panic\<close>

text \<open>Padding rows on the way never makes one shorter.\<close>

definition rows_grow :: "usize list list \<Rightarrow> usize list list \<Rightarrow> bool" where
  "rows_grow tab tab' \<longleftrightarrow> length tab' = length tab \<and> (\<forall>t < length tab. length (tab ! t) \<le> length (tab' ! t))"

lemma rows_grow_refl [simp]: "rows_grow tab tab"
  by (simp add: rows_grow_def)

lemma rows_grow_trans: "rows_grow a b \<Longrightarrow> rows_grow b c \<Longrightarrow> rows_grow a c"
  by (fastforce simp: rows_grow_def)

lemma pad_row_total:
  "t < length tab \<Longrightarrow> pad_row n tab t = Inr (tab[t := pad n (tab ! t)]) \<and> rows_grow tab (tab[t := pad n (tab ! t)])"
  by (auto simp: pad_row_def array_index_def array_update_def rows_grow_def nth_list_update length_pad)

lemma table_update_total:
  "t < length tab \<Longrightarrow> j < length (tab ! t) \<Longrightarrow> table_update tab t j f = Inr (tab[t := (tab ! t)[j := f (tab ! t ! j)]])"
  by (simp add: table_update_def array_index_def array_update_def)

lemma scan_row_total: "t < length tab \<Longrightarrow> \<exists>row tab'. scan_row tab work t = Inr (row, tab') \<and> rows_grow tab tab'"
  using pad_row_total [of t tab "length work"] by (auto simp: scan_row_def)

definition detect_fits :: "usize list list \<Rightarrow> usize list list \<Rightarrow> nat \<Rightarrow> detection \<Rightarrow> bool" where
  "detect_fits N A n = (\<lambda>(need, allocation, work, finish, found).
     rows_grow N need \<and> rows_grow A allocation \<and> n \<le> length N \<and> n \<le> length A \<and> length finish = n)"

lemma detect_one_total:
  assumes "detect_fits N A n d" "t < n"
  shows "\<exists>d'. semaphore_detect_one t d = Inr d' \<and> detect_fits N A n d'"
proof -
  obtain need allocation work finish found where d: "d = (need, allocation, work, finish, found)" by (cases d)
  have l: "rows_grow N need" "rows_grow A allocation" "n \<le> length N" "n \<le> length A" "t < length need" "t < length allocation" "length finish = n"
    using assms by (auto simp: d detect_fits_def rows_grow_def)
  obtain row need' where r: "scan_row need work t = Inr (row, need')" "rows_grow need need'" using scan_row_total [OF l(5)] by blast
  obtain row' allocation' where a: "scan_row allocation work t = Inr (row', allocation')" "rows_grow allocation allocation'"
    using scan_row_total [OF l(6)] by blast
  have "rows_grow N need'" "rows_grow A allocation'" using l r a rows_grow_trans by blast+
  then show ?thesis using l assms(2) by (simp add: d semaphore_detect_one_def r(1) a(1) detect_fits_def Let_def array_index_def) auto
qed

lemma detect_all_total:
  "detect_fits N A n d \<Longrightarrow> set ts \<subseteq> {..<n} \<Longrightarrow> \<exists>d'. for_each semaphore_detect_one ts d = Inr d' \<and> detect_fits N A n d'"
proof (induction ts arbitrary: d)
  case (Cons t ts)
  then obtain d1 where "semaphore_detect_one t d = Inr d1" "detect_fits N A n d1" using detect_one_total [of N A n d t] by auto
  then show ?case using Cons by simp
qed simp

lemma detect_loop_total:
  "detect_fits N A n d \<Longrightarrow> \<exists>dead need allocation. semaphore_detect_loop n d = Inr (dead, need, allocation) \<and> rows_grow N need \<and> rows_grow A allocation"
proof (induction n d rule: semaphore_detect_loop.induct)
  case (1 n need allocation work finish found)
  have "detect_fits N A n (need, allocation, work, finish, False)" using 1(2) by (simp add: detect_fits_def)
  from detect_all_total [OF this, of "[0..<n]"] obtain d where
    d: "semaphore_detect_round n (need, allocation, work, finish, found) = Inr d" "detect_fits N A n d"
    by (auto simp: semaphore_detect_round_def atLeast0LessThan)
  obtain need' allocation' work' finish' found' where d': "d = (need', allocation', work', finish', found')" by (cases d)
  show ?case
  proof (cases found')
    case True
    then show ?thesis using 1(1) [OF d(1) d' [symmetric] refl refl refl] d(2) by (simp add: semaphore_detect_loop.simps d(1) d')
  next
    case False
    then show ?thesis using d by (simp add: semaphore_detect_loop.simps d' detect_fits_def)
  qed
qed

lemma semaphore_detect_total:
  assumes "sem_tables_ok i"
  shows "\<exists>dead need allocation. semaphore_detect i = Inr (dead, i\<lparr>pi_semaphore_need := need, pi_semaphore_allocation := allocation\<rparr>) \<and>
    rows_grow (pi_semaphore_need i) need \<and> rows_grow (pi_semaphore_allocation i) allocation"
proof -
  have "detect_fits (pi_semaphore_need i) (pi_semaphore_allocation i) (length (pi_tasks i)) (pi_semaphore_need i, pi_semaphore_allocation i,
      pi_semaphore_available i, replicate (length (pi_tasks i)) False, False)"
    using assms by (simp add: detect_fits_def sem_tables_ok_def)
  from detect_loop_total [OF this] obtain dead need allocation where
    "semaphore_detect_loop (length (pi_tasks i)) (pi_semaphore_need i, pi_semaphore_allocation i,
      pi_semaphore_available i, replicate (length (pi_tasks i)) False, False) = Inr (dead, need, allocation)"
    "rows_grow (pi_semaphore_need i) need" "rows_grow (pi_semaphore_allocation i) allocation" by blast
  then show ?thesis by (intro exI [of _ dead] exI [of _ need] exI [of _ allocation]) (simp add: semaphore_detect_def)
qed

lemma lock_mutex_total:
  assumes "the_mutex m i = Inr mu" "sc_current s = Some t" "pi_mutex_list i' = pi_mutex_list i"
  shows "\<exists>r. lock_mutex m i' s = Inr r"
proof -
  have "the_mutex m i' = Inr mu" using assms(1,3) by (simp add: the_mutex_def)
  then show ?thesis using assms(2)
    by (cases mu) (auto simp: lock_mutex_def MutexSpin_lock_def MutexBlocking_lock_def current_task_def block_current_and_run_next_def
        suspend_current_and_run_next_def take_current_task_def Let_def)
qed

lemma mutex_lock_total:
  assumes "tables_typed i" "unat cur < length (pi_tasks i)" "the_mutex m i = Inr mu" "sc_current s = Some t"
  shows "\<exists>r. sys_mutex_lock m cur i s = Inr r"
proof -
  have ok: "mutex_tables_ok i" and n: "length (pi_tasks i) \<le> length (pi_mutex_need i)" using assms(1) by (simp_all add: tables_defs)
  have avail: "unat m < length (pi_mutex_available i)" using assms(3) ok by (auto simp: the_mutex_def mutex_tables_ok_def panic_simps)
  obtain q where q: "for_each (note_need m cur) [0..<length (pi_tasks i)] i = Inr q" "mutex_tables_ok q"
    "q = i\<lparr>pi_mutex_need := pi_mutex_need q, pi_mutex_allocation := pi_mutex_allocation q\<rparr>" "length (pi_mutex_need q) = length (pi_mutex_need i)"
    "\<forall>t < length (pi_tasks i). unat m < length (pi_mutex_need q ! t)"
    using note_all [OF ok n, of m cur] by (elim exE conjE) (rule that, assumption+, blast)
  have same: "pi_tasks q = pi_tasks i" "pi_mutex_available q = pi_mutex_available i" "pi_mutex_list q = pi_mutex_list i" by (subst q(3), simp)+
  have cur: "unat cur < length (pi_mutex_need q)" using assms(2) n q(4) by simp
  note rows = mutex_tables_rows [OF q(2) cur]
  obtain dead where dead: "(if pi_deadlock_detect q then mutex_detect m q else Inr False) = Inr dead"
  proof (cases "pi_deadlock_detect q")
    case True
    have "\<exists>b. mutex_detect m q = Inr b" by (intro exI, rule mutex_detect_iff [OF q(2)]) (use avail q(5) same in simp_all)
    then show ?thesis using that True by auto
  next
    case False
    then show ?thesis using that [of False] by simp
  qed
  have m: "unat m < length (pi_mutex_need q ! unat cur)" using q(5) assms(2) by simp
  obtain A where A: "table_update (pi_mutex_allocation q) (unat cur) (unat m) (\<lambda>v. v + 1) = Inr A" using table_update_total [OF rows(1)] rows(2) m by simp
  obtain N where N: "table_update (pi_mutex_need q) (unat cur) (unat m) (\<lambda>v. v - 1) = Inr N" using table_update_total cur m by blast
  obtain a where a: "vec_index (pi_mutex_available q) m = Inr a" using avail same(2) by simp
  obtain a' where a': "vec_update (pi_mutex_available q) m (a - 1) = Inr a'" using avail same(2) by simp
  obtain r where r: "lock_mutex m (q\<lparr>pi_mutex_available := a', pi_mutex_allocation := A, pi_mutex_need := N\<rparr>) s = Inr r"
    using lock_mutex_total [OF assms(3,4), of "q\<lparr>pi_mutex_available := a', pi_mutex_allocation := A, pi_mutex_need := N\<rparr>"] same(3) by auto
  have "sys_mutex_lock m cur i s = (if dead then Inr (Some DEADLOCK, q, s) else Inr r)"
    unfolding sys_mutex_lock_def by (simp only: assms(3) q(1) dead a a' A N r and_then_Inr)
  then show ?thesis by (cases dead) (simp_all only: if_True if_False, blast+)
qed

lemma down_semaphore_total:
  assumes "the_semaphore m i = Inr sem" "sc_current s = Some t" "pi_semaphore_list i' = pi_semaphore_list i"
  shows "\<exists>r. down_semaphore m i' s = Inr r"
proof -
  have "the_semaphore m i' = Inr sem" using assms(1,3) by (simp add: the_semaphore_def)
  then show ?thesis using assms(2)
    by (auto simp: down_semaphore_def Semaphore_down_def current_task_def block_current_and_run_next_def take_current_task_def Let_def)
qed

lemma take_unit_total:
  assumes "unat m < length (pi_semaphore_available i)" "unat cur < length (pi_semaphore_allocation i)" "unat cur < length (pi_semaphore_need i)"
    "unat m < length (pi_semaphore_need i ! unat cur)"
  shows "\<exists>i'. take_unit m cur i = Inr i' \<and> pi_semaphore_list i' = pi_semaphore_list i"
  using assms pad_row_total [OF assms(2), of "unat m + 1"] by (simp add: take_unit_def table_update_total length_pad)

lemma semaphore_down_total:
  assumes "tables_typed i" "unat cur < length (pi_tasks i)" "the_semaphore m i = Inr sem" "sc_current s = Some t"
  shows "\<exists>r. sys_semaphore_down m cur i s = Inr r"
proof -
  have ok: "sem_tables_ok i" and avail: "unat m < length (pi_semaphore_available i)"
    using assms(1,3) by (auto simp: tables_defs the_semaphore_def panic_simps)
  have cur: "unat cur < length (pi_semaphore_need i)" "unat cur < length (pi_semaphore_allocation i)" using ok assms(2) by (simp_all add: sem_tables_ok_def)
  let ?q = "requesting m cur i"
  obtain need where need: "pad_row (unat m + 1) (pi_semaphore_need i) (unat cur) = Inr need"
    "table_update need (unat cur) (unat m) (\<lambda>v. v + 1) = Inr (pi_semaphore_need ?q)" using request_need [OF cur(1)] by blast
  have q: "?q = i\<lparr>pi_semaphore_need := pi_semaphore_need ?q\<rparr>" "sem_tables_ok ?q" "unat m < length (pi_semaphore_need ?q ! unat cur)"
    "length (pi_semaphore_need ?q) = length (pi_semaphore_need i)"
    using ok cur by (simp_all add: requesting_def Let_def sem_tables_ok_def length_pad)
  obtain dead N A where d: "(if pi_deadlock_detect ?q then semaphore_detect ?q else Inr (False, ?q)) =
      Inr (dead, ?q\<lparr>pi_semaphore_need := N, pi_semaphore_allocation := A\<rparr>)"
    "rows_grow (pi_semaphore_need ?q) N" "rows_grow (pi_semaphore_allocation ?q) A"
  proof (cases "pi_deadlock_detect ?q")
    case True
    then show ?thesis using semaphore_detect_total [OF q(2)] that by (simp only: if_True) blast
  next
    case False
    then show ?thesis using that [of False "pi_semaphore_allocation ?q" "pi_semaphore_need ?q"] by simp
  qed
  let ?p = "?q\<lparr>pi_semaphore_need := N, pi_semaphore_allocation := A\<rparr>"
  have "pi_semaphore_allocation ?q = pi_semaphore_allocation i" "pi_semaphore_available ?q = pi_semaphore_available i"
    "pi_semaphore_list ?q = pi_semaphore_list i" by (subst q(1), simp)+
  then obtain p' where p': "take_unit m cur ?p = Inr p'" "pi_semaphore_list p' = pi_semaphore_list i"
    using take_unit_total [of m ?p cur] avail cur q(3,4) d(2,3) by (force simp: rows_grow_def)
  obtain r where r: "down_semaphore m p' s = Inr r" using down_semaphore_total [OF assms(3,4) p'(2)] by blast
  have "sys_semaphore_down m cur i s = (if dead then Inr (Some DEADLOCK, ?p, s) else Inr r)"
    unfolding sys_semaphore_down_def Let_def using need d(1) p'(1) r
    by (simp only: assms(3) and_then_Inr q(1) [symmetric] prod.case)
  then show ?thesis by (cases dead) (simp_all only: if_True if_False, blast+)
qed

lemma semaphore_up_total:
  assumes "tables_typed i" "unat cur < length (pi_tasks i)" "the_semaphore m i = Inr sem"
  shows "\<exists>r. sys_semaphore_up m cur i s = Inr r"
proof -
  have avail: "unat m < length (pi_semaphore_available i)" and cur: "unat cur < length (pi_semaphore_allocation i)"
    using assms by (auto simp: tables_defs the_semaphore_def panic_simps)
  then show ?thesis
    using pad_row_total [OF cur, of "unat m + 1"] by (simp add: sys_semaphore_up_def assms(3) table_update_total length_pad split_beta)
qed

text \<open>
  C16. In a process whose tables have the right shape, a thread of it that locks one of its mutexes, or takes or returns a unit of
  one of its semaphores, never panics the kernel, with detection on or off; each call returns a value or gives up the
  processor, and the tables keep their shape. (Unlocking is not among them: a thread that unlocks what it has not locked can panic the
  kernel, which \<open>sys_mutex_unlock\<close> does not check.)
\<close>

theorem sync_calls_do_not_panic:
  assumes "tables_typed i" "unat cur < length (pi_tasks i)" "sc_current s = Some t"
  shows "(the_mutex m i = Inr mu \<longrightarrow> (\<exists>r i' s'. sys_mutex_lock m cur i s = Inr (r, i', s') \<and> tables_typed i')) \<and>
    (the_semaphore m i = Inr sem \<longrightarrow> (\<exists>r i' s'. sys_semaphore_down m cur i s = Inr (r, i', s') \<and> tables_typed i') \<and>
      (\<exists>r i' s'. sys_semaphore_up m cur i s = Inr (r, i', s') \<and> tables_typed i'))"
proof -
  have l: "\<exists>r i' s'. sys_mutex_lock m cur i s = Inr (r, i', s') \<and> tables_typed i'" if "the_mutex m i = Inr mu"
    using mutex_lock_total [OF assms(1,2) that assms(3)] typed_mutex_lock [OF assms(1), of m cur s] by (auto simp: holds_def)
  have d: "\<exists>r i' s'. sys_semaphore_down m cur i s = Inr (r, i', s') \<and> tables_typed i'" if "the_semaphore m i = Inr sem"
    using semaphore_down_total [OF assms(1,2) that assms(3)] typed_semaphore_down [OF assms(1), of m cur s] by (auto simp: holds_def)
  have u: "\<exists>r i' s'. sys_semaphore_up m cur i s = Inr (r, i', s') \<and> tables_typed i'" if "the_semaphore m i = Inr sem"
    using semaphore_up_total [OF assms(1,2) that, of s] typed_semaphore_up [OF assms(1), of m cur s] by (auto simp: holds_def)
  show ?thesis using l d u by blast
qed

definition with_locks :: ProcessControlBlockInner where
  "with_locks = (small_inner None [] 1)\<lparr>pi_mutex_list := [Some (Blocking MutexBlocking_new)], pi_mutex_available := [1],
     pi_semaphore_list := [Some (Semaphore_new 0)], pi_semaphore_available := [0]\<rparr>"

theorem sync_calls_do_not_panic_witness:
  "(\<exists>r i' s'. sys_mutex_lock 0 0 with_locks (k_sched small_kernel) = Inr (r, i', s') \<and> tables_typed i') \<and>
   (\<exists>r i' s'. sys_semaphore_down 0 0 with_locks (k_sched small_kernel) = Inr (r, i', s') \<and> tables_typed i') \<and>
   (\<exists>r i' s'. sys_semaphore_up 0 0 with_locks (k_sched small_kernel) = Inr (r, i', s') \<and> tables_typed i')"
proof -
  have "tables_typed with_locks" "unat (0 :: usize) < length (pi_tasks with_locks)" "the_mutex 0 with_locks = Inr (Blocking MutexBlocking_new)"
    "the_semaphore 0 with_locks = Inr (Semaphore_new 0)"
    by (simp_all add: with_locks_def small_inner_def tables_defs ProcessControlBlockInner_new_def the_mutex_def the_semaphore_def)
  then show ?thesis using sync_calls_do_not_panic [of with_locks 0, OF _ _ small_facts(1)] by blast
qed

end
