(* ===== verification/Trap_Properties.thy ===== *)
theory Trap_Properties
  imports Kernel_Types
begin

unbundle bit_operations_syntax

text \<open>
  What a trap does to the program that caused it (\<^verbatim>\<open>os/src/trap/mod.rs\<close>): the arguments and the result of a system call go
  through the saved registers, and a fault ends the thread with the number of the signal.
\<close>

section \<open>The saved registers\<close>

lemma read_cx_register: "i < 32 \<Longrightarrow> read_u64 m (a + cx_x_at i) = cx_x (read_cx m a) ! i"
  by (simp add: read_cx_def cx_of_words_def words_at_def cx_x_at_def)

lemma read_cx_sepc: "read_u64 m (a + cx_sepc_at) = cx_sepc (read_cx m a)"
  by (simp add: read_cx_def cx_of_words_def words_at_def cx_sepc_at_def)

lemma set_phys_current [simp]:
  "current_tcb (set_phys m k) = current_tcb k" "current_process (set_phys m k) = current_process k"
  "the_inner p (set_phys m k) = the_inner p k" "current_trap_cx (set_phys m k) = current_trap_cx k"
  "current_trap_cx_user_va (set_phys m k) = current_trap_cx_user_va k" "current_user_token (set_phys m k) = current_user_token k"
  "check_signals_of_current (set_phys m k) = check_signals_of_current k"
  by (simp_all add: set_phys_def current_tcb_def the_tcb_def current_process_def the_inner_def current_trap_cx_def
      current_trap_cx_user_va_def current_user_token_def TaskControlBlock_get_user_token_def check_signals_of_current_def)

lemma set_phys_twice [simp]: "set_phys m (set_phys m' k) = set_phys m k"
  by (simp add: set_phys_def)

definition resumed_after :: "mem \<Rightarrow> usize \<Rightarrow> mem" where
  "resumed_after m a = write_u64 m (a + cx_sepc_at) (cx_sepc (read_cx m a) + 4)"

lemma read_cx_resumed: "read_cx (resumed_after m a) a = (read_cx m a)\<lparr>cx_sepc := cx_sepc (read_cx m a) + 4\<rparr>"
  by (simp add: resumed_after_def read_cx_set_sepc)

text \<open>
  A system call gets its number from \<open>a7\<close> and its arguments from \<open>a0\<close> to \<open>a3\<close> of the saved registers, with the saved program
  counter already behind the instruction; when it returns \<open>r\<close> and no signal is pending, the handler goes back to user
  mode with \<open>r\<close> in \<open>a0\<close> and every other saved register as the call left it.
\<close>

lemma syscall_answers_in_a0:
  assumes "current_trap_cx k = Inr a" "read_cx (phys (k_mm k)) a = cx"
    "syscall ev inp (cx_x cx ! 17) [cx_x cx ! 10, cx_x cx ! 11, cx_x cx ! 12, cx_x cx ! 13] (set_phys (resumed_after (phys (k_mm k)) a) k) =
      Some (Inr (Some r, k1))"
    "current_trap_cx k1 = Inr a1" "check_signals_of_current k1 = Inr None" "current_trap_cx_user_va k1 = Inr va" "current_user_token k1 = Inr token"
  shows "\<exists>m. trap_handler ev inp UserEnvCall k = Some (Inr (ToUser va token (set_phys m k1))) \<and>
    read_cx (resumed_after (phys (k_mm k)) a) a = cx\<lparr>cx_sepc := cx_sepc cx + 4\<rparr> \<and>
    read_cx m a1 = (read_cx (phys (k_mm k1)) a1)\<lparr>cx_x := (cx_x (read_cx (phys (k_mm k1)) a1))[10 := r]\<rparr>"
proof -
  let ?m = "write_u64 (phys (k_mm k1)) (a1 + cx_x_at 10) r"
  have x: "read_u64 (resumed_after (phys (k_mm k)) a) (a + cx_x_at i) = cx_x cx ! i" if "i < 32" for i
    using read_cx_register [OF that, of "resumed_after (phys (k_mm k)) a" a] assms(2) by (simp add: read_cx_resumed)
  have "trap_handler ev inp UserEnvCall k = Some (end_syscall (Some r, k1))"
    using assms(3) x by (simp add: trap_handler_def assms(1) Let_def read_cx_sepc flip: resumed_after_def)
  also have "end_syscall (Some r, k1) = Inr (ToUser va token (set_phys ?m k1))"
    using assms(4-7) by (simp add: end_syscall_def finish_syscall_def finish_trap_def trap_return_def)
  finally show ?thesis using assms(2) by (intro exI [of _ ?m]) (simp add: read_cx_resumed read_cx_set_x)
qed

definition asks_for_pid :: mem where
  "asks_for_pid = write_u64 (\<lambda>_. 0) (0x80500000 + cx_x_at 17) SYSCALL_GETPID"

lemma length_cx_x [simp]: "length (cx_x (read_cx m a)) = 32"
  by (simp add: read_cx_def cx_of_words_def)

lemma asks_for_pid_register: "cx_x (read_cx asks_for_pid 0x80500000) ! 17 = SYSCALL_GETPID"
  unfolding asks_for_pid_def by (subst read_cx_set_x) simp_all

lemma small_current:
  "current_trap_cx small_kernel = Inr 0x80500000" "check_signals_of_current small_kernel = Inr None"
  "current_trap_cx_user_va small_kernel = Inr (TaskUserRes_trap_cx_user_va \<lparr>ur_tid = 0, ur_ustack_base = 0x10000, ur_process = 1\<rparr>)"
  "current_user_token small_kernel = Inr (MemorySet_token empty_space)" "sys_getpid (set_phys m small_kernel) = Inr 1"
proof -
  show "current_trap_cx small_kernel = Inr 0x80500000"
    by (simp add: current_trap_cx_def current_tcb_def current_task_def the_tcb_def small_kernel_def get_trap_cx_def small_task_def
        PhysAddr_get_mut_def PhysAddr_from_PhysPageNum_def PAGE_SIZE_BITS_def)
qed (simp_all add: current_tcb_def current_task_def the_tcb_def small_kernel_def small_task_def set_phys_def check_signals_of_current_def current_process_def
      the_inner_def current_trap_cx_user_va_def current_user_token_def TaskControlBlock_get_user_token_def sys_getpid_def getpid_def the_pid_def
      small_inner_def ProcessControlBlockInner_new_def check_error_bits)

lemma syscall_answers_in_a0_example:
  "\<exists>va token m. trap_handler small_env no_inputs UserEnvCall (set_phys asks_for_pid small_kernel) =
      Some (Inr (ToUser va token (set_phys m small_kernel))) \<and> cx_x (read_cx m 0x80500000) ! 10 = 1"
proof -
  let ?k = "set_phys asks_for_pid small_kernel" and ?a = "0x80500000 :: usize"
  let ?k1 = "set_phys (resumed_after asks_for_pid ?a) ?k"
  let ?va = "TaskUserRes_trap_cx_user_va \<lparr>ur_tid = 0, ur_ustack_base = 0x10000, ur_process = 1\<rparr>"
  have "syscall ev inp SYSCALL_GETPID args ?k1 = Some (Inr (Some 1, ?k1))" for ev inp args
    by (simp add: syscall_def syscall_numbers returns_def small_current Let_def)
  then have "\<exists>m. trap_handler small_env no_inputs UserEnvCall ?k = Some (Inr (ToUser ?va (MemorySet_token empty_space) (set_phys m ?k1))) \<and>
      read_cx (resumed_after (phys (k_mm ?k)) ?a) ?a =
        (read_cx asks_for_pid ?a)\<lparr>cx_sepc := cx_sepc (read_cx asks_for_pid ?a) + 4\<rparr> \<and>
      read_cx m ?a = (read_cx (phys (k_mm ?k1)) ?a)\<lparr>cx_x := (cx_x (read_cx (phys (k_mm ?k1)) ?a))[10 := 1]\<rparr>"
    by (intro syscall_answers_in_a0) (simp_all add: small_current asks_for_pid_register [simplified])
  then obtain m where "trap_handler small_env no_inputs UserEnvCall ?k = Some (Inr (ToUser ?va (MemorySet_token empty_space) (set_phys m ?k1)))"
    "read_cx m ?a = (read_cx (phys (k_mm ?k1)) ?a)\<lparr>cx_x := (cx_x (read_cx (phys (k_mm ?k1)) ?a))[10 := 1]\<rparr>" by blast
  then show ?thesis by (intro exI [of _ ?va] exI [of _ "MemorySet_token empty_space"] exI [of _ m]) simp
qed

section \<open>Faults\<close>

definition signal_numbers :: "nat list" where
  "signal_numbers = [2, 4, 6, 8, 11]"

definition fault_signal :: "Trap \<Rightarrow> nat option" where
  "fault_signal cause =
     (if cause \<in> {StoreFault, StorePageFault, InstructionFault, InstructionPageFault, LoadFault, LoadPageFault} then Some 11
      else if cause = IllegalInstruction then Some 4 else None)"

lemma set_inner_current:
  assumes "current_process k = Inr p" "the_inner p k = Inr i"
  shows "current_process (set_inner p j k) = Inr p" "the_inner p (set_inner p j k) = Inr j"
proof -
  obtain t b c where "current_task (k_sched k) = Inr t" "k_tasks k t = Some b" "tcb_process b = p" "k_procs k p = Some c"
    using assms by (auto simp: current_process_def current_tcb_def the_tcb_def panic_simps)
  then show "current_process (set_inner p j k) = Inr p" "the_inner p (set_inner p j k) = Inr j"
    by (simp_all add: current_process_def current_tcb_def the_tcb_def the_inner_def)
qed

lemma check_error_find: "find (bit flags) signal_numbers = Some m \<Longrightarrow> \<exists>msg. check_error flags = Some (- of_nat m, msg)"
  by (auto simp: signal_numbers_def check_error_bits split: if_splits)

lemma check_error_first:
  assumes "n \<in> set signal_numbers" "bit flags n"
  shows "\<exists>m msg. m \<in> set signal_numbers \<and> bit flags m \<and> (\<forall>j \<in> set signal_numbers. bit flags j \<longrightarrow> m \<le> j) \<and>
    check_error flags = Some (- of_nat m, msg)"
proof -
  obtain m where f: "find (bit flags) signal_numbers = Some m" using assms by (cases "find (bit flags) signal_numbers") (auto simp: find_None_iff)
  then obtain x where x: "x < length signal_numbers" "bit flags m" "m = signal_numbers ! x" "\<forall>y < x. \<not> bit flags (signal_numbers ! y)"
    by (auto simp: find_Some_iff)
  have "m \<le> j" if "j \<in> set signal_numbers" "bit flags j" for j
  proof -
    note j = that
    obtain y where y: "y < length signal_numbers" "j = signal_numbers ! y" using j(1) unfolding in_set_conv_nth by blast
    then have "x \<le> y" using x(4) j(2) by (meson not_le)
    moreover have "sorted signal_numbers" by (simp add: signal_numbers_def)
    ultimately show ?thesis using x(3) y by (simp add: sorted_nth_mono)
  qed
  then show ?thesis using check_error_find [OF f] x by (intro exI [of _ m]) (auto simp: nth_mem)
qed

text \<open>
  C31. A program that touches memory it may not, or executes an illegal instruction, does not run on: the handler notes the
  signal and ends the thread. The exit code is minus the smallest number of a signal pending for the process, the one of the fault
  included, so it is never a code of success.
\<close>

theorem fault_ends_the_thread:
  assumes "fault_signal cause = Some n" "current_process k = Inr p" "the_inner p k = Inr i"
  shows "\<exists>m. m \<in> set signal_numbers \<and> m \<le> n \<and>
    (\<forall>j \<in> set signal_numbers. bit (pi_signals i) j \<longrightarrow> m \<le> j) \<and> (m = n \<or> bit (pi_signals i) m) \<and>
    trap_handler ev inp cause k =
      Some (and_then (exit_current_and_run_next (- of_nat m) (set_inner p (i\<lparr>pi_signals := pi_signals i OR push_bit n 1\<rparr>) k)) (\<lambda>k. Inr (to_idle k)))"
proof -
  let ?flags = "pi_signals i OR push_bit n 1"
  let ?k = "set_inner p (i\<lparr>pi_signals := ?flags\<rparr>) k"
  have n: "n \<in> set signal_numbers" "n < 32" using assms(1) by (auto simp: fault_signal_def signal_numbers_def split: if_splits)
  then have bit: "bit ?flags j \<longleftrightarrow> bit (pi_signals i) j \<or> j = n" for j by (auto simp: bit_or_iff bit_exp_iff)
  obtain m msg where m: "m \<in> set signal_numbers" "bit ?flags m" "\<forall>j \<in> set signal_numbers. bit ?flags j \<longrightarrow> m \<le> j"
    "check_error ?flags = Some (- of_nat m, msg)"
    using check_error_first [OF n(1), of ?flags] bit by blast
  have "trap_handler ev inp cause k = Some (finish_trap ?k)"
    using assms(1) by (auto simp: fault_signal_def trap_handler_def current_add_signal_def assms(2,3) signal_bits split: if_splits)
  also have "check_signals_of_current ?k = Inr (Some (- of_nat m, msg))"
    using m(4) by (simp add: check_signals_of_current_def set_inner_current [OF assms(2,3)])
  then have "finish_trap ?k = and_then (exit_current_and_run_next (- of_nat m) ?k) (\<lambda>k. Inr (to_idle k))"
    by (simp add: finish_trap_def)
  finally show ?thesis using m(1-3) n(1) bit by (intro exI [of _ m]) auto
qed

theorem fault_ends_the_thread_witness:
  "\<exists>k'. trap_handler small_env no_inputs StorePageFault small_kernel =
     Some (and_then (exit_current_and_run_next (- 11) k') (\<lambda>k. Inr (to_idle k)))"
proof -
  have "fault_signal StorePageFault = Some 11" by (simp add: fault_signal_def)
  from fault_ends_the_thread [OF this wait_facts(10,11), of small_env no_inputs]
  show ?thesis by (auto simp: small_inner_def ProcessControlBlockInner_new_def)
qed

end
