(* ===== verification/Spec2Isabelle.thy ===== *)
theory Spec2Isabelle
  imports Id_Allocator Memory_Set Pipe Virtio Directory Trap_Properties
begin

text \<open>
  A verification of the teaching kernel in \<^verbatim>\<open>src/os\<close> and of its file system in \<^verbatim>\<open>src/easy-fs\<close>. Paths below are
  relative to \<^verbatim>\<open>src\<close>.

  \<^bold>\<open>The program.\<close> The kernel runs on one RISC-V core with SV39 paging. It manages physical frames and address spaces
  (\<^verbatim>\<open>os/src/mm\<close>), processes with threads, signals and a first-in first-out scheduler (\<^verbatim>\<open>os/src/task\<close>), mutexes, semaphores and
  condition variables with a deadlock check (\<^verbatim>\<open>os/src/sync\<close>, \<^verbatim>\<open>os/src/syscall/sync.rs\<close>), timers (\<^verbatim>\<open>os/src/timer.rs\<close>), pipes,
  the console and files (\<^verbatim>\<open>os/src/fs\<close>). Programs reach it through traps (\<^verbatim>\<open>os/src/trap\<close>) and system calls (\<^verbatim>\<open>os/src/syscall\<close>).
  Files live in easy-fs, a block file system with bitmaps, inodes with two levels of indirection and one directory, over a cache of
  sixteen blocks (\<^verbatim>\<open>easy-fs/src\<close>).

  \<^bold>\<open>How code is modelled.\<close> A Rust function \<open>Type::method\<close> is a definition \<open>Type_method\<close>, a structure a record, an enumeration a
  datatype. \<open>usize\<close>, \<open>isize\<close> and \<open>u64\<close> are words of 64 bits, \<open>u32\<close>, \<open>i32\<close> and \<open>u8\<close> words of their width, and arithmetic wraps around as
  in a release build. A panic, be it an assertion, an index out of bounds or an \<open>unwrap\<close> of \<open>None\<close>, is a value \<open>Inl\<close> of the type
  \<open>outcome\<close>. Global and shared state is passed and returned; what is shared through \<open>Arc\<close> is known by an id and looked up in the state. The
  kernel is not preempted while it runs, so a function is one step up to the point where it gives up the processor: a call that
  has to wait ends its step there, notes in \<open>k_pending\<close> what is to be done when its task runs again, and that is a step of its own.
  \<open>Arc::strong_count\<close> is computed from the state (\<open>process_refs\<close>, \<open>task_refs\<close>), and \<open>release\<close> does what dropping the last reference
  does. Loops are recursive functions with a termination proof; those whose end depends on memory or on a program's input
  (\<open>translated_byte_buffer\<close>, \<open>translated_str\<close>, the arguments of \<open>exec\<close>, \<open>read_all\<close>, the turns of a pipe) are partial functions into \<open>option\<close>, and \<open>None\<close> is not ending.

  \<^bold>\<open>The theories\<close>, in the order of their imports.

  \<^item> \<open>Prelude\<close>: panics and their sequencing, vectors and array accesses, loops over lists, the collections \<open>panic_simps\<close>, \<open>vec_simps\<close> and
    \<open>address_simps\<close>. \<open>Ordered_Map\<close>: \<open>BTreeMap\<close> as an association list and \<open>VecDeque\<close>. \<open>Byte_Order\<close>: numbers in little-endian bytes.
  \<^item> \<open>Id_Allocator\<close> (\<^verbatim>\<open>os/src/task/id.rs\<close>): the recycling allocator of ids and the contract \<open>id_allocator\<close> it shares with the frame allocator;
    ids in use are never handed out again.
  \<^item> \<open>Address\<close>, \<open>Phys_Mem\<close> (\<^verbatim>\<open>os/src/mm/address.rs\<close>): address types, conversions, page ranges; physical memory as a function from
    addresses to bytes, read and written in bytes, words and pages.
  \<^item> \<open>Frame_Allocator\<close> (\<^verbatim>\<open>os/src/mm/frame_allocator.rs\<close>): every run of allocations and drops, past exhaustion too, keeps the frames of live
    trackers apart and inside memory; a new frame is fresh and cleared.
  \<^item> \<open>Page_Table\<close> (\<^verbatim>\<open>os/src/mm/page_table.rs\<close>): the three-level table in memory refines a finite map. \<open>User_Memory\<close>: buffers and strings of
    programs are read at the right places.
  \<^item> \<open>Memory_Set\<close> (\<^verbatim>\<open>os/src/mm/memory_set.rs\<close>): segments and address spaces, their invariant \<open>ms_ok\<close> and what a process sees on a page
    (\<open>page_view\<close>); mapping, unmapping and the copy for \<open>fork\<close>, the kernel's own space, loading an ELF file.
  \<^item> \<open>Ring_Buffer\<close>, \<open>Pipe\<close> (\<^verbatim>\<open>os/src/fs/pipe.rs\<close>): the ring meets the contract \<open>bounded_fifo\<close>; pipes are first-in first-out under every
    interleaving of the turns of readers and writers.
  \<^item> \<open>Block_Store\<close>, \<open>Block_Cache\<close> (\<^verbatim>\<open>easy-fs/src/block_dev.rs\<close>, \<^verbatim>\<open>block_cache.rs\<close>): what a device promises (\<open>block_device\<close>), what a client of the
    cache relies on (\<open>block_store\<close>), and that the cache gives the one from the other, with eviction and write-back; the file of the
    image packer (\<^verbatim>\<open>easy-fs-fuse\<close>) is such a device. \<open>sound_view\<close> is the contract of a structure read from and written to a block.
  \<^item> \<open>Bitmap\<close>, \<open>Layout\<close>, \<open>Disk_Inode\<close>, \<open>Efs\<close>, \<open>Vfs\<close>, \<open>Directory\<close> (\<^verbatim>\<open>easy-fs/src\<close>): allocation of the least clear bit, the structures on disk, the block
    tree of an inode with reading, writing, growing and clearing, formatting and opening, the virtual file system and look-up in the directory. They are
    proved once over \<open>block_store\<close>; the properties are about the cache over any device that keeps the promise.
  \<^item> \<open>Task_Manager\<close>, \<open>Sync\<close> (\<^verbatim>\<open>os/src/task/manager.rs\<close>, \<^verbatim>\<open>processor.rs\<close>, \<^verbatim>\<open>os/src/sync\<close>): the scheduler and the synchronisation objects as step
    relations with invariants. \<open>Binary_Heap\<close>, \<open>Timer\<close>: the standard heap, its contract \<open>priority_queue\<close>, and the timers.
  \<^item> \<open>Process_Block\<close>, \<open>Task_Ids\<close>, \<open>Syscall_Sync\<close>, \<open>Deadlock\<close> (\<^verbatim>\<open>os/src/task/process.rs\<close>, \<^verbatim>\<open>signal.rs\<close>, \<^verbatim>\<open>id.rs\<close>, \<^verbatim>\<open>os/src/syscall/sync.rs\<close>): the control
    block, the resources of threads, the synchronisation calls, and what the two deadlock checks decide: the one for semaphores
    is exact while its books are in order and refuses free units when they are not; the one for mutexes misses crossed locks.
  \<^item> \<open>Kernel_Files\<close>, \<open>Trap_Context\<close>, \<open>Kernel\<close>, \<open>Syscall_Process\<close>, \<open>Syscall_Fs\<close>, \<open>Trap\<close>: open files, saved registers, the whole kernel state with
    creation, fork, exec and exit, the system calls, their dispatch, the trap handler and the idle loop.
  \<^item> \<open>Process_Life\<close>: what exit leaves behind, what \<open>waitpid\<close> answers, and how a blocked thread makes it panic. \<open>Kernel_Types\<close>: a calculus of
    invariants over outcomes, the step relation of the whole machine, an invariant of all its runs, and system calls that
    cannot panic under it. \<open>Trap_Properties\<close>: system calls and faults through the trap handler.
  \<^item> \<open>Virtio\<close> (\<^verbatim>\<open>os/src/drivers/block/virtio_blk.rs\<close>, \<^verbatim>\<open>os/src/boards/qemu.rs\<close>): the memory hooks of the driver and the exit code.

  \<^bold>\<open>Parameters.\<close> Code outside the repository is an argument of the definitions that use it. The block device is a record of two
  operations with the laws of the locale \<open>block_device\<close>: a block read is the block last written. The ELF parser is a function from
  bytes to headers (\<open>ev_parse\<close>), without assumptions. The symbols of the linker and the addresses of assembly routines are numbers, the clock and the
  console input are arguments (\<open>inputs\<close>), so every theorem holds for all of them.

  \<^bold>\<open>Bounds.\<close> Hypotheses on sizes are those under which the code can succeed: enough free frames (three for each page to
  be mapped, two of them for page tables), fewer than fifteen blocks of the cache held by running accesses, files within the reach
  of the block tree, fewer than \<open>2 ^ 64\<close> allocations of ids. No fuel is used.

  \<^bold>\<open>Not modelled.\<close> What the user program computes: between two traps it may change memory in any way (\<open>kernel_step.user\<close>). Assembly
  (\<^verbatim>\<open>trap.S\<close>, \<^verbatim>\<open>switch.S\<close>, \<^verbatim>\<open>entry.asm\<close>) and writes to control registers: the switch of tasks and the entry from user mode are the
  borders of steps, and the translation buffer is not part of memory. Physical memory is a total function: addresses without
  memory behind them are not told apart. The heap of the kernel (\<^verbatim>\<open>os/src/mm/heap_allocator.rs\<close>) is a third-party allocator that does not fail;
  \<open>UPSafeCell\<close> is the passing of state; that a second borrow would panic is not modelled. Firmware calls, logging,
  printing, the panic handler, start-up (\<^verbatim>\<open>os/src/main.rs\<close>), the protocol of the block device and the host side of the image packer
  are input and output. Runs of the scheduler in \<open>Task_Manager\<close> have a fixed set of tasks; creation and exit are in \<open>Kernel\<close>.
  Open files and pipes are never freed from the state; whether the write end of a pipe is still open is computed from the
  tables of open files.
\<close>

end
